(* ===== verification/Prelude.thy ===== *)
theory Prelude
  imports Main "HOL-Library.Word"
begin

text \<open>
  What the components share: byte and size types, the faults a C body can run into, the
  sequencing of fallible steps, the slice and search operations of the C and Nim standard
  libraries that the sources use, and the lemma collections the component proofs draw on.
\<close>

section \<open>Types\<close>

type_synonym byte = "8 word"
type_synonym size_t = "64 word"
type_synonym u64 = "64 word"

text \<open>
  A C body that reads or writes outside an object, or through a null pointer, has no defined
  result. Nim raises a defect in the corresponding places. Both are values here.
\<close>

datatype c_fault = NullDeref | OutOfBounds | SignedOverflow

datatype defect =
  IndexDefect | RangeDefect | OverflowDefect | DivByZeroDefect | AssertionDefect | ResultDefect
  | UnpackDefect | NilAccessDefect

lemma unat_byte_less: "unat (c :: byte) < 256"
proof -
  have "unat c < 2 ^ LENGTH(8)" by (rule unsigned_less)
  then show ?thesis by simp
qed

lemma unat_u64_less: "unat (c :: u64) < 18446744073709551616"
proof -
  have "unat c < 2 ^ LENGTH(64)" by (rule unsigned_less)
  then show ?thesis by simp
qed

lemma unat_byte_of_nat: "n < 256 \<Longrightarrow> unat (word_of_nat n :: byte) = n"
  by (simp add: unat_of_nat)

lemma char_of_byte [simp]: "char_of (unat (of_char c :: byte)) = c"
proof -
  have "unat (of_char c :: byte) = of_char c"
  proof -
    have "(of_char c :: byte) = word_of_nat (of_char c)" by (simp add: of_nat_of_char)
    moreover have "(of_char c :: nat) < 256" by simp
    ultimately show ?thesis by (simp add: unat_byte_of_nat)
  qed
  then show ?thesis by simp
qed

lemma unat_Suc: "unat (w :: u64) + 1 < 2 ^ 64 \<Longrightarrow> unat (w + 1) = unat w + 1"
  by (simp add: unat_word_ariths)

lemma unat_ucast_32: "unat (ucast (w :: 32 word) :: u64) = unat w"
proof -
  have "unat w < 2 ^ 64" using unsigned_less [of w, where 'a = nat] by simp
  then show ?thesis by (simp add: unsigned_ucast_eq take_bit_nat_eq_self)
qed

section \<open>Lemma collections\<close>

named_theorems step_simps \<open>definitions of the operations a component proof unfolds\<close>
named_theorems wf_intros \<open>preservation lemmas of the components' invariants\<close>

section \<open>Sequencing of fallible steps\<close>

text \<open>The source's early return (Nim's question mark operator, C's guarded return).\<close>

definition rbind :: "'e + 'a \<Rightarrow> ('a \<Rightarrow> 'e + 'b) \<Rightarrow> 'e + 'b" where
  "rbind r f = (case r of Inl e \<Rightarrow> Inl e | Inr x \<Rightarrow> f x)"

lemma rbind_Inr [simp]: "rbind (Inr x) f = f x"
  by (simp add: rbind_def)

lemma rbind_Inl [simp]: "rbind (Inl e) f = Inl e"
  by (simp add: rbind_def)

lemma rbind_eq_Inr: "rbind r f = Inr y \<longleftrightarrow> (\<exists>x. r = Inr x \<and> f x = Inr y)"
  by (cases r) auto

lemma rbind_eq_Inl: "rbind r f = Inl e \<longleftrightarrow> r = Inl e \<or> (\<exists>x. r = Inr x \<and> f x = Inl e)"
  by (cases r) auto

section \<open>Lists\<close>

text \<open>Replacing the element at an index that is in range, and a fault where it is not.\<close>

definition put :: "'a list \<Rightarrow> nat \<Rightarrow> 'a \<Rightarrow> c_fault + 'a list" where
  "put xs i x = (if i < length xs then Inr (xs[i := x]) else Inl OutOfBounds)"

lemma put_in_range [simp]: "i < length xs \<Longrightarrow> put xs i x = Inr (xs[i := x])"
  by (simp add: put_def)

lemma put_length: "put xs i x = Inr ys \<Longrightarrow> length ys = length xs"
  by (auto simp: put_def split: if_splits)

text \<open>Nim's \<open>insert(seq, item, i)\<close>.\<close>

definition list_insert_at :: "'a list \<Rightarrow> nat \<Rightarrow> 'a \<Rightarrow> 'a list" where
  "list_insert_at xs i x = take i xs @ x # drop i xs"

lemma length_list_insert_at [simp]: "length (list_insert_at xs i x) = Suc (length xs)"
  by (simp add: list_insert_at_def min_def)

lemma set_list_insert_at [simp]: "set (list_insert_at xs i x) = insert x (set xs)"
proof -
  have "set xs = set (take i xs) \<union> set (drop i xs)"
    by (metis append_take_drop_id set_append)
  then show ?thesis by (auto simp: list_insert_at_def)
qed

lemma mset_list_insert_at_map: "map f (list_insert_at xs i x) = list_insert_at (map f xs) i (f x)"
  by (simp add: list_insert_at_def take_map drop_map)

lemma zip_list_insert_at:
  "length xs = length ys \<Longrightarrow>
    zip (list_insert_at xs i x) (list_insert_at ys i y) = list_insert_at (zip xs ys) i (x, y)"
  by (simp add: list_insert_at_def take_zip drop_zip)

lemma update_after_prefix:
  assumes "length v = n" "n < length b"
  shows "(v @ drop n b)[n := x] = v @ x # drop (Suc n) b"
proof -
  have "drop n b = b ! n # drop (Suc n) b" using assms(2) by (simp add: Cons_nth_drop_Suc)
  with assms(1) show ?thesis by (simp add: list_update_append)
qed

section \<open>C strings: search\<close>

text \<open>
  A C string is the list of its characters without the terminator. \<open>strstr\<close> gives the offset
  of the first occurrence, \<open>strchr\<close> that of the first character equal to its argument.
\<close>

fun starts_with :: "'a list \<Rightarrow> 'a list \<Rightarrow> bool" where
  "starts_with [] ys = True"
| "starts_with (x # xs) [] = False"
| "starts_with (x # xs) (y # ys) = (x = y \<and> starts_with xs ys)"

fun strstr :: "'a list \<Rightarrow> 'a list \<Rightarrow> nat option" where
  "strstr [] pat = (if pat = [] then Some 0 else None)"
| "strstr (c # cs) pat =
     (if starts_with pat (c # cs) then Some 0 else map_option Suc (strstr cs pat))"

fun strchr :: "'a list \<Rightarrow> 'a \<Rightarrow> nat option" where
  "strchr [] c = None"
| "strchr (x # xs) c = (if x = c then Some 0 else map_option Suc (strchr xs c))"

lemma starts_with_iff: "starts_with xs ys \<longleftrightarrow> (\<exists>zs. ys = xs @ zs)"
  by (induction xs ys rule: starts_with.induct) auto

lemma starts_with_append [simp]: "starts_with xs (xs @ ys)"
  by (auto simp: starts_with_iff)

lemma strstr_Some:
  "strstr s pat = Some i \<Longrightarrow> \<exists>post. s = take i s @ pat @ post \<and> i + length pat \<le> length s"
proof (induction s arbitrary: i)
  case Nil
  then show ?case by (auto split: if_splits)
next
  case (Cons c cs)
  show ?case
  proof (cases "starts_with pat (c # cs)")
    case True
    with Cons.prems have "i = 0" by simp
    moreover from True obtain zs where zs: "c # cs = pat @ zs" by (auto simp: starts_with_iff)
    moreover from zs have "length (c # cs) = length pat + length zs" by (metis length_append)
    ultimately show ?thesis by auto
  next
    case False
    with Cons.prems obtain k where k: "strstr cs pat = Some k" "i = Suc k" by auto
    from Cons.IH [OF k(1)] k(2) show ?thesis by auto
  qed
qed

lemma strstr_le: "strstr s pat = Some i \<Longrightarrow> i + length pat \<le> length s"
  using strstr_Some by blast

lemma strchr_Some:
  "strchr s c = Some i \<Longrightarrow> i < length s \<and> s ! i = c \<and> c \<notin> set (take i s)"
  by (induction s arbitrary: i) (auto split: if_splits)

lemma strchr_append_notin [simp]: "c \<notin> set s \<Longrightarrow> strchr (s @ c # t) c = Some (length s)"
  by (induction s) auto

lemma strchr_None_iff: "strchr s c = None \<longleftrightarrow> c \<notin> set s"
  by (induction s) auto

text \<open>\<open>snprintf(buf, n, ...)\<close> keeps at most \<open>n - 1\<close> characters of what it formats.\<close>

definition snprintf :: "nat \<Rightarrow> string \<Rightarrow> string" where
  "snprintf n s = take (n - 1) s"

lemma length_snprintf: "0 < n \<Longrightarrow> length (snprintf n s) < n"
  by (simp add: snprintf_def)

lemma snprintf_fits [simp]: "length s < n \<Longrightarrow> snprintf n s = s"
  by (simp add: snprintf_def)

text \<open>The C string held by a buffer, and \<open>memcpy\<close> into its start.\<close>

definition c_str :: "char list \<Rightarrow> string" where
  "c_str buf = takeWhile (\<lambda>c. c \<noteq> CHR 0x00) buf"

definition memcpy :: "'a list \<Rightarrow> 'a list \<Rightarrow> nat \<Rightarrow> c_fault + 'a list" where
  "memcpy dst src n =
     (if n \<le> length dst \<and> n \<le> length src then Inr (take n src @ drop n dst) else Inl OutOfBounds)"

lemma c_str_terminated: "CHR 0x00 \<notin> set s \<Longrightarrow> c_str (s @ CHR 0x00 # r) = s"
  unfolding c_str_def by (simp add: takeWhile_tail) (metis (mono_tags, lifting) takeWhile_eq_all_conv takeWhile_tail)

text \<open>\<open>size_t\<close> arithmetic that wraps at zero.\<close>

definition size_pred :: "nat \<Rightarrow> nat" where
  "size_pred n = unat (word_of_nat n - 1 :: size_t)"

lemma size_pred_pos:
  assumes "0 < n" "n < 2 ^ 64"
  shows "size_pred n = n - 1"
proof -
  have "unat (word_of_nat n :: size_t) = n" using assms(2) by (simp add: unat_of_nat)
  moreover from this assms(1) have "(1 :: size_t) \<le> word_of_nat n"
    by (simp add: word_le_nat_alt)
  ultimately show ?thesis by (simp add: size_pred_def unat_sub)
qed

lemma size_pred_zero: "size_pred 0 = 2 ^ 64 - 1"
  by (simp add: size_pred_def unsigned_minus_1_eq_mask mask_eq_exp_minus_1)

text \<open>
  \<open>atoi\<close>: leading white space, an optional sign, then digits; 0 without any. (The C function is
  undefined where the value does not fit an \<open>int\<close>; the model keeps the mathematical value.)
\<close>

definition is_space :: "char \<Rightarrow> bool" where
  "is_space c \<longleftrightarrow> c = CHR '' '' \<or> (9 \<le> (of_char c :: nat) \<and> (of_char c :: nat) \<le> 13)"

definition is_digit :: "char \<Rightarrow> bool" where
  "is_digit c \<longleftrightarrow> 48 \<le> (of_char c :: nat) \<and> (of_char c :: nat) \<le> 57"

definition digits_val :: "string \<Rightarrow> int" where
  "digits_val s = foldl (\<lambda>v c. v * 10 + (of_char c - 48)) 0 (takeWhile is_digit s)"

definition atoi :: "string \<Rightarrow> int" where
  "atoi s =
     (case dropWhile is_space s of
        [] \<Rightarrow> 0
      | c # cs \<Rightarrow>
          (if c = CHR ''-'' then - digits_val cs
           else if c = CHR ''+'' then digits_val cs
           else digits_val (c # cs)))"

text \<open>The decimal digits of a number, as \<open>%d\<close> prints them.\<close>

fun decimal :: "nat \<Rightarrow> string" where
  "decimal n =
     (if n < 10 then [char_of (48 + n)] else decimal (n div 10) @ [char_of (48 + n mod 10)])"

declare decimal.simps [simp del]

definition show_int :: "int \<Rightarrow> string" where
  "show_int i = (if i < 0 then CHR ''-'' # decimal (nat (- i)) else decimal (nat i))"

lemma length_decimal: "n < 10 ^ Suc k \<Longrightarrow> length (decimal n) \<le> Suc k"
proof (induction n arbitrary: k rule: decimal.induct)
  case (1 n)
  show ?case
  proof (cases "n < 10")
    case False
    with "1.prems" obtain m where k: "k = Suc m" by (cases k) auto
    with "1.prems" have "n div 10 < 10 ^ Suc m" by (simp add: less_mult_imp_div_less)
    from "1.IH" [OF False this] k False show ?thesis by (subst decimal.simps) simp
  qed (simp add: decimal.simps)
qed

lemma length_show_int:
  assumes "- (2 ^ 31) \<le> i" "i < 2 ^ 31"
  shows "length (show_int i) \<le> 11"
proof -
  have "nat i < 10 ^ Suc 9" "nat (- i) < 10 ^ Suc 9" using assms by (simp_all add: nat_less_iff)
  from this [THEN length_decimal] show ?thesis by (auto simp: show_int_def)
qed

section \<open>Nim integers and searches\<close>

text \<open>An \<open>int64\<close> result that is checked for overflow.\<close>

definition int64 :: "int \<Rightarrow> defect + int" where
  "int64 v = (if - (2 ^ 63) \<le> v \<and> v < 2 ^ 63 then Inr v else Inl OverflowDefect)"

definition is_int64 :: "int \<Rightarrow> bool" where
  "is_int64 v \<longleftrightarrow> - (2 ^ 63) \<le> v \<and> v < 2 ^ 63"

lemma int64_ok [simp]: "is_int64 v \<Longrightarrow> int64 v = Inr v"
  by (simp add: int64_def is_int64_def)

lemma int64_eq_Inr: "int64 v = Inr w \<longleftrightarrow> w = v \<and> is_int64 v"
  by (auto simp: int64_def is_int64_def)

text \<open>
  The binary search under \<open>lowerBound\<close> and \<open>upperBound\<close> of \<open>std/algorithm\<close>: \<open>p\<close> holds of the
  elements to the left of the bound.
\<close>

function bsearch :: "('a \<Rightarrow> bool) \<Rightarrow> 'a list \<Rightarrow> nat \<Rightarrow> nat \<Rightarrow> nat" where
  "bsearch p xs lo count =
     (if count = 0 then lo
      else (let step = count div 2; pos = lo + step in
            if p (xs ! pos) then bsearch p xs (pos + 1) (count - (step + 1))
            else bsearch p xs lo step))"
  by pat_completeness auto
termination by (relation "measure (\<lambda>(p, xs, lo, count). count)") auto

declare bsearch.simps [simp del]

lemma bsearch_partition:
  assumes "lo \<le> k" "k \<le> lo + n"
    and "\<And>i. lo \<le> i \<Longrightarrow> i < k \<Longrightarrow> p (xs ! i)"
    and "\<And>i. k \<le> i \<Longrightarrow> i < lo + n \<Longrightarrow> \<not> p (xs ! i)"
  shows "bsearch p xs lo n = k"
  using assms
proof (induction p xs lo n rule: bsearch.induct)
  case (1 p xs lo n)
  show ?case
  proof (cases "n = 0")
    case True
    then show ?thesis using 1 by (simp add: bsearch.simps)
  next
    case False
    let ?pos = "lo + n div 2"
    show ?thesis
    proof (cases "p (xs ! ?pos)")
      case True
      have "?pos < k" using True False "1.prems"(4) [of ?pos] by (cases "?pos < k") auto
      then have "bsearch p xs (?pos + 1) (n - (n div 2 + 1)) = k"
        using False True "1.prems" by (intro "1.IH"(1)) auto
      then show ?thesis using False True by (simp add: bsearch.simps [of p xs lo n] Let_def)
    next
      case F: False
      have "k \<le> ?pos" using F False "1.prems"(3) [of ?pos] by (cases "k \<le> ?pos") auto
      then have "bsearch p xs lo (n div 2) = k"
        using False F "1.prems" by (intro "1.IH"(2)) auto
      then show ?thesis using False F by (simp add: bsearch.simps [of p xs lo n] Let_def)
    qed
  qed
qed

lemma bsearch_le: "bsearch p xs lo n \<le> lo + n \<and> lo \<le> bsearch p xs lo n"
proof (induction p xs lo n rule: bsearch.induct)
  case (1 p xs lo n)
  let ?h = "n div 2"
  have R: "bsearch p xs lo n = lo" if "n = 0" using that by (simp add: bsearch.simps)
  have S: "bsearch p xs lo n = (if p (xs ! (lo + ?h)) then bsearch p xs (lo + ?h + 1) (n - (?h + 1))
      else bsearch p xs lo ?h)" if "n \<noteq> 0"
    using that by (simp add: bsearch.simps [of p xs lo n] Let_def)
  show ?case
  proof (cases "n = 0")
    case False
    have h: "?h < n" using False by simp
    show ?thesis
    proof (cases "p (xs ! (lo + ?h))")
      case True
      have "bsearch p xs (lo + ?h + 1) (n - (?h + 1)) \<le> lo + ?h + 1 + (n - (?h + 1))
          \<and> lo + ?h + 1 \<le> bsearch p xs (lo + ?h + 1) (n - (?h + 1))"
        by (rule "1.IH"(1) [OF False refl refl True])
      then show ?thesis unfolding S [OF False] if_P [OF True] using h by linarith
    next
      case F: False
      have "bsearch p xs lo ?h \<le> lo + ?h \<and> lo \<le> bsearch p xs lo ?h"
        by (rule "1.IH"(2) [OF False refl refl F])
      then show ?thesis unfolding S [OF False] if_not_P [OF F] using h by linarith
    qed
  next
    case True
    show ?thesis unfolding R [OF True] by simp
  qed
qed

text \<open>On a list that \<open>p\<close> splits, the search finds the split.\<close>

lemma bsearch_take_drop:
  assumes "\<And>i j. i \<le> j \<Longrightarrow> j < length xs \<Longrightarrow> p (xs ! j) \<Longrightarrow> p (xs ! i)"
  shows "take (bsearch p xs 0 (length xs)) xs = filter p xs"
    and "drop (bsearch p xs 0 (length xs)) xs = filter (\<lambda>x. \<not> p x) xs"
proof -
  define k where "k = length (takeWhile p xs)"
  have kl: "k \<le> length xs" by (simp add: k_def length_takeWhile_le)
  have left: "p (xs ! i)" if "i < k" for i
  proof -
    have i: "i < length (takeWhile p xs)" using that by (simp add: k_def)
    then have "xs ! i \<in> set (takeWhile p xs)" by (metis nth_mem takeWhile_nth)
    then show ?thesis by (blast dest: set_takeWhileD)
  qed
  have right: "\<not> p (xs ! i)" if "k \<le> i" "i < length xs" for i
  proof -
    have "\<not> p (xs ! k)" using that unfolding k_def by (intro nth_length_takeWhile) linarith
    then show ?thesis using assms [of k i] that by blast
  qed
  have b: "bsearch p xs 0 (length xs) = k"
    by (rule bsearch_partition) (use kl left right in auto)
  have t: "\<forall>x \<in> set (take k xs). p x" using left by (auto simp: in_set_conv_nth)
  have d: "\<forall>x \<in> set (drop k xs). \<not> p x" using right by (auto simp: in_set_conv_nth)
  have "filter p xs = filter p (take k xs) @ filter p (drop k xs)"
    by (metis append_take_drop_id filter_append)
  also have "\<dots> = take k xs" using t d by simp
  finally show "take (bsearch p xs 0 (length xs)) xs = filter p xs" by (simp add: b)
  have "filter (\<lambda>x. \<not> p x) xs = filter (\<lambda>x. \<not> p x) (take k xs) @ filter (\<lambda>x. \<not> p x) (drop k xs)"
    by (metis append_take_drop_id filter_append)
  also have "\<dots> = drop k xs" using t d by simp
  finally show "drop (bsearch p xs 0 (length xs)) xs = filter (\<lambda>x. \<not> p x) xs" by (simp add: b)
qed

section \<open>Parsing integers\<close>

text \<open>
  \<open>parseInt\<close>: an optional sign, digits with underscores after the first, the whole string, and a
  value that fits.
\<close>

fun digits_from :: "int \<Rightarrow> int \<Rightarrow> string \<Rightarrow> int option" where
  "digits_from m v [] = Some v"
| "digits_from m v (c # cs) =
     (if c = CHR ''_'' then digits_from m v cs
      else if is_digit c then
        (let w = v * 10 + (of_char c - 48) in if m < w then None else digits_from m w cs)
      else None)"

definition int_digits :: "int \<Rightarrow> string \<Rightarrow> int option" where
  "int_digits m s = (case s of [] \<Rightarrow> None | c # cs \<Rightarrow> if is_digit c then digits_from m 0 s else None)"

definition parseInt :: "string \<Rightarrow> int option" where
  "parseInt s =
     (case s of [] \<Rightarrow> None
      | c # cs \<Rightarrow>
         if c = CHR ''-'' then map_option uminus (int_digits (2 ^ 63) cs)
         else if c = CHR ''+'' then int_digits (2 ^ 63 - 1) cs
         else int_digits (2 ^ 63 - 1) s)"

lemma is_digit_char: "d < 10 \<Longrightarrow> is_digit (char_of (48 + d :: nat))"
  by (simp add: is_digit_def)

lemma is_digit_not_underscore: "is_digit c \<Longrightarrow> c \<noteq> CHR ''_''"
  by (auto simp: is_digit_def)

lemma digits_from_decimal:
  "int n \<le> m \<Longrightarrow> digits_from m 0 (decimal n @ cs) = digits_from m (int n) cs"
proof (induction n arbitrary: cs rule: decimal.induct)
  case (1 n)
  have d: "is_digit (char_of (48 + n mod 10 :: nat))" by (rule is_digit_char) simp
  have step: "digits_from m v (char_of (48 + n mod 10 :: nat) # cs)
      = (if m < v * 10 + int (n mod 10) then None else digits_from m (v * 10 + int (n mod 10)) cs)" for v
  proof -
    have "(of_char (char_of (48 + n mod 10 :: nat)) :: nat) = 48 + n mod 10"
      by (subst of_char_of) simp
    then have "int (of_char (char_of (48 + n mod 10 :: nat))) = int (48 + n mod 10)" by (rule arg_cong)
    then have "(of_char (char_of (48 + n mod 10 :: nat)) :: int) - 48 = int (n mod 10)"
      by (simp only: of_nat_of_char)
    then show ?thesis using d is_digit_not_underscore [OF d] by (simp add: Let_def)
  qed
  show ?case
  proof (cases "n < 10")
    case True
    then show ?thesis using step [of 0] 1 by (subst decimal.simps) simp
  next
    case False
    have "int (n div 10) \<le> m" using 1 zdiv_int [of n 10] by linarith
    then have "digits_from m 0 (decimal n @ cs) = digits_from m (int (n div 10)) (char_of (48 + n mod 10 :: nat) # cs)"
      using "1.IH" [OF False] False by (subst decimal.simps) simp
    moreover have "int (n div 10) * 10 + int (n mod 10) = int n"
      by (metis div_mult_mod_eq of_nat_add of_nat_mult of_nat_numeral)
    ultimately show ?thesis using step [of "int (n div 10)"] 1 by simp
  qed
qed

lemma decimal_digits: "decimal n = c # cs \<Longrightarrow> is_digit c" "decimal n \<noteq> []"
proof -
  have "decimal n \<noteq> [] \<and> is_digit (hd (decimal n))"
  proof (induction n rule: decimal.induct)
    case (1 n)
    then show ?case
      by (subst (1 2) decimal.simps) (auto simp: is_digit_char intro: is_digit_char)
  qed
  then show "decimal n = c # cs \<Longrightarrow> is_digit c" "decimal n \<noteq> []" by auto
qed

lemma int_digits_decimal: "int n \<le> m \<Longrightarrow> int_digits m (decimal n) = Some (int n)"
  using digits_from_decimal [of n m "[]"] decimal_digits [of n]
  by (cases "decimal n") (simp_all add: int_digits_def)

lemma parseInt_show_int:
  assumes "is_int64 i"
  shows "parseInt (show_int i) = Some i"
proof (cases "i < 0")
  case True
  then show ?thesis
    using int_digits_decimal [of "nat (- i)" "2 ^ 63"] assms by (simp add: parseInt_def show_int_def is_int64_def)
next
  case False
  obtain c cs where c: "decimal (nat i) = c # cs" using decimal_digits(2) by (cases "decimal (nat i)") auto
  have "is_digit c" using decimal_digits(1) [OF c] .
  then have "c \<noteq> CHR ''-''" "c \<noteq> CHR ''+''" by (auto simp: is_digit_def)
  then show ?thesis
    using int_digits_decimal [of "nat i" "2 ^ 63 - 1"] assms False c
    by (simp add: parseInt_def show_int_def is_int64_def)
qed

end
