(* ===== verification/CJson.thy ===== *)
theory CJson
  imports Prelude
begin

text \<open>
  The hand-written JSON helpers of \<open>liblogosdelivery/examples/json_utils.c\<close>: the extraction of a
  string field into a fixed buffer, of a nested object as a slice, and the decoding of an array
  of decimal bytes. A string is its characters up to the terminator. Writes that would leave the
  destination, and the signed overflow of the digit loop, are faults.
\<close>

section \<open>The code\<close>

abbreviation dq :: char where
  "dq \<equiv> CHR 0x22"

definition search_key :: "string \<Rightarrow> string \<Rightarrow> string" where
  "search_key field post = snprintf 256 ([dq] @ field @ post)"

text \<open>The result is the buffer after the call and whether it, rather than \<open>NULL\<close>, is returned.\<close>

definition extract_json_field ::
  "string \<Rightarrow> string \<Rightarrow> char list \<Rightarrow> nat \<Rightarrow> c_fault + (char list \<times> bool)" where
  "extract_json_field json field buffer bufSize =
     (let searchStr = search_key field [dq, CHR '':'', dq] in
      case strstr json searchStr of
        None \<Rightarrow> Inr (buffer, False)
      | Some s \<Rightarrow>
          (let start = drop (s + length searchStr) json in
           case strchr start dq of
             None \<Rightarrow> Inr (buffer, False)
           | Some len \<Rightarrow>
               (let len = (if len \<ge> bufSize then size_pred bufSize else len) in
                rbind (memcpy buffer start len) (\<lambda>buffer.
                rbind (put buffer len (CHR 0x00)) (\<lambda>buffer. Inr (buffer, True))))))"

text \<open>The scan for the matching brace; the result counts the characters up to and including it.\<close>

fun json_scan :: "string \<Rightarrow> int \<Rightarrow> nat option" where
  "json_scan [] depth = None"
| "json_scan (c # p) depth =
     (if c = CHR ''{'' then map_option Suc (json_scan p (depth + 1))
      else if c = CHR ''}'' then
        (if depth - 1 = 0 then Some 1 else map_option Suc (json_scan p (depth - 1)))
      else map_option Suc (json_scan p depth))"

definition extract_json_object :: "string \<Rightarrow> string \<Rightarrow> (nat \<times> nat) option" where
  "extract_json_object json field =
     (let searchStr = search_key field [dq, CHR '':'', CHR ''{''] in
      case strstr json searchStr of
        None \<Rightarrow> None
      | Some s \<Rightarrow>
          (case strchr (drop s json) (CHR ''{'') of
             None \<Rightarrow> None
           | Some k \<Rightarrow> map_option (\<lambda>n. (s + k, n)) (json_scan (drop (s + k) json) 0)))"

definition is_sep :: "char \<Rightarrow> bool" where
  "is_sep c \<longleftrightarrow> c = CHR '' '' \<or> c = CHR '','' \<or> c = CHR 0x0A \<or> c = CHR 0x0D \<or> c = CHR 0x09"

definition is_dig :: "char \<Rightarrow> bool" where
  "is_dig c \<longleftrightarrow> 48 \<le> (of_char c :: nat) \<and> (of_char c :: nat) \<le> 57"

definition dig_val :: "char \<Rightarrow> int" where
  "dig_val c = of_char c - 48"

fun parse_digits :: "int \<Rightarrow> string \<Rightarrow> c_fault + (int \<times> string)" where
  "parse_digits val [] = Inr (val, [])"
| "parse_digits val (c # p) =
     (if is_dig c then
        (if val * 10 + dig_val c > 2 ^ 31 - 1 then Inl SignedOverflow
         else parse_digits (val * 10 + dig_val c) p)
      else Inr (val, c # p))"

function decode_loop :: "nat \<Rightarrow> string \<Rightarrow> nat \<Rightarrow> char list \<Rightarrow> c_fault + (nat \<times> char list)" where
  "decode_loop limit p pos buffer =
     (if p \<noteq> [] \<and> hd p \<noteq> CHR '']'' \<and> pos < limit then
        (let p = dropWhile is_sep p in
         if p \<noteq> [] \<and> hd p = CHR '']'' then Inr (pos, buffer)
         else rbind (parse_digits 0 p) (\<lambda>(val, p).
              rbind (put buffer pos (char_of (nat val))) (\<lambda>buffer.
              decode_loop limit p (pos + 1) buffer)))
      else Inr (pos, buffer))"
  by pat_completeness auto
termination
  by (relation "measure (\<lambda>(limit, p, pos, buffer). limit - pos)") auto

declare decode_loop.simps [simp del]

definition decode_json_byte_array ::
  "string \<Rightarrow> string \<Rightarrow> char list \<Rightarrow> nat \<Rightarrow> c_fault + (int \<times> char list)" where
  "decode_json_byte_array json field buffer bufSize =
     (let searchStr = search_key field [dq, CHR '':'', CHR ''['' ] in
      case strstr json searchStr of
        None \<Rightarrow> Inr (- 1, buffer)
      | Some s \<Rightarrow>
          (case strchr (drop s json) (CHR ''['') of
             None \<Rightarrow> Inr (- 1, buffer)
           | Some k \<Rightarrow>
               rbind (decode_loop (size_pred bufSize) (drop (s + k + 1) json) 0 buffer) (\<lambda>(pos, buffer).
               rbind (put buffer pos (CHR 0x00)) (\<lambda>buffer. Inr (int pos, buffer)))))"

section \<open>extract_json_field\<close>

lemma memcpy_ok: "memcpy d s n = Inr r \<longleftrightarrow> n \<le> length d \<and> n \<le> length s \<and> r = take n s @ drop n d"
  by (auto simp: memcpy_def)

lemma extract_json_field_safe_lemma:
  assumes "0 < bufSize" "bufSize \<le> length buffer" "bufSize < 2 ^ 64"
  shows "\<exists>buffer' ok. extract_json_field json field buffer bufSize = Inr (buffer', ok)
    \<and> length buffer' = length buffer
    \<and> (if ok then \<exists>v. length v < bufSize \<and> buffer' = v @ CHR 0x00 # drop (Suc (length v)) buffer
       else buffer' = buffer)"
proof -
  let ?k = "search_key field [dq, CHR '':'', dq]"
  show ?thesis
  proof (cases "strstr json ?k")
    case None
    then show ?thesis
      by (intro exI [of _ buffer] exI [of _ False]) (simp add: extract_json_field_def Let_def)
  next
    case (Some s)
    let ?st = "drop (s + length ?k) json"
    show ?thesis
    proof (cases "strchr ?st dq")
      case None
      with Some show ?thesis
        by (intro exI [of _ buffer] exI [of _ False]) (simp add: extract_json_field_def Let_def)
    next
      case len: (Some len)
      define n where "n = (if len \<ge> bufSize then size_pred bufSize else len)"
      have n: "n < bufSize" "n \<le> length ?st"
        using assms size_pred_pos [OF assms(1,3)] strchr_Some [OF len] by (auto simp: n_def)
      define v where "v = take n ?st"
      have v: "length v = n" using n by (simp add: v_def)
      have m: "memcpy buffer ?st n = Inr (v @ drop n buffer)"
        using n assms by (simp add: memcpy_def v_def)
      have p: "put (v @ drop n buffer) n (CHR 0x00) = Inr (v @ CHR 0x00 # drop (Suc n) buffer)"
        using update_after_prefix [OF v, of buffer] v n assms by (simp add: put_def)
      have "extract_json_field json field buffer bufSize
          = Inr (v @ CHR 0x00 # drop (Suc n) buffer, True)"
        by (simp only: extract_json_field_def Let_def Some len option.case n_def [symmetric] m p rbind_Inr)
      moreover have "length (v @ CHR 0x00 # drop (Suc n) buffer) = length buffer"
        using v n assms by simp
      moreover have "length v < bufSize
          \<and> v @ CHR 0x00 # drop (Suc n) buffer = v @ CHR 0x00 # drop (Suc (length v)) buffer"
        using v n by simp
      ultimately show ?thesis
        by (intro exI [of _ "v @ CHR 0x00 # drop (Suc n) buffer"] exI [of _ True])
          (simp only: if_True, blast)
    qed
  qed
qed

lemma extract_json_field_value:
  assumes "strstr json (search_key field [dq, CHR '':'', dq]) = Some s"
    and "drop (s + length (search_key field [dq, CHR '':'', dq])) json = v @ dq # rest"
    and "dq \<notin> set v" "0 < bufSize" "bufSize \<le> length buffer" "bufSize < 2 ^ 64"
  shows "extract_json_field json field buffer bufSize
    = Inr (take (bufSize - 1) v @ CHR 0x00 # drop (Suc (length (take (bufSize - 1) v))) buffer, True)"
proof -
  define n where "n = (if length v \<ge> bufSize then size_pred bufSize else length v)"
  have n: "n = min (length v) (bufSize - 1)"
    using assms size_pred_pos [of bufSize] by (auto simp: n_def)
  have t: "take n (v @ dq # rest) = take (bufSize - 1) v" "n < length buffer" "n \<le> length v"
    using n assms by (auto simp: min_def)
  have "(take (bufSize - 1) v @ drop n buffer)[n := CHR 0x00]
      = take (bufSize - 1) v @ CHR 0x00 # drop (Suc n) buffer"
    using update_after_prefix [of "take (bufSize - 1) v" n buffer] n t by simp
  then show ?thesis
    using assms(1-3) t n
    by (simp add: extract_json_field_def Let_def n_def [symmetric] memcpy_def put_def min_def)
qed

section \<open>extract_json_object\<close>

fun brace_depth :: "string \<Rightarrow> int" where
  "brace_depth [] = 0"
| "brace_depth (c # s) =
     (if c = CHR ''{'' then 1 else if c = CHR ''}'' then - 1 else 0) + brace_depth s"

lemma json_scan_Some:
  assumes "json_scan s d = Some k" "0 < d"
  shows "0 < k \<and> k \<le> length s \<and> d + brace_depth (take k s) = 0 \<and> s ! (k - 1) = CHR ''}''
    \<and> (\<forall>i<k. 0 < d + brace_depth (take i s))"
  using assms
proof (induction s arbitrary: d k)
  case (Cons c s)
  show ?case
  proof (cases "c = CHR ''}'' \<and> d = 1")
    case True
    with Cons.prems show ?thesis by auto
  next
    case False
    let ?d = "d + (if c = CHR ''{'' then 1 else if c = CHR ''}'' then - 1 else 0)"
    from False Cons.prems obtain k' where k': "json_scan s ?d = Some k'" "k = Suc k'"
      by (auto split: if_splits)
    have d: "0 < ?d" using False Cons.prems(2) by auto
    note IH = Cons.IH [OF k'(1) d]
    have "0 < d + brace_depth (take i (c # s))" if "i < k" for i
    proof (cases i)
      case 0
      then show ?thesis using Cons.prems(2) by simp
    next
      case (Suc j)
      then have "0 < ?d + brace_depth (take j s)" using IH that k'(2) by simp
      then show ?thesis using Suc by (simp add: algebra_simps split: if_splits)
    qed
    moreover have "d + brace_depth (take k (c # s)) = 0"
      using IH k'(2) by (simp split: if_splits)
    moreover have "(c # s) ! (k - 1) = CHR ''}''"
      using IH k'(2) by (simp add: nth_Cons')
    ultimately show ?thesis using IH k'(2) by auto
  qed
qed simp

lemma json_scan_complete:
  assumes "0 < d" "k \<le> length s" "d + brace_depth (take k s) = 0"
  shows "json_scan s d \<noteq> None"
  using assms
proof (induction s arbitrary: d k)
  case (Cons c s)
  show ?case
  proof (cases "c = CHR ''}'' \<and> d = 1")
    case False
    let ?d = "d + (if c = CHR ''{'' then 1 else if c = CHR ''}'' then - 1 else 0)"
    have d: "0 < ?d" using False Cons.prems(1) by auto
    from Cons.prems obtain k' where k: "k = Suc k'" by (cases k) auto
    have "?d + brace_depth (take k' s) = 0" using Cons.prems(3) k by simp
    with Cons.IH [OF d] k Cons.prems(2) have "json_scan s ?d \<noteq> None" by simp
    then show ?thesis using False by (auto split: if_splits)
  qed simp
qed auto
section \<open>decode_json_byte_array\<close>

text \<open>The printer of the other side: decimal bytes separated by commas, closed by a bracket.\<close>



fun render_bytes :: "byte list \<Rightarrow> string" where
  "render_bytes [] = '']''"
| "render_bytes [b] = decimal (unat b) @ '']''"
| "render_bytes (b # bs) = decimal (unat b) @ CHR '','' # render_bytes bs"

lemma digit_char:
  assumes "d < 10"
  shows "is_dig (char_of (48 + d))" "dig_val (char_of (48 + d)) = int d"
    "\<not> is_sep (char_of (48 + d))" "(char_of (48 + d) :: char) \<noteq> CHR '']''"
proof -
  let ?c = "char_of (48 + d) :: char"
  have n: "(of_char ?c :: nat) = 48 + d" using assms by simp
  then show "is_dig ?c" using assms by (simp add: is_dig_def)
  have "(of_char ?c :: int) = int (of_char ?c)" by (simp only: of_nat_of_char)
  then show "dig_val ?c = int d" using n by (simp add: dig_val_def)
  have "?c \<noteq> x" if "(of_char x :: nat) \<noteq> 48 + d" for x using that n by auto
  then show "\<not> is_sep ?c" "?c \<noteq> CHR '']''" using assms by (simp_all add: is_sep_def)
qed

lemma parse_digits_dec:
  "n < 2 ^ 31 \<Longrightarrow> parse_digits 0 (decimal n @ r) = parse_digits (int n) r"
proof (induction n arbitrary: r rule: less_induct)
  case (less n)
  show ?case
  proof (cases "n < 10")
    case True
    then show ?thesis using digit_char [OF True] by (simp add: decimal.simps)
  next
    case False
    let ?d = "char_of (48 + n mod 10) :: char"
    have d: "is_dig ?d" "dig_val ?d = int (n mod 10)" using digit_char [of "n mod 10"] by simp_all
    have e: "int (n div 10) * 10 + int (n mod 10) = int n"
      by (metis div_mult_mod_eq of_nat_add of_nat_mult of_nat_numeral)
    have "parse_digits 0 (decimal n @ r) = parse_digits 0 (decimal (n div 10) @ ?d # r)"
      using False by (subst decimal.simps) simp
    also have "\<dots> = parse_digits (int (n div 10)) (?d # r)"
      using less.prems False by (intro less.IH) auto
    also have "\<dots> = parse_digits (int n) r"
      using less.prems d e by simp
    finally show ?thesis .
  qed
qed

lemma decimal_hd: "\<exists>c cs. decimal n = c # cs \<and> is_dig c \<and> \<not> is_sep c \<and> c \<noteq> CHR '']''"
proof (induction n rule: decimal.induct)
  case (1 n)
  show ?case
  proof (cases "n < 10")
    case True
    then show ?thesis using digit_char [OF True] by (simp add: decimal.simps)
  next
    case False
    with 1 show ?thesis by (subst decimal.simps) auto
  qed
qed

lemma parse_digits_stop: "\<not> is_dig c \<Longrightarrow> parse_digits v (c # r) = Inr (v, c # r)"
  by simp

lemma render_bytes_Cons:
  "render_bytes (b # bs) = decimal (unat b) @ (if bs = [] then '']'' else CHR '','' # render_bytes bs)"
  by (cases bs) simp_all

lemma render_bytes_dropWhile:
  "dropWhile is_sep (render_bytes bs @ rest) = render_bytes bs @ rest"
proof (cases bs)
  case Nil
  then show ?thesis by (simp add: is_sep_def)
next
  case (Cons b bs')
  obtain c cs where "decimal (unat b) = c # cs" "\<not> is_sep c" using decimal_hd by blast
  then show ?thesis using Cons by (simp add: render_bytes_Cons)
qed

lemma render_bytes_hd: "bs \<noteq> [] \<Longrightarrow> hd (render_bytes bs @ rest) \<noteq> CHR '']''"
proof (cases bs)
  case (Cons b bs')
  obtain c cs where "decimal (unat b) = c # cs" "c \<noteq> CHR '']''" using decimal_hd by blast
  then show ?thesis using Cons by (simp add: render_bytes_Cons)
qed simp

lemma decode_loop_render:
  assumes "dropWhile is_sep p = render_bytes bs @ rest" and "bs \<noteq> [] \<Longrightarrow> hd p \<noteq> CHR '']''"
    and "pos + length bs \<le> limit" "limit \<le> length buf"
  shows "decode_loop limit p pos buf = Inr (pos + length bs,
    take pos buf @ map (\<lambda>b. char_of (unat b)) bs @ drop (pos + length bs) buf)"
  using assms
proof (induction bs arbitrary: p pos buf)
  case Nil
  then show ?case by (subst decode_loop.simps) simp
next
  case (Cons b bs)
  define X where "X = (if bs = [] then CHR '']'' # rest else CHR '','' # render_bytes bs @ rest)"
  have p': "dropWhile is_sep p = decimal (unat b) @ X"
    using Cons.prems(1) by (auto simp: render_bytes_Cons X_def)
  obtain c cs where c: "decimal (unat b) = c # cs" "c \<noteq> CHR '']''" using decimal_hd by blast
  have p: "p \<noteq> []" "hd p \<noteq> CHR '']''" "pos < limit" "pos < length buf"
    using p' c Cons.prems by auto
  have "unat b < 2 ^ 31" using unat_byte_less [of b] by simp
  then have "parse_digits 0 (decimal (unat b) @ X) = parse_digits (int (unat b)) X"
    by (rule parse_digits_dec)
  also have "\<dots> = Inr (int (unat b), X)"
    by (auto simp: X_def is_dig_def)
  finally have d: "parse_digits 0 (dropWhile is_sep p) = Inr (int (unat b), X)" using p' by simp
  have "decode_loop limit p pos buf = decode_loop limit X (pos + 1) (buf[pos := char_of (unat b)])"
    using p d p' c by (subst decode_loop.simps) (simp add: Let_def)
  also have "\<dots> = Inr (pos + 1 + length bs,
     take (pos + 1) (buf[pos := char_of (unat b)]) @ map (\<lambda>b. char_of (unat b)) bs
       @ drop (pos + 1 + length bs) (buf[pos := char_of (unat b)]))"
  proof (rule Cons.IH)
    show "dropWhile is_sep X = render_bytes bs @ rest"
      using render_bytes_dropWhile [of bs rest] by (auto simp: X_def is_sep_def)
  qed (use Cons.prems in \<open>auto simp: X_def\<close>)
  finally show ?case using p by (simp add: take_Suc_conv_app_nth)
qed

lemma decode_loop_stuck:
  assumes "\<not> is_dig c" "\<not> is_sep c" "c \<noteq> CHR '']''" "pos \<le> limit" "limit \<le> length buf"
  shows "decode_loop limit (c # cs) pos buf
    = Inr (limit, take pos buf @ replicate (limit - pos) (CHR 0x00) @ drop limit buf)"
  using assms(4,5)
proof (induction "limit - pos" arbitrary: pos buf)
  case 0
  then show ?case by (subst decode_loop.simps) simp
next
  case (Suc n)
  then have l: "pos < limit" "pos < length buf" by auto
  have "decode_loop limit (c # cs) pos buf
      = decode_loop limit (c # cs) (pos + 1) (buf[pos := CHR 0x00])"
    using assms(1-3) l by (subst decode_loop.simps) (simp add: Let_def char_of_def)
  also have "\<dots> = Inr (limit, take (pos + 1) (buf[pos := CHR 0x00])
      @ replicate (limit - (pos + 1)) (CHR 0x00) @ drop limit (buf[pos := CHR 0x00]))"
    using Suc.hyps(2) Suc.prems l by (intro Suc.hyps(1)) auto
  also have "\<dots> = Inr (limit, take pos buf @ replicate (limit - pos) (CHR 0x00) @ drop limit buf)"
  proof -
    have "limit - pos = Suc (limit - (pos + 1))" using l by simp
    then show ?thesis using l by (simp add: take_Suc_conv_app_nth)
  qed
  finally show ?case .
qed

lemma after_key:
  assumes json: "json = pre @ [dq] @ field @ [dq, CHR '':'', b] @ tail"
    and "b \<notin> set field" "b \<noteq> dq" "b \<noteq> CHR '':''"
  shows "strchr (drop (length pre) json) b = Some (length field + 3)"
    and "drop (length pre + (length field + 3) + 1) json = tail"
proof -
  have "drop (length pre) json = (dq # field @ [dq, CHR '':'']) @ b # tail" using json by simp
  moreover have "b \<notin> set (dq # field @ [dq, CHR '':''])" using assms by auto
  ultimately have "strchr (drop (length pre) json) b = Some (length (dq # field @ [dq, CHR '':'']))"
    by (metis strchr_append_notin)
  then show "strchr (drop (length pre) json) b = Some (length field + 3)" by simp
  show "drop (length pre + (length field + 3) + 1) json = tail"
    using json by (simp add: numeral_eq_Suc)
qed

lemma json_scan_object:
  "json_scan (CHR ''{'' # p) 0 = map_option Suc (json_scan p 1)"
  by simp

section \<open>Properties\<close>

text \<open>
  With a destination of \<open>bufSize > 0\<close> characters \<open>extract_json_field\<close> never writes outside
  it: it either leaves the buffer alone and returns \<open>NULL\<close>, or stores a terminated string
  shorter than \<open>bufSize\<close> at its start and keeps the rest.
\<close>

lemma extract_json_field_safe:
  assumes "0 < bufSize" "bufSize \<le> length buffer" "bufSize < 2 ^ 64"
  shows "\<exists>buffer' ok. extract_json_field json field buffer bufSize = Inr (buffer', ok)
    \<and> length buffer' = length buffer
    \<and> (if ok then \<exists>v. length v < bufSize \<and> buffer' = v @ CHR 0x00 # drop (Suc (length v)) buffer
       else buffer' = buffer)"
  by (rule extract_json_field_safe_lemma [OF assms])

lemma extract_json_field_safe_example:
  "\<exists>buffer' ok. extract_json_field [dq, CHR ''a'', dq, CHR '':'', dq, CHR ''x'', CHR ''y'', dq] ''a''
     ''....'' 2 = Inr (buffer', ok) \<and> length buffer' = 4"
proof -
  obtain b ok where "extract_json_field [dq, CHR ''a'', dq, CHR '':'', dq, CHR ''x'', CHR ''y'', dq]
      ''a'' ''....'' 2 = Inr (b, ok)" "length b = length ''....''"
    using extract_json_field_safe [of 2 "''....''"] by fastforce
  then show ?thesis by simp
qed

text \<open>
  What \<open>extract_json_object\<close> returns lies inside the text, starts with an opening brace,
  ends with a closing one, is balanced in braces, and no shorter prefix of it is: it is the
  object the first opening brace after the key opens.
\<close>

lemma extract_json_object_balanced:
  assumes "extract_json_object json field = Some (st, n)"
  shows "st + n \<le> length json \<and> 2 \<le> n \<and> json ! st = CHR ''{'' \<and> json ! (st + n - 1) = CHR ''}''
    \<and> brace_depth (take n (drop st json)) = 0
    \<and> (\<forall>i. 0 < i \<and> i < n \<longrightarrow> 0 < brace_depth (take i (drop st json)))"
proof -
  from assms obtain s k where s: "strchr (drop s json) (CHR ''{'') = Some k" "st = s + k"
    and n: "json_scan (drop (s + k) json) 0 = Some n"
    by (auto simp: extract_json_object_def Let_def split: option.splits)
  from strchr_Some [OF s(1)] have st: "st < length json" "json ! st = CHR ''{''"
    using s(2) by auto
  define p where "p = drop (st + 1) json"
  have d: "drop st json = CHR ''{'' # p" using st by (simp add: p_def Cons_nth_drop_Suc [symmetric])
  with n s(2) obtain m where m: "json_scan p 1 = Some m" "n = Suc m" by auto
  have sc: "0 < m" "m \<le> length p" "1 + brace_depth (take m p) = 0" "p ! (m - 1) = CHR ''}''"
    "\<And>i. i < m \<Longrightarrow> 0 < 1 + brace_depth (take i p)"
    using json_scan_Some [OF m(1)] by simp_all
  have "json ! (st + n - 1) = CHR ''}''"
  proof -
    have "p ! (m - 1) = json ! (st + 1 + (m - 1))" using sc(2) sc(1) by (simp add: p_def)
    with sc(1,4) m(2) show ?thesis by simp
  qed
  moreover have "0 < brace_depth (take i (drop st json))" if "0 < i" "i < n" for i
  proof -
    from that m(2) obtain j where "i = Suc j" "j < m" by (cases i) auto
    with sc(5) [of j] d show ?thesis by simp
  qed
  ultimately show ?thesis using st sc d m(2) by (auto simp: p_def)
qed

lemma extract_json_object_balanced_example:
  "extract_json_object ([dq, CHR ''m'', dq] @ '':{{}}'') ''m'' = Some (4, 4)
    \<and> brace_depth (take 4 (drop 4 ([dq, CHR ''m'', dq] @ '':{{}}''))) = 0"
proof -
  have e: "extract_json_object ([dq, CHR ''m'', dq] @ '':{{}}'') ''m'' = Some (4, 4)"
    by (simp add: extract_json_object_def search_key_def snprintf_def)
  show ?thesis using e extract_json_object_balanced [OF e] by simp
qed

text \<open>
  C34. The byte array decoder inverts the printer: on the text of \<open>bs\<close> as decimal numbers
  separated by commas, in a buffer with room for them and the terminator, it returns their number
  and stores exactly them, terminated, touching nothing after.
\<close>

theorem decode_json_byte_array_roundtrip:
  assumes "json = pre @ [dq] @ field @ [dq, CHR '':'', CHR ''['' ] @ render_bytes bs @ rest"
    and "strstr json (search_key field [dq, CHR '':'', CHR ''['' ]) = Some (length pre)"
    and "CHR ''['' \<notin> set field"
    and "length bs < bufSize" "bufSize \<le> length buffer" "bufSize < 2 ^ 64"
  shows "decode_json_byte_array json field buffer bufSize = Inr (int (length bs),
    map (\<lambda>b. char_of (unat b)) bs @ CHR 0x00 # drop (Suc (length bs)) buffer)"
proof -
  note k = after_key [OF assms(1) assms(3), simplified]
  have "decode_loop (bufSize - 1) (render_bytes bs @ rest) 0 buffer
    = Inr (length bs, map (\<lambda>b. char_of (unat b)) bs @ drop (length bs) buffer)"
    using decode_loop_render [of "render_bytes bs @ rest" bs rest 0 "bufSize - 1" buffer]
      render_bytes_dropWhile [of bs rest] render_bytes_hd [of bs rest] assms(4,5)
    by simp
  moreover have "put (map (\<lambda>b. char_of (unat b)) bs @ drop (length bs) buffer) (length bs) (CHR 0x00)
      = Inr (map (\<lambda>b. char_of (unat b)) bs @ CHR 0x00 # drop (Suc (length bs)) buffer)"
    using update_after_prefix [of "map (\<lambda>b. char_of (unat b)) bs" "length bs" buffer] assms(4,5)
    by (simp add: put_def)
  ultimately show ?thesis
    using assms(2) k size_pred_pos [of bufSize] assms(4,6)
    by (simp add: decode_json_byte_array_def Let_def)
qed

theorem decode_json_byte_array_roundtrip_witness:
  "decode_json_byte_array ([dq, CHR ''p'', dq] @ '':[72,105]}'') ''p'' ''......'' 6
    = Inr (2, ''Hi'' @ [CHR 0x00] @ ''...'')"
proof -
  have r: "decimal 72 = ''72''" "decimal 105 = ''105''" "char_of (72 :: nat) = CHR ''H''"
    "char_of (105 :: nat) = CHR ''i''"
    by code_simp+
  show ?thesis
    using decode_json_byte_array_roundtrip [of _ "[]" "''p''" "[72, 105]" "''}''" 6 "''......''"]
    by (simp add: r search_key_def snprintf_def)
qed

text \<open>
  A character the digit loop does not know (a sign, a quote, a letter) stops the decoder's
  progress through the text but not its output: it fills the whole destination with zero bytes
  and reports \<open>bufSize - 1\<close> decoded bytes.
\<close>

lemma decode_json_byte_array_stuck:
  assumes "json = pre @ [dq] @ field @ [dq, CHR '':'', CHR ''['' ] @ c # cs"
    and "strstr json (search_key field [dq, CHR '':'', CHR ''['' ]) = Some (length pre)"
    and "CHR ''['' \<notin> set field"
    and "\<not> is_dig c" "\<not> is_sep c" "c \<noteq> CHR '']''"
    and "0 < bufSize" "bufSize \<le> length buffer" "bufSize < 2 ^ 64"
  shows "decode_json_byte_array json field buffer bufSize
    = Inr (int (bufSize - 1), replicate bufSize (CHR 0x00) @ drop bufSize buffer)"
proof -
  note k = after_key [OF assms(1) assms(3), simplified]
  let ?z = "replicate (bufSize - 1) (CHR 0x00)"
  have d: "decode_loop (bufSize - 1) (c # cs) 0 buffer = Inr (bufSize - 1, ?z @ drop (bufSize - 1) buffer)"
    using decode_loop_stuck [OF assms(4-6), of 0 "bufSize - 1" buffer] assms(8) by simp
  have "put (?z @ drop (bufSize - 1) buffer) (bufSize - 1) (CHR 0x00)
      = Inr (?z @ CHR 0x00 # drop bufSize buffer)"
    using update_after_prefix [of ?z "bufSize - 1" buffer "CHR 0x00"] assms(7,8) by (simp add: put_def)
  moreover have "?z @ CHR 0x00 # drop bufSize buffer = replicate bufSize (CHR 0x00) @ drop bufSize buffer"
    using assms(7) by (metis (no_types, lifting) Suc_diff_1 append_Cons append_assoc replicate_Suc replicate_app_Cons_same self_append_conv2)
  ultimately show ?thesis
    using assms(2) k d size_pred_pos [of bufSize] assms(7,9)
    by (simp add: decode_json_byte_array_def Let_def)
qed

lemma decode_json_byte_array_stuck_example:
  "decode_json_byte_array ([dq, CHR ''p'', dq] @ '':[-1]'') ''p'' ''......'' 4
    = Inr (3, replicate 4 (CHR 0x00) @ ''..'')"
  using decode_json_byte_array_stuck [of _ "[]" "''p''" "CHR ''-''" "''1]''" 4 "''......''"]
  by (simp add: search_key_def snprintf_def is_dig_def is_sep_def)

end
