(* ===== verification/CApi.thy ===== *)
theory CApi
  imports Prelude
begin

text \<open>
  The C interfaces \<open>library/libwaku.h\<close> and \<open>liblogosdelivery/liblogosdelivery.h\<close>: the return
  codes, the exported functions with the types of their parameters, and when a call conforms to
  the declaration it includes. The iOS link stubs of \<open>library/\<close> stand at the end.
\<close>

section \<open>Return codes and types\<close>

abbreviation (input) RET_OK :: int where "RET_OK \<equiv> 0"
abbreviation (input) RET_ERR :: int where "RET_ERR \<equiv> 1"
abbreviation (input) RET_MISSING_CALLBACK :: int where "RET_MISSING_CALLBACK \<equiv> 2"

text \<open>\<open>FFICallBack\<close> takes the return code, the message, its length and the user data.\<close>

datatype ctype = VoidPtr | FnPtr | CharPtr | CInt | CUInt

definition ffi_callback_arity :: nat where
  "ffi_callback_arity = 4"

section \<open>The declared functions\<close>

datatype libwaku_fn =
    waku_new
  | waku_start
  | waku_stop
  | waku_destroy
  | waku_version
  | set_event_callback
  | waku_content_topic
  | waku_pubsub_topic
  | waku_default_pubsub_topic
  | waku_relay_publish
  | waku_lightpush_publish
  | waku_relay_subscribe
  | waku_relay_add_protected_shard
  | waku_relay_unsubscribe
  | waku_filter_subscribe
  | waku_filter_unsubscribe
  | waku_filter_unsubscribe_all
  | waku_relay_get_num_connected_peers
  | waku_relay_get_connected_peers
  | waku_relay_get_num_peers_in_mesh
  | waku_relay_get_peers_in_mesh
  | waku_store_query
  | waku_connect
  | waku_disconnect_peer_by_id
  | waku_disconnect_all_peers
  | waku_dial_peer
  | waku_dial_peer_by_id
  | waku_get_peerids_from_peerstore
  | waku_get_connected_peers_info
  | waku_get_peerids_by_protocol
  | waku_listen_addresses
  | waku_get_connected_peers
  | waku_dns_discovery
  | waku_discv5_update_bootnodes
  | waku_start_discv5
  | waku_stop_discv5
  | waku_get_my_enr
  | waku_get_my_peerid
  | waku_get_metrics
  | waku_peer_exchange_request
  | waku_ping_peer
  | waku_is_online

text \<open>
  The parameter types in the order of the declarations: the second function has the store,
  peer, discovery and debug calls, the first the node, relay and filter calls.
\<close>

fun libwaku_peer_params :: "libwaku_fn \<Rightarrow> ctype list" where
  "libwaku_peer_params waku_store_query = [VoidPtr, FnPtr, VoidPtr, CharPtr, CharPtr, CInt]"
| "libwaku_peer_params waku_connect = [VoidPtr, FnPtr, VoidPtr, CharPtr, CUInt]"
| "libwaku_peer_params waku_disconnect_peer_by_id = [VoidPtr, FnPtr, VoidPtr, CharPtr]"
| "libwaku_peer_params waku_disconnect_all_peers = [VoidPtr, FnPtr, VoidPtr]"
| "libwaku_peer_params waku_dial_peer = [VoidPtr, FnPtr, VoidPtr, CharPtr, CharPtr, CInt]"
| "libwaku_peer_params waku_dial_peer_by_id = [VoidPtr, FnPtr, VoidPtr, CharPtr, CharPtr, CInt]"
| "libwaku_peer_params waku_get_peerids_from_peerstore = [VoidPtr, FnPtr, VoidPtr]"
| "libwaku_peer_params waku_get_connected_peers_info = [VoidPtr, FnPtr, VoidPtr]"
| "libwaku_peer_params waku_get_peerids_by_protocol = [VoidPtr, FnPtr, VoidPtr, CharPtr]"
| "libwaku_peer_params waku_listen_addresses = [VoidPtr, FnPtr, VoidPtr]"
| "libwaku_peer_params waku_get_connected_peers = [VoidPtr, FnPtr, VoidPtr]"
| "libwaku_peer_params waku_dns_discovery = [VoidPtr, FnPtr, VoidPtr, CharPtr, CharPtr, CInt]"
| "libwaku_peer_params waku_discv5_update_bootnodes = [VoidPtr, FnPtr, VoidPtr, CharPtr]"
| "libwaku_peer_params waku_start_discv5 = [VoidPtr, FnPtr, VoidPtr]"
| "libwaku_peer_params waku_stop_discv5 = [VoidPtr, FnPtr, VoidPtr]"
| "libwaku_peer_params waku_get_my_enr = [VoidPtr, FnPtr, VoidPtr]"
| "libwaku_peer_params waku_get_my_peerid = [VoidPtr, FnPtr, VoidPtr]"
| "libwaku_peer_params waku_get_metrics = [VoidPtr, FnPtr, VoidPtr]"
| "libwaku_peer_params waku_peer_exchange_request = [VoidPtr, FnPtr, VoidPtr, CInt]"
| "libwaku_peer_params waku_ping_peer = [VoidPtr, FnPtr, VoidPtr, CharPtr, CInt]"
| "libwaku_peer_params waku_is_online = [VoidPtr, FnPtr, VoidPtr]"
| "libwaku_peer_params _ = []"

fun libwaku_params :: "libwaku_fn \<Rightarrow> ctype list" where
  "libwaku_params waku_new = [CharPtr, FnPtr, VoidPtr]"
| "libwaku_params waku_start = [VoidPtr, FnPtr, VoidPtr]"
| "libwaku_params waku_stop = [VoidPtr, FnPtr, VoidPtr]"
| "libwaku_params waku_destroy = [VoidPtr, FnPtr, VoidPtr]"
| "libwaku_params waku_version = [VoidPtr, FnPtr, VoidPtr]"
| "libwaku_params set_event_callback = [VoidPtr, FnPtr, VoidPtr]"
| "libwaku_params waku_content_topic = [VoidPtr, FnPtr, VoidPtr, CharPtr, CUInt, CharPtr, CharPtr]"
| "libwaku_params waku_pubsub_topic = [VoidPtr, FnPtr, VoidPtr, CharPtr]"
| "libwaku_params waku_default_pubsub_topic = [VoidPtr, FnPtr, VoidPtr]"
| "libwaku_params waku_relay_publish = [VoidPtr, FnPtr, VoidPtr, CharPtr, CharPtr, CUInt]"
| "libwaku_params waku_lightpush_publish = [VoidPtr, FnPtr, VoidPtr, CharPtr, CharPtr]"
| "libwaku_params waku_relay_subscribe = [VoidPtr, FnPtr, VoidPtr, CharPtr]"
| "libwaku_params waku_relay_add_protected_shard = [VoidPtr, FnPtr, VoidPtr, CInt, CInt, CharPtr]"
| "libwaku_params waku_relay_unsubscribe = [VoidPtr, FnPtr, VoidPtr, CharPtr]"
| "libwaku_params waku_filter_subscribe = [VoidPtr, FnPtr, VoidPtr, CharPtr, CharPtr]"
| "libwaku_params waku_filter_unsubscribe = [VoidPtr, FnPtr, VoidPtr, CharPtr, CharPtr]"
| "libwaku_params waku_filter_unsubscribe_all = [VoidPtr, FnPtr, VoidPtr]"
| "libwaku_params waku_relay_get_num_connected_peers = [VoidPtr, FnPtr, VoidPtr, CharPtr]"
| "libwaku_params waku_relay_get_connected_peers = [VoidPtr, FnPtr, VoidPtr, CharPtr]"
| "libwaku_params waku_relay_get_num_peers_in_mesh = [VoidPtr, FnPtr, VoidPtr, CharPtr]"
| "libwaku_params waku_relay_get_peers_in_mesh = [VoidPtr, FnPtr, VoidPtr, CharPtr]"
| "libwaku_params f = libwaku_peer_params f"

datatype logosdelivery_fn =
    logosdelivery_create_node
  | logosdelivery_start_node
  | logosdelivery_stop_node
  | logosdelivery_destroy
  | logosdelivery_subscribe
  | logosdelivery_unsubscribe
  | logosdelivery_send
  | logosdelivery_set_event_callback
  | logosdelivery_get_available_node_info_ids
  | logosdelivery_get_node_info
  | logosdelivery_get_available_configs

fun logosdelivery_params :: "logosdelivery_fn \<Rightarrow> ctype list" where
  "logosdelivery_params logosdelivery_create_node = [CharPtr, FnPtr, VoidPtr]"
| "logosdelivery_params logosdelivery_start_node = [VoidPtr, FnPtr, VoidPtr]"
| "logosdelivery_params logosdelivery_stop_node = [VoidPtr, FnPtr, VoidPtr]"
| "logosdelivery_params logosdelivery_destroy = [VoidPtr, FnPtr, VoidPtr]"
| "logosdelivery_params logosdelivery_subscribe = [VoidPtr, FnPtr, VoidPtr, CharPtr]"
| "logosdelivery_params logosdelivery_unsubscribe = [VoidPtr, FnPtr, VoidPtr, CharPtr]"
| "logosdelivery_params logosdelivery_send = [VoidPtr, FnPtr, VoidPtr, CharPtr]"
| "logosdelivery_params logosdelivery_set_event_callback = [VoidPtr, FnPtr, VoidPtr]"
| "logosdelivery_params logosdelivery_get_available_node_info_ids = [VoidPtr, FnPtr, VoidPtr]"
| "logosdelivery_params logosdelivery_get_node_info = [VoidPtr, FnPtr, VoidPtr, CharPtr]"
| "logosdelivery_params logosdelivery_get_available_configs = [VoidPtr, FnPtr, VoidPtr]"

section \<open>Conforming calls\<close>

text \<open>
  An argument as a call site writes it. A function argument carries the number of parameters of
  the function passed.
\<close>

datatype carg = ACtx | AUser | AFn string nat | AStr string | AInt int

fun passes :: "ctype \<Rightarrow> carg \<Rightarrow> bool" where
  "passes VoidPtr a = (case a of ACtx \<Rightarrow> True | AUser \<Rightarrow> True | AStr _ \<Rightarrow> True | _ \<Rightarrow> False)"
| "passes CharPtr a = (case a of ACtx \<Rightarrow> True | AUser \<Rightarrow> True | AStr _ \<Rightarrow> True | _ \<Rightarrow> False)"
| "passes FnPtr a = (case a of AFn _ n \<Rightarrow> n = ffi_callback_arity | _ \<Rightarrow> False)"
| "passes CInt a = (case a of AInt _ \<Rightarrow> True | _ \<Rightarrow> False)"
| "passes CUInt a = (case a of AInt _ \<Rightarrow> True | _ \<Rightarrow> False)"

fun conforms :: "ctype list \<Rightarrow> carg list \<Rightarrow> bool" where
  "conforms [] [] = True"
| "conforms (t # ts) (a # as) = (passes t a \<and> conforms ts as)"
| "conforms _ _ = False"

lemma conforms_list_all2: "conforms ts as \<longleftrightarrow> list_all2 passes ts as"
  by (induction ts as rule: conforms.induct) auto

text \<open>Every entry point takes the context or the configuration, then the callback.\<close>

lemma libwaku_params_callback:
  "\<exists>p rest. libwaku_params f = p # FnPtr # VoidPtr # rest"
  by (cases f) auto

section \<open>iOS link stubs\<close>

text \<open>\<open>getdefaultgateway\<close> fails without touching its argument.\<close>

definition getdefaultgateway :: "'addr \<Rightarrow> int \<times> 'addr" where
  "getdefaultgateway addr = (- 1, addr)"

record x509_noanchor_context =
  vtable :: "nat option"
  inner :: "nat option"

text \<open>\<open>inner\<close> points to the pointer that is stored; a null argument leaves the context alone.\<close>

definition x509_noanchor_init ::
  "x509_noanchor_context option \<Rightarrow> nat option option \<Rightarrow> x509_noanchor_context option" where
  "x509_noanchor_init xwc inner' =
     (case (xwc, inner') of
        (Some c, Some i) \<Rightarrow> Some (c\<lparr>inner := i, vtable := None\<rparr>)
      | _ \<Rightarrow> xwc)"

end
