(* ===== verification/CBase64.thy ===== *)
theory CBase64
  imports Prelude
begin

unbundle bit_operations_syntax

text \<open>
  The base64 encoder of \<open>examples/cbindings/base64.c\<close>: the size computation on \<open>size_t\<close>, the
  loop that fills the output buffer in place, a reference encoder by groups of three bytes,
  a decoder for the reference, and the proofs that the loop stays inside its buffer, computes
  the reference and loses nothing.
\<close>

section \<open>The code\<close>

definition b64_encoded_size :: "size_t \<Rightarrow> size_t" where
  "b64_encoded_size inlen =
     (let ret = inlen;
          ret = (if inlen mod 3 \<noteq> 0 then ret + (3 - (inlen mod 3)) else ret);
          ret = ret div 3;
          ret = ret * 4
      in ret)"

definition b64chars :: string where
  "b64chars = ''ABCDEFGHIJKLMNOPQRSTUVWXYZabcdefghijklmnopqrstuvwxyz0123456789+/''"

text \<open>One pass of the loop: the three input bytes packed into \<open>v\<close>.\<close>

definition b64_pack :: "byte list \<Rightarrow> nat \<Rightarrow> nat \<Rightarrow> size_t" where
  "b64_pack inp len i =
     (let v = ucast (inp ! i);
          v = (if i + 1 < len then push_bit 8 v OR ucast (inp ! (i + 1)) else push_bit 8 v)
      in if i + 2 < len then push_bit 8 v OR ucast (inp ! (i + 2)) else push_bit 8 v)"

definition b64_char :: "size_t \<Rightarrow> nat \<Rightarrow> char" where
  "b64_char v k = b64chars ! unat (drop_bit k v AND 0x3F)"

definition b64_body :: "byte list \<Rightarrow> nat \<Rightarrow> nat \<Rightarrow> nat \<Rightarrow> char list \<Rightarrow> c_fault + char list" where
  "b64_body inp len i j out =
     (if length inp < min len (i + 3) then Inl OutOfBounds
      else let v = b64_pack inp len i in
        rbind (put out j (b64_char v 18)) (\<lambda>out.
        rbind (put out (j + 1) (b64_char v 12)) (\<lambda>out.
        rbind (put out (j + 2) (if i + 1 < len then b64_char v 6 else CHR ''='')) (\<lambda>out.
        put out (j + 3) (if i + 2 < len then b64_char v 0 else CHR ''='')))))"

function b64_loop :: "byte list \<Rightarrow> nat \<Rightarrow> nat \<Rightarrow> nat \<Rightarrow> char list \<Rightarrow> c_fault + char list" where
  "b64_loop inp len i j out =
     (if i < len then rbind (b64_body inp len i j out) (b64_loop inp len (i + 3) (j + 4))
      else Inr out)"
  by pat_completeness auto
termination
  by (relation "measure (\<lambda>(inp, len, i, j, out). len - i)") auto

declare b64_loop.simps [simp del]

text \<open>
  \<open>malloc\<close> is a parameter: \<open>mem n\<close> is the fresh block of \<open>n\<close> characters, \<open>None\<close> when there is no
  memory. The result is the block, its last cell the terminator, or \<open>None\<close> for \<open>NULL\<close>.
\<close>

definition b64_encode ::
  "(nat \<Rightarrow> char list option) \<Rightarrow> byte list option \<Rightarrow> size_t \<Rightarrow> c_fault + char list option" where
  "b64_encode mem inp len =
     (case inp of None \<Rightarrow> Inr None
      | Some bs \<Rightarrow>
         if len = 0 then Inr None
         else let elen = b64_encoded_size len in
           case mem (unat (elen + 1)) of None \<Rightarrow> Inl NullDeref
           | Some out \<Rightarrow>
               rbind (put out (unat elen) (CHR 0x00)) (\<lambda>out.
               rbind (b64_loop bs (unat len) 0 0 out) (\<lambda>out. Inr (Some out))))"

section \<open>The reference: groups of three bytes\<close>

definition sextet :: "nat \<Rightarrow> char" where
  "sextet n = b64chars ! (n mod 64)"

fun b64_ref :: "byte list \<Rightarrow> string" where
  "b64_ref [] = []"
| "b64_ref [a] = [sextet (unat a div 4), sextet (unat a * 16), CHR ''='', CHR ''='']"
| "b64_ref [a, b] =
     [sextet (unat a div 4), sextet (unat a * 16 + unat b div 16), sextet (unat b * 4), CHR ''='']"
| "b64_ref (a # b # c # xs) =
     [sextet (unat a div 4), sextet (unat a * 16 + unat b div 16),
      sextet (unat b * 4 + unat c div 64), sextet (unat c)] @ b64_ref xs"

fun index_of :: "'a \<Rightarrow> 'a list \<Rightarrow> nat" where
  "index_of x [] = 0"
| "index_of x (y # ys) = (if x = y then 0 else Suc (index_of x ys))"

definition unsextet :: "char \<Rightarrow> nat" where
  "unsextet c = index_of c b64chars"

fun b64_unref :: "string \<Rightarrow> byte list" where
  "b64_unref (p # q # r # s # cs) =
     (let p' = unsextet p; q' = unsextet q; r' = unsextet r; s' = unsextet s in
      if r = CHR ''='' then [word_of_nat (p' * 4 + q' div 16)]
      else if s = CHR ''='' then
        [word_of_nat (p' * 4 + q' div 16), word_of_nat (q' * 16 + r' div 4)]
      else [word_of_nat (p' * 4 + q' div 16), word_of_nat (q' * 16 + r' div 4),
            word_of_nat (r' * 64 + s')] @ b64_unref cs)"
| "b64_unref _ = []"

section \<open>The packed word and its fields\<close>

lemma unat_ucast_byte: "unat (ucast (c :: byte) :: size_t) = unat c"
  by (simp add: unsigned_ucast_eq take_bit_nat_eq_self_iff less_trans [OF unat_byte_less])

lemma unat_shift:
  fixes v :: size_t
  assumes "unat v < 2 ^ 24"
  shows "unat (push_bit 8 v) = unat v * 256"
  using assms by (simp add: push_bit_eq_mult unat_word_ariths)

lemma unat_shift_or:
  fixes v :: size_t and c :: byte
  assumes "unat v < 2 ^ 24"
  shows "unat (push_bit 8 v OR ucast c) = unat v * 256 + unat c"
proof -
  have "push_bit 8 v OR ucast c = push_bit 8 v + (ucast c :: size_t)"
    by (rule disjunctive_add [symmetric]) (auto simp: bit_simps dest: bit_imp_le_length)
  then have "unat (push_bit 8 v OR ucast c) = (unat v * 256 + unat c) mod 2 ^ 64"
    by (simp add: unat_word_ariths unat_shift [OF assms] unat_ucast_byte)
  moreover have "unat v * 256 + unat c < 2 ^ 64"
    using assms unat_byte_less [of c] by simp
  ultimately show ?thesis by simp
qed

lemma b64_char_sextet: "b64_char v k = sextet (unat v div 2 ^ k)"
proof -
  have "drop_bit k v AND 0x3F = take_bit 6 (drop_bit k v)"
    by (simp add: take_bit_eq_mask mask_numeral)
  moreover have "unat (take_bit 6 (drop_bit k v)) = (unat v div 2 ^ k) mod 64"
    unfolding unsigned_take_bit_eq unat_drop_bit_eq by (simp add: take_bit_eq_mod drop_bit_eq_div)
  ultimately have "unat (drop_bit k v AND 0x3F) = (unat v div 2 ^ k) mod 64" by simp
  then show ?thesis by (simp add: b64_char_def sextet_def)
qed

definition byte_at :: "byte list \<Rightarrow> nat \<Rightarrow> nat" where
  "byte_at xs i = (if i < length xs then unat (xs ! i) else 0)"

lemma unat_b64_pack:
  assumes "i < length xs"
  shows "unat (b64_pack xs (length xs) i) =
    byte_at xs i * 65536 + byte_at xs (i + 1) * 256 + byte_at xs (i + 2)"
proof -
  let ?a = "ucast (xs ! i) :: size_t"
  have a: "unat ?a = byte_at xs i" "unat ?a < 256"
    using assms by (simp_all add: byte_at_def unat_ucast_byte unat_byte_less)
  then have a24: "unat ?a < 2 ^ 24" by simp
  define v where "v = (if i + 1 < length xs then push_bit 8 ?a OR ucast (xs ! (i + 1)) else push_bit 8 ?a)"
  have v: "unat v = byte_at xs i * 256 + byte_at xs (i + 1)"
    using unat_shift_or [OF a24] unat_shift [OF a24] a(1) by (simp add: v_def byte_at_def)
  have "byte_at xs i * 256 + byte_at xs (i + 1) < 65536"
    using a unat_byte_less [of "xs ! (i + 1)"] by (auto simp: byte_at_def)
  with v have v24: "unat v < 2 ^ 24" by simp
  have "b64_pack xs (length xs) i
      = (if i + 2 < length xs then push_bit 8 v OR ucast (xs ! (i + 2)) else push_bit 8 v)"
    by (simp add: b64_pack_def Let_def v_def)
  then show ?thesis
    using unat_shift_or [OF v24] unat_shift [OF v24] v by (simp add: byte_at_def)
qed

lemma update4:
  "j + 3 < length out \<Longrightarrow>
    out[j := w, j + 1 := x, j + 2 := y, j + 3 := z] = take j out @ [w, x, y, z] @ drop (j + 4) out"
proof (induction j arbitrary: out)
  case 0
  then obtain a b c d r where "out = a # b # c # d # r"
    by (auto simp: numeral_eq_Suc Suc_less_eq2 length_Suc_conv less_eq_Suc_le Suc_le_length_iff)
  then show ?case by (simp add: numeral_eq_Suc)
next
  case (Suc j)
  then obtain a r where "out = a # r" by (cases out) auto
  with Suc.IH [of r] Suc.prems show ?case by (simp add: numeral_eq_Suc)
qed

definition quad :: "byte list \<Rightarrow> nat \<Rightarrow> char list" where
  "quad xs i =
     (let v = byte_at xs i * 65536 + byte_at xs (i + 1) * 256 + byte_at xs (i + 2) in
      [sextet (v div 2 ^ 18), sextet (v div 2 ^ 12),
       if i + 1 < length xs then sextet (v div 2 ^ 6) else CHR ''='',
       if i + 2 < length xs then sextet (v div 2 ^ 0) else CHR ''=''])"

lemma b64_body_quad:
  assumes "i < length xs" "j + 3 < length out"
  shows "b64_body xs (length xs) i j out = Inr (take j out @ quad xs i @ drop (j + 4) out)"
proof -
  have "\<not> length xs < min (length xs) (i + 3)" by simp
  with assms(2) have "b64_body xs (length xs) i j out =
     Inr (out[j := b64_char (b64_pack xs (length xs) i) 18,
       j + 1 := b64_char (b64_pack xs (length xs) i) 12,
       j + 2 := (if i + 1 < length xs then b64_char (b64_pack xs (length xs) i) 6 else CHR ''=''),
       j + 3 := (if i + 2 < length xs then b64_char (b64_pack xs (length xs) i) 0 else CHR ''='')])"
    unfolding b64_body_def Let_def by simp
  then show ?thesis
    unfolding update4 [OF assms(2)] quad_def Let_def b64_char_sextet unat_b64_pack [OF assms(1)]
    by simp
qed

lemma sextet_fields:
  assumes "b < 256" "c < 256"
  shows "sextet ((a * 65536 + b * 256 + c) div 2 ^ 18) = sextet (a div 4)"
    "sextet ((a * 65536 + b * 256 + c) div 2 ^ 12) = sextet (a * 16 + b div 16)"
    "sextet ((a * 65536 + b * 256 + c) div 2 ^ 6) = sextet (b * 4 + c div 64)"
    "sextet ((a * 65536 + b * 256 + c) div 2 ^ 0) = sextet c"
proof -
  have "(a * 65536 + b * 256 + c) div 2 ^ 18 = a div 4" using assms by simp
  then show "sextet ((a * 65536 + b * 256 + c) div 2 ^ 18) = sextet (a div 4)" by simp
  have "(a * 65536 + b * 256 + c) div 2 ^ 12 = a * 16 + b div 16" using assms by simp
  then show "sextet ((a * 65536 + b * 256 + c) div 2 ^ 12) = sextet (a * 16 + b div 16)" by simp
  have "(a * 65536 + b * 256 + c) div 2 ^ 6 mod 64 = (b * 4 + c div 64) mod 64"
  proof -
    have "a * 65536 + b * 256 + c = c + (a * 1024 + b * 4) * 64" by simp
    then have "(a * 65536 + b * 256 + c) div 64 = c div 64 + (a * 1024 + b * 4)" by simp
    also have "\<dots> = (b * 4 + c div 64) + (a * 16) * 64" by simp
    finally have x: "(a * 65536 + b * 256 + c) div 64 = (b * 4 + c div 64) + (a * 16) * 64" .
    have e: "(2 :: nat) ^ 6 = 64" by simp
    show ?thesis unfolding e x by (rule mod_mult_self1)
  qed
  then show "sextet ((a * 65536 + b * 256 + c) div 2 ^ 6) = sextet (b * 4 + c div 64)"
    by (simp only: sextet_def)
  have "a * 65536 + b * 256 + c = c + (a * 1024 + b * 4) * 64" by simp
  then have "(a * 65536 + b * 256 + c) mod 64 = c mod 64" by (simp only: mod_mult_self1)
  then show "sextet ((a * 65536 + b * 256 + c) div 2 ^ 0) = sextet c"
    by (simp only: sextet_def power_0 div_by_1)
qed

lemma byte_at_less: "byte_at xs i < 256"
  by (simp add: byte_at_def unat_byte_less)

lemma quad_eq:
  "quad xs i =
     [sextet (byte_at xs i div 4), sextet (byte_at xs i * 16 + byte_at xs (i + 1) div 16),
      if i + 1 < length xs then sextet (byte_at xs (i + 1) * 4 + byte_at xs (i + 2) div 64) else CHR ''='',
      if i + 2 < length xs then sextet (byte_at xs (i + 2)) else CHR ''='']"
  unfolding quad_def Let_def sextet_fields [OF byte_at_less byte_at_less] by (rule refl)

lemma quad_ref_step:
  assumes "i < length xs"
  shows "b64_ref (drop i xs) = quad xs i @ b64_ref (drop (i + 3) xs)"
proof -
  have d: "drop i xs = xs ! i # drop (i + 1) xs"
    using assms by (simp add: Cons_nth_drop_Suc)
  consider "i + 1 = length xs" | "i + 2 = length xs" | "i + 2 < length xs"
    using assms by linarith
  then show ?thesis
  proof cases
    case 1
    then show ?thesis using d by (simp add: quad_eq byte_at_def)
  next
    case 2
    then have "drop (i + 1) xs = [xs ! (i + 1)]"
      by (metis Cons_nth_drop_Suc Suc_eq_plus1 add_2_eq_Suc' drop_eq_Nil le_refl lessI)
    with d 2 show ?thesis by (simp add: quad_eq byte_at_def)
  next
    case 3
    then have e: "drop (i + 1) xs = xs ! (i + 1) # xs ! (i + 2) # drop (i + 3) xs"
      using Cons_nth_drop_Suc [of "i + 1" xs] Cons_nth_drop_Suc [of "i + 2" xs]
      by (simp add: numeral_eq_Suc)
    have "b64_ref (drop i xs) = b64_ref (xs ! i # xs ! (i + 1) # xs ! (i + 2) # drop (i + 3) xs)"
      using d e by argo
    with 3 show ?thesis by (simp add: quad_eq byte_at_def)
  qed
qed

lemma length_b64_ref: "length (b64_ref xs) = 4 * ((length xs + 2) div 3)"
proof (induction xs rule: b64_ref.induct)
  case (4 a b c xs)
  have "(length (a # b # c # xs) + 2) div 3 = Suc ((length xs + 2) div 3)" by simp
  with 4 show ?case by simp
qed auto

lemma b64_loop_ref:
  assumes "j + length (b64_ref (drop i xs)) \<le> length out"
  shows "b64_loop xs (length xs) i j out
    = Inr (take j out @ b64_ref (drop i xs) @ drop (j + length (b64_ref (drop i xs))) out)"
  using assms
proof (induction "length xs - i" arbitrary: i j out rule: less_induct)
  case less
  show ?case
  proof (cases "i < length xs")
    case True
    let ?o = "take j out @ quad xs i @ drop (j + 4) out"
    have q: "length (quad xs i) = 4" by (simp add: quad_def Let_def)
    have l: "length (b64_ref (drop i xs)) = 4 + length (b64_ref (drop (i + 3) xs))"
      using quad_ref_step [OF True] q by simp
    with less.prems have j: "j + 3 < length out" by simp
    have "b64_loop xs (length xs) i j out = b64_loop xs (length xs) (i + 3) (j + 4) ?o"
      using True b64_body_quad [OF True j] by (subst b64_loop.simps) simp
    also have "\<dots> = Inr (take (j + 4) ?o @ b64_ref (drop (i + 3) xs)
        @ drop (j + 4 + length (b64_ref (drop (i + 3) xs))) ?o)"
      using True less.prems l q by (intro less.hyps) auto
    also have "\<dots> = Inr (take j out @ b64_ref (drop i xs)
        @ drop (j + length (b64_ref (drop i xs))) out)"
      using quad_ref_step [OF True] q j l by (simp add: ac_simps)
    finally show ?thesis .
  next
    case False
    then show ?thesis by (subst b64_loop.simps) simp
  qed
qed
section \<open>Sizes, decoding and the whole encoder\<close>

lemma unat_b64_encoded_size:
  assumes "n < 2 ^ 62"
  shows "unat (b64_encoded_size (word_of_nat n)) = 4 * ((n + 2) div 3)"
proof -
  have u: "unat (word_of_nat n :: size_t) = n"
    using assms by (simp add: unat_of_nat)
  have m: "unat ((word_of_nat n :: size_t) mod 3) = n mod 3"
    by (simp add: unat_mod_distrib u)
  have z: "(word_of_nat n :: size_t) mod 3 = 0 \<longleftrightarrow> n mod 3 = 0"
    using m by (metis unat_0 unat_eq_zero)
  define r where "r = (if n mod 3 \<noteq> 0 then n + (3 - n mod 3) else n)"
  have r: "unat (if (word_of_nat n :: size_t) mod 3 \<noteq> 0
      then word_of_nat n + (3 - (word_of_nat n mod 3)) else (word_of_nat n :: size_t)) = r"
  proof (cases "n mod 3 = 0")
    case True
    then show ?thesis using z u by (simp add: r_def)
  next
    case False
    have "(word_of_nat n :: size_t) mod 3 \<le> 3"
      using m by (simp add: word_le_nat_alt)
    then have "unat (3 - (word_of_nat n mod 3) :: size_t) = 3 - n mod 3"
      by (simp add: unat_sub m)
    then show ?thesis
      using False z u assms by (simp add: r_def unat_word_ariths)
  qed
  have "r div 3 = (n + 2) div 3"
  proof -
    define q m where "q = n div 3" and "m = n mod 3"
    have n: "n = 3 * q + m" and "m < 3" by (simp_all add: q_def m_def)
    have r_m: "r = (if m \<noteq> 0 then n + (3 - m) else n)" by (simp add: r_def m_def)
    from \<open>m < 3\<close> consider "m = 0" | "m = 1" | "m = 2" by linarith
    then show ?thesis by cases (simp_all add: r_m n)
  qed
  moreover have "r < 2 ^ 62 + 3" using assms by (auto simp: r_def)
  ultimately show ?thesis
    using r by (simp add: b64_encoded_size_def Let_def unat_word_ariths unat_div_distrib)
qed

lemma length_b64chars: "length b64chars = 64"
  by (simp add: b64chars_def)

lemma distinct_b64chars: "distinct b64chars"
  by (simp add: b64chars_def)

lemma index_of_nth: "distinct xs \<Longrightarrow> i < length xs \<Longrightarrow> index_of (xs ! i) xs = i"
proof (induction xs arbitrary: i)
  case (Cons x xs)
  then show ?case by (cases i) auto
qed simp

lemma unsextet_sextet [simp]: "unsextet (sextet n) = n mod 64"
  unfolding unsextet_def sextet_def
  by (rule index_of_nth [OF distinct_b64chars]) (simp add: length_b64chars)

lemma sextet_not_pad [simp]: "sextet n \<noteq> CHR ''=''"
proof -
  have "sextet n \<in> set b64chars" by (simp add: sextet_def length_b64chars)
  moreover have "CHR ''='' \<notin> set b64chars" by (simp add: b64chars_def)
  ultimately show ?thesis by auto
qed

lemma field_mod:
  assumes "x < 16" "y < 4"
  shows "(a * 16 + x) mod 64 = (a mod 4) * 16 + (x :: nat)"
    and "(a * 4 + y) mod 64 = (a mod 16) * 4 + (y :: nat)"
proof -
  have "a * 16 + x = ((a mod 4) * 16 + x) + (a div 4) * 64"
    using div_mult_mod_eq [of a 4] by linarith
  moreover have "(a mod 4) * 16 + x < 64"
    using assms(1) mod_less_divisor [of 4 a] by linarith
  ultimately show "(a * 16 + x) mod 64 = (a mod 4) * 16 + x"
    by (simp only: mod_mult_self1 mod_less)
  have "a * 4 + y = ((a mod 16) * 4 + y) + (a div 16) * 64"
    using div_mult_mod_eq [of a 16] by linarith
  moreover have "(a mod 16) * 4 + y < 64"
    using assms(2) mod_less_divisor [of 16 a] by linarith
  ultimately show "(a * 4 + y) mod 64 = (a mod 16) * 4 + y"
    by (simp only: mod_mult_self1 mod_less)
qed

lemma word_of_nat_byte:
  assumes "n = unat b + k * 256"
  shows "word_of_nat n = (b :: byte)"
proof -
  have "unat (word_of_nat n :: byte) = n mod 256" by (simp add: unat_of_nat)
  also have "\<dots> = unat b" using assms unat_byte_less [of b] by simp
  finally show ?thesis by (rule word_unat_eq_iff [THEN iffD2])
qed

lemma b64_fields:
  fixes a b c :: byte
  shows "word_of_nat ((unat a div 4) mod 64 * 4 + (unat a * 16) mod 64 div 16) = a"
    and "word_of_nat ((unat a div 4) mod 64 * 4 + (unat a * 16 + unat b div 16) mod 64 div 16) = a"
    and "word_of_nat ((unat a * 16 + unat b div 16) mod 64 * 16 + (unat b * 4) mod 64 div 4) = b"
    and "word_of_nat ((unat a * 16 + unat b div 16) mod 64 * 16
           + (unat b * 4 + unat c div 64) mod 64 div 4) = b"
    and "word_of_nat ((unat b * 4 + unat c div 64) mod 64 * 64 + unat c mod 64) = c"
proof -
  have l: "unat a div 4 < 64" "unat b div 16 < 16" "unat c div 64 < 4"
    using unat_byte_less [of a] unat_byte_less [of b] unat_byte_less [of c] by simp_all
  have s1: "unat a = unat a div 4 * 4 + unat a mod 4" by simp
  have s2: "unat b = unat b div 16 * 16 + unat b mod 16" by simp
  have s3: "unat c = unat c div 64 * 64 + unat c mod 64" by simp
  note f = field_mod(1) [OF l(2) l(3), of "unat a"] field_mod(2) [OF l(2) l(3), of "unat b"]
  note f0 = field_mod(1) [of 0 0 "unat a", simplified] field_mod(2) [of 0 0 "unat b", simplified]
  have d: "(unat a mod 4 * 16 + unat b div 16) div 16 = unat a mod 4"
    "(unat b mod 16 * 4 + unat c div 64) div 4 = unat b mod 16"
    using l by simp_all
  show "word_of_nat ((unat a div 4) mod 64 * 4 + (unat a * 16) mod 64 div 16) = a"
    using l s1 by (intro word_of_nat_byte [where k = 0]) (simp add: f0)
  show "word_of_nat ((unat a div 4) mod 64 * 4 + (unat a * 16 + unat b div 16) mod 64 div 16) = a"
    using l s1 by (intro word_of_nat_byte [where k = 0]) (simp add: f d)
  show "word_of_nat ((unat a * 16 + unat b div 16) mod 64 * 16 + (unat b * 4) mod 64 div 4) = b"
    using l s2 by (intro word_of_nat_byte [where k = "unat a mod 4"]) (simp add: f f0 d)
  show "word_of_nat ((unat a * 16 + unat b div 16) mod 64 * 16
           + (unat b * 4 + unat c div 64) mod 64 div 4) = b"
    using l s2 by (intro word_of_nat_byte [where k = "unat a mod 4"]) (simp add: f d)
  show "word_of_nat ((unat b * 4 + unat c div 64) mod 64 * 64 + unat c mod 64) = c"
    using l s3 by (intro word_of_nat_byte [where k = "unat b mod 16"]) (simp add: f d)
qed

lemma b64_unref_ref: "b64_unref (b64_ref xs) = xs"
  by (induction xs rule: b64_ref.induct) (simp_all add: b64_fields Let_def del: of_nat_add of_nat_mult)

lemma b64_encode_ref:
  assumes "bs \<noteq> []" and "length bs < 2 ^ 62"
    and mem: "\<And>k. \<exists>blk. mem k = Some blk \<and> length blk = k"
  shows "b64_encode mem (Some bs) (word_of_nat (length bs)) = Inr (Some (b64_ref bs @ [CHR 0x00]))"
proof -
  let ?n = "length bs" and ?w = "word_of_nat (length bs) :: size_t"
  have u: "unat ?w = ?n" using assms(2) by (simp add: unat_of_nat)
  have w0: "?w \<noteq> 0" using u assms(1) by auto
  have e: "unat (b64_encoded_size ?w) = length (b64_ref bs)"
    using unat_b64_encoded_size [OF assms(2)] by (simp add: length_b64_ref)
  have "length (b64_ref bs) < 2 ^ 63" using assms(2) by (simp add: length_b64_ref)
  with e have e1: "unat (b64_encoded_size ?w + 1) = length (b64_ref bs) + 1"
    by (simp add: unat_word_ariths)
  obtain blk where blk: "mem (length (b64_ref bs) + 1) = Some blk"
    and l: "length blk = length (b64_ref bs) + 1"
    using mem by blast
  let ?o = "blk[length (b64_ref bs) := CHR 0x00]"
  have "b64_loop bs ?n 0 0 ?o = Inr (b64_ref bs @ drop (length (b64_ref bs)) ?o)"
    using b64_loop_ref [of 0 0 bs ?o] l by simp
  moreover have "drop (length (b64_ref bs)) ?o = [CHR 0x00]"
    using l Cons_nth_drop_Suc [of "length (b64_ref bs)" ?o] by simp
  ultimately show ?thesis
    using w0 u e e1 blk l by (simp add: b64_encode_def Let_def)
qed

section \<open>Property\<close>

text \<open>
  C33. On a non-empty input of fewer than \<open>2 ^ 62\<close> bytes, with an allocator that delivers what
  it is asked for, the encoder never leaves its buffers, writes exactly \<open>b64_encoded_size\<close>
  characters and the terminator, and what it writes decodes to the input.
\<close>

theorem b64_encode_roundtrip:
  assumes "bs \<noteq> []" and "length bs < 2 ^ 62"
    and "\<And>k. \<exists>blk. mem k = Some blk \<and> length blk = k"
  shows "\<exists>out. b64_encode mem (Some bs) (word_of_nat (length bs)) = Inr (Some (out @ [CHR 0x00]))
    \<and> length out = unat (b64_encoded_size (word_of_nat (length bs)))
    \<and> out = b64_ref bs \<and> b64_unref out = bs"
  using b64_encode_ref [OF assms] unat_b64_encoded_size [OF assms(2)]
  by (auto simp: length_b64_ref b64_unref_ref)

theorem b64_encode_roundtrip_witness:
  "\<exists>out. b64_encode (\<lambda>k. Some (replicate k CHR ''?'')) (Some [0x4D, 0x61]) 2
      = Inr (Some (out @ [CHR 0x00])) \<and> b64_unref out = [0x4D, 0x61]"
  using b64_encode_roundtrip [of "[0x4D, 0x61]" "\<lambda>k. Some (replicate k CHR ''?'')"] by auto

end
