(* ===== verification/CppBase64.thy ===== *)
theory CppBase64
  imports CBase64
begin

unbundle bit_operations_syntax

text \<open>
  The base64 encoder of \<open>examples/cpp/base64.cpp\<close>. It is the C encoder with two changes: the input
  is a pointer to plain \<open>char\<close>, whose conversion to \<open>size_t\<close> extends the sign where the platform's
  \<open>char\<close> is signed, and the output goes into the reserved storage of a vector whose size stays
  what it was. The proofs compute what a signed \<open>char\<close> does to the encoding.
\<close>

section \<open>The code\<close>

definition b64_encoded_size_cpp :: "size_t \<Rightarrow> size_t" where
  "b64_encoded_size_cpp inlen =
     (let ret = inlen;
          ret = (if inlen mod 3 \<noteq> 0 then ret + (3 - (inlen mod 3)) else ret);
          ret = ret div 3;
          ret = ret * 4
      in ret)"

definition b64chars_cpp :: string where
  "b64chars_cpp = ''ABCDEFGHIJKLMNOPQRSTUVWXYZabcdefghijklmnopqrstuvwxyz0123456789+/''"

text \<open>
  Whether \<open>char\<close> is signed is the implementation's choice, the parameter \<open>schar\<close>; a \<open>char\<close> is
  given by its byte.
\<close>

definition widen :: "bool \<Rightarrow> byte \<Rightarrow> size_t" where
  "widen schar c = (if schar then scast c else ucast c)"

definition cpp_pack :: "bool \<Rightarrow> byte list \<Rightarrow> nat \<Rightarrow> nat \<Rightarrow> size_t" where
  "cpp_pack schar inp len i =
     (let v = widen schar (inp ! i);
          v = (if i + 1 < len then push_bit 8 v OR widen schar (inp ! (i + 1)) else push_bit 8 v)
      in if i + 2 < len then push_bit 8 v OR widen schar (inp ! (i + 2)) else push_bit 8 v)"

definition cpp_char :: "size_t \<Rightarrow> nat \<Rightarrow> char" where
  "cpp_char v k = b64chars_cpp ! unat (drop_bit k v AND 0x3F)"

definition cpp_body ::
  "bool \<Rightarrow> byte list \<Rightarrow> nat \<Rightarrow> nat \<Rightarrow> nat \<Rightarrow> char list \<Rightarrow> c_fault + char list" where
  "cpp_body schar inp len i j out =
     (if length inp < min len (i + 3) then Inl OutOfBounds
      else let v = cpp_pack schar inp len i in
        rbind (put out j (cpp_char v 18)) (\<lambda>out.
        rbind (put out (j + 1) (cpp_char v 12)) (\<lambda>out.
        rbind (put out (j + 2) (if i + 1 < len then cpp_char v 6 else CHR ''='')) (\<lambda>out.
        put out (j + 3) (if i + 2 < len then cpp_char v 0 else CHR ''='')))))"

function cpp_loop ::
  "bool \<Rightarrow> byte list \<Rightarrow> nat \<Rightarrow> nat \<Rightarrow> nat \<Rightarrow> char list \<Rightarrow> c_fault + char list" where
  "cpp_loop schar inp len i j out =
     (if i < len
      then rbind (cpp_body schar inp len i j out) (cpp_loop schar inp len (i + 3) (j + 4))
      else Inr out)"
  by pat_completeness auto
termination
  by (relation "measure (\<lambda>(schar, inp, len, i, j, out). len - i)") auto

declare cpp_loop.simps [simp del]

text \<open>
  The vector: its size and its storage, which \<open>reserve\<close> enlarges to at least the wanted number of
  characters (\<open>mem\<close> gives the new storage) without changing the size. The writes \<open>out[j]\<close> are
  at or beyond the size, where the standard promises nothing; the model follows them into the
  storage.
\<close>

record vec =
  vsize :: nat
  storage :: "char list"

definition reserve :: "(nat \<Rightarrow> char list) \<Rightarrow> nat \<Rightarrow> vec \<Rightarrow> vec" where
  "reserve mem n v =
     (if n \<le> length (storage v) then v
      else v\<lparr>storage := take (vsize v) (storage v) @ drop (vsize v) (mem n)\<rparr>)"

definition cpp_b64_encode ::
  "(nat \<Rightarrow> char list) \<Rightarrow> bool \<Rightarrow> byte list option \<Rightarrow> size_t \<Rightarrow> vec \<Rightarrow> c_fault + vec" where
  "cpp_b64_encode mem schar inp len out =
     (case inp of None \<Rightarrow> Inr out
      | Some bs \<Rightarrow>
         if len = 0 then Inr out
         else let elen = b64_encoded_size_cpp len; out = reserve mem (unat (elen + 1)) out in
           rbind (cpp_loop schar bs (unat len) 0 0 (storage out)) (\<lambda>s. Inr (out\<lparr>storage := s\<rparr>)))"

section \<open>What the sign extension does\<close>

text \<open>
  A byte of at least \<open>0x80\<close> in the second or third place of a group sets every bit above its
  own, so the bytes before it in the group read as \<open>0xFF\<close>.
\<close>

fun smear :: "byte list \<Rightarrow> byte list" where
  "smear [] = []"
| "smear [a] = [a]"
| "smear [a, b] = [if bit b 7 then 0xFF else a, b]"
| "smear (a # b # c # xs) =
     [if bit b 7 \<or> bit c 7 then 0xFF else a, if bit c 7 then 0xFF else b, c] @ smear xs"

definition seen_as :: "bool \<Rightarrow> byte list \<Rightarrow> byte list" where
  "seen_as schar xs = (if schar then smear xs else xs)"

lemma b64_encoded_size_cpp_eq: "b64_encoded_size_cpp n = b64_encoded_size n"
  by (simp add: b64_encoded_size_cpp_def b64_encoded_size_def)

lemma cpp_char_eq: "cpp_char v k = b64_char v k"
  by (simp add: cpp_char_def b64_char_def b64chars_cpp_def b64chars_def)

lemma length_smear [simp]: "length (smear xs) = length xs"
  by (induction xs rule: smear.induct) auto

lemma bit_scast_byte: "bit (scast (c :: byte) :: size_t) n \<longleftrightarrow> n < 64 \<and> bit c (min n 7)"
  by (auto simp: bit_simps min_def dest: bit_imp_le_length)

lemma bit_FF: "bit (0xFF :: byte) n \<longleftrightarrow> n < 8"
proof -
  have "(0xFF :: byte) = mask 8" by (simp add: mask_numeral)
  then have "bit (0xFF :: byte) n \<longleftrightarrow> bit (mask 8 :: byte) n" by (rule arg_cong)
  also have "\<dots> \<longleftrightarrow> n < 8" unfolding bit_mask_iff by simp
  finally show ?thesis .
qed

lemma bit_byte_le: "bit (c :: byte) n \<Longrightarrow> n < 8"
  using bit_imp_le_length [of c n] by simp

lemma take_bit_pack3:
  fixes F :: byte
  assumes F: "\<And>n. bit F n \<longleftrightarrow> n < 8"
  shows "take_bit 24 (push_bit 8 (push_bit 8 (scast a) OR scast b) OR scast (c :: byte) :: size_t)
   = push_bit 8 (push_bit 8 (ucast (if bit b 7 \<or> bit c 7 then F else (a :: byte)))
       OR ucast (if bit c 7 then F else (b :: byte))) OR ucast c"
proof (rule bit_eqI)
  fix n :: nat
  consider "n < 8" | "8 \<le> n" "n < 16" | "16 \<le> n" "n < 24" | "24 \<le> n" by linarith
  then show "bit (take_bit 24 (push_bit 8 (push_bit 8 (scast a) OR scast b) OR scast c :: size_t)) n
    = bit (push_bit 8 (push_bit 8 (ucast (if bit b 7 \<or> bit c 7 then F else a))
       OR ucast (if bit c 7 then F else b)) OR ucast c :: size_t) n"
    by cases (auto simp: bit_or_iff bit_push_bit_iff bit_take_bit_iff bit_scast_byte bit_ucast_iff
      F min_def dest: bit_byte_le)
qed


lemma take_bit_pack2:
  fixes F :: byte
  assumes F: "\<And>n. bit F n \<longleftrightarrow> n < 8"
  shows "take_bit 24 (push_bit 8 (push_bit 8 (scast a) OR scast (b :: byte)) :: size_t)
   = push_bit 8 (push_bit 8 (ucast (if bit b 7 then F else (a :: byte))) OR ucast b)"
proof (rule bit_eqI)
  fix n :: nat
  consider "n < 8" | "8 \<le> n" "n < 16" | "16 \<le> n" "n < 24" | "24 \<le> n" by linarith
  then show "bit (take_bit 24 (push_bit 8 (push_bit 8 (scast a) OR scast b) :: size_t)) n
    = bit (push_bit 8 (push_bit 8 (ucast (if bit b 7 then F else a)) OR ucast b) :: size_t) n"
    by cases (auto simp: bit_or_iff bit_push_bit_iff bit_take_bit_iff bit_scast_byte bit_ucast_iff
      F min_def dest: bit_byte_le)
qed

lemma take_bit_pack1:
  "take_bit 24 (push_bit 8 (push_bit 8 (scast a)) :: size_t) = push_bit 8 (push_bit 8 (ucast (a :: byte)))"
proof (rule bit_eqI)
  fix n :: nat
  consider "n < 8" | "8 \<le> n" "n < 16" | "16 \<le> n" "n < 24" | "24 \<le> n" by linarith
  then show "bit (take_bit 24 (push_bit 8 (push_bit 8 (scast a)) :: size_t)) n
    = bit (push_bit 8 (push_bit 8 (ucast a)) :: size_t) n"
    by cases (auto simp: bit_or_iff bit_push_bit_iff bit_take_bit_iff bit_scast_byte bit_ucast_iff
      min_def dest: bit_byte_le)
qed

text \<open>Only the low 24 bits reach the output.\<close>

lemma b64_char_low:
  assumes "k \<le> 18"
  shows "b64_char (take_bit 24 v) k = b64_char v k"
proof -
  have "drop_bit k (take_bit 24 v) AND 0x3F = drop_bit k v AND (0x3F :: size_t)"
  proof (rule bit_eqI)
    fix n
    have "bit (0x3F :: size_t) n \<longleftrightarrow> n < 6"
      using bit_mask_iff [of 6 n, where 'a = size_t] by (auto simp: mask_numeral)
    then show "bit (drop_bit k (take_bit 24 v) AND 0x3F) n = bit (drop_bit k v AND (0x3F :: size_t)) n"
      using assms by (auto simp: bit_and_iff bit_drop_bit_eq bit_take_bit_iff)
  qed
  then show ?thesis by (simp add: b64_char_def)
qed

definition group :: "'a list \<Rightarrow> nat \<Rightarrow> 'a list" where
  "group xs i = take 3 (drop i xs)"

lemma smear_append_group: "smear (drop i xs) = smear (group xs i) @ smear (drop (i + 3) xs)"
proof -
  have "drop (i + 3) xs = drop 3 (drop i xs)" by (simp add: add.commute)
  then show ?thesis
    by (cases "drop i xs" rule: smear.cases) (auto simp: group_def numeral_3_eq_3)
qed

lemma cpp_pack_low:
  assumes "i < length xs"
  shows "take_bit 24 (cpp_pack True xs (length xs) i)
    = b64_pack (smear (group xs i)) (length (group xs i)) 0"
proof -
  have d: "drop i xs = xs ! i # drop (i + 1) xs" using assms by (simp add: Cons_nth_drop_Suc)
  consider "i + 1 = length xs" | "i + 2 = length xs" | "i + 2 < length xs" using assms by linarith
  then show ?thesis
  proof cases
    case 1
    then have "group xs i = [xs ! i]" using d by (simp add: group_def)
    with 1 show ?thesis
      by (simp add: cpp_pack_def b64_pack_def widen_def take_bit_pack1
        del: push_bit_push_bit push_bit_or take_bit_or unsigned_numeral)
  next
    case 2
    then have "drop (i + 1) xs = [xs ! (i + 1)]"
      by (metis Cons_nth_drop_Suc Suc_eq_plus1 add_2_eq_Suc' drop_eq_Nil le_refl lessI)
    then have "group xs i = [xs ! i, xs ! (i + 1)]" using d by (simp add: group_def)
    moreover from 2 have "i + 1 < length xs" "\<not> i + 2 < length xs" by simp_all
    ultimately show ?thesis
      by (simp add: cpp_pack_def b64_pack_def widen_def take_bit_pack2 [OF bit_FF]
        del: push_bit_push_bit push_bit_or take_bit_or unsigned_numeral)
  next
    case 3
    then have "drop (i + 1) xs = xs ! (i + 1) # xs ! (i + 2) # drop (i + 3) xs"
      using Cons_nth_drop_Suc [of "i + 1" xs] Cons_nth_drop_Suc [of "i + 2" xs]
      by (simp add: numeral_eq_Suc)
    then have "group xs i = [xs ! i, xs ! (i + 1), xs ! (i + 2)]" using d
      by (simp add: group_def numeral_eq_Suc)
    with 3 show ?thesis
      by (simp add: cpp_pack_def b64_pack_def widen_def take_bit_pack3 [OF bit_FF]
        del: push_bit_push_bit push_bit_or take_bit_or unsigned_numeral)
  qed
qed


lemma cpp_pack_unsigned: "cpp_pack False xs n i = b64_pack xs n i"
  by (simp add: cpp_pack_def b64_pack_def widen_def Let_def)

lemma smear_group_ne:
  assumes "i < length xs"
  shows "smear (group xs i) \<noteq> []" "0 < length (smear (group xs i))" "length (smear (group xs i)) \<le> 3"
proof -
  show "0 < length (smear (group xs i))" "length (smear (group xs i)) \<le> 3"
    using assms by (auto simp: group_def)
  then show "smear (group xs i) \<noteq> []" by (metis length_greater_0_conv)
qed

lemma cpp_body_signed:
  assumes "i < length xs" "j + 3 < length out"
  shows "cpp_body True xs (length xs) i j out
    = Inr (take j out @ b64_ref (smear (group xs i)) @ drop (j + 4) out)"
proof -
  let ?g = "smear (group xs i)"
  note g = smear_group_ne [OF assms(1)]
  have c: "b64_char (cpp_pack True xs (length xs) i) k = b64_char (b64_pack ?g (length ?g) 0) k"
    if "k \<le> 18" for k
    using b64_char_low [OF that, of "cpp_pack True xs (length xs) i"] cpp_pack_low [OF assms(1)] by simp
  have "i + 1 < length xs \<longleftrightarrow> 0 + 1 < length ?g" "i + 2 < length xs \<longleftrightarrow> 0 + 2 < length ?g"
    "\<not> length xs < min (length xs) (i + 3)" "\<not> length ?g < min (length ?g) (0 + 3)"
    using assms(1) by (auto simp: group_def)
  then have "cpp_body True xs (length xs) i j out = b64_body ?g (length ?g) 0 j out"
    by (simp add: cpp_body_def b64_body_def cpp_char_eq c Let_def)
  also have "\<dots> = Inr (take j out @ quad ?g 0 @ drop (j + 4) out)"
    using g assms(2) by (intro b64_body_quad)
  also have "quad ?g 0 = b64_ref ?g"
    using quad_ref_step [OF g(2)] g(3) by simp
  finally show ?thesis .
qed

lemma b64_ref_group:
  assumes "i < length xs"
  shows "b64_ref (smear (drop i xs)) = b64_ref (smear (group xs i)) @ b64_ref (smear (drop (i + 3) xs))"
    and "length (b64_ref (smear (group xs i))) = 4"
proof -
  let ?g = "smear (group xs i)"
  note g = smear_group_ne [OF assms]
  have "b64_ref ?g = quad ?g 0" using quad_ref_step [OF g(2)] g(3) by simp
  then show "length (b64_ref ?g) = 4" by (simp add: quad_def Let_def)
  have d: "drop (i + 3) xs = drop 3 (drop i xs)" by (simp add: add.commute)
  show "b64_ref (smear (drop i xs)) = b64_ref ?g @ b64_ref (smear (drop (i + 3) xs))"
    unfolding d group_def by (cases "drop i xs" rule: smear.cases) (simp_all add: numeral_3_eq_3)
qed

lemma cpp_loop_signed:
  assumes "j + length (b64_ref (smear (drop i xs))) \<le> length out"
  shows "cpp_loop True xs (length xs) i j out = Inr (take j out @ b64_ref (smear (drop i xs))
    @ drop (j + length (b64_ref (smear (drop i xs)))) out)"
  using assms
proof (induction "length xs - i" arbitrary: i j out rule: less_induct)
  case less
  show ?case
  proof (cases "i < length xs")
    case True
    let ?q = "b64_ref (smear (group xs i))"
    let ?o = "take j out @ ?q @ drop (j + 4) out"
    note g = b64_ref_group [OF True]
    from less.prems g have j: "j + 3 < length out" by simp
    have "cpp_loop True xs (length xs) i j out = cpp_loop True xs (length xs) (i + 3) (j + 4) ?o"
      using True cpp_body_signed [OF True j] by (subst cpp_loop.simps) simp
    also have "\<dots> = Inr (take (j + 4) ?o @ b64_ref (smear (drop (i + 3) xs))
        @ drop (j + 4 + length (b64_ref (smear (drop (i + 3) xs)))) ?o)"
      using True less.prems g by (intro less.hyps) auto
    also have "\<dots> = Inr (take j out @ b64_ref (smear (drop i xs))
        @ drop (j + length (b64_ref (smear (drop i xs)))) out)"
      using g j by (simp add: ac_simps)
    finally show ?thesis .
  next
    case False
    then show ?thesis by (subst cpp_loop.simps) simp
  qed
qed

lemma cpp_loop_unsigned: "cpp_loop False xs n i j out = b64_loop xs n i j out"
proof (induction xs n i j out rule: b64_loop.induct)
  case (1 inp len i j out)
  have "cpp_body False inp len i j out = b64_body inp len i j out"
    by (simp add: cpp_body_def b64_body_def cpp_pack_unsigned cpp_char_eq Let_def)
  then show ?case
    using 1 by (subst cpp_loop.simps, subst b64_loop.simps) (auto simp: rbind_def split: sum.split)
qed

lemma cpp_loop_ref:
  assumes "length (b64_ref (seen_as schar xs)) \<le> length out"
  shows "cpp_loop schar xs (length xs) 0 0 out
    = Inr (b64_ref (seen_as schar xs) @ drop (length (b64_ref (seen_as schar xs))) out)"
  using assms cpp_loop_signed [of 0 0 xs out] b64_loop_ref [of 0 0 xs out]
  by (cases schar) (simp_all add: seen_as_def cpp_loop_unsigned)

lemma length_seen_as [simp]: "length (seen_as schar xs) = length xs"
  by (simp add: seen_as_def)

lemma cpp_encode_ref:
  assumes "bs \<noteq> []" "length bs < 2 ^ 62" and mem: "\<And>k. k \<le> length (mem k)"
  shows "\<exists>rest. cpp_b64_encode mem schar (Some bs) (word_of_nat (length bs)) \<lparr>vsize = 0, storage = []\<rparr>
      = Inr \<lparr>vsize = 0, storage = b64_ref (seen_as schar bs) @ rest\<rparr>
    \<and> rest = drop (length (b64_ref bs)) (mem (length (b64_ref bs) + 1))"
proof -
  let ?n = "length bs" and ?w = "word_of_nat (length bs) :: size_t"
  have u: "unat ?w = ?n" using assms(2) by (simp add: unat_of_nat)
  have w0: "?w \<noteq> 0" using u assms(1) by auto
  have e: "unat (b64_encoded_size_cpp ?w) = length (b64_ref bs)"
    using unat_b64_encoded_size [OF assms(2)] by (simp add: length_b64_ref b64_encoded_size_cpp_eq)
  have "length (b64_ref bs) < 2 ^ 63" using assms(2) by (simp add: length_b64_ref)
  with e have e1: "unat (b64_encoded_size_cpp ?w + 1) = length (b64_ref bs) + 1"
    by (simp add: unat_word_ariths)
  let ?o = "mem (length (b64_ref bs) + 1)"
  have len: "length (b64_ref (seen_as schar bs)) = length (b64_ref bs)" by (simp add: length_b64_ref)
  have "length (b64_ref bs) + 1 \<le> length ?o" by (rule mem)
  then have "cpp_loop schar bs ?n 0 0 ?o = Inr (b64_ref (seen_as schar bs) @ drop (length (b64_ref bs)) ?o)"
    using cpp_loop_ref [of schar bs ?o] len by simp
  then show ?thesis
    using w0 u e1 by (simp add: cpp_b64_encode_def Let_def reserve_def)
qed


section \<open>When the encoding is right\<close>

text \<open>The places, counted from \<open>k\<close>, of the bytes with the top bit.\<close>

fun high_places :: "nat \<Rightarrow> byte list \<Rightarrow> nat list" where
  "high_places k [] = []"
| "high_places k (c # cs) = (if bit c 7 then [k] else []) @ high_places (Suc k) cs"

definition clean :: "byte list \<Rightarrow> bool" where
  "clean xs \<longleftrightarrow> list_all (\<lambda>i. i mod 3 = 0) (high_places 0 xs)"

lemma high_places_add: "high_places (k + d) xs = map (\<lambda>i. i + d) (high_places k xs)"
proof (induction xs arbitrary: k)
  case (Cons c cs)
  show ?case using Cons [of "Suc k"] by simp
qed simp

lemma clean_3: "clean (a # b # c # xs) \<longleftrightarrow> \<not> bit b 7 \<and> \<not> bit c 7 \<and> clean xs"
proof -
  have "high_places 3 xs = map (\<lambda>i. i + 3) (high_places 0 xs)"
    using high_places_add [of 0 3 xs] by simp
  then have "high_places (Suc (Suc (Suc 0))) xs = map (\<lambda>i. i + 3) (high_places 0 xs)"
    by (simp add: numeral_3_eq_3)
  then show ?thesis by (auto simp: clean_def list.pred_map comp_def)
qed

lemma smear_id_iff: "0xFF \<notin> set xs \<Longrightarrow> smear xs = xs \<longleftrightarrow> clean xs"
  by (induction xs rule: smear.induct) (auto simp: clean_3, auto simp: clean_def)

section \<open>Property\<close>

text \<open>
  The C++ encoder stays inside the storage it reserves and writes there as many characters
  as the C encoder, but leaves the size of the vector at zero and writes no terminator. With an
  unsigned \<open>char\<close> the characters decode to the input. With a signed \<open>char\<close> they decode to the
  input whose groups have been overwritten by the sign extension; for an input without a byte
  \<open>0xFF\<close>, such as any UTF-8 text, that is the input exactly when every non-ASCII byte is the first
  of its group of three.
\<close>

lemma cpp_b64_encode_decodes:
  assumes "bs \<noteq> []" and "length bs < 2 ^ 62" and "\<And>k. k \<le> length (mem k)"
  shows "\<exists>out. cpp_b64_encode mem schar (Some bs) (word_of_nat (length bs)) \<lparr>vsize = 0, storage = []\<rparr>
      = Inr \<lparr>vsize = 0, storage = out @ drop (length out) (mem (length out + 1))\<rparr>
    \<and> length out = unat (b64_encoded_size (word_of_nat (length bs)))
    \<and> b64_unref out = (if schar then smear bs else bs)
    \<and> (0xFF \<notin> set bs \<longrightarrow> (b64_unref out = bs \<longleftrightarrow> \<not> schar \<or> clean bs))"
  using cpp_encode_ref [of bs mem schar, OF assms] unat_b64_encoded_size [OF assms(2)] smear_id_iff [of bs]
  by (intro exI [of _ "b64_ref (seen_as schar bs)"])
    (auto simp: length_b64_ref b64_unref_ref seen_as_def)

lemma cpp_b64_encode_decodes_example:
  "\<exists>out. cpp_b64_encode (\<lambda>k. replicate k CHR ''?'') True (Some [0x68, 0xC3, 0xA9]) 3
        \<lparr>vsize = 0, storage = []\<rparr>
      = Inr \<lparr>vsize = 0, storage = out @ drop (length out) (replicate (length out + 1) CHR ''?'')\<rparr>
    \<and> b64_unref out = [0xFF, 0xFF, 0xA9]"
  using cpp_b64_encode_decodes [of "[0x68, 0xC3, 0xA9]" "\<lambda>k. replicate k CHR ''?''" True]
  by (auto simp: bit_numeral_rec)

end
