(* ===== verification/CppWakuExample.thy ===== *)
theory CppWakuExample
  imports CWakuExample CppBase64
begin

text \<open>
  The C++ client \<open>examples/cpp/waku.cpp\<close>: its options and configuration text, the callback adaptor
  \<open>cify\<close>, which signals the waiting thread before it runs the handler, as a step relation, the
  macro \<open>WAKU_CALL\<close> that goes on after a failure, the menu and \<open>main\<close> as the events they cause.
\<close>

section \<open>Options and configuration\<close>

record cpp_ConfigNode =
  cpp_host :: string
  cpp_port :: int
  cpp_key :: string
  cpp_relay :: int
  cpp_peers :: string

definition cpp_options :: "(string \<times> char \<times> string \<times> int \<times> string) list" where
  \<open>cpp_options =
     [(''host'', CHR ''h'', ''HOST'', 0, ''IP to listen for for LibP2P traffic. (default: "0.0.0.0")''),
      (''port'', CHR ''p'', ''PORT'', 0, ''TCP listening port. (default: "60000")''),
      (''key'', CHR ''k'', ''KEY'', 0, ''P2P node private key as 64 char hex string.''),
      (''relay'', CHR ''r'', ''RELAY'', 0, ''Enable relay protocol: 1 or 0. (default: 1)''),
      (''peers'', CHR ''a'', ''PEERS'', 0, ''Comma-separated list of peer-multiaddress to connect to. ''
        @ ''(default: "") e.g. "/ip4/127.0.0.1/tcp/60001/p2p/''
        @ ''16Uiu2HAmVFXtAfSj4EiR7mL2KvL4EE2wztuQgUSBoj2Jx2KeXFLN"'')]\<close>

datatype cpp_argp_result = Cpp_parsed cpp_ConfigNode | Cpp_unknown | Cpp_usage

definition cpp_parse_opt ::
  "argp_key \<Rightarrow> string \<Rightarrow> nat \<Rightarrow> cpp_ConfigNode \<Rightarrow> cpp_argp_result" where
  "cpp_parse_opt key arg arg_num cfg =
     (case key of
        Opt c \<Rightarrow>
          (if c = CHR ''h'' then Cpp_parsed (cfg\<lparr>cpp_host := snprintf 128 arg\<rparr>)
           else if c = CHR ''p'' then Cpp_parsed (cfg\<lparr>cpp_port := atoi arg\<rparr>)
           else if c = CHR ''k'' then Cpp_parsed (cfg\<lparr>cpp_key := snprintf 128 arg\<rparr>)
           else if c = CHR ''r'' then Cpp_parsed (cfg\<lparr>cpp_relay := atoi arg\<rparr>)
           else if c = CHR ''a'' then Cpp_parsed (cfg\<lparr>cpp_peers := snprintf 2048 arg\<rparr>)
           else Cpp_unknown)
      | ARGP_KEY_ARG \<Rightarrow> if arg_num \<ge> 1 then Cpp_usage else Cpp_parsed cfg
      | ARGP_KEY_END \<Rightarrow> Cpp_parsed cfg
      | Other_key \<Rightarrow> Cpp_unknown)"

text \<open>The defaults of \<open>main\<close>; the \<open>peers\<close> keep what the stack held.\<close>

definition cpp_defaults :: "cpp_ConfigNode \<Rightarrow> cpp_ConfigNode" where
  "cpp_defaults junk = junk\<lparr>cpp_host := snprintf 128 ''0.0.0.0'',
     cpp_key := snprintf 128 ''364d111d729a6eb6d2e6113e163f017b5ef03a6f94c9b5b7bb1bb36fa5cb07a9'',
     cpp_port := 60000, cpp_relay := 1\<rparr>"

definition cpp_sample_config :: cpp_ConfigNode where
  "cpp_sample_config = cpp_defaults
     \<lparr>cpp_host = [], cpp_port = 0, cpp_key = [], cpp_relay = 0, cpp_peers = []\<rparr>"

fun cpp_argp_parse :: "(argp_key \<times> string \<times> nat) list \<Rightarrow> cpp_ConfigNode \<Rightarrow> cpp_argp_result" where
  "cpp_argp_parse [] c = Cpp_parsed c"
| "cpp_argp_parse ((k, arg, n) # r) c =
     (case cpp_parse_opt k arg n c of Cpp_parsed c' \<Rightarrow> cpp_argp_parse r c' | e \<Rightarrow> e)"

lemma cpp_parse_opt_fits:
  "cpp_parse_opt k a n c = Cpp_parsed c' \<Longrightarrow> length (cpp_host c) < 128 \<Longrightarrow> length (cpp_host c') < 128"
  by (auto simp: cpp_parse_opt_def length_snprintf split: argp_key.splits if_splits)

lemma cpp_argp_parse_fits:
  "cpp_argp_parse as c = Cpp_parsed c' \<Longrightarrow> length (cpp_host c) < 128 \<Longrightarrow> length (cpp_host c') < 128"
  by (induction as c rule: cpp_argp_parse.induct)
    (auto split: cpp_argp_result.splits intro: cpp_parse_opt_fits)

definition cpp_config_text :: "cpp_ConfigNode \<Rightarrow> string list" where
  \<open>cpp_config_text c = [
      ''{'',
      blanks 37,
      ''"host": "'',
      cpp_host c,
      ''",'',
      blanks 39,
      ''"port": '',
      show_int (cpp_port c),
      '','',
      blanks 43,
      ''"relay": true,'',
      blanks 42,
      ''"clusterId": 16,'',
      blanks 37,
      ''"shards": [ 1, 32, 64, 128, 256 ],'',
      blanks 37,
      ''"logLevel": "FATAL",'',
      blanks 37,
      ''"discv5Discovery": true,'',
      blanks 37,
      ''"discv5BootstrapNodes":'',
      blanks 41,
      ''["enr:-QESuEB4Dchgjn7gfAvwB00CxTA-nGiyk-aALI-H4dYSZD3rUk7bZHmP8d2U6xDiQ2vZffpo'',
      ''45Jp7zKNdnwDUx6g4o6XAYJpZIJ2NIJpcIRA4VDAim11bHRpYWRkcnO4XAArNiZub2RlLTAxLmRvLW'',
      ''FtczMud2FrdS5zYW5kYm94LnN0YXR1cy5pbQZ2XwAtNiZub2RlLTAxLmRvLWFtczMud2FrdS5zYW5k'',
      ''Ym94LnN0YXR1cy5pbQYfQN4DgnJzkwABCAAAAAEAAgADAAQABQAGAAeJc2VjcDI1NmsxoQOvD3S3jU'',
      ''NICsrOILlmhENiWAMmMVlAl6-Q8wRB7hidY4N0Y3CCdl-DdWRwgiMohXdha3UyDw", "enr:-QEkuE'',
      ''BIkb8q8_mrorHndoXH9t5N6ZfD-jehQCrYeoJDPHqT0l0wyaONa2-piRQsi3oVKAzDShDVeoQhy0uw'',
      ''N1xbZfPZAYJpZIJ2NIJpcIQiQlleim11bHRpYWRkcnO4bgA0Ni9ub2RlLTAxLmdjLXVzLWNlbnRyYW'',
      ''wxLWEud2FrdS5zYW5kYm94LnN0YXR1cy5pbQZ2XwA2Ni9ub2RlLTAxLmdjLXVzLWNlbnRyYWwxLWEu'',
      ''d2FrdS5zYW5kYm94LnN0YXR1cy5pbQYfQN4DgnJzkwABCAAAAAEAAgADAAQABQAGAAeJc2VjcDI1Nm'',
      ''sxoQKnGt-GSgqPSf3IAPM7bFgTlpczpMZZLF3geeoNNsxzSoN0Y3CCdl-DdWRwgiMohXdha3UyDw"]'',
      '','',
      blanks 37,
      ''"discv5UdpPort": 9999,'',
      blanks 37,
      ''"dnsDiscoveryUrl": "enrtree://AMOJVZX4V6EXP7NTJPMAYJYST2QP6AJXYW76IU6VGJS7UVSN'',
      ''DYZG4@boot.prod.status.nodes.status.im",'',
      blanks 37,
      ''"dnsDiscoveryNameServers": ["8.8.8.8", "1.0.0.1"]'',
      blanks 33,
      ''}'']\<close>

definition cpp_jsonConfig :: "cpp_ConfigNode \<Rightarrow> string" where
  "cpp_jsonConfig c = snprintf 2048 (concat (cpp_config_text c))"

lemma cpp_config_text_length:
  "length (concat (cpp_config_text c)) = 1617 + length (cpp_host c) + length (show_int (cpp_port c))"
  by (simp add: cpp_config_text_def)

lemma cpp_jsonConfig_complete:
  assumes "length (cpp_host c) < 128" "c_int (cpp_port c)"
  shows "length (concat (cpp_config_text c)) < 2048 \<and> cpp_jsonConfig c = concat (cpp_config_text c)"
proof -
  have "length (show_int (cpp_port c)) \<le> 11" using assms(2) by (simp add: c_int_def length_show_int)
  then have "length (concat (cpp_config_text c)) < 2048"
    using assms(1) unfolding cpp_config_text_length by linarith
  then show ?thesis by (simp add: cpp_jsonConfig_def)
qed

section \<open>The callback adaptor\<close>

text \<open>
  \<open>waitForCallback\<close> and \<open>signal_cond\<close> are, statement for statement, those of the C client.
\<close>

definition cpp_waitForCallback :: "sync \<Rightarrow> sync \<Rightarrow> bool" where
  "cpp_waitForCallback = waitForCallback"

definition cpp_signal_cond :: "sync \<Rightarrow> sync \<Rightarrow> bool" where
  "cpp_signal_cond = signal_cond"

text \<open>
  One awaited call whose handler assigns to a variable that the main thread reads after the wait.
  The flag \<open>handler_first\<close> says whether the callback runs its handler before it signals, as the
  handlers of the C client do, or signals first, as the closures of \<open>cify\<close> do.
\<close>

record awaited =
  threads :: sync
  variable :: string
  handler_ran :: bool
  read_value :: "string option"

inductive cify_step :: "bool \<Rightarrow> string \<Rightarrow> awaited \<Rightarrow> awaited \<Rightarrow> bool" for handler_first msg where
  main_waits: "cpp_waitForCallback (threads s) t \<Longrightarrow>
     cify_step handler_first msg s (s\<lparr>threads := t\<rparr>)"
| main_wakes: "spurious_wakeup (threads s) t \<Longrightarrow> cify_step handler_first msg s (s\<lparr>threads := t\<rparr>)"
| callback_signals: "cpp_signal_cond (threads s) t \<Longrightarrow> handler_first \<longrightarrow> handler_ran s \<Longrightarrow>
     cify_step handler_first msg s (s\<lparr>threads := t\<rparr>)"
| callback_handles: "\<not> handler_ran s \<Longrightarrow> handler_first \<or> spc (threads s) = S_done \<Longrightarrow>
     cify_step handler_first msg s (s\<lparr>variable := msg, handler_ran := True\<rparr>)"
| main_reads: "wpc (threads s) = W_done \<Longrightarrow> read_value s = None \<Longrightarrow>
     cify_step handler_first msg s (s\<lparr>read_value := Some (variable s)\<rparr>)"

definition awaited_init :: "string \<Rightarrow> awaited" where
  "awaited_init old = \<lparr>threads = sync_init, variable = old, handler_ran = False, read_value = None\<rparr>"

inductive cify_reachable :: "bool \<Rightarrow> string \<Rightarrow> string \<Rightarrow> awaited \<Rightarrow> bool" for handler_first msg old where
  cify_init: "cify_reachable handler_first msg old (awaited_init old)"
| cify_next: "cify_reachable handler_first msg old s \<Longrightarrow> cify_step handler_first msg s t \<Longrightarrow>
     cify_reachable handler_first msg old t"

lemma cify_threads: "cify_step h msg s t \<Longrightarrow> threads t = threads s \<or> sync_step (threads s) (threads t)"
  by (cases rule: cify_step.cases)
    (auto simp: sync_step_def cpp_waitForCallback_def cpp_signal_cond_def)

lemma cify_sync_inv: "cify_reachable h msg old s \<Longrightarrow> sync_inv (threads s)"
proof (induction rule: cify_reachable.induct)
  case cify_init
  then show ?case by (simp add: awaited_init_def sync_inv_init)
next
  case (cify_next s t)
  then show ?case using cify_threads [OF cify_next.hyps(2)]
    by (auto simp: sync_step_def intro: waitForCallback_inv signal_cond_inv spurious_wakeup_inv)
qed

text \<open>
  The variable is the old value until the handler has run; with the handler first the signal, and
  so the return of the wait, comes after it.
\<close>

definition awaited_inv :: "bool \<Rightarrow> string \<Rightarrow> string \<Rightarrow> awaited \<Rightarrow> bool" where
  "awaited_inv h msg old s \<longleftrightarrow>
     variable s = (if handler_ran s then msg else old)
   \<and> (read_value s = None \<or> read_value s = Some msg \<or> \<not> h \<and> read_value s = Some old)
   \<and> (h \<and> spc (threads s) \<noteq> S_idle \<longrightarrow> handler_ran s)"

lemma not_idle_keeps: "cpp_waitForCallback s t \<or> spurious_wakeup s t \<Longrightarrow> spc t = spc s"
  by (auto simp: cpp_waitForCallback_def elim!: waitForCallback.cases spurious_wakeup.cases)

lemma cify_awaited_inv: "cify_reachable h msg old s \<Longrightarrow> awaited_inv h msg old s"
proof (induction rule: cify_reachable.induct)
  case cify_init
  then show ?case by (simp add: awaited_inv_def awaited_init_def sync_init_def)
next
  case (cify_next s t)
  have i: "awaited_inv h msg old s" and d: "wpc (threads s) = W_done \<Longrightarrow> spc (threads s) = S_done"
    using cify_next cify_sync_inv [OF cify_next.hyps(1)] by (auto simp: sync_inv_def)
  from cify_next.hyps(2) show ?case
  proof cases
    case (main_waits t')
    then show ?thesis using i not_idle_keeps [of "threads s" t'] by (auto simp: awaited_inv_def)
  next
    case (main_wakes t')
    then show ?thesis using i not_idle_keeps [of "threads s" t'] by (auto simp: awaited_inv_def)
  next
    case main_reads
    then show ?thesis using i d by (auto simp: awaited_inv_def)
  qed (use i in \<open>auto simp: awaited_inv_def\<close>)
qed


lemma unhandled_reachable:
  assumes "run_step\<^sup>*\<^sup>* sync_init t"
  shows "cify_reachable False msg old (awaited_init old\<lparr>threads := t\<rparr>)"
  using assms
proof (induction rule: rtranclp_induct)
  case base
  have "awaited_init old\<lparr>threads := sync_init\<rparr> = awaited_init old" by (simp add: awaited_init_def)
  then show ?case by (simp add: cify_init)
next
  case (step t u)
  let ?s = "awaited_init old\<lparr>threads := t\<rparr>"
  have "cify_step False msg ?s (?s\<lparr>threads := u\<rparr>)"
    using step.hyps(2) main_waits [of ?s u False msg] callback_signals [of ?s u False msg]
    by (auto simp: run_step_def cpp_waitForCallback_def cpp_signal_cond_def)
  with step.IH show ?case by (auto dest: cify_next)
qed

lemma cify_reads_old: "\<exists>s. cify_reachable False msg old s \<and> read_value s = Some old"
proof -
  obtain t where t: "run_step\<^sup>*\<^sup>* sync_init t" "wpc t = W_done"
    using wait_completes [OF reach_init] by blast
  let ?s = "awaited_init old\<lparr>threads := t\<rparr>"
  have "cify_step False msg ?s (?s\<lparr>read_value := Some (variable ?s)\<rparr>)"
    using t(2) by (intro main_reads) (simp_all add: awaited_init_def)
  with unhandled_reachable [OF t(1)] have "cify_reachable False msg old (?s\<lparr>read_value := Some (variable ?s)\<rparr>)"
    by (rule cify_next)
  then show ?thesis by (intro exI) (auto simp: awaited_init_def)
qed

section \<open>Property of the adaptor\<close>

text \<open>
  What the main thread reads after the wait is the callback's message or what the variable
  held before. A handler that runs before the signal, as in the C client, rules the old value
  out; with \<open>cify\<close>, which signals first, an execution that reads the old value exists.
\<close>

lemma cify_reads_race:
  "(\<nexists>s v. cify_reachable True msg old s \<and> read_value s = Some v \<and> v \<noteq> msg)
    \<and> (\<nexists>s v. cify_reachable False msg old s \<and> read_value s = Some v \<and> v \<noteq> msg \<and> v \<noteq> old)
    \<and> (\<exists>s. cify_reachable False msg old s \<and> read_value s = Some old)"
  using cify_reads_old [of msg old]
  by (auto dest!: cify_awaited_inv simp: awaited_inv_def)

section \<open>Library calls, the menu and main\<close>

text \<open>
  What the client does, in order. Unlike that of the C client, this \<open>WAKU_CALL\<close> only reports a
  failed call, then waits for a callback all the same.
\<close>

datatype cpp_event = Printed string | Called waku_call | Failed libwaku_fn int | Waited

definition WAKU_CALL_cpp :: "(waku_call \<Rightarrow> int) \<Rightarrow> waku_call \<Rightarrow> cpp_event list" where
  "WAKU_CALL_cpp ret c =
     Called c # (if ret c \<noteq> 0 then [Failed (fst c) (ret c)] else []) @ [Waited]"

definition cify :: carg where
  "cify = AFn ''cify'' 4"

definition cpp_show_main_menu :: "cpp_event list" where
  "cpp_show_main_menu = map Printed
     [''Please, select an option:'', ''1.) Subscribe to topic'', ''2.) Connect to other node'',
      ''3.) Publish a message'']"

definition cpp_subscribe_call :: "string \<Rightarrow> waku_call" where
  "cpp_subscribe_call topic = (waku_relay_subscribe, [ACtx, cify, AUser, AStr topic])"

text \<open>
  The message published: the text that \<open>%s\<close> finds in the storage of the payload vector, which
  ends at the first zero byte. A vector without storage has no data to print.
\<close>

definition payload_text :: "vec \<Rightarrow> c_fault + string" where
  "payload_text v =
     (if storage v = [] then Inl NullDeref
      else if CHR 0x00 \<notin> set (storage v) then Inl OutOfBounds
      else Inr (c_str (storage v)))"

definition cpp_jsonWakuMsg :: "string \<Rightarrow> string \<Rightarrow> string" where
  \<open>cpp_jsonWakuMsg payload topic = snprintf 2048
     (''{"payload":"'' @ payload @ ''","contentTopic":"'' @ topic @ ''"}'')\<close>

text \<open>
  \<open>topic\<close> is what \<open>contentTopic\<close> holds when the message is formatted: \<open>waku_content_topic\<close> is not
  awaited, so it is empty unless the callback happened to be faster.
\<close>

lemma cpp_jsonWakuMsg_length: "length (cpp_jsonWakuMsg p t) = min 2047 (length p + length t + 32)"
  by (simp add: cpp_jsonWakuMsg_def snprintf_def)

definition cpp_publish ::
  "(nat \<Rightarrow> char list) \<Rightarrow> bool \<Rightarrow> (waku_call \<Rightarrow> int) \<Rightarrow> string \<Rightarrow> string \<Rightarrow> c_fault + cpp_event list" where
  "cpp_publish mem schar ret topic msg =
     rbind (cpp_b64_encode mem schar (Some (map of_char msg)) (word_of_nat (length msg))
              \<lparr>vsize = 0, storage = []\<rparr>) (\<lambda>msgPayload.
     rbind (payload_text msgPayload) (\<lambda>payload.
     Inr ([Printed ''Type the message to publish:'',
           Called (waku_content_topic, [ACtx, cify, AUser, AStr ''appName'', AInt 1,
             AStr ''contentTopicName'', AStr ''encoding''])]
       @ WAKU_CALL_cpp ret (waku_relay_publish, [ACtx, cify, AUser, AStr ''/waku/2/rs/16/32'',
           AStr (cpp_jsonWakuMsg payload topic), AInt 10000])
       @ cpp_show_main_menu)))"

definition cpp_handle_user_input ::
  "(nat \<Rightarrow> char list) \<Rightarrow> bool \<Rightarrow> (waku_call \<Rightarrow> int) \<Rightarrow> string \<Rightarrow> string \<Rightarrow> string
     \<Rightarrow> c_fault + cpp_event list" where
  "cpp_handle_user_input mem schar ret topic cmd word =
     (if cmd = [] then Inr []
      else case menu_of (atoi cmd) of
        Some SUBSCRIBE_TOPIC_MENU \<Rightarrow>
          Inr (Printed ''Indicate the Pubsubtopic to subscribe:''
            # WAKU_CALL_cpp ret (cpp_subscribe_call (take 127 word))
            @ Printed ''The subscription went well'' # cpp_show_main_menu)
      | Some CONNECT_TO_OTHER_NODE_MENU \<Rightarrow>
          Inr ([Printed ''Connecting to a node. Please indicate the peer Multiaddress:'',
                Printed (''e.g.: /ip4/127.0.0.1/tcp/60001/p2p/''
                  @ ''16Uiu2HAmVFXtAfSj4EiR7mL2KvL4EE2wztuQgUSBoj2Jx2KeXFLN'')]
            @ WAKU_CALL_cpp ret (waku_connect,
                [ACtx, cify, AUser, AStr (take 511 word), AInt 10000])
            @ cpp_show_main_menu)
      | Some PUBLISH_MESSAGE_MENU \<Rightarrow> cpp_publish mem schar ret topic (take 1023 word)
      | _ \<Rightarrow> Inr [])"


text \<open>
  \<open>main\<close> up to the menu loop. \<open>defaultTopic\<close> and \<open>customTopic\<close> are what it reads from the two
  variables that the closures assign.
\<close>

definition cpp_main ::
  "(waku_call \<Rightarrow> int) \<Rightarrow> cpp_ConfigNode \<Rightarrow> string \<Rightarrow> string \<Rightarrow> cpp_event list" where
  "cpp_main ret cfg defaultTopic customTopic =
     [Called (waku_new, [AStr (cpp_jsonConfig cfg), cify, AUser]), Waited]
     @ WAKU_CALL_cpp ret (waku_default_pubsub_topic, [ACtx, cify, AUser])
     @ [Printed (''Default pubsub topic: '' @ defaultTopic)]
     @ WAKU_CALL_cpp ret (waku_version, [ACtx, cify, AUser])
     @ [Printed (''Bind addr: '' @ cpp_host cfg @ '':'' @ show_int (cpp_port cfg mod 2 ^ 32)),
        Printed (''Waku Relay enabled: '' @ (if cpp_relay cfg = 1 then ''YES'' else ''NO''))]
     @ WAKU_CALL_cpp ret (waku_pubsub_topic, [ACtx, cify, AUser, AStr ''example''])
     @ [Printed (''Custom pubsub topic: '' @ customTopic),
        Called (set_event_callback, [ACtx, cify, AUser])]
     @ WAKU_CALL_cpp ret (waku_start, [ACtx, cify, AUser])
     @ WAKU_CALL_cpp ret (cpp_subscribe_call defaultTopic)
     @ cpp_show_main_menu"

fun calls_of :: "cpp_event list \<Rightarrow> waku_call list" where
  "calls_of [] = []"
| "calls_of (Called c # es) = c # calls_of es"
| "calls_of (_ # es) = calls_of es"

fun failed :: "cpp_event \<Rightarrow> bool" where
  "failed (Failed f n) = True"
| "failed _ = False"

definition unreported :: "cpp_event list \<Rightarrow> cpp_event list" where
  "unreported es = filter (\<lambda>e. \<not> failed e) es"

lemma calls_of_append [simp]: "calls_of (xs @ ys) = calls_of xs @ calls_of ys"
  by (induction xs rule: calls_of.induct) auto

lemma unreported_append [simp]: "unreported (xs @ ys) = unreported xs @ unreported ys"
  by (simp add: unreported_def)

lemma unreported_Cons [simp]: "\<not> failed e \<Longrightarrow> unreported (e # es) = e # unreported es"
  by (simp add: unreported_def)

lemma unreported_Nil [simp]: "unreported [] = []"
  by (simp add: unreported_def)

lemma WAKU_CALL_cpp_simps [simp]:
  "calls_of (WAKU_CALL_cpp ret c) = [c]"
  "unreported (WAKU_CALL_cpp ret c) = [Called c, Waited]"
  by (simp_all add: WAKU_CALL_cpp_def unreported_def)

lemma menu_events [simp]:
  "calls_of cpp_show_main_menu = []" "unreported cpp_show_main_menu = cpp_show_main_menu"
  by (simp_all add: cpp_show_main_menu_def)

lemmas cpp_conform_simps = call_ok_def cify_def cpp_subscribe_call_def ffi_callback_arity_def

lemma cpp_main_calls_ok: "\<forall>c \<in> set (calls_of (cpp_main ret cfg d t)). call_ok c"
  by (simp add: cpp_main_def cpp_conform_simps)

lemma cpp_publish_calls_ok:
  "cpp_publish mem schar ret topic msg = Inr es \<Longrightarrow> \<forall>c \<in> set (calls_of es). call_ok c"
  by (auto simp: cpp_publish_def rbind_eq_Inr cpp_conform_simps)

lemma cpp_input_calls_ok:
  assumes "cpp_handle_user_input mem schar ret topic cmd word = Inr es"
  shows "\<forall>c \<in> set (calls_of es). call_ok c"
proof (cases "cmd \<noteq> [] \<and> menu_of (atoi cmd) = Some PUBLISH_MESSAGE_MENU")
  case True
  then have "cpp_publish mem schar ret topic (take 1023 word) = Inr es"
    using assms by (simp add: cpp_handle_user_input_def)
  then show ?thesis by (rule cpp_publish_calls_ok)
next
  case False
  then show ?thesis
    using assms by (auto simp: cpp_handle_user_input_def cpp_conform_simps
      split: if_splits option.splits PROGRAM_STATE.splits)
qed

lemma cpp_publish_ignores:
  "cpp_publish mem schar ret topic msg = Inr es \<Longrightarrow>
    \<exists>es'. cpp_publish mem schar ret' topic msg = Inr es' \<and> unreported es' = unreported es"
  by (auto simp: cpp_publish_def rbind_eq_Inr)

lemma cpp_input_ignores:
  "cpp_handle_user_input mem schar ret topic cmd word = Inr es \<Longrightarrow>
    \<exists>es'. cpp_handle_user_input mem schar ret' topic cmd word = Inr es'
      \<and> unreported es' = unreported es"
  by (auto simp: cpp_handle_user_input_def dest: cpp_publish_ignores
    split: if_splits option.splits PROGRAM_STATE.splits)

section \<open>Properties of the calls and the buffers\<close>

text \<open>
  Every call of \<open>main\<close> and of the menu conforms to the declaration in \<open>libwaku.h\<close>, and the
  client is blind to failures: whatever the library returns it makes the same calls, waits as
  often and prints the same, apart from the reports of the failed calls.
\<close>

lemma cpp_client_calls:
  assumes "cpp_handle_user_input mem schar ret topic cmd word = Inr es"
  shows "(\<forall>c \<in> set (calls_of (cpp_main ret cfg d t)) \<union> set (calls_of es).
        conforms (libwaku_params (fst c)) (snd c))
    \<and> unreported (cpp_main ret cfg d t) = cpp_main (\<lambda>_. 0) cfg d t
    \<and> (\<exists>es'. cpp_handle_user_input mem schar (\<lambda>_. 0) topic cmd word = Inr es'
         \<and> unreported es = unreported es')"
proof -
  have "unreported (cpp_main ret cfg d t) = cpp_main (\<lambda>_. 0) cfg d t"
    by (simp add: cpp_main_def) (simp add: WAKU_CALL_cpp_def)
  then show ?thesis
    using cpp_main_calls_ok [of ret cfg d t] cpp_input_calls_ok [OF assms]
      cpp_input_ignores [OF assms, of "\<lambda>_. 0"]
    by (auto simp: call_ok_def)
qed

lemma cpp_client_calls_example:
  "unreported (cpp_main (\<lambda>_. 1) cpp_sample_config ''a'' ''b'')
      = cpp_main (\<lambda>_. 0) cpp_sample_config ''a'' ''b''"
  using cpp_client_calls [of "\<lambda>_. []" True "\<lambda>_. 1" "[]" "[]" "[]" "[]" cpp_sample_config "''a''" "''b''"]
  by (simp add: cpp_handle_user_input_def)

text \<open>
  Nothing the clients format is cut off. From whatever the option parser accepts after the
  defaults, with a port that is an \<open>int\<close>, both configuration texts fit their buffers; a message of
  at most 1023 characters fits with a content topic of up to 651 characters, in the C++ client
  when the payload is printed without what follows it in the vector's storage.
\<close>

lemma formatted_texts_fit:
  assumes "argp_parse args (main_defaults junk) = Parsed c" "c_int (cn_port c)"
    and "cpp_argp_parse args' (cpp_defaults junk') = Cpp_parsed d" "c_int (cpp_port d)"
    and "length bs \<le> 1023" "length topic \<le> 651"
  shows "jsonConfig c = concat (config_text c) \<and> length (jsonConfig c) < 5000
    \<and> cpp_jsonConfig d = concat (cpp_config_text d) \<and> length (cpp_jsonConfig d) < 2048
    \<and> length (jsonWakuMsg (b64_ref bs) topic) = length (b64_ref bs) + length topic + 32
    \<and> length (cpp_jsonWakuMsg (b64_ref bs) topic) = length (b64_ref bs) + length topic + 32"
proof -
  have "fits_arrays c" using argp_parse_fits [OF assms(1) main_defaults_fit] .
  moreover have "length (cpp_host d) < 128"
    by (rule cpp_argp_parse_fits [OF assms(3)]) (simp add: cpp_defaults_def length_snprintf)
  moreover have "length (b64_ref bs) + length topic + 32 \<le> 2047"
    using assms(5,6) div_le_mono [of "length bs + 2" 1025 3] by (simp add: length_b64_ref)
  ultimately show ?thesis
    using jsonConfig_complete [of c] cpp_jsonConfig_complete [of d] assms(2,4)
    by (simp add: jsonWakuMsg_length cpp_jsonWakuMsg_length)
qed

lemma formatted_texts_fit_example:
  "length (cpp_jsonConfig cpp_sample_config) < 2048
    \<and> length (cpp_jsonWakuMsg (b64_ref (replicate 1023 0)) []) = 1396"
proof -
  have "argp_parse [] (main_defaults sample_config) = Parsed (main_defaults sample_config)" by simp
  moreover have "c_int (cn_port (main_defaults sample_config))" by (simp add: c_int_def main_defaults_def)
  moreover have "cpp_argp_parse [] (cpp_defaults cpp_sample_config) = Cpp_parsed cpp_sample_config"
    by (simp add: cpp_defaults_def cpp_sample_config_def)
  moreover have "c_int (cpp_port cpp_sample_config)" by (simp add: c_int_def cpp_sample_config_def cpp_defaults_def)
  moreover have "length (replicate 1023 (0 :: byte)) \<le> 1023" "length ([] :: string) \<le> 651" by simp_all
  ultimately have "length (cpp_jsonConfig cpp_sample_config) < 2048
      \<and> length (cpp_jsonWakuMsg (b64_ref (replicate 1023 0)) []) = length (b64_ref (replicate 1023 0)) + length ([] :: string) + 32"
    using formatted_texts_fit by blast
  then show ?thesis by (simp add: length_b64_ref)
qed

end
