(* ===== verification/CQtExample.thy ===== *)
theory CQtExample
  imports CWakuExample
begin

text \<open>
  The Qt client: \<open>examples/qt/waku_handler.h\<close>, the object that owns the library context, and
  \<open>examples/qt/main_qt.cpp\<close>, with the library's \<open>set_event_callback\<close> of \<open>library/declare_lib.nim\<close>, which
  writes through the context it is given.
\<close>

section \<open>The handler\<close>

text \<open>
  A context is an address, \<open>None\<close> the null pointer. The log keeps what the client prints and the
  library calls it makes.
\<close>

datatype qt_event = QPrint string | QDebug string | QCall "nat option" waku_call

record WakuHandler =
  ctx :: "nat option"
  log :: "qt_event list"
  exit_code :: "int option"

definition WakuHandler_new :: WakuHandler where
  "WakuHandler_new = \<lparr>ctx = None, log = [], exit_code = None\<rparr>"

definition add_log :: "qt_event \<Rightarrow> WakuHandler \<Rightarrow> WakuHandler" where
  "add_log e h = h\<lparr>log := log h @ [e]\<rparr>"

definition qt_event_handler :: "int \<Rightarrow> string \<Rightarrow> WakuHandler \<Rightarrow> WakuHandler" where
  "qt_event_handler callerRet msg h = add_log (QPrint (''Receiving message '' @ msg)) h"

definition qt_on_event_received :: "int \<Rightarrow> string \<Rightarrow> WakuHandler \<Rightarrow> WakuHandler" where
  "qt_on_event_received callerRet msg h =
     (if callerRet = RET_ERR then (add_log (QPrint (''Error: '' @ msg)) h)\<lparr>exit_code := Some 1\<rparr>
      else if callerRet = RET_OK then add_log (QPrint (''Receiving event: '' @ msg)) h
      else h)"

text \<open>The library stores the callback in the context without a check of the pointer.\<close>

definition nim_set_event_callback :: "nat option \<Rightarrow> c_fault + unit" where
  "nim_set_event_callback c = (case c of None \<Rightarrow> Inl NullDeref | Some _ \<Rightarrow> Inr ())"

text \<open>\<open>created\<close> is what \<open>waku_new\<close> returns.\<close>

definition initialize :: "nat option \<Rightarrow> string \<Rightarrow> WakuHandler \<Rightarrow> c_fault + WakuHandler" where
  "initialize created config h =
     (let h = add_log (QCall None (waku_new, [AStr config, cb ''event_handler'', AUser])) h;
          h = h\<lparr>ctx := created\<rparr>;
          h = add_log (QCall (ctx h) (set_event_callback, [ACtx, cb ''on_event_received'', AUser])) h
      in rbind (nim_set_event_callback (ctx h)) (\<lambda>_.
         Inr (add_log (QDebug ''Waku context initialized, ready to start.'') h)))"

definition start :: "WakuHandler \<Rightarrow> WakuHandler" where
  "start h =
     (if ctx h \<noteq> None
      then add_log (QDebug ''Waku start called with event_handler and userData.'')
        (add_log (QCall (ctx h) (waku_start, [ACtx, cb ''event_handler'', AUser])) h)
      else add_log (QDebug ''Context is not initialized in start.'') h)"

definition stop :: "WakuHandler \<Rightarrow> WakuHandler" where
  "stop h =
     (if ctx h \<noteq> None
      then add_log (QDebug ''Waku stop called with event_handler and userData.'')
        (add_log (QCall (ctx h) (waku_stop, [ACtx, cb ''event_handler'', AUser])) h)
      else add_log (QDebug ''Context is not initialized in stop.'') h)"

section \<open>The program\<close>

text \<open>The lines of the raw string literal.\<close>

definition qt_config_lines :: "string list" where
  \<open>qt_config_lines = [
      [],
      blanks 8 @ ''{'',
      blanks 12 @ ''"tcpPort": 60000,'',
      blanks 12 @ ''"relay": true,'',
      blanks 12 @ ''"logLevel": "TRACE",'',
      blanks 12 @ ''"discv5Discovery": true,'',
      blanks 12 @ ''"discv5BootstrapNodes": ['',
      blanks 16 @ ''"enr:-QESuEB4Dchgjn7gfAvwB00CxTA-nGiyk-aALI-H4dYSZD3rUk7bZHmP8d2U6xDiQ2vZffpo4'' @ ''5Jp7zKNdnwDUx6g4o6XAYJpZIJ2NIJpcIRA4VDAim11bHRpYWRkcnO4XAArNiZub2RlLTAxLmRvLWF'' @ ''tczMud2FrdS5zYW5kYm94LnN0YXR1cy5pbQZ2XwAtNiZub2RlLTAxLmRvLWFtczMud2FrdS5zYW5kY'' @ ''m94LnN0YXR1cy5pbQYfQN4DgnJzkwABCAAAAAEAAgADAAQABQAGAAeJc2VjcDI1NmsxoQOvD3S3jUN'' @ ''ICsrOILlmhENiWAMmMVlAl6-Q8wRB7hidY4N0Y3CCdl-DdWRwgiMohXdha3UyDw",'',
      blanks 16 @ ''"enr:-QEkuEBIkb8q8_mrorHndoXH9t5N6ZfD-jehQCrYeoJDPHqT0l0wyaONa2-piRQsi3oVKAzDS'' @ ''hDVeoQhy0uwN1xbZfPZAYJpZIJ2NIJpcIQiQlleim11bHRpYWRkcnO4bgA0Ni9ub2RlLTAxLmdjLXV'' @ ''zLWNlbnRyYWwxLWEud2FrdS5zYW5kYm94LnN0YXR1cy5pbQZ2XwA2Ni9ub2RlLTAxLmdjLXVzLWNlb'' @ ''nRyYWwxLWEud2FrdS5zYW5kYm94LnN0YXR1cy5pbQYfQN4DgnJzkwABCAAAAAEAAgADAAQABQAGAAe'' @ ''Jc2VjcDI1NmsxoQKnGt-GSgqPSf3IAPM7bFgTlpczpMZZLF3geeoNNsxzSoN0Y3CCdl-DdWRwgiMoh'' @ ''Xdha3UyDw"'',
      blanks 12 @ ''],'',
      blanks 12 @ ''"discv5UdpPort": 9999,'',
      blanks 12 @ ''"dnsDiscovery": true,'',
      blanks 12 @ ''"dnsDiscoveryUrl": "enrtree://AOGYWMBYOUIMOENHXCHILPKY3ZRFEULMFI4DOM442QSZ73TT'' @ ''2A7VI@test.waku.nodes.status.im",'',
      blanks 12 @ ''"dnsDiscoveryNameServers": ["8.8.8.8", "1.0.0.1"]'',
      blanks 8 @ ''}'',
      blanks 8]\<close>

definition qt_jsonConfig :: string where
  "qt_jsonConfig = concat (map (\<lambda>l. l @ [CHR 0x0A]) (butlast qt_config_lines)) @ last qt_config_lines"

text \<open>
  After the initialisation the user presses buttons, \<open>True\<close> for start and \<open>False\<close> for stop, while
  the application runs; it does not when the interface fails to load.
\<close>

fun buttons :: "bool list \<Rightarrow> WakuHandler \<Rightarrow> WakuHandler" where
  "buttons [] h = h"
| "buttons (b # bs) h = buttons bs (if b then start h else stop h)"

definition main_qt ::
  "nat option \<Rightarrow> bool \<Rightarrow> int \<Rightarrow> bool list \<Rightarrow> c_fault + int \<times> WakuHandler" where
  "main_qt created loaded exec_code bs =
     rbind (initialize created qt_jsonConfig WakuHandler_new) (\<lambda>h.
       if \<not> loaded then Inr (- 1, h) else Inr (exec_code, buttons bs h))"

section \<open>The calls\<close>

fun qt_calls :: "qt_event list \<Rightarrow> (nat option \<times> waku_call) list" where
  "qt_calls [] = []"
| "qt_calls (QCall c f # es) = (c, f) # qt_calls es"
| "qt_calls (_ # es) = qt_calls es"

lemma qt_calls_append [simp]: "qt_calls (xs @ ys) = qt_calls xs @ qt_calls ys"
  by (induction xs rule: qt_calls.induct) auto

definition button_call :: "bool \<Rightarrow> waku_call" where
  "button_call b = (if b then waku_start else waku_stop, [ACtx, cb ''event_handler'', AUser])"

lemma buttons_calls:
  assumes "ctx h = Some c"
  shows "qt_calls (log (buttons bs h)) = qt_calls (log h) @ map (\<lambda>b. (Some c, button_call b)) bs"
  using assms
  by (induction bs arbitrary: h) (auto simp: start_def stop_def add_log_def button_call_def)

section \<open>Property\<close>

text \<open>
  The Qt program makes no library call with a null context but one: when \<open>waku_new\<close> fails, it
  still registers the event callback, and the library writes through the null pointer. Otherwise
  it calls \<open>waku_new\<close>, \<open>set_event_callback\<close>, then one \<open>waku_start\<close> or \<open>waku_stop\<close> per button on
  the context it got, each as \<open>libwaku.h\<close> declares it.
\<close>

lemma main_qt_calls:
  "main_qt None loaded n bs = Inl NullDeref
    \<and> (\<exists>h. main_qt (Some c) loaded n bs = Inr (if loaded then n else - 1, h)
        \<and> qt_calls (log h) =
            [(None, (waku_new, [AStr qt_jsonConfig, cb ''event_handler'', AUser])),
             (Some c, (set_event_callback, [ACtx, cb ''on_event_received'', AUser]))]
            @ (if loaded then map (\<lambda>b. (Some c, button_call b)) bs else [])
        \<and> list_all (call_ok \<circ> snd) (qt_calls (log h)))"
proof -
  obtain h where h: "initialize (Some c) qt_jsonConfig WakuHandler_new = Inr h" "ctx h = Some c"
    "qt_calls (log h) = [(None, (waku_new, [AStr qt_jsonConfig, cb ''event_handler'', AUser])),
             (Some c, (set_event_callback, [ACtx, cb ''on_event_received'', AUser]))]"
    by (simp add: initialize_def Let_def nim_set_event_callback_def add_log_def WakuHandler_new_def)
  moreover have "list_all (call_ok \<circ> snd) (qt_calls (log h))"
    "list_all (call_ok \<circ> snd) (map (\<lambda>b. (Some c, button_call b)) bs)"
    unfolding h(3)
    by (auto simp: list_all_iff call_ok_def button_call_def cb_def ffi_callback_arity_def)
  moreover have "main_qt None loaded n bs = Inl NullDeref"
    by (simp add: main_qt_def initialize_def Let_def nim_set_event_callback_def add_log_def)
  ultimately show ?thesis
    using buttons_calls [OF h(2), of bs] by (cases loaded) (auto simp: main_qt_def)
qed

end
