(* ===== verification/CLmapiExample.thy ===== *)
theory CLmapiExample
  imports CApi CJson
begin

text \<open>
  The client \<open>liblogosdelivery/examples/logosdelivery_example.c\<close>: the callback that decodes message
  events with the JSON helpers and raises the flags \<open>main\<close> polls, the callback that prints results,
  the polling loop, and the life cycle \<open>main\<close> walks through. \<open>malloc\<close>, the contents of
  uninitialised arrays and the library's answers are parameters.
\<close>

section \<open>State and output\<close>

text \<open>The lines printed; the payload of a message is \<open>None\<close> where none could be decoded.\<close>

datatype event_line =
    Message_sent string string
  | Message_error string string string
  | Message_propagated string string
  | Connection_status_change string
  | Message_received string string "string option"
  | Message_unparsed string
  | Unknown_event string
  | Result_success string string
  | Result_error string string

record lmapi =
  create_node_ok :: int
  got_message_sent :: bool
  got_message_error :: bool
  got_message_received :: bool
  lines :: "event_line list"

definition lmapi_init :: lmapi where
  "lmapi_init = \<lparr>create_node_ok = - 1, got_message_sent = False, got_message_error = False,
     got_message_received = False, lines = []\<rparr>"

definition add_line :: "event_line \<Rightarrow> lmapi \<Rightarrow> lmapi" where
  "add_line l st = st\<lparr>lines := lines st @ [l]\<rparr>"

section \<open>event_callback\<close>

text \<open>
  \<open>junk v n\<close> is what the local array \<open>v\<close> of \<open>n\<close> characters holds before it is written. The arrays
  are named after the fields that are read into them; most calls ignore whether a field was found,
  and print the array all the same.
\<close>

type_synonym locals = "string \<Rightarrow> nat \<Rightarrow> char list"

definition read_field :: "locals \<Rightarrow> string \<Rightarrow> string \<Rightarrow> nat \<Rightarrow> c_fault + (char list \<times> bool)" where
  "read_field junk json field n = extract_json_field json field (junk field n) n"

text \<open>\<open>%s\<close> reads up to a terminator; without one in the array it reads beyond it.\<close>

definition print_array :: "char list \<Rightarrow> c_fault + string" where
  "print_array buf = (if CHR 0x00 \<in> set buf then Inr (c_str buf) else Inl OutOfBounds)"

text \<open>\<open>%.*s\<close> of the payload: no more than the bytes decoded, when at least one was.\<close>

definition read_payload :: "locals \<Rightarrow> string \<Rightarrow> c_fault + string option" where
  "read_payload junk msgJson =
     rbind (decode_json_byte_array msgJson ''payload'' (junk ''payload'' 4096) 4096)
       (\<lambda>(payloadLen, payload).
          Inr (if payloadLen > 0 then Some (c_str (take (nat payloadLen) payload)) else None))"

definition on_message_received ::
  "(nat \<Rightarrow> bool) \<Rightarrow> locals \<Rightarrow> string \<Rightarrow> lmapi \<Rightarrow> c_fault + lmapi" where
  "on_message_received mem junk eventJson st =
     rbind (read_field junk eventJson ''messageHash'' 128) (\<lambda>(messageHash, _).
     rbind (case extract_json_object eventJson ''message'' of
              Some (start, msgObjLen) \<Rightarrow>
                (if mem (msgObjLen + 1) then
                   let msgJson = take msgObjLen (drop start eventJson) in
                   rbind (read_field junk msgJson ''contentTopic'' 256) (\<lambda>(contentTopic, _).
                   rbind (read_payload junk msgJson) (\<lambda>payload.
                   rbind (print_array messageHash) (\<lambda>messageHash.
                   rbind (print_array contentTopic) (\<lambda>contentTopic.
                   Inr (add_line (Message_received messageHash contentTopic payload) st)))))
                 else Inr st)
            | None \<Rightarrow>
                rbind (print_array messageHash) (\<lambda>messageHash.
                Inr (add_line (Message_unparsed messageHash) st)))
       (\<lambda>st. Inr (st\<lparr>got_message_received := True\<rparr>)))"

definition dispatch_event ::
  "(nat \<Rightarrow> bool) \<Rightarrow> locals \<Rightarrow> string \<Rightarrow> string \<Rightarrow> lmapi \<Rightarrow> c_fault + lmapi" where
  "dispatch_event mem junk ty eventJson st =
     (if ty = ''message_sent'' then
        rbind (read_field junk eventJson ''requestId'' 128) (\<lambda>(requestId, _).
        rbind (read_field junk eventJson ''messageHash'' 128) (\<lambda>(messageHash, _).
        rbind (print_array requestId) (\<lambda>requestId.
        rbind (print_array messageHash) (\<lambda>messageHash.
        Inr ((add_line (Message_sent requestId messageHash) st)\<lparr>got_message_sent := True\<rparr>)))))
      else if ty = ''message_error'' then
        rbind (read_field junk eventJson ''requestId'' 128) (\<lambda>(requestId, _).
        rbind (read_field junk eventJson ''messageHash'' 128) (\<lambda>(messageHash, _).
        rbind (read_field junk eventJson ''error'' 256) (\<lambda>(error, _).
        rbind (print_array requestId) (\<lambda>requestId.
        rbind (print_array messageHash) (\<lambda>messageHash.
        rbind (print_array error) (\<lambda>error.
        Inr ((add_line (Message_error requestId messageHash error) st)\<lparr>got_message_error := True\<rparr>)))))))
      else if ty = ''message_propagated'' then
        rbind (read_field junk eventJson ''requestId'' 128) (\<lambda>(requestId, _).
        rbind (read_field junk eventJson ''messageHash'' 128) (\<lambda>(messageHash, _).
        rbind (print_array requestId) (\<lambda>requestId.
        rbind (print_array messageHash) (\<lambda>messageHash.
        Inr (add_line (Message_propagated requestId messageHash) st)))))
      else if ty = ''connection_status_change'' then
        rbind (read_field junk eventJson ''connectionStatus'' 256) (\<lambda>(status, _).
        rbind (print_array status) (\<lambda>status.
        Inr (add_line (Connection_status_change status) st)))
      else if ty = ''message_received'' then on_message_received mem junk eventJson st
      else Inr (add_line (Unknown_event ty) st))"

definition event_callback ::
  "(nat \<Rightarrow> bool) \<Rightarrow> locals \<Rightarrow> int \<Rightarrow> string option \<Rightarrow> lmapi \<Rightarrow> c_fault + lmapi" where
  "event_callback mem junk ret msg st =
     (case msg of
        None \<Rightarrow> Inr st
      | Some m \<Rightarrow>
          (if ret \<noteq> RET_OK \<or> m = [] \<or> \<not> mem (length m + 1) then Inr st
           else rbind (read_field junk (c_str m) ''eventType'' 64) (\<lambda>(eventType, found).
             if found then dispatch_event mem junk (c_str eventType) (c_str m) st else Inr st)))"

definition simple_callback :: "int \<Rightarrow> string \<Rightarrow> string \<Rightarrow> lmapi \<Rightarrow> lmapi" where
  "simple_callback ret msg operation st =
     (let st = (if operation = ''create_node''
                then st\<lparr>create_node_ok := (if ret = RET_OK then 1 else 0)\<rparr> else st)
      in add_line (if ret = RET_OK then Result_success operation msg
                   else Result_error operation msg) st)"

section \<open>main\<close>

text \<open>
  The polling loop: \<open>seen i\<close> says whether one of the flags is up at the \<open>i\<close>-th test. Each round
  sleeps a tenth of a second and counts one. The result is \<open>elapsed\<close> and the microseconds slept.
\<close>

function poll :: "(nat \<Rightarrow> bool) \<Rightarrow> nat \<Rightarrow> nat \<Rightarrow> nat \<Rightarrow> nat \<times> nat" where
  "poll seen timeout_sec elapsed slept =
     (if \<not> seen elapsed \<and> elapsed < timeout_sec
      then poll seen timeout_sec (elapsed + 1) (slept + 100000)
      else (elapsed, slept))"
  by pat_completeness auto
termination
  by (relation "measure (\<lambda>(seen, timeout_sec, elapsed, slept). timeout_sec - elapsed)") auto

declare poll.simps [simp del]

type_synonym lmapi_call = "logosdelivery_fn \<times> carg list"

definition scb :: carg where
  "scb = AFn ''simple_callback'' 4"

definition create_call :: "string \<Rightarrow> lmapi_call" where
  "create_call config = (logosdelivery_create_node, [AStr config, scb, AStr ''create_node''])"

definition destroy_call :: lmapi_call where
  "destroy_call = (logosdelivery_destroy, [ACtx, scb, AStr ''destroy''])"

definition session_calls :: "string \<Rightarrow> lmapi_call list" where
  "session_calls message =
     (let contentTopic = ''/example/1/chat/proto'' in
      [(logosdelivery_set_event_callback, [ACtx, AFn ''event_callback'' 4, AUser]),
       (logosdelivery_start_node, [ACtx, scb, AStr ''start_node'']),
       (logosdelivery_subscribe, [ACtx, scb, AStr ''subscribe'', AStr contentTopic]),
       (logosdelivery_get_available_node_info_ids, [ACtx, scb, AStr ''get_available_node_info_ids'']),
       (logosdelivery_get_node_info, [ACtx, scb, AStr ''get_node_info'', AStr ''WrongNodeInfoId'']),
       (logosdelivery_get_node_info, [ACtx, scb, AStr ''get_node_info'', AStr ''Version'']),
       (logosdelivery_get_node_info, [ACtx, scb, AStr ''get_node_info'', AStr ''MyMultiaddresses'']),
       (logosdelivery_get_node_info, [ACtx, scb, AStr ''get_node_info'', AStr ''MyENR'']),
       (logosdelivery_get_node_info, [ACtx, scb, AStr ''get_node_info'', AStr ''MyPeerId'']),
       (logosdelivery_get_available_configs, [ACtx, scb, AStr ''get_available_configs'']),
       (logosdelivery_send, [ACtx, scb, AStr ''send'', AStr message]),
       (logosdelivery_unsubscribe, [ACtx, scb, AStr ''unsubscribe'', AStr contentTopic]),
       (logosdelivery_stop_node, [ACtx, scb, AStr ''stop_node'']),
       destroy_call])"

text \<open>
  The exit code and the calls made: \<open>ctx_null\<close> is whether node creation returned \<open>NULL\<close>, \<open>st\<close> the
  client's state once the first sleep is over.
\<close>

definition lmapi_main :: "string \<Rightarrow> string \<Rightarrow> bool \<Rightarrow> lmapi \<Rightarrow> int \<times> lmapi_call list" where
  "lmapi_main config message ctx_null st =
     (if ctx_null then (1, [create_call config])
      else if create_node_ok st \<noteq> 1 then (1, [create_call config, destroy_call])
      else (0, create_call config # session_calls message))"

section \<open>Faults of the callback\<close>

text \<open>The one fault that is left: a result that is fine or a signed overflow.\<close>

definition overflow_only :: "c_fault + 'a \<Rightarrow> bool" where
  "overflow_only r \<longleftrightarrow> (\<forall>e. r = Inl e \<longrightarrow> e = SignedOverflow)"

lemma overflow_only_Inr [simp]: "overflow_only (Inr x)"
  by (simp add: overflow_only_def)

lemma overflow_only_bind [intro]:
  "overflow_only r \<Longrightarrow> (\<And>x. r = Inr x \<Longrightarrow> overflow_only (f x)) \<Longrightarrow> overflow_only (rbind r f)"
  by (auto simp: overflow_only_def rbind_eq_Inl)

definition arrays_ok :: "locals \<Rightarrow> bool" where
  "arrays_ok junk \<longleftrightarrow> (\<forall>v n. length (junk v n) = n)"

text \<open>Whether the text has the field, and whether printing its array leaves it.\<close>

definition has_field :: "string \<Rightarrow> string \<Rightarrow> bool" where
  "has_field json field =
     (case strstr json (search_key field [dq, CHR '':'', dq]) of
        None \<Rightarrow> False
      | Some s \<Rightarrow> strchr (drop (s + length (search_key field [dq, CHR '':'', dq])) json) dq \<noteq> None)"

definition unset :: "locals \<Rightarrow> string \<Rightarrow> string \<Rightarrow> nat \<Rightarrow> bool" where
  "unset junk json field n \<longleftrightarrow> \<not> has_field json field \<and> CHR 0x00 \<notin> set (junk field n)"

lemma read_field_result:
  assumes "arrays_ok junk" "0 < n" "n < 2 ^ 64"
  obtains buf where "read_field junk json field n = Inr (buf, has_field json field)"
    "CHR 0x00 \<in> set buf \<longleftrightarrow> \<not> unset junk json field n"
proof -
  have "n \<le> length (junk field n)" using assms(1) by (simp add: arrays_ok_def)
  with assms(2,3) obtain b ok where b: "extract_json_field json field (junk field n) n = Inr (b, ok)"
    "if ok then \<exists>v. length v < n \<and> b = v @ CHR 0x00 # drop (Suc (length v)) (junk field n)
     else b = junk field n"
    using extract_json_field_safe_lemma by blast
  have "ok = has_field json field"
    using b(1) by (auto simp: extract_json_field_def has_field_def Let_def rbind_eq_Inr split: option.splits)
  moreover have "CHR 0x00 \<in> set b \<longleftrightarrow> ok \<or> CHR 0x00 \<in> set (junk field n)"
    using b(2) by (auto split: if_splits)
  ultimately show thesis using that [of b] b(1) by (auto simp: read_field_def unset_def)
qed

lemma read_field_sizes:
  assumes "arrays_ok junk" "n \<in> {64, 128, 256}"
  shows "\<exists>buf. read_field junk json field n = Inr (buf, has_field json field)
    \<and> (CHR 0x00 \<in> set buf \<longleftrightarrow> \<not> unset junk json field n)"
proof -
  have "0 < n" "n < 2 ^ 64" using assms(2) by auto
  from read_field_result [OF assms(1) this, of json field] show ?thesis by metis
qed

lemma parse_digits_fault: "overflow_only (parse_digits v p)"
proof (induction v p rule: parse_digits.induct)
  case (2 v c p)
  then show ?case
    by (cases "is_dig c"; cases "v * 10 + dig_val c > 2 ^ 31 - 1") (simp_all add: overflow_only_def)
qed simp

lemma decode_loop_step:
  assumes "p \<noteq> []" "hd p \<noteq> CHR '']''" "pos < limit"
    and "\<not> (dropWhile is_sep p \<noteq> [] \<and> hd (dropWhile is_sep p) = CHR '']'')"
  shows "decode_loop limit p pos buf =
    rbind (parse_digits 0 (dropWhile is_sep p)) (\<lambda>(v, q).
      rbind (put buf pos (char_of (nat v))) (\<lambda>b. decode_loop limit q (pos + 1) b))"
proof -
  have n: "(dropWhile is_sep p \<noteq> [] \<and> hd (dropWhile is_sep p) = CHR '']'') = False"
    using assms(4) by blast
  show ?thesis unfolding decode_loop.simps [of limit p pos buf] Let_def n using assms(1-3) by simp
qed

definition loop_ok :: "nat \<Rightarrow> nat \<Rightarrow> nat \<Rightarrow> c_fault + (nat \<times> char list) \<Rightarrow> bool" where
  "loop_ok limit pos n r =
     (case r of Inl e \<Rightarrow> e = SignedOverflow
      | Inr (pos', buf') \<Rightarrow> pos' \<le> max pos limit \<and> length buf' = n)"

lemma decode_loop_fault:
  "limit \<le> length buf \<Longrightarrow> loop_ok limit pos (length buf) (decode_loop limit p pos buf)"
proof (induction "limit - pos" arbitrary: pos p buf rule: less_induct)
  case less
  let ?p = "dropWhile is_sep p"
  consider (stop) "p = [] \<or> hd p = CHR '']'' \<or> \<not> pos < limit"
    | (bracket) "p \<noteq> []" "hd p \<noteq> CHR '']''" "pos < limit" "?p \<noteq> []" "hd ?p = CHR '']''"
    | (go) "p \<noteq> []" "hd p \<noteq> CHR '']''" "pos < limit" "\<not> (?p \<noteq> [] \<and> hd ?p = CHR '']'')"
    by blast
  then show ?case
  proof cases
    case stop
    then have "decode_loop limit p pos buf = Inr (pos, buf)"
      unfolding decode_loop.simps [of limit p pos buf] by auto
    then show ?thesis by (simp add: loop_ok_def)
  next
    case bracket
    then have "decode_loop limit p pos buf = Inr (pos, buf)"
      unfolding decode_loop.simps [of limit p pos buf] Let_def by simp
    then show ?thesis by (simp add: loop_ok_def)
  next
    case go
    have l: "pos < length buf" using go(3) less.prems by simp
    show ?thesis
    proof (cases "parse_digits 0 ?p")
      case (Inl e)
      then have "e = SignedOverflow" using parse_digits_fault [of 0 ?p] by (simp add: overflow_only_def)
      with Inl show ?thesis by (simp add: decode_loop_step [OF go] loop_ok_def)
    next
      case (Inr vq)
      obtain v q where vq: "vq = (v, q)" by fastforce
      let ?b = "buf[pos := char_of (nat v)]"
      have "loop_ok limit (pos + 1) (length ?b) (decode_loop limit q (pos + 1) ?b)"
        using go(3) less.prems by (intro less.hyps) auto
      moreover have "decode_loop limit p pos buf = decode_loop limit q (pos + 1) ?b"
        using l Inr vq by (simp add: decode_loop_step [OF go])
      ultimately show ?thesis using go(3) by (auto simp: loop_ok_def split: sum.splits)
    qed
  qed
qed

lemma read_payload_fault:
  assumes "arrays_ok junk"
  shows "overflow_only (read_payload junk msgJson)"
proof -
  have l: "length (junk ''payload'' 4096) = 4096" using assms(1) by (simp add: arrays_ok_def)
  have s: "size_pred 4096 = 4095" using size_pred_pos [of 4096] by simp
  have d: "overflow_only (rbind (decode_loop 4095 q 0 (junk ''payload'' 4096)) (\<lambda>(pos, buffer).
      rbind (put buffer pos (CHR 0x00)) (\<lambda>buffer. Inr (int pos, buffer))))" for q
  proof (cases "decode_loop 4095 q 0 (junk ''payload'' 4096)")
    case (Inl e)
    then show ?thesis
      using decode_loop_fault [of 4095 "junk ''payload'' 4096" 0 q] l by (simp add: loop_ok_def overflow_only_def)
  next
    case (Inr pb)
    then obtain pos b where "pb = (pos, b)" "pos < length b"
      using decode_loop_fault [of 4095 "junk ''payload'' 4096" 0 q] l by (cases pb) (simp add: loop_ok_def)
    with Inr show ?thesis by simp
  qed
  have "overflow_only (decode_json_byte_array msgJson f (junk ''payload'' 4096) 4096)" for f
    unfolding decode_json_byte_array_def Let_def s using d by (simp split: option.split)
  then show ?thesis unfolding read_payload_def by (intro overflow_only_bind) (auto split: prod.split)
qed

text \<open>Whether the callback prints an array that nothing was stored in and that has no terminator.\<close>

definition message_prints_unset :: "(nat \<Rightarrow> bool) \<Rightarrow> locals \<Rightarrow> string \<Rightarrow> bool" where
  "message_prints_unset mem junk json \<longleftrightarrow>
     (case extract_json_object json ''message'' of
        None \<Rightarrow> unset junk json ''messageHash'' 128
      | Some (start, len) \<Rightarrow>
          mem (len + 1) \<and> (\<exists>payload. read_payload junk (take len (drop start json)) = Inr payload)
          \<and> (unset junk json ''messageHash'' 128
             \<or> unset junk (take len (drop start json)) ''contentTopic'' 256))"

definition prints_unset :: "(nat \<Rightarrow> bool) \<Rightarrow> locals \<Rightarrow> string \<Rightarrow> string \<Rightarrow> bool" where
  "prints_unset mem junk ty json \<longleftrightarrow>
     (if ty = ''message_sent'' \<or> ty = ''message_propagated'' then
        unset junk json ''requestId'' 128 \<or> unset junk json ''messageHash'' 128
      else if ty = ''message_error'' then
        unset junk json ''requestId'' 128 \<or> unset junk json ''messageHash'' 128 \<or> unset junk json ''error'' 256
      else if ty = ''connection_status_change'' then unset junk json ''connectionStatus'' 256
      else ty = ''message_received'' \<and> message_prints_unset mem junk json)"

text \<open>The faults of the callback, with the condition of the second.\<close>

definition faults_iff :: "c_fault + 'a \<Rightarrow> bool \<Rightarrow> bool" where
  "faults_iff r c \<longleftrightarrow> r \<noteq> Inl NullDeref \<and> (r = Inl OutOfBounds \<longleftrightarrow> c)"

lemma faults_Inr [simp]: "faults_iff (Inr x) c \<longleftrightarrow> \<not> c"
  by (simp add: faults_iff_def)

lemma on_message_received_faults:
  assumes "arrays_ok junk"
  shows "faults_iff (on_message_received mem junk j st) (message_prints_unset mem junk j)"
proof -
  obtain h where h: "read_field junk j ''messageHash'' 128 = Inr (h, has_field j ''messageHash'')"
    "CHR 0x00 \<in> set h \<longleftrightarrow> \<not> unset junk j ''messageHash'' 128"
    using read_field_sizes [OF assms, of 128 "j" "''messageHash''"] by blast
  show ?thesis
  proof (cases "extract_json_object j ''message''")
    case None
    then show ?thesis
      by (simp add: on_message_received_def message_prints_unset_def h print_array_def faults_iff_def)
  next
    case (Some sl)
    obtain start len where sl: "sl = (start, len)" by fastforce
    define m where "m = take len (drop start j)"
    obtain c where c: "read_field junk m ''contentTopic'' 256 = Inr (c, has_field m ''contentTopic'')"
      "CHR 0x00 \<in> set c \<longleftrightarrow> \<not> unset junk m ''contentTopic'' 256"
      using read_field_sizes [OF assms, of 256 m "''contentTopic''"] by blast
    have p: "read_payload junk m = Inl e \<Longrightarrow> e = SignedOverflow" for e
      using read_payload_fault [OF assms, of m] by (simp add: overflow_only_def)
    show ?thesis
    proof (cases "read_payload junk m")
      case (Inl e)
      with p show ?thesis
        by (auto simp: on_message_received_def message_prints_unset_def h(1) c(1) Some sl m_def [symmetric]
            faults_iff_def Let_def)
    next
      case (Inr x)
      then show ?thesis
        by (simp add: on_message_received_def message_prints_unset_def h c Some sl m_def [symmetric]
            faults_iff_def Let_def print_array_def)
    qed
  qed
qed

lemma dispatch_event_faults:
  assumes "arrays_ok junk"
  shows "faults_iff (dispatch_event mem junk ty j st) (prints_unset mem junk ty j)"
proof -
  obtain r where r: "read_field junk j ''requestId'' 128 = Inr (r, has_field j ''requestId'')"
    "CHR 0x00 \<in> set r \<longleftrightarrow> \<not> unset junk j ''requestId'' 128"
    using read_field_sizes [OF assms, of 128 "j" "''requestId''"] by blast
  obtain h where h: "read_field junk j ''messageHash'' 128 = Inr (h, has_field j ''messageHash'')"
    "CHR 0x00 \<in> set h \<longleftrightarrow> \<not> unset junk j ''messageHash'' 128"
    using read_field_sizes [OF assms, of 128 "j" "''messageHash''"] by blast
  obtain e where e: "read_field junk j ''error'' 256 = Inr (e, has_field j ''error'')"
    "CHR 0x00 \<in> set e \<longleftrightarrow> \<not> unset junk j ''error'' 256"
    using read_field_sizes [OF assms, of 256 "j" "''error''"] by blast
  obtain c where c: "read_field junk j ''connectionStatus'' 256 = Inr (c, has_field j ''connectionStatus'')"
    "CHR 0x00 \<in> set c \<longleftrightarrow> \<not> unset junk j ''connectionStatus'' 256"
    using read_field_sizes [OF assms, of 256 "j" "''connectionStatus''"] by blast
  consider "ty = ''message_received''" | "ty \<noteq> ''message_received''" by blast
  then show ?thesis
  proof cases
    case 1
    then show ?thesis
      using on_message_received_faults [OF assms] by (simp add: dispatch_event_def prints_unset_def)
  next
    case 2
    then show ?thesis
      by (simp add: dispatch_event_def prints_unset_def r h e c print_array_def faults_iff_def)
  qed
qed

lemma poll_elapsed:
  assumes "elapsed \<le> timeout_sec"
  shows "\<exists>n. poll seen timeout_sec elapsed slept = (elapsed + n, slept + n * 100000)
    \<and> elapsed + n \<le> timeout_sec \<and> (\<forall>i<n. \<not> seen (elapsed + i))
    \<and> (elapsed + n < timeout_sec \<longrightarrow> seen (elapsed + n))"
  using assms
proof (induction "timeout_sec - elapsed" arbitrary: elapsed slept)
  case 0
  then have "poll seen timeout_sec elapsed slept = (elapsed, slept)"
    unfolding poll.simps [of seen timeout_sec elapsed slept] by auto
  with 0 show ?case by (intro exI [of _ 0]) simp
next
  case (Suc k)
  show ?case
  proof (cases "seen elapsed")
    case True
    then have "poll seen timeout_sec elapsed slept = (elapsed, slept)"
      unfolding poll.simps [of seen timeout_sec elapsed slept] by auto
    with Suc True show ?thesis by (intro exI [of _ 0]) simp
  next
    case False
    have "k = timeout_sec - (elapsed + 1)" "elapsed + 1 \<le> timeout_sec" using Suc by auto
    from Suc.hyps(1) [OF this, of "slept + 100000"] obtain n where
      n: "poll seen timeout_sec (elapsed + 1) (slept + 100000)
          = (elapsed + 1 + n, slept + 100000 + n * 100000)"
        "elapsed + 1 + n \<le> timeout_sec" "\<forall>i<n. \<not> seen (elapsed + 1 + i)"
        "elapsed + 1 + n < timeout_sec \<longrightarrow> seen (elapsed + 1 + n)"
      by blast
    have "poll seen timeout_sec elapsed slept = (elapsed + 1 + n, slept + 100000 + n * 100000)"
      unfolding poll.simps [of seen timeout_sec elapsed slept] using False Suc n(1) by simp
    moreover have "\<not> seen (elapsed + i)" if "i < Suc n" for i
      using that False n(3) by (cases i) auto
    ultimately show ?thesis using n(2,4) by (intro exI [of _ "Suc n"]) simp
  qed
qed

section \<open>Properties\<close>

text \<open>
  C37. The callback ignores whether a field was found and prints its array all the same. It leaves an
  array exactly when an event that it handles lacks a field it prints and the array of that field, in
  which nothing was stored, has no terminator; it uses no null pointer, whatever text arrives.
\<close>

theorem event_callback_memory_safe:
  assumes "arrays_ok junk"
  shows "event_callback mem junk ret msg st \<noteq> Inl NullDeref
    \<and> (event_callback mem junk ret msg st = Inl OutOfBounds \<longleftrightarrow>
        (\<exists>m ty. msg = Some m \<and> ret = RET_OK \<and> m \<noteq> [] \<and> mem (length m + 1)
          \<and> read_field junk (c_str m) ''eventType'' 64 = Inr (ty, True)
          \<and> prints_unset mem junk (c_str ty) (c_str m)))"
proof (cases "\<exists>m. msg = Some m \<and> ret = RET_OK \<and> m \<noteq> [] \<and> mem (length m + 1)")
  case False
  then show ?thesis by (auto simp: event_callback_def split: option.split)
next
  case True
  then obtain m where m: "msg = Some m" "ret = RET_OK" "m \<noteq> []" "mem (length m + 1)" by blast
  obtain t where t: "read_field junk (c_str m) ''eventType'' 64 = Inr (t, has_field (c_str m) ''eventType'')"
    using read_field_sizes [OF assms, of 64 "c_str m" "''eventType''"] by blast
  have "faults_iff (event_callback mem junk ret msg st)
      (has_field (c_str m) ''eventType'' \<and> prints_unset mem junk (c_str t) (c_str m))"
    using dispatch_event_faults [OF assms] m by (auto simp: event_callback_def t)
  with m t show ?thesis by (auto simp: faults_iff_def)
qed

text \<open>A message that was sent, with neither of its fields, and arrays full of question marks.\<close>

theorem event_callback_memory_safe_witness:
  "event_callback (\<lambda>_. True) (\<lambda>v n. replicate n CHR ''?'') 0
      (Some (dq # ''eventType'' @ [dq, CHR '':'', dq] @ ''message_sent'' @ [dq])) lmapi_init = Inl OutOfBounds
   \<and> event_callback (\<lambda>_. True) (\<lambda>v n. replicate n CHR 0x00) 0
      (Some (dq # ''eventType'' @ [dq, CHR '':'', dq] @ ''message_sent'' @ [dq])) lmapi_init \<noteq> Inl OutOfBounds"
proof -
  let ?m = "dq # ''eventType'' @ [dq, CHR '':'', dq] @ ''message_sent'' @ [dq]"
  let ?q = "\<lambda>(v :: string) n. replicate n CHR ''?''" and ?z = "\<lambda>(v :: string) n. replicate n CHR 0x00"
  have ok: "arrays_ok ?q" "arrays_ok ?z" by (simp_all add: arrays_ok_def)
  have c: "c_str ?m = ?m" by (simp add: c_str_def)
  obtain t where t: "read_field ?q ?m ''eventType'' 64 = Inr (t, True)" "c_str t = ''message_sent''"
    using extract_json_field_value [of ?m "''eventType''" 0 "''message_sent''" "[]" 64 "?q ''eventType'' 64"]
    by (auto simp: read_field_def search_key_def snprintf_def c_str_def)
  have "unset ?q ?m ''requestId'' 128"
    by (simp add: unset_def has_field_def search_key_def snprintf_def)
  then have p: "prints_unset (\<lambda>_. True) ?q (c_str t) ?m" by (simp add: t prints_unset_def)
  have n: "\<not> prints_unset (\<lambda>_. True) ?z ty ?m" for ty
    by (auto simp: prints_unset_def message_prints_unset_def unset_def split: option.split)
  show ?thesis
    using event_callback_memory_safe [OF ok(1), of "\<lambda>_. True" 0 "Some ?m" lmapi_init]
      event_callback_memory_safe [OF ok(2), of "\<lambda>_. True" 0 "Some ?m" lmapi_init] c t p n
    by auto
qed

text \<open>
  C39. The polling loop ends after at most \<open>timeout_sec\<close> rounds of a tenth of a second: with no
  event it gives up after 6 seconds, although it then reports a time-out after 60 seconds; when
  it stops earlier a flag was up and none was before.
\<close>

theorem poll_times_out:
  assumes "poll seen 60 0 0 = (elapsed, slept)"
  shows "elapsed \<le> 60 \<and> slept = elapsed * 100000 \<and> slept \<le> 6000000
    \<and> (elapsed < 60 \<longrightarrow> seen elapsed) \<and> (\<forall>i<elapsed. \<not> seen i)
    \<and> ((\<forall>i. \<not> seen i) \<longrightarrow> slept = 6000000)"
proof -
  obtain n where n: "poll seen 60 0 0 = (0 + n, 0 + n * 100000)" "0 + n \<le> 60"
    "\<forall>i<n. \<not> seen (0 + i)" "0 + n < 60 \<longrightarrow> seen (0 + n)"
    using poll_elapsed [of 0 60 seen 0] by auto
  then have "elapsed = n" "slept = n * 100000" using assms by simp_all
  moreover have "(\<forall>i. \<not> seen i) \<longrightarrow> n = 60" using n(2,4) by (cases "n < 60") auto
  ultimately show ?thesis using n(2-4) by auto
qed

theorem poll_times_out_witness: "snd (poll (\<lambda>i. i = 2) 60 0 0) \<le> 6000000"
  using poll_times_out [OF prod.collapse [symmetric], of "\<lambda>i. i = 2"] by simp

end
