(* ===== verification/CIosApi.thy ===== *)
theory CIosApi
  imports CApi
begin

text \<open>
  The header the iOS example compiles against, \<open>examples/ios/WakuExample/libwaku.h\<close>: another
  declaration of the library's functions, compared with the library's own header.
\<close>

section \<open>The declarations of the iOS header\<close>

text \<open>
  The parameter types of each function the header declares, in two parts as for the library's
  header. Where the library has \<open>set_event_callback\<close> it declares \<open>waku_set_event_callback\<close>.
\<close>

fun ios_peer_params :: "libwaku_fn \<Rightarrow> ctype list option" where
  "ios_peer_params waku_store_query = Some [VoidPtr, CharPtr, CharPtr, CInt, FnPtr, VoidPtr]"
| "ios_peer_params waku_connect = Some [VoidPtr, CharPtr, CUInt, FnPtr, VoidPtr]"
| "ios_peer_params waku_disconnect_peer_by_id = Some [VoidPtr, CharPtr, FnPtr, VoidPtr]"
| "ios_peer_params waku_disconnect_all_peers = Some [VoidPtr, FnPtr, VoidPtr]"
| "ios_peer_params waku_dial_peer = Some [VoidPtr, CharPtr, CharPtr, CInt, FnPtr, VoidPtr]"
| "ios_peer_params waku_dial_peer_by_id = Some [VoidPtr, CharPtr, CharPtr, CInt, FnPtr, VoidPtr]"
| "ios_peer_params waku_get_peerids_from_peerstore = Some [VoidPtr, FnPtr, VoidPtr]"
| "ios_peer_params waku_get_connected_peers_info = Some [VoidPtr, FnPtr, VoidPtr]"
| "ios_peer_params waku_get_peerids_by_protocol = Some [VoidPtr, CharPtr, FnPtr, VoidPtr]"
| "ios_peer_params waku_listen_addresses = Some [VoidPtr, FnPtr, VoidPtr]"
| "ios_peer_params waku_get_connected_peers = Some [VoidPtr, FnPtr, VoidPtr]"
| "ios_peer_params waku_dns_discovery = Some [VoidPtr, CharPtr, CharPtr, CInt, FnPtr, VoidPtr]"
| "ios_peer_params waku_discv5_update_bootnodes = Some [VoidPtr, CharPtr, FnPtr, VoidPtr]"
| "ios_peer_params waku_start_discv5 = Some [VoidPtr, FnPtr, VoidPtr]"
| "ios_peer_params waku_stop_discv5 = Some [VoidPtr, FnPtr, VoidPtr]"
| "ios_peer_params waku_get_my_enr = Some [VoidPtr, FnPtr, VoidPtr]"
| "ios_peer_params waku_get_my_peerid = Some [VoidPtr, FnPtr, VoidPtr]"
| "ios_peer_params waku_get_metrics = Some [VoidPtr, FnPtr, VoidPtr]"
| "ios_peer_params waku_peer_exchange_request = Some [VoidPtr, CInt, FnPtr, VoidPtr]"
| "ios_peer_params waku_ping_peer = Some [VoidPtr, CharPtr, CInt, FnPtr, VoidPtr]"
| "ios_peer_params waku_is_online = Some [VoidPtr, FnPtr, VoidPtr]"
| "ios_peer_params _ = None"

fun ios_params :: "libwaku_fn \<Rightarrow> ctype list option" where
  "ios_params waku_new = Some [CharPtr, FnPtr, VoidPtr]"
| "ios_params waku_start = Some [VoidPtr, FnPtr, VoidPtr]"
| "ios_params waku_stop = Some [VoidPtr, FnPtr, VoidPtr]"
| "ios_params waku_destroy = Some [VoidPtr, FnPtr, VoidPtr]"
| "ios_params waku_version = Some [VoidPtr, FnPtr, VoidPtr]"
| "ios_params waku_content_topic = Some [VoidPtr, CharPtr, CUInt, CharPtr, CharPtr, FnPtr, VoidPtr]"
| "ios_params waku_pubsub_topic = Some [VoidPtr, CharPtr, FnPtr, VoidPtr]"
| "ios_params waku_default_pubsub_topic = Some [VoidPtr, FnPtr, VoidPtr]"
| "ios_params waku_relay_publish = Some [VoidPtr, CharPtr, CharPtr, CUInt, FnPtr, VoidPtr]"
| "ios_params waku_lightpush_publish = Some [VoidPtr, CharPtr, CharPtr, FnPtr, VoidPtr]"
| "ios_params waku_relay_subscribe = Some [VoidPtr, CharPtr, FnPtr, VoidPtr]"
| "ios_params waku_relay_add_protected_shard = Some [VoidPtr, CInt, CInt, CharPtr, FnPtr, VoidPtr]"
| "ios_params waku_relay_unsubscribe = Some [VoidPtr, CharPtr, FnPtr, VoidPtr]"
| "ios_params waku_filter_subscribe = Some [VoidPtr, CharPtr, CharPtr, FnPtr, VoidPtr]"
| "ios_params waku_filter_unsubscribe = Some [VoidPtr, CharPtr, CharPtr, FnPtr, VoidPtr]"
| "ios_params waku_filter_unsubscribe_all = Some [VoidPtr, FnPtr, VoidPtr]"
| "ios_params waku_relay_get_num_connected_peers = Some [VoidPtr, CharPtr, FnPtr, VoidPtr]"
| "ios_params waku_relay_get_connected_peers = Some [VoidPtr, CharPtr, FnPtr, VoidPtr]"
| "ios_params waku_relay_get_num_peers_in_mesh = Some [VoidPtr, CharPtr, FnPtr, VoidPtr]"
| "ios_params waku_relay_get_peers_in_mesh = Some [VoidPtr, CharPtr, FnPtr, VoidPtr]"
| "ios_params set_event_callback = None"
| "ios_params f = ios_peer_params f"

definition waku_set_event_callback_params :: "ctype list" where
  "waku_set_event_callback_params = [VoidPtr, FnPtr, VoidPtr]"

section \<open>Comparison\<close>

text \<open>The iOS header has the callback and the user data at the end, \<open>libwaku.h\<close> after the first argument.\<close>

lemma ios_params_moved:
  assumes "f \<noteq> set_event_callback"
  shows "\<exists>p rest. libwaku_params f = p # FnPtr # VoidPtr # rest \<and> FnPtr \<notin> set rest
    \<and> ios_params f = Some (p # rest @ [FnPtr, VoidPtr])"
  using assms by (cases f) auto

lemma moved_conflict:
  assumes "conforms (p # rest @ [FnPtr, VoidPtr]) args" "FnPtr \<notin> set rest" "rest \<noteq> []"
  shows "\<not> conforms (p # FnPtr # VoidPtr # rest) args"
proof
  assume c: "conforms (p # FnPtr # VoidPtr # rest) args"
  then obtain a b as where args: "args = a # b # as" "passes FnPtr b"
    by (cases args; cases "List.tl args") auto
  then obtain g n where b: "b = AFn g n" by (cases b) auto
  obtain r rs where r: "rest = r # rs" using assms(3) by (cases rest) auto
  from assms(1) args b r have "passes r (AFn g n)" by simp
  with assms(2) r show False by (cases r) auto
qed

section \<open>Property\<close>

text \<open>
  Every function of \<open>libwaku.h\<close> but \<open>set_event_callback\<close> is declared by the iOS header, with
  the callback and its user data last. A call written for the iOS header suits the library when
  the function takes no other argument; every other call passes its own arguments where the
  library expects the callback.
\<close>

lemma ios_header_calls:
  assumes "f \<noteq> set_event_callback"
  shows "\<exists>ps. ios_params f = Some ps \<and> length ps = length (libwaku_params f)
    \<and> (ps = libwaku_params f \<longleftrightarrow> length ps = 3)
    \<and> (\<forall>args. conforms ps args \<longrightarrow> (conforms (libwaku_params f) args \<longleftrightarrow> length ps = 3))"
proof -
  obtain p rest where r: "libwaku_params f = p # FnPtr # VoidPtr # rest" "FnPtr \<notin> set rest"
    "ios_params f = Some (p # rest @ [FnPtr, VoidPtr])"
    using ios_params_moved [OF assms] by blast
  show ?thesis
  proof (cases "rest = []")
    case False
    then have "rest @ [FnPtr, VoidPtr] \<noteq> FnPtr # VoidPtr # rest" using r(2) by (cases rest) auto
    with False r moved_conflict [OF _ r(2) False] show ?thesis by auto
  qed (use r in auto)
qed

lemma ios_header_calls_example:
  "conforms (the (ios_params waku_connect)) [ACtx, AStr ''peer'', AInt 10000, AFn ''cb'' 4, AUser]
    \<and> \<not> conforms (libwaku_params waku_connect) [ACtx, AStr ''peer'', AInt 10000, AFn ''cb'' 4, AUser]"
  using ios_header_calls [of waku_connect] by (auto simp: ffi_callback_arity_def)

end
