(* ===== verification/CJni.thy ===== *)
theory CJni
  imports CIosApi
begin

text \<open>
  The Android bridge \<open>examples/mobile/android/app/src/main/jni/waku_ffi.c\<close>: the response callback
  that stores what the library answers in a heap block, its conversion to the Kotlin results, its
  release, and the native methods around the library calls. The memory is modelled by the number
  of blocks allocated and not yet freed and of JVM strings acquired and not yet released; the
  library is the list of callback invocations it makes during a call.
\<close>

section \<open>Responses\<close>

record cb_result =
  res_error :: bool
  res_message :: string

record bridge =
  result :: "cb_result option"
  live_blocks :: int
  live_strings :: int

definition bridge_init :: bridge where
  "bridge_init = \<lparr>result = None, live_blocks = 0, live_strings = 0\<rparr>"

text \<open>
  Storing a response: one block for the struct, one for the message, whatever the slot held
  before. \<open>strncat\<close> copies at most \<open>len\<close> characters into a block of \<open>len + 1\<close>.
\<close>

definition store_response ::
  "(nat \<Rightarrow> bool) \<Rightarrow> bool \<Rightarrow> string \<Rightarrow> nat \<Rightarrow> bridge \<Rightarrow> c_fault + bridge" where
  "store_response mem err msg len b =
     (if mem 16 \<and> mem (len + 1)
      then Inr (b\<lparr>result := Some \<lparr>res_error = err, res_message = take len msg\<rparr>,
                  live_blocks := live_blocks b + 2\<rparr>)
      else Inl NullDeref)"

definition on_response ::
  "(nat \<Rightarrow> bool) \<Rightarrow> bool \<Rightarrow> int \<times> string \<times> nat \<Rightarrow> bridge \<Rightarrow> c_fault + bridge" where
  "on_response mem has_data resp b =
     (case resp of (ret, msg, len) \<Rightarrow>
        (if ret \<noteq> RET_OK then
           (if has_data then store_response mem True msg len b else Inr b)
         else if \<not> has_data then Inr b
         else if len = 0 then store_response mem False ''on_response-ok'' 14 b
         else store_response mem False msg len b))"

definition free_cb_result :: "bridge \<Rightarrow> bridge" where
  "free_cb_result b =
     (case result b of None \<Rightarrow> b
      | Some r \<Rightarrow> b\<lparr>live_blocks := live_blocks b - 2\<rparr>)"

text \<open>The objects handed to Kotlin: \<open>WakuResult\<close> and \<open>WakuPtr\<close>.\<close>

definition to_jni_result :: "cb_result option \<Rightarrow> bool \<times> string" where
  "to_jni_result r =
     (case r of Some c \<Rightarrow> (res_error c, res_message c) | None \<Rightarrow> (False, ''ok''))"

definition to_jni_ptr :: "cb_result option \<Rightarrow> int \<Rightarrow> bool \<times> string \<times> int" where
  "to_jni_ptr r ptr =
     (case r of Some c \<Rightarrow> (res_error c, res_message c, - 1) | None \<Rightarrow> (False, ''ok'', ptr))"

section \<open>Native methods\<close>

type_synonym response = "int \<times> string \<times> nat"

fun deliver :: "(nat \<Rightarrow> bool) \<Rightarrow> response list \<Rightarrow> bridge \<Rightarrow> c_fault + bridge" where
  "deliver mem [] b = Inr b"
| "deliver mem (r # rs) b = rbind (on_response mem True r b) (deliver mem rs)"

definition acquire :: "nat \<Rightarrow> bridge \<Rightarrow> bridge" where
  "acquire n b = b\<lparr>live_strings := live_strings b + int n\<rparr>"

definition release :: "nat \<Rightarrow> bridge \<Rightarrow> bridge" where
  "release n b = b\<lparr>live_strings := live_strings b - int n\<rparr>"

text \<open>
  The body the methods share: a fresh result slot, \<open>n\<close> strings acquired, the call with the
  callbacks it makes, the conversion, the release of the result and of the strings.
\<close>

definition native_call ::
  "(nat \<Rightarrow> bool) \<Rightarrow> nat \<Rightarrow> response list \<Rightarrow> bridge \<Rightarrow> c_fault + (bool \<times> string) \<times> bridge" where
  "native_call mem n rs b =
     rbind (deliver mem rs (acquire n (b\<lparr>result := None\<rparr>))) (\<lambda>b.
     Inr (to_jni_result (result b), release n (free_cb_result b)))"

definition wakuNew ::
  "(nat \<Rightarrow> bool) \<Rightarrow> response list \<Rightarrow> int \<Rightarrow> bridge \<Rightarrow> c_fault + (bool \<times> string \<times> int) \<times> bridge" where
  "wakuNew mem rs wakuPtr b =
     rbind (deliver mem rs (acquire 1 (b\<lparr>result := None\<rparr>))) (\<lambda>b.
     Inr (to_jni_ptr (result b) wakuPtr, free_cb_result (release 1 b)))"

definition wakuStart where "wakuStart mem rs b = native_call mem 0 rs b"
definition wakuVersion where "wakuVersion mem rs b = native_call mem 0 rs b"
definition wakuStop where "wakuStop mem rs b = native_call mem 0 rs b"
definition wakuDestroy where "wakuDestroy mem rs b = native_call mem 0 rs b"
definition wakuConnect where "wakuConnect mem rs b = native_call mem 1 rs b"
definition wakuListenAddresses where "wakuListenAddresses mem rs b = native_call mem 0 rs b"
definition wakuRelayPublish where "wakuRelayPublish mem rs b = native_call mem 2 rs b"
definition wakuRelaySubscribe where "wakuRelaySubscribe mem rs b = native_call mem 1 rs b"
definition wakuRelayUnsubscribe where "wakuRelayUnsubscribe mem rs b = native_call mem 1 rs b"

text \<open>The argument lists of the library calls, as the methods write them.\<close>

definition jni_cb :: carg where "jni_cb = AFn ''on_response'' 4"

definition jni_calls :: "string \<Rightarrow> string \<Rightarrow> int \<Rightarrow> (libwaku_fn \<times> carg list) list" where
  "jni_calls str1 str2 timeoutMs =
     [(waku_new, [AStr str1, jni_cb, AUser]),
      (waku_start, [ACtx, jni_cb, AUser]),
      (waku_version, [ACtx, jni_cb, AUser]),
      (waku_stop, [ACtx, jni_cb, AUser]),
      (waku_destroy, [ACtx, jni_cb, AUser]),
      (waku_connect, [ACtx, AStr str1, AInt timeoutMs, jni_cb, AUser]),
      (waku_listen_addresses, [ACtx, jni_cb, AUser]),
      (waku_relay_publish, [ACtx, AStr str1, AStr str2, AInt timeoutMs, jni_cb, AUser]),
      (waku_relay_subscribe, [ACtx, AStr str1, jni_cb, AUser]),
      (waku_relay_unsubscribe, [ACtx, AStr str1, jni_cb, AUser])]"

section \<open>Memory\<close>

definition plenty :: "(nat \<Rightarrow> bool) \<Rightarrow> bool" where
  "plenty mem \<longleftrightarrow> (\<forall>n. mem n)"

definition response_of :: "response \<Rightarrow> cb_result" where
  "response_of r = (case r of (ret, msg, len) \<Rightarrow>
     if ret \<noteq> 0 then \<lparr>res_error = True, res_message = take len msg\<rparr>
     else if len = 0 then \<lparr>res_error = False, res_message = ''on_response-ok''\<rparr>
     else \<lparr>res_error = False, res_message = take len msg\<rparr>)"

lemma on_response_stores:
  "plenty mem \<Longrightarrow> on_response mem True r b
    = Inr (b\<lparr>result := Some (response_of r), live_blocks := live_blocks b + 2\<rparr>)"
  by (auto simp: on_response_def store_response_def plenty_def response_of_def split: prod.split)

lemma deliver_blocks:
  assumes "plenty mem"
  shows "\<exists>b'. deliver mem rs b = Inr b'
    \<and> result b' = (if rs = [] then result b else Some (response_of (last rs)))
    \<and> live_blocks b' = live_blocks b + 2 * int (length rs) \<and> live_strings b' = live_strings b"
proof (induction rs arbitrary: b)
  case (Cons r rs)
  show ?case
    using Cons [of "b\<lparr>result := Some (response_of r), live_blocks := live_blocks b + 2\<rparr>"]
    by (auto simp: on_response_stores [OF assms])
qed simp

lemma native_call_blocks:
  assumes "plenty mem"
  shows "\<exists>b'. native_call mem n rs b
      = Inr (if rs = [] then (False, ''ok'')
             else (res_error (response_of (last rs)), res_message (response_of (last rs))), b')
    \<and> live_strings b' = live_strings b
    \<and> live_blocks b' = live_blocks b + 2 * int (length rs - 1)"
proof -
  define a where "a = acquire n (b\<lparr>result := None\<rparr>)"
  have a: "result a = None" "live_blocks a = live_blocks b" "live_strings a = live_strings b + int n"
    by (simp_all add: a_def acquire_def)
  obtain b1 where "deliver mem rs a = Inr b1"
    "result b1 = (if rs = [] then None else Some (response_of (last rs)))"
    "live_blocks b1 = live_blocks b + 2 * int (length rs)"
    "live_strings b1 = live_strings b + int n"
    using deliver_blocks [OF assms, of rs a] a by metis
  then show ?thesis
    by (cases "rs = []")
      (auto simp: native_call_def a_def [symmetric] to_jni_result_def free_cb_result_def release_def
        of_nat_diff Suc_le_eq)
qed

section \<open>Properties\<close>

text \<open>
  A native method returns to Kotlin the last response the library gave it, releases every
  JVM string it acquired, and frees all it allocated exactly when the library calls back at most
  once: each further callback during the call leaks the two blocks of the response it replaces.
\<close>

lemma native_call_leaks:
  assumes "plenty mem"
  shows "\<exists>b'. native_call mem n rs b
      = Inr (if rs = [] then (False, ''ok'')
             else (res_error (response_of (last rs)), res_message (response_of (last rs))), b')
    \<and> live_strings b' = live_strings b
    \<and> live_blocks b' = live_blocks b + 2 * int (length rs - 1)"
  by (rule native_call_blocks [OF assms])

lemma native_call_leaks_example:
  "\<exists>b'. native_call (\<lambda>_. True) 1 [(0, ''v1'', 2)] bridge_init = Inr ((False, ''v1''), b')
    \<and> live_strings b' = 0 \<and> live_blocks b' = 0"
proof -
  have p: "plenty (\<lambda>_. True)" by (simp add: plenty_def)
  show ?thesis
    using native_call_leaks [OF p, of 1 "[(0, ''v1'', 2)]" bridge_init]
    by (simp add: response_of_def bridge_init_def)
qed

text \<open>
  The bridge is written for the parameter order of the iOS header: all its calls conform to
  that. Of \<open>libwaku.h\<close> only the calls without arguments of their own meet the declaration; the other
  four pass their strings and the time-out where the library expects the callback.
\<close>

lemma jni_calls_conform:
  "list_all (\<lambda>(f, args). conforms (the (ios_params f)) args) (jni_calls s1 s2 t)
    \<and> map (\<lambda>(f, args). conforms (libwaku_params f) args) (jni_calls s1 s2 t)
      = [True, True, True, True, True, False, True, False, False, False]"
  by (simp add: jni_calls_def jni_cb_def ffi_callback_arity_def)

section \<open>Threads, classes and events\<close>

text \<open>
  What the JVM side of the bridge changes: whether the running thread is attached, the local
  references it holds, the global ones, the C blocks, and the calls made to Kotlin.
\<close>

record jvm =
  attached :: bool
  local_refs :: int
  global_refs :: int
  c_blocks :: int
  kotlin_calls :: "(int \<times> string) list"

datatype jvm_fault = Abort | JvmNull

text \<open>
  \<open>attach\<close> tells whether the JVM lets the thread attach. Compiled with \<open>NDEBUG\<close> an \<open>assert\<close> does
  not evaluate its argument.
\<close>

definition getEnv :: "bool \<Rightarrow> bool \<Rightarrow> jvm \<Rightarrow> jvm_fault + jvm" where
  "getEnv ndebug attach v =
     (if attached v then Inr v
      else if attach then Inr (v\<lparr>attached := True\<rparr>)
      else if ndebug then Inr v else Inl Abort)"

definition new_refs :: "int \<Rightarrow> jvm \<Rightarrow> jvm" where
  "new_refs n v = v\<lparr>local_refs := local_refs v + n\<rparr>"

definition delete_refs :: "int \<Rightarrow> jvm \<Rightarrow> jvm" where
  "delete_refs n v = v\<lparr>local_refs := local_refs v - n\<rparr>"

text \<open>
  \<open>JNI_OnLoad\<close> takes the local references of the manager class, its class, the loader class and
  the loader, makes a global one of the loader, and deletes the four.
\<close>

definition JNI_OnLoad :: "bool \<Rightarrow> bool \<Rightarrow> jvm \<Rightarrow> jvm_fault + jvm" where
  "JNI_OnLoad ndebug attach v =
     rbind (getEnv ndebug attach v) (\<lambda>v.
       if \<not> attached v then Inl JvmNull
       else let v = new_refs 4 v; v = v\<lparr>global_refs := global_refs v + 1\<rparr> in Inr (delete_refs 4 v))"

text \<open>\<open>found\<close> tells whether the class loader knows the class; the caller keeps its reference.\<close>

definition loadClass :: "bool \<Rightarrow> bool \<Rightarrow> jvm \<Rightarrow> jvm_fault + jvm" where
  "loadClass ndebug found v =
     (let v = new_refs 1 v; v = (if found then new_refs 1 v else v) in
      if \<not> found \<and> \<not> ndebug then Inl Abort else Inr (delete_refs 1 v))"

text \<open>
  The event callback: attach (inside an \<open>assert\<close>), load the manager class, call it with the
  instance and the message, drop the references, detach.
\<close>

definition wk_callback ::
  "bool \<Rightarrow> bool \<Rightarrow> bool \<Rightarrow> int \<Rightarrow> string \<Rightarrow> jvm \<Rightarrow> jvm_fault + jvm" where
  "wk_callback ndebug attach found wakuPtr msg v =
     (if ndebug then Inl JvmNull
      else if \<not> attach then Inl Abort
      else rbind (loadClass ndebug found (v\<lparr>attached := True\<rparr>)) (\<lambda>v.
        let v = new_refs 1 v;
            v = v\<lparr>kotlin_calls := kotlin_calls v @ [(wakuPtr, msg)]\<rparr>
        in Inr ((delete_refs 2 v)\<lparr>attached := False\<rparr>)))"

text \<open>The user data of the event callback is a block that nothing frees.\<close>

definition wakuSetEventCallback :: "bool \<Rightarrow> jvm \<Rightarrow> jvm_fault + jvm" where
  "wakuSetEventCallback mem v =
     (if mem then Inr (v\<lparr>c_blocks := c_blocks v + 1\<rparr>) else Inl JvmNull)"

fun wk_events ::
  "bool \<Rightarrow> int \<Rightarrow> string list \<Rightarrow> jvm \<Rightarrow> jvm_fault + jvm" where
  "wk_events ndebug wakuPtr [] v = Inr v"
| "wk_events ndebug wakuPtr (m # ms) v =
     rbind (wk_callback ndebug True True wakuPtr m v) (wk_events ndebug wakuPtr ms)"

lemma wk_callback_debug:
  "wk_callback False True True p m v
    = Inr (v\<lparr>attached := False, kotlin_calls := kotlin_calls v @ [(p, m)]\<rparr>)"
  by (simp add: wk_callback_def loadClass_def new_refs_def delete_refs_def Let_def)

text \<open>
  Built with assertions, the event path hands Kotlin every message in order and leaves no
  local reference behind, though it detaches even a thread that was attached before. Built with
  \<open>NDEBUG\<close>, where the attachment is compiled out with its \<open>assert\<close>, the first event already uses a
  null environment.
\<close>

lemma wk_events_delivered:
  "wk_events False p ms v = Inr (if ms = [] then v
      else v\<lparr>attached := False, kotlin_calls := kotlin_calls v @ map (Pair p) ms\<rparr>)
    \<and> wk_events True p ms v = (if ms = [] then Inr v else Inl JvmNull)"
proof -
  have "wk_events False p ms v = Inr (if ms = [] then v
      else v\<lparr>attached := False, kotlin_calls := kotlin_calls v @ map (Pair p) ms\<rparr>)"
    by (induction ms arbitrary: v) (simp_all add: wk_callback_debug)
  moreover have "wk_events True p ms v = (if ms = [] then Inr v else Inl JvmNull)"
    by (cases ms) (simp_all add: wk_callback_def)
  ultimately show ?thesis by blast
qed

end
