(* ===== verification/CNapi.thy ===== *)
theory CNapi
  imports CApi CBase64
begin

text \<open>
  The Node.js addon \<open>examples/nodejs/waku_addon.c\<close>: its globals, the callbacks the library runs,
  and the native methods. N-API is modelled by what the addon uses of it: a value's type, the
  copy of a string (\<open>malloc\<close> may fail, and a null buffer only measures), numbers truncated to
  their low bits, references, and calls of a function. \<open>pad\<close> says whether an access a few bytes
  beyond a local variable lands in padding of the stack frame (\<open>True\<close>) or is a fault, as C has it
  (\<open>False\<close>). The library is a function from a call to its return code and to the callbacks it runs
  before it returns.
\<close>

section \<open>Values and globals\<close>

datatype js = JsString string | JsNumber int | JsFunction nat | JsOther

datatype lib_call = LibCall libwaku_fn "carg list" | Undeclared string "carg list"

datatype addon_fault = Fatal string | Memory c_fault | Uninitialised

type_synonym callback_args = "int \<times> string \<times> nat"

record addon =
  ref_version_callback :: "nat option"
  ref_def_pubsub_topic_callback :: "nat option"
  ref_on_error_callback :: "nat option"
  thsafe_fn :: "nat option"
  contentTopic :: "string option"
  my_env :: bool
  live :: int
  live_refs :: int
  thrown :: "string option"
  js_calls :: "(nat \<times> js list) list"
  queued :: "string list"
  lib_calls :: "lib_call list"

type_synonym addon_result = "addon_fault + addon"

definition addon_init :: addon where
  "addon_init = \<lparr>ref_version_callback = None, ref_def_pubsub_topic_callback = None,
     ref_on_error_callback = None, thsafe_fn = None, contentTopic = None, my_env = False,
     live = 0, live_refs = 0, thrown = None, js_calls = [], queued = [], lib_calls = []\<rparr>"

definition throw_type_error :: "string \<Rightarrow> addon \<Rightarrow> addon_result" where
  "throw_type_error m b = Inr (b\<lparr>thrown := Some m\<rparr>)"

text \<open>A buffer for a string argument: its content, or null where \<open>malloc\<close> fails.\<close>

type_synonym heap = "nat \<Rightarrow> char list option"

definition copy_arg :: "heap \<Rightarrow> string \<Rightarrow> string option" where
  "copy_arg mem s = (if mem (length s + 1) = None then None else Some s)"

definition held :: "'a option \<Rightarrow> int" where
  "held p = (case p of None \<Rightarrow> 0 | Some _ \<Rightarrow> 1)"

definition alloc :: "'a option \<Rightarrow> addon \<Rightarrow> addon" where
  "alloc p b = b\<lparr>live := live b + held p\<rparr>"

definition release :: "'a option \<Rightarrow> addon \<Rightarrow> addon" where
  "release p b = b\<lparr>live := live b - held p\<rparr>"

text \<open>\<open>userData\<close> is null in the addon, so a null pointer is written like it.\<close>

definition ptr_arg :: "string option \<Rightarrow> carg" where
  "ptr_arg p = (case p of None \<Rightarrow> AUser | Some s \<Rightarrow> AStr s)"

definition int32_of :: "int \<Rightarrow> int" where
  "int32_of n = sint (word_of_int n :: 32 word)"

text \<open>
  \<open>napi_get_value_int64\<close> into an \<open>unsigned int\<close>: eight bytes written to an object of four.
\<close>

definition int64_into_uint :: "bool \<Rightarrow> int \<Rightarrow> addon_fault + int" where
  "int64_into_uint pad n =
     (if pad then Inr (uint (word_of_int n :: 32 word)) else Inl (Memory OutOfBounds))"

text \<open>
  \<open>napi_call_function\<close> reads \<open>argc\<close> values from an array of \<open>length argv\<close>; what it reads beyond it
  is not a value the addon made.
\<close>

definition call_function :: "bool \<Rightarrow> nat \<Rightarrow> js list \<Rightarrow> nat \<Rightarrow> addon \<Rightarrow> addon_result" where
  "call_function pad argc argv f b =
     (if argc \<le> length argv then Inr (b\<lparr>js_calls := js_calls b @ [(f, take argc argv)]\<rparr>)
      else if pad then Inr (b\<lparr>js_calls := js_calls b
             @ [(f, argv @ replicate (argc - length argv) JsOther)]\<rparr>)
      else Inl (Memory OutOfBounds))"

section \<open>Callbacks\<close>

text \<open>
  A null reference throws and goes on to \<open>napi_get_reference_value\<close>, which fails and aborts; so
  does every N-API call before \<open>my_env\<close> is set.
\<close>

definition CallJs :: "bool \<Rightarrow> nat \<Rightarrow> string \<Rightarrow> addon \<Rightarrow> addon_result" where
  "CallJs env js_cb data b =
     rbind (if \<not> env then Inr b
            else if \<not> my_env b then Inl (Fatal ''napi_create_string_utf8'')
            else call_function False 1 [JsString data] js_cb b) (\<lambda>b.
     Inr (b\<lparr>live := live b - 1\<rparr>))"

definition respond :: "bool \<Rightarrow> nat option \<Rightarrow> string \<Rightarrow> addon \<Rightarrow> addon_result" where
  "respond pad cb msg b =
     (case cb of
        None \<Rightarrow> Inl (Fatal ''napi_get_reference_value'')
      | Some f \<Rightarrow>
          (if \<not> my_env b then Inl (Fatal ''napi_get_reference_value'')
           else call_function pad 2 [JsString msg] f b))"

definition handle_waku_version :: "bool \<Rightarrow> callback_args \<Rightarrow> addon \<Rightarrow> addon_result" where
  "handle_waku_version pad r b = respond pad (ref_version_callback b) (fst (snd r)) b"

definition handle_error :: "bool \<Rightarrow> callback_args \<Rightarrow> addon \<Rightarrow> addon_result" where
  "handle_error pad r b = respond pad (ref_on_error_callback b) (fst (snd r)) b"

definition handle_default_pubsub_topic :: "bool \<Rightarrow> callback_args \<Rightarrow> addon \<Rightarrow> addon_result" where
  "handle_default_pubsub_topic pad r b =
     respond pad (ref_def_pubsub_topic_callback b) (fst (snd r)) b"

text \<open>\<open>malloc(len + 1)\<close> and \<open>strcpy\<close>, unchecked.\<close>

definition strcpy_new :: "heap \<Rightarrow> string \<Rightarrow> nat \<Rightarrow> addon_fault + string" where
  "strcpy_new mem msg len =
     (if mem (len + 1) = None then Inl (Memory NullDeref)
      else if length msg \<le> len then Inr msg else Inl (Memory OutOfBounds))"

definition event_handler :: "heap \<Rightarrow> callback_args \<Rightarrow> addon \<Rightarrow> addon_result" where
  "event_handler mem r b =
     (case r of (callerRet, msg, len) \<Rightarrow>
        rbind (strcpy_new mem msg len) (\<lambda>allocated_msg.
        (case thsafe_fn b of
           None \<Rightarrow> Inl (Fatal ''napi_call_threadsafe_function'')
         | Some f \<Rightarrow> Inr (b\<lparr>live := live b + 1, queued := queued b @ [allocated_msg]\<rparr>))))"

definition handle_content_topic :: "heap \<Rightarrow> callback_args \<Rightarrow> addon \<Rightarrow> addon_result" where
  "handle_content_topic mem r b =
     (case r of (callerRet, msg, len) \<Rightarrow>
        rbind (strcpy_new mem msg len) (\<lambda>s.
        Inr (b\<lparr>live := live b - held (contentTopic b) + 1, contentTopic := Some s\<rparr>)))"

section \<open>Library calls\<close>

fun deliver :: "(callback_args \<Rightarrow> addon \<Rightarrow> addon_result) \<Rightarrow> callback_args list \<Rightarrow> addon \<Rightarrow> addon_result"
where
  "deliver h [] b = Inr b"
| "deliver h (r # rs) b = rbind (h r b) (deliver h rs)"

type_synonym library = "lib_call \<Rightarrow> int \<times> callback_args list"

definition lib_run ::
  "library \<Rightarrow> (callback_args \<Rightarrow> addon \<Rightarrow> addon_result) \<Rightarrow> lib_call \<Rightarrow> addon \<Rightarrow> addon_fault + int \<times> addon"
where
  "lib_run lib h c b =
     rbind (deliver h (snd (lib c)) (b\<lparr>lib_calls := lib_calls b @ [c]\<rparr>)) (\<lambda>b. Inr (fst (lib c), b))"

definition WAKU_CALL ::
  "library \<Rightarrow> (callback_args \<Rightarrow> addon \<Rightarrow> addon_result) \<Rightarrow> lib_call \<Rightarrow> addon \<Rightarrow> addon_result" where
  "WAKU_CALL lib h c b =
     rbind (lib_run lib h c b) (\<lambda>(ret, b). if ret \<noteq> 0 then Inl (Fatal ''WAKU_CALL'') else Inr b)"

definition handler_arg :: "string \<Rightarrow> carg" where
  "handler_arg name = AFn name 3"

section \<open>Native methods\<close>

text \<open>
  \<open>args\<close> are the values passed. \<open>wakuNew\<close> does not check the type: the failed measurement of a
  value that is no string leaves \<open>str_size\<close> unset.
\<close>

definition WakuNew :: "heap \<Rightarrow> library \<Rightarrow> js list \<Rightarrow> addon \<Rightarrow> addon_result" where
  "WakuNew mem lib args b =
     (case args of
        [] \<Rightarrow> throw_type_error ''Wrong number of arguments'' b
      | JsString s # _ \<Rightarrow>
          (let jsonConfig = copy_arg mem s in
           rbind (lib_run lib (event_handler mem)
              (LibCall waku_new [ptr_arg jsonConfig, handler_arg ''event_handler'', AUser])
              (alloc jsonConfig b)) (\<lambda>(_, b).
           Inr (release jsonConfig b)))
      | _ # _ \<Rightarrow> Inl Uninitialised)"

text \<open>Replacing a reference: the old one is deleted where the method does so.\<close>

definition WakuVersion :: "bool \<Rightarrow> library \<Rightarrow> js list \<Rightarrow> addon \<Rightarrow> addon_result" where
  "WakuVersion pad lib args b =
     (case args of
        [] \<Rightarrow> throw_type_error ''Wrong number of arguments'' b
      | JsFunction cb # _ \<Rightarrow>
          WAKU_CALL lib (handle_waku_version pad)
            (LibCall waku_version [ACtx, handler_arg ''handle_waku_version'', AUser])
            (b\<lparr>my_env := True, live_refs := live_refs b - held (ref_version_callback b) + 1,
               ref_version_callback := Some cb\<rparr>)
      | _ # _ \<Rightarrow> throw_type_error ''The argument should be a napi_function'' b)"

definition WakuSetEventCallback :: "heap \<Rightarrow> library \<Rightarrow> js list \<Rightarrow> addon \<Rightarrow> addon_result" where
  "WakuSetEventCallback mem lib args b =
     (case args of
        [] \<Rightarrow> throw_type_error ''Wrong number of arguments'' b
      | JsFunction cb # _ \<Rightarrow>
          rbind (lib_run lib (event_handler mem)
              (Undeclared ''waku_set_event_callback'' [handler_arg ''event_handler'', AUser])
              (b\<lparr>my_env := True, thsafe_fn := Some cb\<rparr>)) (\<lambda>(_, b).
          Inr b)
      | _ # _ \<Rightarrow> throw_type_error ''The argument should be a napi_function'' b)"

definition WakuStart :: "heap \<Rightarrow> library \<Rightarrow> addon \<Rightarrow> addon_result" where
  "WakuStart mem lib b =
     rbind (lib_run lib (event_handler mem)
         (LibCall waku_start [ACtx, handler_arg ''event_handler'', AUser]) b) (\<lambda>(_, b).
     Inr b)"

text \<open>
  The error paths after a \<open>malloc\<close> return without a \<open>free\<close>; a new error callback replaces the old
  reference without deleting it.
\<close>

definition set_error_callback :: "nat \<Rightarrow> addon \<Rightarrow> addon" where
  "set_error_callback cb b = b\<lparr>live_refs := live_refs b + 1, ref_on_error_callback := Some cb\<rparr>"

definition WakuConnect :: "bool \<Rightarrow> heap \<Rightarrow> library \<Rightarrow> js list \<Rightarrow> addon \<Rightarrow> addon_result" where
  "WakuConnect pad mem lib args b =
     (case args of
        JsString s # timeout # onError # _ \<Rightarrow>
          (let peers = copy_arg mem s; b = alloc peers b in
           (case timeout of
              JsNumber n \<Rightarrow>
                (case onError of
                   JsFunction cb \<Rightarrow>
                     rbind (WAKU_CALL lib (handle_error pad)
                        (LibCall waku_connect
                           [ACtx, ptr_arg peers, AInt (int32_of n), handler_arg ''handle_error'', AUser])
                        (set_error_callback cb (b\<lparr>my_env := True\<rparr>))) (\<lambda>b.
                     Inr (release peers b))
                 | _ \<Rightarrow> throw_type_error ''The argument should be a napi_function'' b)
            | _ \<Rightarrow> throw_type_error ''The timeout attribute should be a number'' b))
      | _ # _ # _ # _ \<Rightarrow> throw_type_error ''The peers attribute should be a string'' b
      | _ \<Rightarrow> throw_type_error ''Wrong number of arguments'' b)"

definition addon_json :: "string \<Rightarrow> string \<Rightarrow> string" where
  "addon_json payload topic = snprintf 1024
     (''{'' @ [CHR 0x22] @ ''payload'' @ [CHR 0x22, CHR '':'', CHR 0x22] @ payload @ [CHR 0x22]
      @ '','' @ [CHR 0x22] @ ''content_topic'' @ [CHR 0x22, CHR '':'', CHR 0x22] @ topic
      @ [CHR 0x22] @ ''}'')"

text \<open>
  The part of \<open>wakuRelayPublish\<close> from the message on: the payload is encoded, the content topic
  asked for, and the JSON formatted, before the time-out and the callback are looked at. The local
  \<open>msg\<close> takes 2047 bytes of the message, up to its first null.
\<close>

definition publish_json ::
  "heap \<Rightarrow> library \<Rightarrow> string option \<Rightarrow> string \<Rightarrow> addon \<Rightarrow> addon_fault + string \<times> addon" where
  "publish_json mem lib topic_name message b =
     (let msg = c_str (take 2047 message @ [CHR 0x00]) in
      case b64_encode mem (Some (map of_char msg)) (word_of_nat (length msg)) of
        Inl e \<Rightarrow> Inl (Memory e)
      | Inr msgPayload \<Rightarrow>
          rbind (WAKU_CALL lib (handle_content_topic mem)
             (LibCall waku_content_topic
                [ACtx, AStr ''appName'', AInt 1, ptr_arg topic_name, AStr ''encoding'',
                 handler_arg ''handle_content_topic'', AUser]) b) (\<lambda>b.
          (case (msgPayload, contentTopic b) of
             (Some p, Some t) \<Rightarrow> Inr (addon_json (c_str p) t, b)
           | _ \<Rightarrow> Inl (Memory NullDeref))))"

definition WakuRelayPublish :: "bool \<Rightarrow> heap \<Rightarrow> library \<Rightarrow> js list \<Rightarrow> addon \<Rightarrow> addon_result" where
  "WakuRelayPublish pad mem lib args b =
     (case args of
        JsString s # a1 # a2 # timeout # onError # _ \<Rightarrow>
          (let pubsub_topic = copy_arg mem s; b = alloc pubsub_topic b in
           case a1 of
             JsString ct \<Rightarrow>
               (let content_topic_name = copy_arg mem ct; b = alloc content_topic_name b in
                case a2 of
                  JsString message \<Rightarrow>
                    rbind (publish_json mem lib content_topic_name message b) (\<lambda>(jsonWakuMsg, b).
                    (case timeout of
                       JsNumber n \<Rightarrow>
                         rbind (int64_into_uint pad n) (\<lambda>timeoutMs.
                         (case onError of
                            JsFunction cb \<Rightarrow>
                              rbind (WAKU_CALL lib (handle_error pad)
                                 (LibCall waku_relay_publish
                                    [ACtx, ptr_arg pubsub_topic, AStr jsonWakuMsg, AInt timeoutMs,
                                     handler_arg ''handle_error'', AUser])
                                 (set_error_callback cb b)) (\<lambda>b.
                              Inr (release content_topic_name (release pubsub_topic b)))
                          | _ \<Rightarrow> throw_type_error ''The argument should be a napi_function'' b))
                     | _ \<Rightarrow> throw_type_error ''The argument should be a napi_number'' b))
                | _ \<Rightarrow> throw_type_error ''The message attribute should be a string'' b)
           | _ \<Rightarrow> throw_type_error ''The content topic attribute should be a string'' b)
      | _ # _ # _ # _ # _ # _ \<Rightarrow>
          throw_type_error ''The napiPubsubTopic attribute should be a string'' b
      | _ \<Rightarrow> throw_type_error ''Wrong number of arguments'' b)"

definition WakuDefaultPubsubTopic :: "bool \<Rightarrow> library \<Rightarrow> js list \<Rightarrow> addon \<Rightarrow> addon_result" where
  "WakuDefaultPubsubTopic pad lib args b =
     (case args of
        [] \<Rightarrow> throw_type_error ''Wrong number of arguments'' b
      | JsFunction cb # _ \<Rightarrow>
          WAKU_CALL lib (handle_default_pubsub_topic pad)
            (LibCall waku_default_pubsub_topic
               [ACtx, handler_arg ''handle_default_pubsub_topic'', AUser])
            (b\<lparr>my_env := True, live_refs := live_refs b - held (ref_def_pubsub_topic_callback b) + 1,
               ref_def_pubsub_topic_callback := Some cb\<rparr>)
      | _ # _ \<Rightarrow> throw_type_error ''The argument should be a napi_function'' b)"

definition WakuRelaySubscribe :: "bool \<Rightarrow> heap \<Rightarrow> library \<Rightarrow> js list \<Rightarrow> addon \<Rightarrow> addon_result" where
  "WakuRelaySubscribe pad mem lib args b =
     (case args of
        JsString s # onError # _ \<Rightarrow>
          (let pubsub_topic = copy_arg mem s; b = alloc pubsub_topic b in
           case onError of
             JsFunction cb \<Rightarrow>
               rbind (WAKU_CALL lib (handle_error pad)
                  (LibCall waku_relay_subscribe
                     [ACtx, ptr_arg pubsub_topic, handler_arg ''handle_error'', AUser])
                  (set_error_callback cb (b\<lparr>my_env := True\<rparr>))) (\<lambda>b.
               Inr (release pubsub_topic b))
           | _ \<Rightarrow> throw_type_error ''The argument should be a napi_function'' b)
      | _ # _ # _ \<Rightarrow> throw_type_error ''The topic attribute should be a string'' b
      | _ \<Rightarrow> throw_type_error ''Wrong number of arguments'' b)"

text \<open>The methods \<open>Init\<close> exports, by the names JavaScript calls them with.\<close>

definition Init ::
  "bool \<Rightarrow> heap \<Rightarrow> library \<Rightarrow> (string \<times> (js list \<Rightarrow> addon \<Rightarrow> addon_result)) list" where
  "Init pad mem lib =
     [(''wakuVersion'', WakuVersion pad lib),
      (''wakuNew'', WakuNew mem lib),
      (''wakuStart'', (\<lambda>_. WakuStart mem lib)),
      (''wakuSetEventCallback'', WakuSetEventCallback mem lib),
      (''wakuDefaultPubsubTopic'', WakuDefaultPubsubTopic pad lib),
      (''wakuRelaySubscribe'', WakuRelaySubscribe pad mem lib),
      (''wakuConnect'', WakuConnect pad mem lib),
      (''wakuRelayPublish'', WakuRelayPublish pad mem lib)]"

section \<open>What the callbacks keep\<close>

text \<open>The blocks the addon holds besides the content topic.\<close>

definition owned :: "addon \<Rightarrow> int" where
  "owned b = live b - held (contentTopic b)"

lemma deliver_keeps:
  assumes "\<And>r b b'. h r b = Inr b' \<Longrightarrow> f b' = f b"
  shows "deliver h rs b = Inr b' \<Longrightarrow> f b' = f b"
  by (induction rs arbitrary: b) (auto simp: rbind_eq_Inr dest!: assms)

lemma WAKU_CALL_keeps:
  assumes "\<And>r b b'. h r b = Inr b' \<Longrightarrow> f b' = f b" "WAKU_CALL lib h c b = Inr b'"
  shows "f b' = f (b\<lparr>lib_calls := lib_calls b @ [c]\<rparr>)"
  using assms(2) deliver_keeps [of h f, OF assms(1)]
  by (auto simp: WAKU_CALL_def lib_run_def rbind_eq_Inr split: if_splits)

lemma call_function_keeps:
  assumes "call_function pad argc argv f b = Inr b'"
  shows "owned b' = owned b \<and> thrown b' = thrown b \<and> lib_calls b' = lib_calls b"
  using assms by (auto simp: call_function_def owned_def split: if_splits)

lemma handle_error_keeps:
  assumes "handle_error pad r b = Inr b'"
  shows "owned b' = owned b" "thrown b' = thrown b" "lib_calls b' = lib_calls b"
  using assms call_function_keeps
  by (auto simp: handle_error_def respond_def split: option.splits if_splits)

lemma handle_content_topic_keeps:
  assumes "handle_content_topic mem r b = Inr b'"
  shows "owned b' = owned b" "thrown b' = thrown b" "lib_calls b' = lib_calls b"
  using assms by (auto simp: handle_content_topic_def rbind_eq_Inr owned_def held_def split: prod.splits)

lemma handle_error_call:
  assumes "WAKU_CALL lib (handle_error pad) c b = Inr b'"
  shows "owned b' = owned b \<and> thrown b' = thrown b \<and> lib_calls b' = lib_calls b @ [c]"
  using WAKU_CALL_keeps [where f = owned, OF _ assms] WAKU_CALL_keeps [where f = thrown, OF _ assms]
    WAKU_CALL_keeps [where f = lib_calls, OF _ assms] handle_error_keeps
  by (fastforce simp: owned_def)

lemma handle_content_topic_call:
  assumes "WAKU_CALL lib (handle_content_topic mem) c b = Inr b'"
  shows "owned b' = owned b \<and> thrown b' = thrown b \<and> lib_calls b' = lib_calls b @ [c]"
  using WAKU_CALL_keeps [where f = owned, OF _ assms] WAKU_CALL_keeps [where f = thrown, OF _ assms]
    WAKU_CALL_keeps [where f = lib_calls, OF _ assms] handle_content_topic_keeps
  by (fastforce simp: owned_def)

lemma owned_simps [simp]:
  "owned (b\<lparr>lib_calls := cs\<rparr>) = owned b" "owned (b\<lparr>my_env := e\<rparr>) = owned b"
  "owned (b\<lparr>thrown := m\<rparr>) = owned b" "owned (alloc p b) = owned b + held p"
  "owned (release p b) = owned b - held p" "owned (set_error_callback cb b) = owned b"
  "thrown (alloc p b) = thrown b" "thrown (release p b) = thrown b"
  "thrown (set_error_callback cb b) = thrown b" "lib_calls (alloc p b) = lib_calls b"
  "lib_calls (release p b) = lib_calls b" "lib_calls (set_error_callback cb b) = lib_calls b"
  by (simp_all add: owned_def alloc_def release_def set_error_callback_def)

lemma held_copy_arg: "mem (length s + 1) \<noteq> None \<Longrightarrow> held (copy_arg mem s) = 1"
  by (simp add: copy_arg_def held_def)

lemma publish_json_call:
  assumes "publish_json mem lib t m b = Inr (j, b')"
  shows "\<exists>args. WAKU_CALL lib (handle_content_topic mem) (LibCall waku_content_topic args) b = Inr b'
    \<and> handler_arg ''handle_content_topic'' \<in> set args"
proof -
  have "WAKU_CALL lib (handle_content_topic mem) (LibCall waku_content_topic
      [ACtx, AStr ''appName'', AInt 1, ptr_arg t, AStr ''encoding'',
       handler_arg ''handle_content_topic'', AUser]) b = Inr b'"
    using assms
    by (auto simp: publish_json_def Let_def rbind_eq_Inr split: sum.split_asm option.split_asm)
  then show ?thesis by (intro exI conjI) (assumption, simp)
qed

lemma publish_json_keeps:
  assumes "publish_json mem lib t m b = Inr (j, b')"
  shows "owned b' = owned b" "thrown b' = thrown b"
    "\<exists>args. lib_calls b' = lib_calls b @ [LibCall waku_content_topic args]"
  using publish_json_call [OF assms] by (auto dest: handle_content_topic_call)

text \<open>
  What the publish method copied before it rejects its arguments, \<open>None\<close> where it accepts them.
\<close>

fun rejected :: "js list \<Rightarrow> (nat \<times> string) option" where
  "rejected (a0 # a1 # a2 # a3 # a4 # _) =
     (case a0 of JsString _ \<Rightarrow>
        (case a1 of JsString _ \<Rightarrow>
           (case a2 of JsString _ \<Rightarrow>
              (case a3 of JsNumber _ \<Rightarrow>
                 (case a4 of JsFunction _ \<Rightarrow> None
                  | _ \<Rightarrow> Some (2, ''The argument should be a napi_function''))
               | _ \<Rightarrow> Some (2, ''The argument should be a napi_number''))
            | _ \<Rightarrow> Some (2, ''The message attribute should be a string''))
         | _ \<Rightarrow> Some (1, ''The content topic attribute should be a string''))
      | _ \<Rightarrow> Some (0, ''The napiPubsubTopic attribute should be a string''))"
| "rejected _ = Some (0, ''Wrong number of arguments'')"

definition publishes :: "lib_call list \<Rightarrow> nat" where
  "publishes cs = length (filter (\<lambda>c. case c of LibCall f _ \<Rightarrow> f = waku_relay_publish | _ \<Rightarrow> False) cs)"

lemma publishes_append [simp]: "publishes (xs @ ys) = publishes xs + publishes ys"
  by (simp add: publishes_def)

lemma publishes_simps [simp]:
  "publishes [LibCall f as] = (if f = waku_relay_publish then 1 else 0)" "publishes [] = 0"
  by (simp_all add: publishes_def)

definition publish_outcome :: "js list \<Rightarrow> addon \<Rightarrow> addon \<Rightarrow> bool" where
  "publish_outcome args b b' =
     (case rejected args of
        None \<Rightarrow> thrown b' = thrown b \<and> owned b' = owned b
          \<and> publishes (lib_calls b') = publishes (lib_calls b) + 1
      | Some (n, m) \<Rightarrow> thrown b' = Some m \<and> owned b' = owned b + int n
          \<and> publishes (lib_calls b') = publishes (lib_calls b))"

lemma publish_two_strings:
  assumes mem: "\<forall>n. mem n \<noteq> None"
    and run: "WakuRelayPublish pad mem lib (JsString s0 # JsString s1 # a2 # a3 # a4 # as) b = Inr b'"
  shows "publish_outcome (JsString s0 # JsString s1 # a2 # a3 # a4 # as) b b'"
proof -
  have h: "held (copy_arg mem s) = 1" for s using mem by (simp add: held_copy_arg)
  show ?thesis
  proof (cases "\<exists>m. a2 = JsString m")
    case False
    then show ?thesis
      using run by (cases a2) (auto simp: WakuRelayPublish_def throw_type_error_def publish_outcome_def h)
  next
    case True
    then obtain m j c where a2: "a2 = JsString m"
      and pj: "publish_json mem lib (copy_arg mem s1) m
          (alloc (copy_arg mem s1) (alloc (copy_arg mem s0) b)) = Inr (j, c)"
      using run by (auto simp: WakuRelayPublish_def Let_def rbind_eq_Inr)
    have c: "owned c = owned b + 2" "thrown c = thrown b" "publishes (lib_calls c) = publishes (lib_calls b)"
      using publish_json_keeps [OF pj] by (auto simp: h)
    show ?thesis
    proof (cases "\<exists>n. a3 = JsNumber n")
      case False
      then show ?thesis
        using run
        by (cases a3)
          (auto simp: WakuRelayPublish_def Let_def a2 pj throw_type_error_def publish_outcome_def c)
    next
      case True
      then obtain n where a3: "a3 = JsNumber n" by blast
      show ?thesis
        using run
        by (cases a4)
          (auto simp: WakuRelayPublish_def Let_def a2 a3 pj throw_type_error_def publish_outcome_def c
            rbind_eq_Inr h dest!: handle_error_call)
    qed
  qed
qed

lemma publish_five:
  assumes mem: "\<forall>n. mem n \<noteq> None"
    and run: "WakuRelayPublish pad mem lib (a0 # a1 # a2 # a3 # a4 # as) b = Inr b'"
  shows "publish_outcome (a0 # a1 # a2 # a3 # a4 # as) b b'"
proof (cases "(\<exists>s. a0 = JsString s) \<and> (\<exists>s. a1 = JsString s)")
  case True
  then show ?thesis using publish_two_strings [OF mem] run by blast
next
  case False
  have h: "held (copy_arg mem s) = 1" for s using mem by (simp add: held_copy_arg)
  from False show ?thesis
    using run
    by (cases a0; cases a1)
      (auto simp: WakuRelayPublish_def Let_def throw_type_error_def publish_outcome_def h)
qed

lemma publish_few:
  assumes "length args < 5"
  shows "rejected args = Some (0, ''Wrong number of arguments'')"
    and "WakuRelayPublish pad mem lib args b = Inr (b\<lparr>thrown := Some ''Wrong number of arguments''\<rparr>)"
  using assms
  by (auto simp: WakuRelayPublish_def throw_type_error_def neq_Nil_conv less_Suc_eq length_Suc_conv
      numeral_eq_Suc split: js.split)

section \<open>When a publish returns\<close>

text \<open>The two calls of a publish, and the content topic the first one leaves, if it is answered well.\<close>

definition topic_call :: "string \<Rightarrow> lib_call" where
  "topic_call ct = LibCall waku_content_topic [ACtx, AStr ''appName'', AInt 1, AStr ct, AStr ''encoding'',
     handler_arg ''handle_content_topic'', AUser]"

definition topic_after :: "library \<Rightarrow> string \<Rightarrow> addon \<Rightarrow> string option" where
  "topic_after lib ct b =
     (case lib (topic_call ct) of (ret, rs) \<Rightarrow>
        if ret = 0 \<and> list_all (\<lambda>(r, msg, len). length msg \<le> len) rs
        then (if rs = [] then contentTopic b else Some (fst (snd (last rs)))) else None)"

definition sent_bytes :: "string \<Rightarrow> byte list" where
  "sent_bytes message = map of_char (c_str (take 2047 message @ [CHR 0x00]))"

definition publish_call :: "string \<Rightarrow> string \<Rightarrow> string \<Rightarrow> int \<Rightarrow> lib_call" where
  "publish_call topic message t n =
     LibCall waku_relay_publish [ACtx, AStr topic, AStr (addon_json (b64_ref (sent_bytes message)) t),
       AInt (uint (word_of_int n :: 32 word)), handler_arg ''handle_error'', AUser]"

text \<open>
  With three strings the topic call has to be answered and the message must not be empty, whose
  encoding is null; with a number for the time-out, too, the write through the wider pointer must
  land in padding; with a callback as well the library must return 0, and may only call back when
  another method set the environment before.
\<close>

fun publish_returns :: "bool \<Rightarrow> library \<Rightarrow> js list \<Rightarrow> addon \<Rightarrow> bool" where
  "publish_returns pad lib (JsString s # JsString ct # JsString m # a3 # a4 # _) b =
     (case topic_after lib ct b of
        None \<Rightarrow> False
      | Some t \<Rightarrow> sent_bytes m \<noteq> [] \<and>
          (case a3 of
             JsNumber n \<Rightarrow> pad \<and>
               (case a4 of
                  JsFunction _ \<Rightarrow> fst (lib (publish_call s m t n)) = 0
                    \<and> (snd (lib (publish_call s m t n)) = [] \<or> my_env b)
                | _ \<Rightarrow> True)
           | _ \<Rightarrow> True))"
| "publish_returns pad lib _ b = True"

lemma deliver_topic:
  assumes "\<forall>n. mem n \<noteq> None"
  shows "if list_all (\<lambda>(r, msg, len). length msg \<le> len) rs
    then \<exists>b'. deliver (handle_content_topic mem) rs b = Inr b' \<and> my_env b' = my_env b
      \<and> contentTopic b' = (if rs = [] then contentTopic b else Some (fst (snd (last rs))))
    else \<exists>e. deliver (handle_content_topic mem) rs b = Inl e"
proof (induction rs arbitrary: b)
  case (Cons r rs)
  obtain ret msg len where r: "r = (ret, msg, len)" by (cases r)
  show ?case
  proof (cases "length msg \<le> len")
    case True
    define b1 where "b1 = b\<lparr>live := live b - held (contentTopic b) + 1, contentTopic := Some msg\<rparr>"
    have "deliver (handle_content_topic mem) (r # rs) b = deliver (handle_content_topic mem) rs b1"
      using True assms [rule_format, of "Suc len"]
      by (auto simp: r handle_content_topic_def strcpy_new_def b1_def)
    moreover have "my_env b1 = my_env b" "contentTopic b1 = Some msg" by (simp_all add: b1_def)
    ultimately show ?thesis using Cons.IH [of b1] True by (cases "rs = []") (auto simp: r split: if_splits)
  next
    case False
    then show ?thesis using assms by (simp add: r handle_content_topic_def strcpy_new_def)
  qed
qed simp

lemma b64_ref_not_null: "CHR 0x00 \<notin> set (b64_ref bs)"
proof -
  have "sextet n \<noteq> CHR 0x00" for n
  proof -
    have "sextet n \<in> set b64chars" by (simp add: sextet_def length_b64chars)
    moreover have "CHR 0x00 \<notin> set b64chars" by (simp add: b64chars_def)
    ultimately show ?thesis by auto
  qed
  then have n: "CHR 0x00 \<noteq> sextet n" for n by metis
  show ?thesis by (induction bs rule: b64_ref.induct) (auto simp: n Let_def)
qed

lemma publish_json_result:
  assumes mem: "\<And>k. \<exists>blk. mem k = Some blk \<and> length blk = k"
  shows "case topic_after lib ct b of
      None \<Rightarrow> \<exists>e. publish_json mem lib (Some ct) m b = Inl e
    | Some t \<Rightarrow> if sent_bytes m = [] then \<exists>e. publish_json mem lib (Some ct) m b = Inl e
        else \<exists>b'. publish_json mem lib (Some ct) m b = Inr (addon_json (b64_ref (sent_bytes m)) t, b')
          \<and> my_env b' = my_env b \<and> lib_calls b' = lib_calls b @ [topic_call ct]"
proof -
  have mem0: "\<forall>n. mem n \<noteq> None" using mem by (metis option.distinct(1))
  obtain ret rs where rs: "lib (topic_call ct) = (ret, rs)" by force
  let ?b = "b\<lparr>lib_calls := lib_calls b @ [topic_call ct]\<rparr>"
  have len: "length (sent_bytes m) < 2 ^ 62"
  proof -
    have "length (c_str (take 2047 m @ [CHR 0x00])) \<le> length (take 2047 m @ [CHR 0x00])"
      unfolding c_str_def by (rule length_takeWhile_le)
    also have "\<dots> \<le> 2048" by simp
    finally show ?thesis by (simp add: sent_bytes_def)
  qed
  have enc: "b64_encode mem (Some (sent_bytes m)) (word_of_nat (length (sent_bytes m)))
    = Inr (if sent_bytes m = [] then None else Some (b64_ref (sent_bytes m) @ [CHR 0x00]))"
    using b64_encode_ref [OF _ len mem] by (auto simp: b64_encode_def)
  have c: "c_str (b64_ref bs @ [CHR 0x00]) = b64_ref bs" for bs
    using b64_ref_not_null [of bs] by (simp add: c_str_def takeWhile_append)
  have call: "WAKU_CALL lib (handle_content_topic mem) (topic_call ct) b
      = rbind (deliver (handle_content_topic mem) rs ?b) (\<lambda>b. if ret \<noteq> 0 then Inl (Fatal ''WAKU_CALL'') else Inr b)"
    by (cases "deliver (handle_content_topic mem) rs ?b") (simp_all add: WAKU_CALL_def lib_run_def rs)
  have pj: "publish_json mem lib (Some ct) m b =
      rbind (WAKU_CALL lib (handle_content_topic mem) (topic_call ct) b) (\<lambda>b'.
        case (if sent_bytes m = [] then None else Some (b64_ref (sent_bytes m) @ [CHR 0x00]), contentTopic b') of
          (Some p, Some t) \<Rightarrow> Inr (addon_json (c_str p) t, b') | _ \<Rightarrow> Inl (Memory NullDeref))"
    using enc by (simp add: publish_json_def Let_def sent_bytes_def topic_call_def ptr_arg_def)
  note d = deliver_topic [OF mem0, of rs ?b]
  show ?thesis
  proof (cases "list_all (\<lambda>(r, msg, len). length msg \<le> len) rs \<and> ret = 0")
    case False
    then have "topic_after lib ct b = None" by (auto simp: topic_after_def rs)
    moreover have "\<exists>e. WAKU_CALL lib (handle_content_topic mem) (topic_call ct) b = Inl e"
      using False d unfolding call by (auto split: if_splits)
    ultimately show ?thesis unfolding pj by auto
  next
    case True
    then obtain b' where b': "WAKU_CALL lib (handle_content_topic mem) (topic_call ct) b = Inr b'"
      "my_env b' = my_env b" "contentTopic b' = (if rs = [] then contentTopic b else Some (fst (snd (last rs))))"
      using d unfolding call by auto
    have "topic_after lib ct b = contentTopic b'" using True b'(3) by (simp add: topic_after_def rs)
    moreover have "lib_calls b' = lib_calls b @ [topic_call ct]"
      using handle_content_topic_call [OF b'(1)] by simp
    ultimately show ?thesis unfolding pj b'(1) using b'(2) by (auto simp: c split: option.split)
  qed
qed

lemma deliver_error:
  assumes "ref_on_error_callback b = Some cb"
  shows "(\<exists>b'. deliver (handle_error True) rs b = Inr b') \<longleftrightarrow> rs = [] \<or> my_env b"
  using assms
proof (induction rs arbitrary: b)
  case (Cons r rs)
  then show ?case
    by (cases "my_env b") (auto simp: handle_error_def respond_def call_function_def)
qed simp

lemma publish_three:
  assumes mem: "\<And>k. \<exists>blk. mem k = Some blk \<and> length blk = k"
  shows "(\<exists>b'. WakuRelayPublish pad mem lib (JsString s # JsString ct # JsString m # a3 # a4 # as) b = Inr b')
      \<longleftrightarrow> publish_returns pad lib (JsString s # JsString ct # JsString m # a3 # a4 # as) b"
    and "rejected (JsString s # JsString ct # JsString m # a3 # a4 # as) = None \<Longrightarrow>
      WakuRelayPublish pad mem lib (JsString s # JsString ct # JsString m # a3 # a4 # as) b = Inr b' \<Longrightarrow>
      \<exists>n cb t. a3 = JsNumber n \<and> a4 = JsFunction cb \<and> topic_after lib ct b = Some t
        \<and> lib_calls b' = lib_calls b @ [topic_call ct, publish_call s m t n]"
proof -
  have mem0: "mem n \<noteq> None" for n using mem [of n] by auto
  then have copy: "copy_arg mem x = Some x" for x by (simp add: copy_arg_def)
  let ?b = "alloc (Some ct) (alloc (Some s) b)"
  have same: "topic_after lib ct ?b = topic_after lib ct b" "my_env ?b = my_env b" "lib_calls ?b = lib_calls b"
    by (simp_all add: topic_after_def alloc_def split: prod.splits)
  note pj = publish_json_result [OF mem, where lib = lib and ct = ct and m = m and b = ?b, unfolded same]
  consider (fails) e where "publish_json mem lib (Some ct) m ?b = Inl e"
      "topic_after lib ct b = None \<or> sent_bytes m = []"
    | (ok) t c where "publish_json mem lib (Some ct) m ?b = Inr (addon_json (b64_ref (sent_bytes m)) t, c)"
      "my_env c = my_env b" "lib_calls c = lib_calls b @ [topic_call ct]"
      "topic_after lib ct b = Some t" "sent_bytes m \<noteq> []"
    using pj by (auto split: option.splits if_splits)
  then have "((\<exists>b'. WakuRelayPublish pad mem lib (JsString s # JsString ct # JsString m # a3 # a4 # as) b = Inr b')
      \<longleftrightarrow> publish_returns pad lib (JsString s # JsString ct # JsString m # a3 # a4 # as) b)
    \<and> (rejected (JsString s # JsString ct # JsString m # a3 # a4 # as) = None \<longrightarrow>
      WakuRelayPublish pad mem lib (JsString s # JsString ct # JsString m # a3 # a4 # as) b = Inr b' \<longrightarrow>
      (\<exists>n cb t. a3 = JsNumber n \<and> a4 = JsFunction cb \<and> topic_after lib ct b = Some t
        \<and> lib_calls b' = lib_calls b @ [topic_call ct, publish_call s m t n]))"
  proof cases
    case fails
    then show ?thesis by (auto simp: WakuRelayPublish_def copy split: option.splits)
  next
    case ok
    show ?thesis
    proof (cases "\<exists>n cb. a3 = JsNumber n \<and> a4 = JsFunction cb \<and> pad")
      case False
      then show ?thesis
        using ok
        by (cases a3; cases a4)
          (auto simp: WakuRelayPublish_def copy throw_type_error_def int64_into_uint_def)
    next
      case True
      then obtain n cb where a: "a3 = JsNumber n" "a4 = JsFunction cb" "pad" by blast
      let ?c = "(set_error_callback cb c)\<lparr>lib_calls := lib_calls c @ [publish_call s m t n]\<rparr>"
      have run: "WakuRelayPublish pad mem lib (JsString s # JsString ct # JsString m # a3 # a4 # as) b
        = rbind (WAKU_CALL lib (handle_error True) (publish_call s m t n) (set_error_callback cb c))
            (\<lambda>b. Inr (release (Some ct) (release (Some s) b)))"
        using ok(1) by (simp add: WakuRelayPublish_def copy a int64_into_uint_def publish_call_def ptr_arg_def)
      have d: "(\<exists>b'. deliver (handle_error True) rs ?c = Inr b') \<longleftrightarrow> rs = [] \<or> my_env b" for rs
        using deliver_error [of ?c cb rs] ok(2) by (simp add: set_error_callback_def)
      have call: "(\<exists>b'. WAKU_CALL lib (handle_error True) (publish_call s m t n) (set_error_callback cb c) = Inr b')
          \<longleftrightarrow> fst (lib (publish_call s m t n)) = 0 \<and> (snd (lib (publish_call s m t n)) = [] \<or> my_env b)"
        using d [of "snd (lib (publish_call s m t n))"]
        by (auto simp: WAKU_CALL_def lib_run_def rbind_eq_Inr)
      have "lib_calls b' = lib_calls b @ [topic_call ct, publish_call s m t n]"
        if "rbind (WAKU_CALL lib (handle_error True) (publish_call s m t n) (set_error_callback cb c))
            (\<lambda>b. Inr (release (Some ct) (release (Some s) b))) = Inr b'"
        using that ok(3) by (auto simp: rbind_eq_Inr dest!: handle_error_call)
      with call ok(4,5) a show ?thesis unfolding run by (auto simp: rbind_eq_Inr)
    qed
  qed
  then show "(\<exists>b'. WakuRelayPublish pad mem lib (JsString s # JsString ct # JsString m # a3 # a4 # as) b = Inr b')
      \<longleftrightarrow> publish_returns pad lib (JsString s # JsString ct # JsString m # a3 # a4 # as) b"
    "rejected (JsString s # JsString ct # JsString m # a3 # a4 # as) = None \<Longrightarrow>
      WakuRelayPublish pad mem lib (JsString s # JsString ct # JsString m # a3 # a4 # as) b = Inr b' \<Longrightarrow>
      \<exists>n cb t. a3 = JsNumber n \<and> a4 = JsFunction cb \<and> topic_after lib ct b = Some t
        \<and> lib_calls b' = lib_calls b @ [topic_call ct, publish_call s m t n]"
    by blast+
qed

lemma publish_iff:
  assumes mem: "\<And>k. \<exists>blk. mem k = Some blk \<and> length blk = k"
  shows "(\<exists>b'. WakuRelayPublish pad mem lib args b = Inr b') \<longleftrightarrow> publish_returns pad lib args b"
proof (cases "\<exists>s ct m a3 a4 as. args = JsString s # JsString ct # JsString m # a3 # a4 # as")
  case True
  then show ?thesis using publish_three(1) [OF mem] by blast
next
  case False
  then have "publish_returns pad lib args b" by (cases "(pad, lib, args, b)" rule: publish_returns.cases) auto
  moreover have "\<exists>b'. WakuRelayPublish pad mem lib args b = Inr b'"
  proof (cases "length args < 5")
    case True
    then show ?thesis by (auto simp: publish_few)
  next
    case len: False
    then obtain a0 a1 a2 a3 a4 as where "args = a0 # a1 # a2 # a3 # a4 # as"
      by (auto simp: not_less numeral_eq_Suc Suc_le_length_iff)
    with False show ?thesis
      by (cases a0; cases a1; cases a2) (auto simp: WakuRelayPublish_def Let_def throw_type_error_def)
  qed
  ultimately show ?thesis by simp
qed

lemma publish_accepted:
  assumes mem: "\<And>k. \<exists>blk. mem k = Some blk \<and> length blk = k"
    and "rejected args = None" "WakuRelayPublish pad mem lib args b = Inr b'"
  shows "\<exists>s ct m n cb t. take 5 args = [JsString s, JsString ct, JsString m, JsNumber n, JsFunction cb]
    \<and> topic_after lib ct b = Some t \<and> lib_calls b' = lib_calls b @ [topic_call ct, publish_call s m t n]"
proof -
  obtain s ct m a3 a4 as where args: "args = JsString s # JsString ct # JsString m # a3 # a4 # as"
    using assms(2) by (cases args rule: rejected.cases) (auto split: js.splits)
  from publish_three(2) [OF mem assms(2,3) [unfolded args]] show ?thesis by (auto simp: args)
qed

section \<open>Stale declarations\<close>

text \<open>The calls a step adds to the log all hand over one of the three-parameter handlers.\<close>

definition stale :: "lib_call \<Rightarrow> bool" where
  "stale c = (case c of LibCall f as \<Rightarrow> \<not> conforms (libwaku_params f) as | Undeclared _ _ \<Rightarrow> True)"

definition adds_stale :: "addon \<Rightarrow> addon \<Rightarrow> bool" where
  "adds_stale b b' \<longleftrightarrow> (\<exists>cs. lib_calls b' = lib_calls b @ cs \<and> (\<forall>c \<in> set cs. stale c))"

lemma adds_stale_trans: "adds_stale a b \<Longrightarrow> adds_stale b c \<Longrightarrow> adds_stale a c"
  by (fastforce simp: adds_stale_def)

lemma adds_stale_same: "lib_calls b' = lib_calls b \<Longrightarrow> adds_stale b b'"
  by (simp add: adds_stale_def)

lemma conforms_handler: "AFn h n \<in> set as \<Longrightarrow> n \<noteq> 4 \<Longrightarrow> \<not> conforms ts as"
proof (induction ts as rule: conforms.induct)
  case (2 t ts a as)
  then show ?case by (cases t) (auto simp: ffi_callback_arity_def)
qed auto

lemma stale_handler: "\<exists>h. handler_arg h \<in> set as \<Longrightarrow> stale (LibCall f as)"
  by (auto simp: stale_def handler_arg_def conforms_handler)

lemma handler_arg_inject [simp]:
  "handler_arg h = handler_arg h' \<longleftrightarrow> h = h'" "handler_arg h \<noteq> ACtx" "handler_arg h \<noteq> AUser"
  "handler_arg h \<noteq> AStr s" "handler_arg h \<noteq> AInt n" "handler_arg h \<noteq> ptr_arg p"
  by (simp_all add: handler_arg_def ptr_arg_def split: option.split)

lemma handlers_keep:
  "handle_waku_version pad r b = Inr b' \<Longrightarrow> lib_calls b' = lib_calls b"
  "handle_default_pubsub_topic pad r b = Inr b' \<Longrightarrow> lib_calls b' = lib_calls b"
  "event_handler mem r b = Inr b' \<Longrightarrow> lib_calls b' = lib_calls b"
  using call_function_keeps
  by (auto simp: handle_waku_version_def handle_default_pubsub_topic_def respond_def event_handler_def
      rbind_eq_Inr split: option.splits if_splits prod.splits)

lemma lib_run_adds:
  assumes "\<And>r b b'. h r b = Inr b' \<Longrightarrow> lib_calls b' = lib_calls b"
    "lib_run lib h c b = Inr (ret, b')" "stale c"
  shows "adds_stale b b'"
  using assms(2,3) deliver_keeps [of h lib_calls, OF assms(1)]
  by (auto simp: lib_run_def rbind_eq_Inr adds_stale_def)

lemma WAKU_CALL_adds:
  assumes "\<And>r b b'. h r b = Inr b' \<Longrightarrow> lib_calls b' = lib_calls b"
    "WAKU_CALL lib h c b = Inr b'" "stale c"
  shows "adds_stale b b'"
  using assms(2,3) WAKU_CALL_keeps [of h lib_calls, OF assms(1) assms(2)]
  by (simp add: adds_stale_def)

lemma adds_stale_simps [simp]:
  "adds_stale b (b'\<lparr>thrown := m\<rparr>) = adds_stale b b'" "adds_stale b (alloc p b') = adds_stale b b'"
  "adds_stale b (release p b') = adds_stale b b'" "adds_stale (alloc p b) b' = adds_stale b b'"
  "adds_stale (set_error_callback cb b) b' = adds_stale b b'"
  "adds_stale (b\<lparr>my_env := e\<rparr>) b' = adds_stale b b'"
  "adds_stale (b\<lparr>live_refs := n\<rparr>) b' = adds_stale b b'"
  "adds_stale (b\<lparr>ref_version_callback := o1\<rparr>) b' = adds_stale b b'"
  "adds_stale (b\<lparr>ref_def_pubsub_topic_callback := o1\<rparr>) b' = adds_stale b b'"
  "adds_stale (b\<lparr>thsafe_fn := o1\<rparr>) b' = adds_stale b b'" "adds_stale b b"
  by (simp_all add: adds_stale_def)

lemma event_calls: "lib_run lib (event_handler mem) c b = Inr (ret, b') \<Longrightarrow> stale c \<longrightarrow> adds_stale b b'"
  using lib_run_adds handlers_keep(3) by metis

lemma version_calls: "WAKU_CALL lib (handle_waku_version pad) c b = Inr b' \<Longrightarrow> stale c \<longrightarrow> adds_stale b b'"
  using WAKU_CALL_adds handlers_keep(1) by metis

lemma default_calls: "WAKU_CALL lib (handle_default_pubsub_topic pad) c b = Inr b' \<Longrightarrow> stale c \<longrightarrow> adds_stale b b'"
  using WAKU_CALL_adds handlers_keep(2) by metis

lemma error_calls: "WAKU_CALL lib (handle_error pad) c b = Inr b' \<Longrightarrow> stale c \<longrightarrow> adds_stale b b'"
  using WAKU_CALL_adds handle_error_keeps(3) by metis

lemma topic_calls: "WAKU_CALL lib (handle_content_topic mem) c b = Inr b' \<Longrightarrow> stale c \<longrightarrow> adds_stale b b'"
  using WAKU_CALL_adds handle_content_topic_keeps(3) by metis

lemma simple_methods_add:
  "WakuNew mem lib args b = Inr b' \<Longrightarrow> adds_stale b b'"
  "WakuStart mem lib b = Inr b' \<Longrightarrow> adds_stale b b'"
  "WakuSetEventCallback mem lib args b = Inr b' \<Longrightarrow> adds_stale b b'"
  by (auto simp: WakuNew_def WakuStart_def WakuSetEventCallback_def throw_type_error_def Let_def
      rbind_eq_Inr stale_handler stale_def [of "Undeclared _ _"] split: list.splits js.splits dest!: event_calls)

lemma callback_methods_add:
  "WakuVersion pad lib args b = Inr b' \<Longrightarrow> adds_stale b b'"
  "WakuDefaultPubsubTopic pad lib args b = Inr b' \<Longrightarrow> adds_stale b b'"
  by (auto simp: WakuVersion_def WakuDefaultPubsubTopic_def throw_type_error_def
      stale_handler split: list.splits js.splits dest!: version_calls default_calls)

lemma error_methods_add:
  "WakuConnect pad mem lib args b = Inr b' \<Longrightarrow> adds_stale b b'"
  "WakuRelaySubscribe pad mem lib args b = Inr b' \<Longrightarrow> adds_stale b b'"
  by (auto simp: WakuConnect_def WakuRelaySubscribe_def throw_type_error_def Let_def rbind_eq_Inr
      stale_handler split: list.splits js.splits dest!: error_calls)

lemma publish_json_adds:
  assumes "publish_json mem lib t m b = Inr (j, b')"
  shows "adds_stale b b'"
  using publish_json_call [OF assms] topic_calls stale_handler by metis

lemma publish_three_strings_adds:
  assumes "WakuRelayPublish pad mem lib (JsString s0 # JsString s1 # JsString m # a3 # a4 # as) b = Inr b'"
  shows "adds_stale b b'"
proof -
  obtain j c where pj: "publish_json mem lib (copy_arg mem s1) m
      (alloc (copy_arg mem s1) (alloc (copy_arg mem s0) b)) = Inr (j, c)"
    using assms by (auto simp: WakuRelayPublish_def Let_def rbind_eq_Inr)
  have c: "adds_stale b c" using publish_json_adds [OF pj] by simp
  then show ?thesis
    using assms
    by (cases a3; cases a4)
      (auto simp: WakuRelayPublish_def Let_def pj throw_type_error_def rbind_eq_Inr stale_handler
        dest!: error_calls elim: adds_stale_trans)
qed

lemma publish_adds:
  assumes "WakuRelayPublish pad mem lib args b = Inr b'"
  shows "adds_stale b b'"
proof (cases "length args < 5")
  case True
  then show ?thesis using assms by (auto simp: publish_few intro: adds_stale_same)
next
  case False
  then obtain a0 a1 a2 a3 a4 as where args: "args = a0 # a1 # a2 # a3 # a4 # as"
    by (auto simp: not_less numeral_eq_Suc Suc_le_length_iff)
  show ?thesis
    using assms publish_three_strings_adds unfolding args
    by (cases a0; cases a1; cases a2) (auto simp: WakuRelayPublish_def Let_def throw_type_error_def)
qed

section \<open>Properties\<close>

text \<open>
  C36. When \<open>wakuRelayPublish\<close> returns and what it has done then, for every argument list and every
  behaviour of the library, with an allocator that delivers. Three strings need a message that is
  not empty and a content topic from the library, a time-out needs the write through the wider
  pointer to land in padding -- as C has it (\<open>pad\<close> false) no accepted publish returns -- and the
  publish needs a return code of 0; in every other case the program is aborted or faults. Where it
  returns, it has rejected the arguments with one \<open>TypeError\<close>, published nothing and leaked the
  strings it had copied (none, one or two by the argument at fault), or it has made the one publish
  call with the encoded message, and freed what it copied.
\<close>

theorem WakuRelayPublish_outcome:
  assumes "\<And>k. \<exists>blk. mem k = Some blk \<and> length blk = k"
  shows "((\<exists>b'. WakuRelayPublish pad mem lib args b = Inr b') \<longleftrightarrow> publish_returns pad lib args b)
    \<and> (\<forall>b'. WakuRelayPublish pad mem lib args b = Inr b' \<longrightarrow>
        (case rejected args of
           None \<Rightarrow> thrown b' = thrown b \<and> owned b' = owned b
             \<and> (\<exists>s ct m n cb t. take 5 args = [JsString s, JsString ct, JsString m, JsNumber n, JsFunction cb]
               \<and> topic_after lib ct b = Some t
               \<and> lib_calls b' = lib_calls b @ [topic_call ct, publish_call s m t n])
         | Some (k, msg) \<Rightarrow> thrown b' = Some msg \<and> owned b' = owned b + int k
             \<and> publishes (lib_calls b') = publishes (lib_calls b)))"
proof -
  have mem: "\<forall>n. mem n \<noteq> None" using assms by (metis option.distinct(1))
  have out: "publish_outcome args b b'" if "WakuRelayPublish pad mem lib args b = Inr b'" for b'
  proof (cases "length args < 5")
    case True
    with that show ?thesis by (auto simp: publish_few publish_outcome_def)
  next
    case False
    then obtain a0 a1 a2 a3 a4 as where args: "args = a0 # a1 # a2 # a3 # a4 # as"
      by (auto simp: not_less numeral_eq_Suc Suc_le_length_iff)
    show ?thesis using publish_five [OF mem that [unfolded args]] by (simp add: args)
  qed
  show ?thesis
    using publish_iff [OF assms, of pad lib args b] out publish_accepted [OF assms, of args pad lib b]
    by (auto simp: publish_outcome_def split: option.splits)
qed

text \<open>A library that answers the topic call, and arguments that are accepted.\<close>

definition answering :: library where
  "answering c = (if c = topic_call ''ct'' then (0, [(0, ''/a/1/ct/e'', 9)]) else (0, []))"

theorem WakuRelayPublish_outcome_witness:
  "(\<exists>b'. WakuRelayPublish True (\<lambda>n. Some (replicate n CHR 0x00)) answering
      [JsString ''/t'', JsString ''ct'', JsString ''hi'', JsNumber 1000, JsFunction 7] addon_init = Inr b'
    \<and> owned b' = 0 \<and> lib_calls b' = [topic_call ''ct'', publish_call ''/t'' ''hi'' ''/a/1/ct/e'' 1000])
  \<and> \<not> (\<exists>b'. WakuRelayPublish False (\<lambda>n. Some (replicate n CHR 0x00)) answering
      [JsString ''/t'', JsString ''ct'', JsString ''hi'', JsNumber 1000, JsFunction 7] addon_init = Inr b')"
proof -
  let ?a = "[JsString ''/t'', JsString ''ct'', JsString ''hi'', JsNumber 1000, JsFunction 7]"
  let ?m = "\<lambda>n. Some (replicate n CHR 0x00)"
  have t: "topic_after answering ''ct'' addon_init = Some ''/a/1/ct/e''"
    by (simp add: topic_after_def answering_def)
  have p: "answering (publish_call s m t n) = (0, [])" for s m t n
    by (simp add: answering_def publish_call_def topic_call_def)
  have r: "publish_returns True answering ?a addon_init" "\<not> publish_returns False answering ?a addon_init"
    by (simp_all add: t p sent_bytes_def c_str_def)
  show ?thesis
    using WakuRelayPublish_outcome [of ?m True answering ?a addon_init]
      WakuRelayPublish_outcome [of ?m False answering ?a addon_init] r t
    by (auto simp: addon_init_def owned_def held_def)
qed

text \<open>
  In C as it is defined, no well-typed publish completes: the time-out is stored through an
  \<open>int64_t\<close> pointer into an \<open>unsigned int\<close>. And no response reaches JavaScript through the
  version, error and default-topic handlers, which hand over one value and announce two.
\<close>

lemma addon_overruns:
  "(rejected args = None \<longrightarrow> (\<exists>e. WakuRelayPublish False mem lib args b = Inl e))
    \<and> (\<exists>e. handle_waku_version False r b = Inl e)
    \<and> (\<exists>e. handle_error False r b = Inl e)
    \<and> (\<exists>e. handle_default_pubsub_topic False r b = Inl e)"
proof -
  have h: "\<exists>e. respond False cb m b = Inl e" for cb m
    by (simp add: respond_def call_function_def split: option.split)
  have "\<exists>e. WakuRelayPublish False mem lib args b = Inl e" if "rejected args = None"
  proof -
    obtain s0 s1 m n cb as where args: "args = JsString s0 # JsString s1 # JsString m # JsNumber n # JsFunction cb # as"
      using \<open>rejected args = None\<close>
      by (cases args rule: rejected.cases) (auto split: js.splits)
    show ?thesis
      by (cases "publish_json mem lib (copy_arg mem s1) m
            (alloc (copy_arg mem s1) (alloc (copy_arg mem s0) b))")
        (auto simp: args WakuRelayPublish_def Let_def int64_into_uint_def)
  qed
  then show ?thesis
    using h by (simp add: handle_waku_version_def handle_error_def handle_default_pubsub_topic_def)
qed

lemma addon_overruns_example:
  "\<exists>e. WakuRelayPublish False (\<lambda>n. Some (replicate n CHR 0x00)) (\<lambda>_. (0, []))
      [JsString ''/p'', JsString ''ct'', JsString ''hi'', JsNumber 1000, JsFunction 7] addon_init = Inl e"
  using addon_overruns [of "[JsString ''/p'', JsString ''ct'', JsString ''hi'', JsNumber 1000, JsFunction 7]"
      "\<lambda>n. Some (replicate n CHR 0x00)" "\<lambda>_. (0, [])" addon_init]
  by simp

text \<open>
  C40. The addon was written against another version of \<open>libwaku.h\<close>: none of the calls that the
  exported methods make, on any arguments, conforms to the declaration it includes.
\<close>

theorem Init_calls_stale:
  assumes "(name, m) \<in> set (Init pad mem lib)" "m args b = Inr b'"
  shows "\<exists>cs. lib_calls b' = lib_calls b @ cs \<and> (\<forall>c \<in> set cs. stale c)"
proof -
  have "adds_stale b b'"
    using assms simple_methods_add callback_methods_add error_methods_add publish_adds
    by (auto simp: Init_def)
  then show ?thesis by (simp add: adds_stale_def)
qed

theorem Init_calls_stale_witness:
  "\<exists>c. (case WakuStart (\<lambda>n. Some (replicate n CHR 0x00)) (\<lambda>_. (0, [])) addon_init of
      Inr b' \<Rightarrow> lib_calls b' = [c] | Inl _ \<Rightarrow> False) \<and> stale c"
proof -
  let ?m = "\<lambda>n. Some (replicate n CHR 0x00)"
  have m: "(''wakuStart'', (\<lambda>_. WakuStart ?m (\<lambda>_. (0, [])))) \<in> set (Init False ?m (\<lambda>_. (0, [])))"
    by (simp add: Init_def)
  obtain b' c where b': "WakuStart ?m (\<lambda>_. (0, [])) addon_init = Inr b'" "lib_calls b' = [c]"
    by (simp add: WakuStart_def lib_run_def addon_init_def)
  show ?thesis
    using Init_calls_stale [OF m, of addon_init b'] b' by (simp add: addon_init_def)
qed

end
