(* ===== verification/SyncTypes.thy ===== *)
theory SyncTypes
  imports Prelude "HOL-Library.List_Lexorder"
begin

text \<open>
  The data of the store synchronisation protocol, \<open>waku/waku_store_sync/common.nim\<close>, and the time
  ranges of \<open>waku/waku_store_sync/storage/range_processing.nim\<close>. A hash or fingerprint is the list
  of its 32 bytes, compared lexicographically as \<open>stew/byteutils\<close> documents for byte arrays; a
  \<open>Timestamp\<close> is an \<open>int\<close> within the range of \<open>int64\<close>, and the arithmetic that may leave it is
  checked.
\<close>

section \<open>Identifiers\<close>

type_synonym Fingerprint = "byte list"
type_synonym Timestamp = int

datatype SyncID = SyncID (id_time: Timestamp) (id_hash: Fingerprint)

type_synonym bounds = "SyncID \<times> SyncID"

definition EmptyFingerprint :: Fingerprint where
  "EmptyFingerprint = replicate 32 0"

definition FullFingerprint :: Fingerprint where
  "FullFingerprint = replicate 32 255"

definition cmp_hash :: "Fingerprint \<Rightarrow> Fingerprint \<Rightarrow> int" where
  "cmp_hash x y = (if x < y then -1 else if x = y then 0 else 1)"

definition cmp :: "SyncID \<Rightarrow> SyncID \<Rightarrow> int" where
  "cmp x y =
     (if id_time x = id_time y then cmp_hash (id_hash x) (id_hash y)
      else if id_time x < id_time y then -1 else 1)"

text \<open>\<open>cmp\<close> is a linear order, which the library's sorting and searching lemmas then apply to.\<close>

instantiation SyncID :: linorder
begin

definition less_SyncID :: "SyncID \<Rightarrow> SyncID \<Rightarrow> bool" where
  "less_SyncID x y \<longleftrightarrow> cmp x y = - 1"

definition less_eq_SyncID :: "SyncID \<Rightarrow> SyncID \<Rightarrow> bool" where
  "less_eq_SyncID x y \<longleftrightarrow> cmp x y \<noteq> 1"

instance
proof
  fix x y z :: SyncID
  note d = less_SyncID_def less_eq_SyncID_def cmp_def cmp_hash_def
  show "x < y \<longleftrightarrow> x \<le> y \<and> \<not> y \<le> x" by (auto simp: d split: if_splits)
  show "x \<le> x" by (simp add: d)
  show "x \<le> y \<Longrightarrow> y \<le> z \<Longrightarrow> x \<le> z" by (auto simp: d split: if_splits)
  show "x \<le> y \<Longrightarrow> y \<le> x \<Longrightarrow> x = y"
    by (cases x; cases y) (auto simp: d split: if_splits)
  show "x \<le> y \<or> y \<le> x" by (auto simp: d split: if_splits)
qed

end

lemma SyncID_less_iff:
  "x < y \<longleftrightarrow> id_time x < id_time y \<or> id_time x = id_time y \<and> id_hash x < id_hash y"
  by (auto simp: less_SyncID_def cmp_def cmp_hash_def)

lemma SyncID_le_iff:
  "x \<le> y \<longleftrightarrow> id_time x < id_time y \<or> id_time x = id_time y \<and> id_hash x \<le> id_hash y"
  by (auto simp: less_eq_SyncID_def cmp_def cmp_hash_def)

lemma cmp_signs:
  "cmp x y < 0 \<longleftrightarrow> x < y" "cmp x y \<le> 0 \<longleftrightarrow> x \<le> y" "cmp x y = 1 \<longleftrightarrow> y < x" "cmp x y = 0 \<longleftrightarrow> x = y"
  by (cases x; cases y; auto simp: less_SyncID_def less_eq_SyncID_def cmp_def cmp_hash_def split: if_splits)+

text \<open>\<open>EmptyFingerprint\<close> is the least hash of its length.\<close>

lemma replicate_zero_le: "length h = n \<Longrightarrow> replicate n (0 :: byte) \<le> h"
proof (induction n arbitrary: h)
  case (Suc n)
  then obtain b t where "h = b # t" "length t = n" by (cases h) auto
  then show ?case using Suc.IH [of t] by (cases "b = 0") (auto simp: word_gt_0)
qed simp

lemma EmptyFingerprint_le: "length h = 32 \<Longrightarrow> EmptyFingerprint \<le> h"
  unfolding EmptyFingerprint_def by (rule replicate_zero_le)

section \<open>Payloads\<close>

record ItemSet =
  elements_of :: "SyncID list"
  reconciled :: bool

datatype RangeType = Skip | FingerprintRange | ItemSetRange

record RangesData =
  rd_pubsubTopics :: "string list"
  rd_contentTopics :: "string list"
  ranges :: "(bounds \<times> RangeType) list"
  fingerprints :: "Fingerprint list"
  itemSets :: "ItemSet list"

definition empty_ranges :: RangesData where
  "empty_ranges = \<lparr>rd_pubsubTopics = [], rd_contentTopics = [], ranges = [], fingerprints = [],
     itemSets = []\<rparr>"

definition count_type :: "RangeType \<Rightarrow> (bounds \<times> RangeType) list \<Rightarrow> nat" where
  "count_type t rs = length (filter (\<lambda>r. snd r = t) rs)"

section \<open>Time ranges\<close>

definition calculateTimeRange :: "int \<Rightarrow> int \<Rightarrow> int \<Rightarrow> defect + int \<times> int" where
  "calculateTimeRange now jitter syncRange =
     rbind (int64 (now - jitter)) (\<lambda>now.
     rbind (int64 (now - syncRange)) (\<lambda>syncStart.
     Inr (syncStart, now)))"

text \<open>
  The loop of \<open>equalPartitioning\<close>; \<open>parts\<close> and \<open>rem\<close> are its quotient and remainder.
\<close>

fun partition_loop :: "nat \<Rightarrow> int \<Rightarrow> int \<Rightarrow> int \<Rightarrow> bounds list" where
  "partition_loop 0 parts rem lb = []"
| "partition_loop (Suc n) parts rem lb =
     (let ub = lb + parts + (if 0 < rem then 1 else 0);
          rem' = (if 0 < rem then rem - 1 else rem)
      in (SyncID lb EmptyFingerprint, SyncID ub EmptyFingerprint) # partition_loop n parts rem' ub)"

text \<open>
  A count that is not positive is a division by zero, or a negative capacity. The sums of the
  loop stay between the two times (\<open>partition_loop_bounds\<close>), so only the difference can overflow.
\<close>

definition equalPartitioning :: "bounds \<Rightarrow> int \<Rightarrow> defect + bounds list" where
  "equalPartitioning bnds count =
     rbind (int64 (id_time (snd bnds) - id_time (fst bnds))) (\<lambda>totalLength.
     if totalLength < count then Inr []
     else if count = 0 then Inl DivByZeroDefect
     else if count < 0 then Inl RangeDefect
     else Inr (partition_loop (nat count) (totalLength div count) (totalLength mod count)
                 (id_time (fst bnds))))"

text \<open>Consecutive partitions share their bound.\<close>

fun chained :: "int \<Rightarrow> bounds list \<Rightarrow> int \<Rightarrow> bool" where
  "chained lo [] hi = (lo = hi)"
| "chained lo (s # ss) hi =
     (fst s = SyncID lo EmptyFingerprint \<and> id_hash (snd s) = EmptyFingerprint
       \<and> lo < id_time (snd s) \<and> chained (id_time (snd s)) ss hi)"

lemma partition_loop_chained:
  assumes "0 \<le> rem" "rem \<le> int n" "1 \<le> parts"
  shows "chained lb (partition_loop n parts rem lb) (lb + int n * parts + rem)"
  using assms
proof (induction n arbitrary: rem lb)
  case (Suc n)
  define ub where "ub = lb + parts + (if 0 < rem then 1 else 0)"
  define r where "r = (if 0 < rem then rem - 1 else rem)"
  have "chained ub (partition_loop n parts r ub) (ub + int n * parts + r)"
    using Suc.prems by (intro Suc.IH) (auto simp: r_def)
  moreover have "ub + int n * parts + r = lb + int (Suc n) * parts + rem"
    using Suc.prems(1) by (auto simp: ub_def r_def algebra_simps)
  ultimately show ?case
    using Suc.prems(3) by (simp add: Let_def ub_def [symmetric] r_def [symmetric]) (simp add: ub_def)
qed simp

lemma length_partition_loop: "length (partition_loop n parts rem lb) = n"
  by (induction n parts rem lb rule: partition_loop.induct) (simp_all add: Let_def)

lemma chained_le: "chained lo ss hi \<Longrightarrow> lo \<le> hi"
  by (induction ss arbitrary: lo) fastforce+

lemma chained_bounds:
  "chained lo ss hi \<Longrightarrow> s \<in> set ss \<Longrightarrow>
    lo \<le> id_time (fst s) \<and> id_time (fst s) < id_time (snd s) \<and> id_time (snd s) \<le> hi"
  by (induction ss arbitrary: lo) (fastforce dest: chained_le)+

text \<open>Every identifier from the lower time up to the upper time is in a partition.\<close>

lemma chained_covers:
  assumes "chained lo ss hi" "lo \<le> id_time x" "length (id_hash x) = 32"
    and "x < SyncID hi EmptyFingerprint"
  shows "\<exists>s \<in> set ss. fst s \<le> x \<and> x \<le> snd s"
  using assms(1,2)
proof (induction ss arbitrary: lo)
  case Nil
  then show ?case
    using assms(3,4) EmptyFingerprint_le [OF assms(3)] by (auto simp: SyncID_less_iff)
next
  case (Cons s ss)
  show ?case
  proof (cases "id_time x < id_time (snd s)")
    case True
    then have "fst s \<le> x \<and> x \<le> snd s"
      using Cons.prems EmptyFingerprint_le [OF assms(3)] by (auto simp: SyncID_le_iff)
    then show ?thesis by auto
  next
    case False
    then show ?thesis using Cons.IH [of "id_time (snd s)"] Cons.prems(1) by auto
  qed
qed

end
