(* ===== verification/SyncStorage.thy ===== *)
theory SyncStorage
  imports SyncTypes
begin

unbundle bit_operations_syntax

text \<open>
  The sequence storage of the synchronisation protocol,
  \<open>waku/waku_store_sync/storage/seq_storage.nim\<close>: sorted identifiers with their topic indices, the
  pruning and reuse of topic slots, fingerprints of ranges, and the answers to fingerprint and item
  set ranges. \<open>pick\<close> is the element that the first position of a packed set's sequence holds, of
  which only that it is in the set is used. A \<open>Slice[int]\<close> is written with its exclusive end.
\<close>

section \<open>State\<close>

record SeqStorage =
  elements :: "SyncID list"
  pubsubTopicIndexes :: "nat list"
  contentTopicIndexes :: "nat list"
  pubsubTopics :: "string list"
  contentTopics :: "string list"
  unusedPubsubTopicSet :: "nat set"
  unusedContentTopicSet :: "nat set"
  partitionCount :: int
  lengthThreshold :: int

definition new_storage :: "int \<Rightarrow> int \<Rightarrow> SeqStorage" where
  "new_storage threshold partitions =
     \<lparr>elements = [], pubsubTopicIndexes = [], contentTopicIndexes = [], pubsubTopics = [],
      contentTopics = [], unusedPubsubTopicSet = {}, unusedContentTopicSet = {},
      partitionCount = partitions, lengthThreshold = threshold\<rparr>"

definition storage_length :: "SeqStorage \<Rightarrow> nat" where
  "storage_length s = length (elements s)"

section \<open>Topic indices\<close>

fun index_of_topic :: "string \<Rightarrow> string list \<Rightarrow> nat option" where
  "index_of_topic t [] = None"
| "index_of_topic t (x # xs) =
     (if t = x then Some 0 else (case index_of_topic t xs of None \<Rightarrow> None | Some i \<Rightarrow> Some (Suc i)))"

text \<open>\<open>getPubsubTopicIndex\<close> and \<open>getContentTopicIndex\<close>: a known topic keeps its index, a new one takes
  an unused index or the next.\<close>

definition get_topic_index ::
  "(nat set \<Rightarrow> nat) \<Rightarrow> string \<Rightarrow> string list \<Rightarrow> nat set \<Rightarrow> nat \<times> string list \<times> nat set" where
  "get_topic_index pick t topics unused =
     (case index_of_topic t topics of
        Some i \<Rightarrow> (i, topics, unused)
      | None \<Rightarrow>
          (if unused \<noteq> {} then (pick unused, topics[pick unused := t], unused - {pick unused})
           else (length topics, topics @ [t], unused)))"

definition getPubsubTopicIndex ::
  "(nat set \<Rightarrow> nat) \<Rightarrow> string \<Rightarrow> SeqStorage \<Rightarrow> nat \<times> SeqStorage" where
  "getPubsubTopicIndex pick t s =
     (case get_topic_index pick t (pubsubTopics s) (unusedPubsubTopicSet s) of
        (i, topics, unused) \<Rightarrow> (i, s\<lparr>pubsubTopics := topics, unusedPubsubTopicSet := unused\<rparr>))"

definition getContentTopicIndex ::
  "(nat set \<Rightarrow> nat) \<Rightarrow> string \<Rightarrow> SeqStorage \<Rightarrow> nat \<times> SeqStorage" where
  "getContentTopicIndex pick t s =
     (case get_topic_index pick t (contentTopics s) (unusedContentTopicSet s) of
        (i, topics, unused) \<Rightarrow> (i, s\<lparr>contentTopics := topics, unusedContentTopicSet := unused\<rparr>))"

section \<open>Insertion and pruning\<close>

definition lowerBound :: "SyncID list \<Rightarrow> SyncID \<Rightarrow> nat" where
  "lowerBound xs key = bsearch (\<lambda>x. cmp x key < 0) xs 0 (length xs)"

definition upperBound :: "SyncID list \<Rightarrow> SyncID \<Rightarrow> nat" where
  "upperBound xs key = bsearch (\<lambda>x. cmp x key \<le> 0) xs 0 (length xs)"

definition insertAt ::
  "(nat set \<Rightarrow> nat) \<Rightarrow> nat \<Rightarrow> SyncID \<Rightarrow> string \<Rightarrow> string \<Rightarrow> SeqStorage \<Rightarrow> SeqStorage" where
  "insertAt pick idx element pubsubTopic contentTopic s =
     (if idx < length (elements s) \<and> elements s ! idx = element then s
      else
        (let s = s\<lparr>elements := list_insert_at (elements s) idx element\<rparr>;
             (pubsubIndex, s) = getPubsubTopicIndex pick pubsubTopic s;
             (contentIndex, s) = getContentTopicIndex pick contentTopic s
         in s\<lparr>pubsubTopicIndexes := list_insert_at (pubsubTopicIndexes s) idx pubsubIndex,
              contentTopicIndexes := list_insert_at (contentTopicIndexes s) idx contentIndex\<rparr>))"

definition storage_insert ::
  "(nat set \<Rightarrow> nat) \<Rightarrow> SyncID \<Rightarrow> string \<Rightarrow> string \<Rightarrow> SeqStorage \<Rightarrow> SeqStorage" where
  "storage_insert pick element pubsubTopic contentTopic s =
     insertAt pick (lowerBound (elements s) element) element pubsubTopic contentTopic s"

text \<open>
  The loop of \<open>batchInsert\<close>: the bound is searched in the slice from the previous index on, and
  then used as an index of the whole sequence. A topic sequence that is too short is an index
  defect.
\<close>

fun batch_loop ::
  "(nat set \<Rightarrow> nat) \<Rightarrow> nat \<Rightarrow> SyncID list \<Rightarrow> string list \<Rightarrow> string list \<Rightarrow> SeqStorage
     \<Rightarrow> defect + SeqStorage" where
  "batch_loop pick idx [] ps cs s = Inr s"
| "batch_loop pick idx (e # es) (p # ps) (c # cs) s =
     (let idx' = lowerBound (drop idx (elements s)) e
      in batch_loop pick idx' es ps cs (insertAt pick idx' e p c s))"
| "batch_loop pick idx (e # es) _ _ s = Inl IndexDefect"

definition batchInsert ::
  "(nat set \<Rightarrow> nat) \<Rightarrow> SyncID list \<Rightarrow> string list \<Rightarrow> string list \<Rightarrow> SeqStorage
     \<Rightarrow> defect + (string option \<times> SeqStorage)" where
  "batchInsert pick es ps cs s =
     (case es of
        [e] \<Rightarrow>
          (case (ps, cs) of
             (p # _, c # _) \<Rightarrow> Inr (None, storage_insert pick e p c s)
           | _ \<Rightarrow> Inl IndexDefect)
      | _ \<Rightarrow>
          (if \<not> sorted es then Inr (Some ''seq not sorted'', s)
           else rbind (batch_loop pick 0 es ps cs s) (\<lambda>s. Inr (None, s))))"

definition prune :: "Timestamp \<Rightarrow> SeqStorage \<Rightarrow> nat \<times> SeqStorage" where
  "prune timestamp s =
     (if elements s = [] then (0, s)
      else
        (let idx = lowerBound (elements s) (SyncID timestamp EmptyFingerprint);
             s = s\<lparr>elements := drop idx (elements s),
                   pubsubTopicIndexes := drop idx (pubsubTopicIndexes s),
                   contentTopicIndexes := drop idx (contentTopicIndexes s)\<rparr>
         in (idx, s\<lparr>unusedContentTopicSet := {..<length (contentTopics s)} - set (contentTopicIndexes s),
                    unusedPubsubTopicSet := {..<length (pubsubTopics s)} - set (pubsubTopicIndexes s)\<rparr>)))"

section \<open>Ranges and fingerprints\<close>

definition xor_hash :: "Fingerprint \<Rightarrow> Fingerprint \<Rightarrow> Fingerprint" where
  "xor_hash x y = map2 (\<lambda>a b. a XOR b) x y"

text \<open>\<open>s[lo ..< hi]\<close>: a negative length, and an index out of range, are defects.\<close>

definition seq_slice :: "'a list \<Rightarrow> nat \<Rightarrow> nat \<Rightarrow> defect + 'a list" where
  "seq_slice xs lo hi =
     (if hi < lo then Inl RangeDefect
      else if lo < hi \<and> length xs < hi then Inl IndexDefect
      else Inr (take (hi - lo) (drop lo xs)))"

text \<open>A filter with no index lets everything through.\<close>

definition selected :: "nat set \<Rightarrow> nat set \<Rightarrow> nat \<Rightarrow> nat \<Rightarrow> bool" where
  "selected pset cset p c \<longleftrightarrow> \<not> (pset \<noteq> {} \<and> p \<notin> pset) \<and> \<not> (cset \<noteq> {} \<and> c \<notin> cset)"

fun fingerprint_loop ::
  "nat set \<Rightarrow> nat set \<Rightarrow> (SyncID \<times> nat \<times> nat) list \<Rightarrow> Fingerprint \<Rightarrow> Fingerprint" where
  "fingerprint_loop pset cset [] fp = fp"
| "fingerprint_loop pset cset ((e, p, c) # rows) fp =
     (if selected pset cset p c then fingerprint_loop pset cset rows (xor_hash fp (id_hash e))
      else fingerprint_loop pset cset rows fp)"

definition computefingerprintFromSlice ::
  "(nat \<times> nat) option \<Rightarrow> nat set \<Rightarrow> nat set \<Rightarrow> SeqStorage \<Rightarrow> defect + Fingerprint" where
  "computefingerprintFromSlice sliceOpt pset cset s =
     (case sliceOpt of
        None \<Rightarrow> Inr EmptyFingerprint
      | Some (lo, hi) \<Rightarrow>
          rbind (seq_slice (elements s) lo hi) (\<lambda>es.
          rbind (seq_slice (pubsubTopicIndexes s) lo hi) (\<lambda>ps.
          rbind (seq_slice (contentTopicIndexes s) lo hi) (\<lambda>cs.
          Inr (fingerprint_loop pset cset (zip es (zip ps cs)) EmptyFingerprint)))))"

definition findIdxBounds :: "bounds \<Rightarrow> SeqStorage \<Rightarrow> (nat \<times> nat) option" where
  "findIdxBounds bnds s =
     (let lower = lowerBound (elements s) (fst bnds); upper = upperBound (elements s) (snd bnds)
      in if upper < 1 then None
         else if length (elements s) \<le> lower then None
         else Some (lower, upper))"

text \<open>The indices of the topics that a list names.\<close>

definition topic_set :: "string list \<Rightarrow> string list \<Rightarrow> nat set" where
  "topic_set input local_topics =
     set (filter (\<lambda>i. local_topics ! i \<in> set input) [0..<length local_topics])"

definition computeFingerprint ::
  "bounds \<Rightarrow> string list \<Rightarrow> string list \<Rightarrow> SeqStorage \<Rightarrow> defect + Fingerprint" where
  "computeFingerprint bnds ps cs s =
     computefingerprintFromSlice (findIdxBounds bnds s) (topic_set ps (pubsubTopics s))
       (topic_set cs (contentTopics s)) s"

definition rows :: "SeqStorage \<Rightarrow> (SyncID \<times> nat \<times> nat) list" where
  "rows s = zip (elements s) (zip (pubsubTopicIndexes s) (contentTopicIndexes s))"

definition slice_rows :: "nat \<times> nat \<Rightarrow> SeqStorage \<Rightarrow> (SyncID \<times> nat \<times> nat) list" where
  "slice_rows sl s = take (snd sl - fst sl) (drop (fst sl) (rows s))"

definition getFilteredElements :: "nat \<times> nat \<Rightarrow> nat set \<Rightarrow> nat set \<Rightarrow> SeqStorage \<Rightarrow> SyncID list" where
  "getFilteredElements sl pset cset s =
     map fst (filter (\<lambda>(e, p, c). selected pset cset p c) (slice_rows sl s))"

section \<open>Building a storage from sequences\<close>

text \<open>
  The constructor from sequences: the unique topics in order of first appearance, and each
  element's index among them.
\<close>

fun unique_topics :: "string list \<Rightarrow> string list \<Rightarrow> string list" where
  "unique_topics acc [] = acc"
| "unique_topics acc (t # ts) = unique_topics (if t \<in> set acc then acc else acc @ [t]) ts"

definition storage_of ::
  "SyncID list \<Rightarrow> string list \<Rightarrow> string list \<Rightarrow> int \<Rightarrow> int \<Rightarrow> SeqStorage" where
  "storage_of es ps cs threshold partitions =
     (let ups = unique_topics [] ps; ucs = unique_topics [] cs in
      \<lparr>elements = es,
       pubsubTopicIndexes = map (\<lambda>p. the (index_of_topic p ups)) ps,
       contentTopicIndexes = map (\<lambda>c. the (index_of_topic c ucs)) cs,
       pubsubTopics = ups, contentTopics = ucs,
       unusedPubsubTopicSet = {}, unusedContentTopicSet = {},
       partitionCount = partitions, lengthThreshold = threshold\<rparr>)"

section \<open>Invariant\<close>

definition slots_ok :: "SyncID list \<Rightarrow> nat list \<Rightarrow> string list \<Rightarrow> nat set \<Rightarrow> bool" where
  "slots_ok es idx topics unused \<longleftrightarrow>
     length idx = length es \<and> (\<forall>i \<in> set idx. i < length topics) \<and> unused \<subseteq> {..<length topics}"

definition wf_storage :: "SeqStorage \<Rightarrow> bool" where
  "wf_storage s \<longleftrightarrow> sorted_wrt (<) (elements s) \<and> (\<forall>e \<in> set (elements s). length (id_hash e) = 32)
     \<and> slots_ok (elements s) (pubsubTopicIndexes s) (pubsubTopics s) (unusedPubsubTopicSet s)
     \<and> slots_ok (elements s) (contentTopicIndexes s) (contentTopics s) (unusedContentTopicSet s)"

definition picks :: "(nat set \<Rightarrow> nat) \<Rightarrow> bool" where
  "picks pick \<longleftrightarrow> (\<forall>A. finite A \<longrightarrow> A \<noteq> {} \<longrightarrow> pick A \<in> A)"

lemma picks_Min: "picks Min"
  by (simp add: picks_def)

lemma index_of_topic_Some: "index_of_topic t xs = Some i \<Longrightarrow> i < length xs \<and> xs ! i = t"
  by (induction xs arbitrary: i) (auto split: if_splits option.splits)

lemma index_of_topic_None: "index_of_topic t xs = None \<longleftrightarrow> t \<notin> set xs"
  by (induction xs) (auto split: option.splits)

lemma get_topic_index_ok:
  assumes "get_topic_index pick t topics unused = (i, topics', unused')"
    "unused \<subseteq> {..<length topics}" "picks pick"
  shows "i < length topics' \<and> topics' ! i = t \<and> length topics \<le> length topics'
    \<and> unused' \<subseteq> {..<length topics'}"
proof -
  have "finite unused" using assms(2) finite_subset by blast
  then have "unused \<noteq> {} \<Longrightarrow> pick unused < length topics"
    using assms(2,3) by (auto simp: picks_def)
  then show ?thesis
    using assms(1,2)
    by (fastforce simp: get_topic_index_def split: option.splits if_splits dest: index_of_topic_Some)
qed

lemma sorted_wrt_partition:
  assumes "sorted_wrt (<) (xs :: SyncID list)" "i \<le> j" "j < length xs"
  shows "xs ! j < k \<Longrightarrow> xs ! i < k" "xs ! j \<le> k \<Longrightarrow> xs ! i \<le> k"
proof -
  have "xs ! i \<le> xs ! j"
    using assms sorted_wrt_iff_nth_less [of "(<)" xs] by (cases "i = j") (auto intro: less_imp_le)
  then show "xs ! j < k \<Longrightarrow> xs ! i < k" "xs ! j \<le> k \<Longrightarrow> xs ! i \<le> k" by auto
qed

lemma lowerBound_split:
  assumes "sorted_wrt (<) xs"
  shows "take (lowerBound xs k) xs = filter (\<lambda>x. x < k) xs"
    and "drop (lowerBound xs k) xs = filter (\<lambda>x. k \<le> x) xs"
proof -
  have p: "xs ! i < k" if "i \<le> j" "j < length xs" "xs ! j < k" for i j
    using sorted_wrt_partition(1) [OF assms that(1,2)] that(3) by blast
  show "take (lowerBound xs k) xs = filter (\<lambda>x. x < k) xs"
    unfolding lowerBound_def cmp_signs by (rule bsearch_take_drop(1)) (rule p)
  show "drop (lowerBound xs k) xs = filter (\<lambda>x. k \<le> x) xs"
    unfolding lowerBound_def cmp_signs
    by (subst bsearch_take_drop(2)) (auto simp: not_less intro: p)
qed

lemma upperBound_split:
  assumes "sorted_wrt (<) xs"
  shows "take (upperBound xs k) xs = filter (\<lambda>x. x \<le> k) xs"
    and "drop (upperBound xs k) xs = filter (\<lambda>x. k < x) xs"
proof -
  have p: "xs ! i \<le> k" if "i \<le> j" "j < length xs" "xs ! j \<le> k" for i j
    using sorted_wrt_partition(2) [OF assms that(1,2)] that(3) by blast
  show "take (upperBound xs k) xs = filter (\<lambda>x. x \<le> k) xs"
    unfolding upperBound_def cmp_signs by (rule bsearch_take_drop(1)) (rule p)
  show "drop (upperBound xs k) xs = filter (\<lambda>x. k < x) xs"
    unfolding upperBound_def cmp_signs
    by (subst bsearch_take_drop(2)) (auto simp: not_le intro: p)
qed

lemma bound_le: "lowerBound xs k \<le> length xs" "upperBound xs k \<le> length xs"
  using bsearch_le [of _ xs 0 "length xs"] by (simp_all add: lowerBound_def upperBound_def)

text \<open>Inserting at the lower bound keeps the order, unless the element is there already.\<close>

lemma lowerBound_present:
  assumes "sorted_wrt (<) xs"
  shows "(lowerBound xs e < length xs \<and> xs ! lowerBound xs e = e) \<longleftrightarrow> e \<in> set xs"
proof
  let ?k = "lowerBound xs e"
  assume "e \<in> set xs"
  then have e: "e \<in> set (drop ?k xs)" unfolding lowerBound_split [OF assms] by simp
  then have "drop ?k xs \<noteq> []" by auto
  then have k: "?k < length xs" by simp
  have d: "drop ?k xs = xs ! ?k # drop (Suc ?k) xs" using k by (simp add: Cons_nth_drop_Suc)
  have s: "sorted_wrt (<) (xs ! ?k # drop (Suc ?k) xs)"
    using assms unfolding d [symmetric] by (rule sorted_wrt_drop)
  have "xs ! ?k \<in> set (drop ?k xs)" unfolding d by simp
  then have "e \<le> xs ! ?k" unfolding lowerBound_split(2) [OF assms] by simp
  moreover have "e = xs ! ?k \<or> xs ! ?k < e" using e s unfolding d by auto
  ultimately show "?k < length xs \<and> xs ! ?k = e" using k by auto
qed (metis nth_mem)

lemma sorted_insert_at_lowerBound:
  assumes "sorted_wrt (<) xs" "e \<notin> set xs"
  shows "sorted_wrt (<) (list_insert_at xs (lowerBound xs e) e)"
proof -
  have "sorted_wrt (<) (filter (\<lambda>x. x < e) xs @ e # filter (\<lambda>x. e \<le> x) xs)"
    using assms by (auto simp: sorted_wrt_append sorted_wrt_filter order.order_iff_strict
        intro: less_trans)
  then show ?thesis by (simp add: list_insert_at_def lowerBound_split [OF assms(1)])
qed

text \<open>What an insertion at an index does to one topic table.\<close>

lemma slots_ok_insert:
  assumes "slots_ok es idx topics unused" "get_topic_index pick t topics unused = (j, topics', unused')"
    "picks pick"
  shows "slots_ok (list_insert_at es k e) (list_insert_at idx k j) topics' unused'"
  using assms get_topic_index_ok [OF assms(2) _ assms(3)]
  by (auto simp: slots_ok_def dest: order_less_le_trans)

lemma insertAt_new:
  assumes "\<not> (k < length (elements s) \<and> elements s ! k = e)"
    and "get_topic_index pick p (pubsubTopics s) (unusedPubsubTopicSet s) = (i, pt, pu)"
    and "get_topic_index pick c (contentTopics s) (unusedContentTopicSet s) = (j, ct, cu)"
  shows "insertAt pick k e p c s = s\<lparr>elements := list_insert_at (elements s) k e,
      pubsubTopicIndexes := list_insert_at (pubsubTopicIndexes s) k i,
      contentTopicIndexes := list_insert_at (contentTopicIndexes s) k j,
      pubsubTopics := pt, contentTopics := ct,
      unusedPubsubTopicSet := pu, unusedContentTopicSet := cu\<rparr>"
  unfolding insertAt_def if_not_P [OF assms(1)] getPubsubTopicIndex_def getContentTopicIndex_def
  by (simp add: Let_def assms(2,3))

lemma insertAt_elements:
  "elements (insertAt pick k e p c s) =
     (if k < length (elements s) \<and> elements s ! k = e then elements s
      else list_insert_at (elements s) k e)"
  by (auto simp: insertAt_def getPubsubTopicIndex_def getContentTopicIndex_def Let_def split: prod.splits)

lemma insertAt_slots:
  assumes "slots_ok (elements s) (pubsubTopicIndexes s) (pubsubTopics s) (unusedPubsubTopicSet s)"
    "slots_ok (elements s) (contentTopicIndexes s) (contentTopics s) (unusedContentTopicSet s)" "picks pick"
  shows "let s' = insertAt pick k e p c s in
    slots_ok (elements s') (pubsubTopicIndexes s') (pubsubTopics s') (unusedPubsubTopicSet s')
    \<and> slots_ok (elements s') (contentTopicIndexes s') (contentTopics s') (unusedContentTopicSet s')"
proof (cases "k < length (elements s) \<and> elements s ! k = e")
  case True
  then show ?thesis using assms by (simp add: insertAt_def)
next
  case False
  obtain i pt pu where g1: "get_topic_index pick p (pubsubTopics s) (unusedPubsubTopicSet s) = (i, pt, pu)"
    by (metis prod_cases3)
  obtain j ct cu where g2: "get_topic_index pick c (contentTopics s) (unusedContentTopicSet s) = (j, ct, cu)"
    by (metis prod_cases3)
  show ?thesis
    unfolding insertAt_new [OF False g1 g2]
    using slots_ok_insert [OF assms(1) g1 assms(3)] slots_ok_insert [OF assms(2) g2 assms(3)] by simp
qed

lemma insertAt_set: "set (elements (insertAt pick k e p c s)) = insert e (set (elements s))"
  using nth_mem [of k "elements s"] by (auto simp: insertAt_elements)

lemma storage_insert_set: "set (elements (storage_insert pick e p c s)) = insert e (set (elements s))"
  by (simp add: storage_insert_def insertAt_set)

lemma storage_insert_wf:
  assumes "wf_storage s" "picks pick" "length (id_hash e) = 32"
  shows "wf_storage (storage_insert pick e p c s)"
proof -
  have s: "sorted_wrt (<) (elements s)" using assms(1) by (simp add: wf_storage_def)
  have "sorted_wrt (<) (elements (storage_insert pick e p c s))"
    using s lowerBound_present [OF s, of e] sorted_insert_at_lowerBound [OF s, of e]
    by (auto simp: storage_insert_def insertAt_elements)
  then show ?thesis
    using assms insertAt_slots [of s pick "lowerBound (elements s) e" e p c]
    storage_insert_set [of pick e p c s]
    by (simp add: wf_storage_def storage_insert_def Let_def)
qed

section \<open>The topics of the elements\<close>

definition labels :: "SeqStorage \<Rightarrow> (SyncID \<times> string \<times> string) list" where
  "labels s = map (\<lambda>(e, i, j). (e, pubsubTopics s ! i, contentTopics s ! j)) (rows s)"

text \<open>No element refers to an unused slot, and the topics to insert are not those of unused slots.\<close>

definition slots_clean :: "nat list \<Rightarrow> string list \<Rightarrow> nat set \<Rightarrow> string \<Rightarrow> bool" where
  "slots_clean idx topics unused t \<longleftrightarrow> set idx \<inter> unused = {} \<and> (\<forall>i \<in> unused. topics ! i \<noteq> t)"

text \<open>
  The unused slot a new topic takes over, and the topics of the rows afterwards: an element that
  refers to the slot is listed under the new topic from then on.
\<close>

definition taken_slot :: "(nat set \<Rightarrow> nat) \<Rightarrow> string \<Rightarrow> string list \<Rightarrow> nat set \<Rightarrow> nat option" where
  "taken_slot pick t topics unused = (if t \<notin> set topics \<and> unused \<noteq> {} then Some (pick unused) else None)"

definition relabelled :: "(nat set \<Rightarrow> nat) \<Rightarrow> string \<Rightarrow> string \<Rightarrow> SeqStorage \<Rightarrow> (SyncID \<times> string \<times> string) list" where
  "relabelled pick p c s = map (\<lambda>(e, i, j).
     (e, if taken_slot pick p (pubsubTopics s) (unusedPubsubTopicSet s) = Some i then p else pubsubTopics s ! i,
      if taken_slot pick c (contentTopics s) (unusedContentTopicSet s) = Some j then c else contentTopics s ! j))
     (rows s)"

lemma get_topic_index_slots:
  assumes "get_topic_index pick t topics unused = (j, topics', unused')" "picks pick"
    "unused \<subseteq> {..<length topics}"
  shows "i < length topics \<Longrightarrow> topics' ! i = (if taken_slot pick t topics unused = Some i then t else topics ! i)"
    and "topics' ! j = t"
proof -
  have u: "unused \<noteq> {} \<Longrightarrow> pick unused < length topics"
    using assms(2,3) finite_subset [OF assms(3)] by (auto simp: picks_def)
  show "topics' ! i = (if taken_slot pick t topics unused = Some i then t else topics ! i)" if "i < length topics"
    using assms(1) that index_of_topic_None [of t topics] index_of_topic_Some [of t topics]
    by (cases "index_of_topic t topics")
      (auto simp: get_topic_index_def taken_slot_def nth_append nth_list_update split: if_splits)
  show "topics' ! j = t"
    using assms(1) u index_of_topic_Some [of t topics]
    by (cases "index_of_topic t topics") (auto simp: get_topic_index_def split: if_splits)
qed

lemma labels_insertAt_relabelled:
  assumes "slots_ok (elements s) (pubsubTopicIndexes s) (pubsubTopics s) (unusedPubsubTopicSet s)"
    "slots_ok (elements s) (contentTopicIndexes s) (contentTopics s) (unusedContentTopicSet s)" "picks pick"
    "\<not> (k < length (elements s) \<and> elements s ! k = e)"
  shows "labels (insertAt pick k e p c s) = list_insert_at (relabelled pick p c s) k (e, p, c)"
proof -
  obtain i pt pu where g1: "get_topic_index pick p (pubsubTopics s) (unusedPubsubTopicSet s) = (i, pt, pu)"
    by (metis prod_cases3)
  obtain j ct cu where g2: "get_topic_index pick c (contentTopics s) (unusedContentTopicSet s) = (j, ct, cu)"
    by (metis prod_cases3)
  let ?pi = "pubsubTopicIndexes s" and ?ci = "contentTopicIndexes s"
  have l: "length ?pi = length (elements s)" "length ?ci = length (elements s)"
    using assms(1,2) by (auto simp: slots_ok_def)
  have c1: "pt ! i = p" "\<And>x. x \<in> set ?pi \<Longrightarrow>
      pt ! x = (if taken_slot pick p (pubsubTopics s) (unusedPubsubTopicSet s) = Some x then p else pubsubTopics s ! x)"
    using get_topic_index_slots [OF g1 assms(3)] assms(1) by (auto simp: slots_ok_def)
  have c2: "ct ! j = c" "\<And>x. x \<in> set ?ci \<Longrightarrow>
      ct ! x = (if taken_slot pick c (contentTopics s) (unusedContentTopicSet s) = Some x then c else contentTopics s ! x)"
    using get_topic_index_slots [OF g2 assms(3)] assms(2) by (auto simp: slots_ok_def)
  have m: "map (\<lambda>(e, i, j). (e, pt ! i, ct ! j)) (rows s) = relabelled pick p c s"
    unfolding relabelled_def using c1 c2 by (auto simp: rows_def elim!: in_set_zipE)
  have r: "zip (list_insert_at (elements s) k e) (zip (list_insert_at ?pi k i) (list_insert_at ?ci k j))
      = list_insert_at (rows s) k (e, i, j)"
    using l by (simp add: rows_def zip_list_insert_at)
  have "labels (insertAt pick k e p c s)
      = map (\<lambda>(e, i, j). (e, pt ! i, ct ! j)) (list_insert_at (rows s) k (e, i, j))"
    unfolding insertAt_new [OF assms(4) g1 g2] labels_def rows_def [of "_\<lparr>elements := _\<rparr>"]
    using r by (simp add: rows_def)
  also have "\<dots> = list_insert_at (relabelled pick p c s) k (e, p, c)"
    using c1 c2 by (simp only: mset_list_insert_at_map m) simp
  finally show ?thesis .
qed

lemma clean_not_taken:
  assumes "slots_clean idx topics unused t" "picks pick" "unused \<subseteq> {..<length topics}" "i \<in> set idx"
  shows "taken_slot pick t topics unused \<noteq> Some i"
  using assms finite_subset [OF assms(3)] by (auto simp: taken_slot_def slots_clean_def picks_def)

lemma labels_insertAt:
  assumes "slots_ok (elements s) (pubsubTopicIndexes s) (pubsubTopics s) (unusedPubsubTopicSet s)"
    "slots_ok (elements s) (contentTopicIndexes s) (contentTopics s) (unusedContentTopicSet s)" "picks pick"
    "slots_clean (pubsubTopicIndexes s) (pubsubTopics s) (unusedPubsubTopicSet s) p"
    "slots_clean (contentTopicIndexes s) (contentTopics s) (unusedContentTopicSet s) c"
    "\<not> (k < length (elements s) \<and> elements s ! k = e)"
  shows "labels (insertAt pick k e p c s) = list_insert_at (labels s) k (e, p, c)"
proof -
  have "relabelled pick p c s = labels s"
    using clean_not_taken [OF assms(4,3)] clean_not_taken [OF assms(5,3)] assms(1,2)
    by (auto simp: relabelled_def labels_def rows_def slots_ok_def elim!: in_set_zipE)
  with labels_insertAt_relabelled [OF assms(1-3,6), of p c] show ?thesis by simp
qed

lemma bound_lengths:
  assumes "sorted_wrt (<) xs"
  shows "lowerBound xs k = length (filter (\<lambda>x. x < k) xs)" "upperBound xs k = length (filter (\<lambda>x. x \<le> k) xs)"
  using arg_cong [OF lowerBound_split(1) [OF assms, of k], of length]
    arg_cong [OF upperBound_split(1) [OF assms, of k], of length] bound_le [of xs k]
  by (simp_all add: min_def split: if_splits)

section \<open>Pruning\<close>

lemma prune_elements:
  assumes "sorted_wrt (<) (elements s)" "\<forall>e \<in> set (elements s). length (id_hash e) = 32"
  shows "elements (snd (prune t s)) = filter (\<lambda>e. t \<le> id_time e) (elements s)"
    and "fst (prune t s) = length (filter (\<lambda>e. id_time e < t) (elements s))"
proof -
  let ?b = "SyncID t EmptyFingerprint"
  have b: "(?b \<le> e) = (t \<le> id_time e)" "(e < ?b) = (id_time e < t)" if "e \<in> set (elements s)" for e
    using that assms(2) EmptyFingerprint_le [of "id_hash e"] by (auto simp: SyncID_le_iff SyncID_less_iff)
  have k: "lowerBound (elements s) ?b = length (filter (\<lambda>e. e < ?b) (elements s))"
    by (rule bound_lengths(1) [OF assms(1)])
  show "elements (snd (prune t s)) = filter (\<lambda>e. t \<le> id_time e) (elements s)"
    using b by (auto simp: prune_def Let_def lowerBound_split(2) [OF assms(1)] intro!: filter_cong)
  have "filter (\<lambda>e. e < ?b) (elements s) = filter (\<lambda>e. id_time e < t) (elements s)"
    using b by (auto intro!: filter_cong)
  then show "fst (prune t s) = length (filter (\<lambda>e. id_time e < t) (elements s))"
    by (auto simp: prune_def Let_def k)
qed

lemma prune_fields:
  "partitionCount (snd (prune t s)) = partitionCount s" "lengthThreshold (snd (prune t s)) = lengthThreshold s"
  "pubsubTopics (snd (prune t s)) = pubsubTopics s" "contentTopics (snd (prune t s)) = contentTopics s"
  by (simp_all add: prune_def Let_def)

lemma prune_wf:
  assumes "wf_storage s"
  shows "wf_storage (snd (prune t s))"
  using assms
  by (auto simp: prune_def Let_def wf_storage_def slots_ok_def sorted_wrt_drop dest: in_set_dropD)

lemma prune_unused:
  assumes "elements s \<noteq> []"
  shows "unusedPubsubTopicSet (snd (prune t s))
      = {..<length (pubsubTopics s)} - set (pubsubTopicIndexes (snd (prune t s)))"
    "unusedContentTopicSet (snd (prune t s))
      = {..<length (contentTopics s)} - set (contentTopicIndexes (snd (prune t s)))"
  using assms by (simp_all add: prune_def Let_def)

section \<open>Ranges\<close>

lemma split_zip:
  assumes "take k xs = filter P xs" "drop k xs = filter (\<lambda>x. \<not> P x) xs"
  shows "take k (zip xs ys) = filter (\<lambda>r. P (fst r)) (zip xs ys)"
    and "drop k (zip xs ys) = filter (\<lambda>r. \<not> P (fst r)) (zip xs ys)"
proof -
  let ?z = "zip xs ys"
  have "\<forall>x \<in> set (take k xs). P x" unfolding assms(1) by simp
  then have t: "\<forall>r \<in> set (take k ?z). P (fst r)" by (auto simp: take_zip elim: in_set_zipE)
  have "\<forall>x \<in> set (drop k xs). \<not> P x" unfolding assms(2) by simp
  then have d: "\<forall>r \<in> set (drop k ?z). \<not> P (fst r)" by (auto simp: drop_zip elim: in_set_zipE)
  have "filter Q ?z = filter Q (take k ?z) @ filter Q (drop k ?z)" for Q
    by (metis append_take_drop_id filter_append)
  then show "take k ?z = filter (\<lambda>r. P (fst r)) ?z" "drop k ?z = filter (\<lambda>r. \<not> P (fst r)) ?z"
    using t d by simp_all
qed

definition in_bounds :: "bounds \<Rightarrow> SyncID \<Rightarrow> bool" where
  "in_bounds bnds e \<longleftrightarrow> fst bnds \<le> e \<and> e \<le> snd bnds"

lemma bounds_ordered:
  assumes "sorted_wrt (<) xs" "a \<le> b"
  shows "lowerBound xs a \<le> upperBound xs b"
proof -
  have "filter (\<lambda>x. x < a) xs = filter (\<lambda>x. x < a) (filter (\<lambda>x. x \<le> b) xs)"
    using assms(2) by (auto intro!: filter_cong)
  then show ?thesis by (simp only: bound_lengths [OF assms(1)] length_filter_le)
qed

lemma slice_of_bounds:
  assumes "sorted_wrt (<) xs" "a \<le> b"
  shows "take (upperBound xs b - lowerBound xs a) (drop (lowerBound xs a) (zip xs ys))
    = filter (\<lambda>r. in_bounds (a, b) (fst r)) (zip xs ys)"
proof -
  let ?z = "zip xs ys" and ?lo = "lowerBound xs a" and ?hi = "upperBound xs b"
  have lo: "take ?lo ?z = filter (\<lambda>r. fst r < a) ?z" "drop ?lo ?z = filter (\<lambda>r. \<not> fst r < a) ?z"
    by (rule split_zip; simp add: lowerBound_split [OF assms(1)] not_less)+
  have hi: "take ?hi ?z = filter (\<lambda>r. fst r \<le> b) ?z"
    by (rule split_zip; simp add: upperBound_split [OF assms(1)] not_le)
  have "take ?hi ?z = take ?lo ?z @ take (?hi - ?lo) (drop ?lo ?z)"
    using bounds_ordered [OF assms] take_add [of ?lo "?hi - ?lo" ?z] by simp
  then have "filter (\<lambda>r. \<not> fst r < a) (filter (\<lambda>r. fst r \<le> b) ?z)
      = filter (\<lambda>r. \<not> fst r < a) (take (?hi - ?lo) (drop ?lo ?z))"
    unfolding hi lo(1) by simp
  also have "\<dots> = take (?hi - ?lo) (drop ?lo ?z)"
    using lo(2) by (auto simp: filter_id_conv dest!: in_set_takeD)
  finally show ?thesis by (simp add: in_bounds_def not_less conj_commute)
qed

lemma findIdxBounds_slice:
  assumes "wf_storage s" "fst bnds \<le> snd bnds" "findIdxBounds bnds s = Some (lo, hi)"
  shows "lo \<le> hi" "hi \<le> length (elements s)"
    "slice_rows (lo, hi) s = filter (\<lambda>r. in_bounds bnds (fst r)) (rows s)"
proof -
  have s: "sorted_wrt (<) (elements s)" using assms(1) by (simp add: wf_storage_def)
  have e: "lo = lowerBound (elements s) (fst bnds)" "hi = upperBound (elements s) (snd bnds)"
    using assms(3) by (auto simp: findIdxBounds_def Let_def split: if_splits)
  show "lo \<le> hi" using bounds_ordered [OF s assms(2)] e by simp
  show "hi \<le> length (elements s)" using bound_le e by simp
  show "slice_rows (lo, hi) s = filter (\<lambda>r. in_bounds bnds (fst r)) (rows s)"
    using slice_of_bounds [OF s assms(2)] by (simp add: slice_rows_def rows_def e)
qed

lemma findIdxBounds_None:
  assumes "wf_storage s" "findIdxBounds bnds s = None" "e \<in> set (elements s)"
  shows "\<not> in_bounds bnds e"
proof -
  have s: "sorted_wrt (<) (elements s)" using assms(1) by (simp add: wf_storage_def)
  consider "upperBound (elements s) (snd bnds) = 0" | "length (elements s) \<le> lowerBound (elements s) (fst bnds)"
    using assms(2) by (auto simp: findIdxBounds_def Let_def split: if_splits)
  then show ?thesis
  proof cases
    case 1
    then have "filter (\<lambda>x. x \<le> snd bnds) (elements s) = []" using bound_lengths(2) [OF s] by simp
    then show ?thesis using assms(3) by (auto simp: in_bounds_def filter_empty_conv)
  next
    case 2
    then have "drop (lowerBound (elements s) (fst bnds)) (elements s) = []" by simp
    then show ?thesis
      using assms(3) unfolding lowerBound_split(2) [OF s] by (auto simp: in_bounds_def filter_empty_conv)
  qed
qed

lemma rows_in_elements: "r \<in> set (rows s) \<Longrightarrow> fst r \<in> set (elements s)"
  by (cases r) (auto simp: rows_def elim: in_set_zipE)

lemma findIdxBounds_None_rows:
  assumes "wf_storage s" "findIdxBounds bnds s = None"
  shows "filter (\<lambda>r. in_bounds bnds (fst r)) (rows s) = []"
  using findIdxBounds_None [OF assms] rows_in_elements by (auto simp: filter_empty_conv)

section \<open>Fingerprints\<close>

definition xor_all :: "SyncID list \<Rightarrow> Fingerprint" where
  "xor_all es = foldl (\<lambda>fp e. xor_hash fp (id_hash e)) EmptyFingerprint es"

lemma fingerprint_loop_foldl:
  "fingerprint_loop pset cset rs fp
    = foldl (\<lambda>fp e. xor_hash fp (id_hash e)) fp
        (map fst (filter (\<lambda>(e, p, c). selected pset cset p c) rs))"
  by (induction pset cset rs fp rule: fingerprint_loop.induct) auto

lemma seq_slice_ok [simp]:
  "lo \<le> hi \<Longrightarrow> hi \<le> length xs \<Longrightarrow> seq_slice xs lo hi = Inr (take (hi - lo) (drop lo xs))"
  by (simp add: seq_slice_def)

lemma fingerprint_of_bounds:
  assumes "wf_storage s" "fst bnds \<le> snd bnds"
  shows "computefingerprintFromSlice (findIdxBounds bnds s) pset cset s
    = Inr (xor_all (map fst (filter (\<lambda>(e, p, c). in_bounds bnds e \<and> selected pset cset p c) (rows s))))"
proof -
  have f: "filter (\<lambda>(e, p, c). in_bounds bnds e \<and> selected pset cset p c) (rows s)
      = filter (\<lambda>(e, p, c). selected pset cset p c) (filter (\<lambda>r. in_bounds bnds (fst r)) (rows s))"
    by (simp add: case_prod_unfold conj_commute)
  show ?thesis
  proof (cases "findIdxBounds bnds s")
    case None
    then show ?thesis
      unfolding computefingerprintFromSlice_def None f findIdxBounds_None_rows [OF assms(1) None]
      by (simp add: xor_all_def)
  next
    case (Some sl)
    obtain lo hi where sl: "sl = (lo, hi)" by (cases sl)
    note slice = findIdxBounds_slice [OF assms Some [unfolded sl]]
    have l: "length (pubsubTopicIndexes s) = length (elements s)" "length (contentTopicIndexes s) = length (elements s)"
      using assms(1) by (auto simp: wf_storage_def slots_ok_def)
    have "zip (take (hi - lo) (drop lo (elements s))) (zip (take (hi - lo) (drop lo (pubsubTopicIndexes s)))
        (take (hi - lo) (drop lo (contentTopicIndexes s)))) = slice_rows (lo, hi) s"
      by (simp add: slice_rows_def rows_def take_zip drop_zip)
    then show ?thesis
      unfolding computefingerprintFromSlice_def Some sl f slice(3) [symmetric]
      using slice(1,2) l by (simp add: fingerprint_loop_foldl xor_all_def)
  qed
qed

text \<open>The filters by index are filters by name, where some local topic has one of the names.\<close>

definition passes_topics :: "string list \<Rightarrow> string list \<Rightarrow> string \<Rightarrow> bool" where
  "passes_topics input local_topics t \<longleftrightarrow> set input \<inter> set local_topics = {} \<or> t \<in> set input"

lemma topic_set_mem: "i \<in> topic_set input ts \<longleftrightarrow> i < length ts \<and> ts ! i \<in> set input"
  by (auto simp: topic_set_def)

lemma topic_set_empty: "topic_set input ts = {} \<longleftrightarrow> set input \<inter> set ts = {}"
  unfolding topic_set_def by (auto simp: filter_empty_conv) (metis disjoint_iff in_set_conv_nth)+

lemma selected_topics:
  assumes "i < length pt" "j < length ct"
  shows "selected (topic_set ps pt) (topic_set cs ct) i j
    \<longleftrightarrow> passes_topics ps pt (pt ! i) \<and> passes_topics cs ct (ct ! j)"
  using assms by (auto simp: selected_def topic_set_mem topic_set_empty passes_topics_def)

lemma rows_indices:
  assumes "wf_storage s" "(e, i, j) \<in> set (rows s)"
  shows "i < length (pubsubTopics s)" "j < length (contentTopics s)"
  using assms by (auto simp: wf_storage_def slots_ok_def rows_def elim!: in_set_zipE)

lemma filter_labels:
  assumes "wf_storage s"
  shows "map fst (filter (\<lambda>(e, i, j). P e \<and> selected (topic_set ps (pubsubTopics s)) (topic_set cs (contentTopics s)) i j) (rows s))
    = map fst (filter (\<lambda>(e, p, c). P e \<and> passes_topics ps (pubsubTopics s) p \<and> passes_topics cs (contentTopics s) c) (labels s))"
proof -
  have "filter (\<lambda>(e, i, j). P e \<and> selected (topic_set ps (pubsubTopics s)) (topic_set cs (contentTopics s)) i j) (rows s)
      = filter (\<lambda>(e, i, j). P e \<and> passes_topics ps (pubsubTopics s) (pubsubTopics s ! i)
          \<and> passes_topics cs (contentTopics s) (contentTopics s ! j)) (rows s)"
    using rows_indices [OF assms] by (auto intro!: filter_cong simp: selected_topics)
  moreover have "map fst (filter P' (map f xs)) = map fst (filter (\<lambda>x. P' (f x)) xs)"
    if "\<And>x. fst (f x) = fst x" for P' and f :: "SyncID \<times> nat \<times> nat \<Rightarrow> SyncID \<times> string \<times> string" and xs
    using that by (simp add: filter_map comp_def)
  ultimately show ?thesis by (simp add: labels_def case_prod_unfold)
qed

section \<open>The interface of a synchronisation storage\<close>

text \<open>
  What the protocol relies on, whatever class implements \<open>SyncStorage\<close> of
  \<open>waku/waku_store_sync/storage/storage.nim\<close>: the identifiers held, insertion, and pruning by time.
\<close>

locale sync_storage =
  fixes inv :: "'s \<Rightarrow> bool"
    and ids :: "'s \<Rightarrow> SyncID set"
    and ins :: "SyncID \<Rightarrow> string \<Rightarrow> string \<Rightarrow> 's \<Rightarrow> 's"
    and prn :: "Timestamp \<Rightarrow> 's \<Rightarrow> 's"
  assumes ins_inv: "inv s \<Longrightarrow> length (id_hash e) = 32 \<Longrightarrow> inv (ins e p c s)"
    and ins_ids: "inv s \<Longrightarrow> ids (ins e p c s) = insert e (ids s)"
    and prn_inv: "inv s \<Longrightarrow> inv (prn t s)"
    and prn_ids: "inv s \<Longrightarrow> ids (prn t s) = {e \<in> ids s. t \<le> id_time e}"
begin

fun ingress :: "(SyncID \<times> string \<times> string) list \<Rightarrow> 's \<Rightarrow> 's" where
  "ingress [] s = s"
| "ingress ((e, p, c) # ms) s = ingress ms (ins e p c s)"

lemma ingress_ids:
  assumes "inv s" "\<forall>m \<in> set ms. length (id_hash (fst m)) = 32"
  shows "inv (ingress ms s) \<and> ids (ingress ms s) = ids s \<union> fst ` set ms"
  using assms
proof (induction ms s rule: ingress.induct)
  case (2 e p c ms s)
  then show ?case using ins_inv [of s e p c] ins_ids [of s e p c] by auto
qed simp

lemma ingress_then_prune:
  assumes "inv s" "\<forall>m \<in> set ms. length (id_hash (fst m)) = 32"
  shows "ids (prn t (ingress ms s)) = {e \<in> ids s \<union> fst ` set ms. t \<le> id_time e}"
  using ingress_ids [OF assms] prn_ids by blast

end

interpretation seq: sync_storage
  "\<lambda>(pick, s). picks pick \<and> wf_storage s" "\<lambda>(pick, s). set (elements s)"
  "\<lambda>e p c (pick, s). (pick, storage_insert pick e p c s)" "\<lambda>t (pick, s). (pick, snd (prune t s))"
proof unfold_locales
  fix s :: "(nat set \<Rightarrow> nat) \<times> SeqStorage" and e p c t
  obtain pick s' where s: "s = (pick, s')" by (cases s)
  assume inv: "case s of (pick, s) \<Rightarrow> picks pick \<and> wf_storage s"
  show "length (id_hash e) = 32 \<Longrightarrow> case case s of (pick, s) \<Rightarrow> (pick, storage_insert pick e p c s) of
      (pick, s) \<Rightarrow> picks pick \<and> wf_storage s"
    using inv storage_insert_wf by (simp add: s)
  show "(case case s of (pick, s) \<Rightarrow> (pick, storage_insert pick e p c s) of (pick, s) \<Rightarrow> set (elements s))
      = insert e (case s of (pick, s) \<Rightarrow> set (elements s))"
    by (simp add: s storage_insert_set)
  show "case case s of (pick, s) \<Rightarrow> (pick, snd (prune t s)) of (pick, s) \<Rightarrow> picks pick \<and> wf_storage s"
    using inv prune_wf by (simp add: s)
  show "(case case s of (pick, s) \<Rightarrow> (pick, snd (prune t s)) of (pick, s) \<Rightarrow> set (elements s))
      = {e \<in> case s of (pick, s) \<Rightarrow> set (elements s). t \<le> id_time e}"
    using inv prune_elements(1) [of s' t] by (auto simp: s wf_storage_def)
qed

section \<open>Batches\<close>

lemma lowerBound_drop_le: "idx \<le> length xs \<Longrightarrow> lowerBound (drop idx xs) e \<le> length xs"
  using bound_le(1) [of "drop idx xs" e] by simp

lemma batch_loop_content:
  assumes "slots_ok (elements s) (pubsubTopicIndexes s) (pubsubTopics s) (unusedPubsubTopicSet s)"
    "slots_ok (elements s) (contentTopicIndexes s) (contentTopics s) (unusedContentTopicSet s)" "picks pick"
    "length ps = length es" "length cs = length es"
  shows "\<exists>s'. batch_loop pick idx es ps cs s = Inr s' \<and> set (elements s') = set (elements s) \<union> set es
    \<and> slots_ok (elements s') (pubsubTopicIndexes s') (pubsubTopics s') (unusedPubsubTopicSet s')
    \<and> slots_ok (elements s') (contentTopicIndexes s') (contentTopics s') (unusedContentTopicSet s')"
  using assms
proof (induction pick idx es ps cs s rule: batch_loop.induct)
  case (2 pick idx e es p ps c cs s)
  let ?k = "lowerBound (drop idx (elements s)) e"
  note slots = insertAt_slots [OF 2(2-4), of ?k e p c, unfolded Let_def]
  show ?case
    using "2.IH" [OF refl conjunct1 [OF slots] conjunct2 [OF slots] 2(4)] 2(5,6)
    by (auto simp: insertAt_set Let_def)
qed auto

section \<open>Properties\<close>

text \<open>
  C3. Inserting a message keeps the storage well formed (identifiers strictly sorted, one valid
  topic index each) and adds exactly its identifier. An identifier it holds changes nothing. A new
  one is recorded under the topics it was inserted with, and every other element keeps its topics but
  those that refer to the unused slot a new topic takes over, which change to that topic. When no
  element refers to an unused slot and the topics are not those of unused slots, none does.
\<close>

theorem storage_insert_correct:
  assumes "wf_storage s" "picks pick" "length (id_hash e) = 32"
  shows "wf_storage (storage_insert pick e p c s)
    \<and> set (elements (storage_insert pick e p c s)) = insert e (set (elements s))
    \<and> (if e \<in> set (elements s) then storage_insert pick e p c s = s
       else set (labels (storage_insert pick e p c s)) = insert (e, p, c) (set (relabelled pick p c s)))
    \<and> (e \<notin> set (elements s)
        \<and> slots_clean (pubsubTopicIndexes s) (pubsubTopics s) (unusedPubsubTopicSet s) p
        \<and> slots_clean (contentTopicIndexes s) (contentTopics s) (unusedContentTopicSet s) c
       \<longrightarrow> set (labels (storage_insert pick e p c s)) = insert (e, p, c) (set (labels s)))"
proof -
  have s: "sorted_wrt (<) (elements s)" using assms(1) by (simp add: wf_storage_def)
  note l = lowerBound_present [OF s, of e]
  have old: "storage_insert pick e p c s = s" if "e \<in> set (elements s)"
    using that l by (simp add: storage_insert_def insertAt_def)
  have new: "labels (storage_insert pick e p c s)
      = list_insert_at (relabelled pick p c s) (lowerBound (elements s) e) (e, p, c)" if "e \<notin> set (elements s)"
    unfolding storage_insert_def using assms that l
    by (intro labels_insertAt_relabelled) (auto simp: wf_storage_def)
  have clean: "labels (storage_insert pick e p c s) = list_insert_at (labels s) (lowerBound (elements s) e) (e, p, c)"
    if "e \<notin> set (elements s)"
      "slots_clean (pubsubTopicIndexes s) (pubsubTopics s) (unusedPubsubTopicSet s) p"
      "slots_clean (contentTopicIndexes s) (contentTopics s) (unusedContentTopicSet s) c"
    unfolding storage_insert_def using assms that l
    by (intro labels_insertAt) (auto simp: wf_storage_def)
  show ?thesis
    using storage_insert_wf [OF assms] storage_insert_set old new clean by auto
qed

definition sample :: "nat \<Rightarrow> SyncID" where
  "sample t = SyncID (int t) EmptyFingerprint"

lemma sample_simps [simp]:
  "length (id_hash (sample t)) = 32" "sample t < sample u \<longleftrightarrow> t < u" "id_time (sample t) = int t"
  "sample t \<le> sample u \<longleftrightarrow> t \<le> u" "sample t = sample u \<longleftrightarrow> t = u"
  by (auto simp: sample_def EmptyFingerprint_def SyncID_less_iff SyncID_le_iff)

lemma new_storage_wf [simp]: "wf_storage (new_storage th pn)"
  by (simp add: wf_storage_def slots_ok_def new_storage_def)

lemma new_storage_elements [simp]: "elements (new_storage th pn) = []"
  by (simp add: new_storage_def)

theorem storage_insert_correct_witness:
  "set (labels (storage_insert Min (sample 5) ''p'' ''c'' (new_storage 100 8))) = {(sample 5, ''p'', ''c'')}
   \<and> set (labels (storage_insert Min (sample 4) ''B'' ''c''
        \<lparr>elements = [sample 3], pubsubTopicIndexes = [0], contentTopicIndexes = [0],
         pubsubTopics = [''A''], contentTopics = [''c''], unusedPubsubTopicSet = {0},
         unusedContentTopicSet = {}, partitionCount = 8, lengthThreshold = 100\<rparr>))
     = {(sample 4, ''B'', ''c''), (sample 3, ''B'', ''c'')}"
proof -
  let ?s = "\<lparr>elements = [sample 3], pubsubTopicIndexes = [0], contentTopicIndexes = [0],
    pubsubTopics = [''A''], contentTopics = [''c''], unusedPubsubTopicSet = {0},
    unusedContentTopicSet = {}, partitionCount = 8, lengthThreshold = 100\<rparr>"
  have w: "wf_storage ?s" by (simp add: wf_storage_def slots_ok_def)
  have h: "length (id_hash (sample n)) = 32" for n by simp
  have "relabelled Min p c (new_storage 100 8) = []" for p c
    by (simp add: relabelled_def rows_def new_storage_def)
  then have "set (labels (storage_insert Min (sample 5) ''p'' ''c'' (new_storage 100 8))) = {(sample 5, ''p'', ''c'')}"
    using storage_insert_correct [OF new_storage_wf picks_Min h, of 5 "''p''" "''c''" 100 8] by simp
  moreover have "relabelled Min ''B'' ''c'' ?s = [(sample 3, ''B'', ''c'')]"
    by (simp add: relabelled_def rows_def taken_slot_def)
  ultimately show ?thesis using storage_insert_correct [OF w picks_Min h, of 4 "''B''" "''c''"] by simp
qed

text \<open>
  C5. Pruning removes exactly the elements before the time, returns how many they were, keeps the
  storage well formed, and leaves as unused exactly the topic slots that no element refers to.
\<close>

theorem prune_correct:
  assumes "wf_storage s" "elements s \<noteq> []"
  shows "elements (snd (prune t s)) = filter (\<lambda>e. t \<le> id_time e) (elements s)
    \<and> fst (prune t s) = length (filter (\<lambda>e. id_time e < t) (elements s))
    \<and> wf_storage (snd (prune t s))
    \<and> unusedPubsubTopicSet (snd (prune t s))
        = {..<length (pubsubTopics s)} - set (pubsubTopicIndexes (snd (prune t s)))
    \<and> unusedContentTopicSet (snd (prune t s))
        = {..<length (contentTopics s)} - set (contentTopicIndexes (snd (prune t s)))"
  using assms prune_elements [of s t] prune_wf [of s t] prune_unused [OF assms(2), of t]
  by (simp add: wf_storage_def)

text \<open>A storage with one element, built by the code.\<close>

lemma insert_one:
  "storage_insert Min (sample 1) p c (new_storage th pn) =
     \<lparr>elements = [sample 1], pubsubTopicIndexes = [0], contentTopicIndexes = [0], pubsubTopics = [p],
      contentTopics = [c], unusedPubsubTopicSet = {}, unusedContentTopicSet = {},
      partitionCount = pn, lengthThreshold = th\<rparr>"
  by (simp add: storage_insert_def insertAt_def new_storage_def getPubsubTopicIndex_def
      getContentTopicIndex_def get_topic_index_def list_insert_at_def lowerBound_def bsearch.simps)

theorem prune_correct_witness:
  "elements (snd (prune 2 (storage_insert Min (sample 1) ''p'' ''c'' (new_storage 100 8)))) = []
    \<and> unusedPubsubTopicSet (snd (prune 2 (storage_insert Min (sample 1) ''p'' ''c'' (new_storage 100 8)))) = {0}"
proof -
  let ?s = "storage_insert Min (sample 1) ''p'' ''c'' (new_storage 100 8)"
  have w: "wf_storage ?s" by (rule storage_insert_wf) (simp_all add: picks_Min)
  have n: "elements ?s \<noteq> []" unfolding insert_one by simp
  have i: "pubsubTopicIndexes (snd (prune 2 ?s)) = []"
    using prune_correct [OF w n, of 2]
    unfolding insert_one by (auto simp: wf_storage_def slots_ok_def)
  show ?thesis using prune_correct [OF w n, of 2] i unfolding insert_one by auto
qed

text \<open>
  A topic that comes back after its slot became unused is found in the slot, which stays
  listed as unused; the next new topic then overwrites it, and the element inserted under the
  first topic is recorded under the second.
\<close>

lemma topic_slot_reused_while_used:
  "labels (storage_insert Min (sample 4) ''B'' ''c'' (storage_insert Min (sample 3) ''A'' ''c''
      (snd (prune 2 (storage_insert Min (sample 1) ''A'' ''c'' (new_storage 100 8))))))
    = [(sample 3, ''B'', ''c''), (sample 4, ''B'', ''c'')]"
proof -
  let ?s1 = "storage_insert Min (sample 1) ''A'' ''c'' (new_storage 100 8)"
  have c: "cmp (sample 1) (SyncID 2 EmptyFingerprint) < 0" "cmp (sample 3) (sample 4) < 0"
    by (simp_all add: cmp_def sample_def)
  have p: "snd (prune 2 ?s1) = \<lparr>elements = [], pubsubTopicIndexes = [], contentTopicIndexes = [],
      pubsubTopics = [''A''], contentTopics = [''c''], unusedPubsubTopicSet = {0},
      unusedContentTopicSet = {0}, partitionCount = 8, lengthThreshold = 100\<rparr>"
    unfolding insert_one using c(1)
    by (simp add: prune_def lowerBound_def bsearch.simps) auto
  have q: "storage_insert Min (sample 3) ''A'' ''c'' (snd (prune 2 ?s1)) =
     \<lparr>elements = [sample 3], pubsubTopicIndexes = [0], contentTopicIndexes = [0],
      pubsubTopics = [''A''], contentTopics = [''c''], unusedPubsubTopicSet = {0},
      unusedContentTopicSet = {0}, partitionCount = 8, lengthThreshold = 100\<rparr>"
    unfolding p by (simp add: storage_insert_def insertAt_def getPubsubTopicIndex_def
      getContentTopicIndex_def get_topic_index_def list_insert_at_def lowerBound_def bsearch.simps)
  show ?thesis
    unfolding q using c(2)
    by (simp add: storage_insert_def insertAt_def getPubsubTopicIndex_def labels_def rows_def
      getContentTopicIndex_def get_topic_index_def list_insert_at_def lowerBound_def bsearch.simps)
qed

text \<open>
  A batch with a topic per element never runs out of range and adds exactly its identifiers;
  but its result need not be sorted: three sorted identifiers inserted into an empty storage end
  up in the order 1, 3, 2, because the bound found in a slice is used as an index of the whole.
\<close>

lemma batchInsert_content_order:
  "(wf_storage s \<and> picks pick \<and> sorted es \<and> length ps = length es \<and> length cs = length es
      \<longrightarrow> (\<exists>s'. batchInsert pick es ps cs s = Inr (None, s') \<and> set (elements s') = set (elements s) \<union> set es))
    \<and> (\<exists>s'. batchInsert Min [sample 1, sample 2, sample 3] [p, p, p] [c, c, c] (new_storage 100 8)
          = Inr (None, s') \<and> elements s' = [sample 1, sample 3, sample 2])"
proof (rule conjI, rule impI)
  assume h: "wf_storage s \<and> picks pick \<and> sorted es \<and> length ps = length es \<and> length cs = length es"
  show "\<exists>s'. batchInsert pick es ps cs s = Inr (None, s') \<and> set (elements s') = set (elements s) \<union> set es"
  proof (cases "\<exists>e. es = [e]")
    case True
    then obtain e p0 c0 where "es = [e]" "ps = [p0]" "cs = [c0]"
      using h by (auto simp: length_Suc_conv)
    then show ?thesis by (simp add: batchInsert_def storage_insert_set)
  next
    case False
    then have "batchInsert pick es ps cs s = rbind (batch_loop pick 0 es ps cs s) (\<lambda>s. Inr (None, s))"
      using h by (auto simp: batchInsert_def split: list.split)
    then show ?thesis
      using h batch_loop_content [of s pick ps es cs 0] by (auto simp: wf_storage_def)
  qed
next
  have c: "cmp (sample 1) (sample 2) < 0" "cmp (sample 2) (sample 3) < 0"
    by (simp_all add: cmp_def sample_def)
  show "\<exists>s'. batchInsert Min [sample 1, sample 2, sample 3] [p, p, p] [c, c, c] (new_storage 100 8)
      = Inr (None, s') \<and> elements s' = [sample 1, sample 3, sample 2]"
    using c by (simp add: batchInsert_def lowerBound_def bsearch.simps insertAt_elements
        list_insert_at_def new_storage_def numeral_eq_Suc)
qed

lemma batchInsert_content_order_example:
  "\<exists>s'. batchInsert Min [sample 7, sample 8] [''p'', ''q''] [''c'', ''c''] (new_storage 100 8) = Inr (None, s')
    \<and> set (elements s') = {sample 7, sample 8}"
  using batchInsert_content_order [of "new_storage 100 8" Min "[sample 7, sample 8]" "[''p'', ''q'']" "[''c'', ''c'']"]
  by (simp add: picks_Min)

text \<open>
  C4. The fingerprint of ordered bounds is defined, and is the exclusive or of the hashes of
  exactly the elements within the bounds (both inclusive) whose topics the filters name -- where a
  filter none of whose topics is known locally filters nothing.
\<close>

theorem computeFingerprint_correct:
  assumes "wf_storage s" "fst bnds \<le> snd bnds"
  shows "computeFingerprint bnds ps cs s
    = Inr (xor_all (map fst (filter (\<lambda>(e, p, c). in_bounds bnds e
          \<and> passes_topics ps (pubsubTopics s) p \<and> passes_topics cs (contentTopics s) c) (labels s))))"
  unfolding computeFingerprint_def fingerprint_of_bounds [OF assms] filter_labels [OF assms(1)] by (rule refl)

theorem computeFingerprint_correct_witness:
  "computeFingerprint (sample 1, sample 9) [''unknown''] [] (storage_insert Min (sample 1) ''p'' ''c'' (new_storage 100 8))
    = Inr (xor_all [sample 1])"
proof -
  have w: "wf_storage (storage_insert Min (sample 1) ''p'' ''c'' (new_storage 100 8))"
    by (rule storage_insert_wf) (simp_all add: picks_Min)
  show ?thesis
    using computeFingerprint_correct [OF w, of "(sample 1, sample 9)" "[''unknown'']" "[]"]
    unfolding insert_one by (simp add: labels_def rows_def in_bounds_def passes_topics_def)
qed

end
