(* ===== verification/SyncPayload.thy ===== *)
theory SyncPayload
  imports SyncStorage
begin

text \<open>
  How the sequence storage answers a payload, \<open>waku/waku_store_sync/storage/seq_storage.nim\<close> from
  \<open>processFingerprintRange\<close> on: fingerprint ranges are skipped, split or turned into item sets, item
  sets are compared, and consecutive skips are merged.
\<close>

section \<open>Answers to the ranges of a payload\<close>

definition add_range :: "bounds \<Rightarrow> RangeType \<Rightarrow> RangesData \<Rightarrow> RangesData" where
  "add_range bnds t out = out\<lparr>ranges := ranges out @ [(bnds, t)]\<rparr>"

definition add_item_set :: "bounds \<Rightarrow> SyncID list \<Rightarrow> bool \<Rightarrow> RangesData \<Rightarrow> RangesData" where
  "add_item_set bnds es r out =
     (add_range bnds ItemSetRange out)
       \<lparr>itemSets := itemSets out @ [\<lparr>elements_of = es, reconciled = r\<rparr>]\<rparr>"

definition add_fingerprint :: "bounds \<Rightarrow> Fingerprint \<Rightarrow> RangesData \<Rightarrow> RangesData" where
  "add_fingerprint bnds fp out =
     (add_range bnds FingerprintRange out)\<lparr>fingerprints := fingerprints out @ [fp]\<rparr>"

text \<open>One partition of a fingerprint range that differs.\<close>

definition process_partition ::
  "nat set \<Rightarrow> nat set \<Rightarrow> SeqStorage \<Rightarrow> bounds \<Rightarrow> RangesData \<Rightarrow> defect + RangesData" where
  "process_partition pset cset s partitionBounds out =
     (case findIdxBounds partitionBounds s of
        None \<Rightarrow> Inr (add_item_set partitionBounds [] True out)
      | Some sl \<Rightarrow>
          (if int (snd sl - fst sl) \<le> lengthThreshold s
           then Inr (add_item_set partitionBounds (getFilteredElements sl pset cset s) False out)
           else rbind (computefingerprintFromSlice (Some sl) pset cset s) (\<lambda>fp.
                Inr (add_fingerprint partitionBounds fp out))))"

fun process_partitions ::
  "nat set \<Rightarrow> nat set \<Rightarrow> SeqStorage \<Rightarrow> bounds list \<Rightarrow> RangesData \<Rightarrow> defect + RangesData" where
  "process_partitions pset cset s [] out = Inr out"
| "process_partitions pset cset s (p # ps) out =
     rbind (process_partition pset cset s p out) (process_partitions pset cset s ps)"

definition processFingerprintRange ::
  "bounds \<Rightarrow> nat set \<Rightarrow> nat set \<Rightarrow> Fingerprint \<Rightarrow> SeqStorage \<Rightarrow> RangesData \<Rightarrow> defect + RangesData"
where
  "processFingerprintRange inputBounds pset cset inputFingerprint s out =
     (let idxSlice = findIdxBounds inputBounds s in
      rbind (computefingerprintFromSlice idxSlice pset cset s) (\<lambda>ourFingerprint.
      if ourFingerprint = inputFingerprint then Inr (add_range inputBounds Skip out)
      else
        (case idxSlice of
           None \<Rightarrow> Inr (add_item_set inputBounds [] True out)
         | Some sl \<Rightarrow>
             (if int (snd sl - fst sl) \<le> lengthThreshold s
              then Inr (add_item_set inputBounds (getFilteredElements sl pset cset s) False out)
              else rbind (equalPartitioning inputBounds (partitionCount s)) (\<lambda>partitions.
                   process_partitions pset cset s partitions out)))))"

text \<open>The two loops that merge our rows of a range with the remote item set.\<close>

fun diff_loop ::
  "nat set \<Rightarrow> nat set \<Rightarrow> (SyncID \<times> nat \<times> nat) list \<Rightarrow> SyncID list \<Rightarrow> Fingerprint list
     \<Rightarrow> Fingerprint list \<Rightarrow> Fingerprint list \<times> Fingerprint list" where
  "diff_loop pset cset [] theirs toSend toRecv = (toSend, toRecv @ map id_hash theirs)"
| "diff_loop pset cset ((e, p, c) # ours) theirs toSend toRecv =
     (if \<not> selected pset cset p c then diff_loop pset cset ours theirs toSend toRecv
      else
        (case theirs of
           [] \<Rightarrow> diff_loop pset cset ours [] (toSend @ [id_hash e]) toRecv
         | t # ts \<Rightarrow>
             (if t < e then diff_loop pset cset ((e, p, c) # ours) ts toSend (toRecv @ [id_hash t])
              else if e < t then diff_loop pset cset ours (t # ts) (toSend @ [id_hash e]) toRecv
              else diff_loop pset cset ours ts toSend toRecv)))"

definition processItemSetRange ::
  "bounds \<Rightarrow> nat set \<Rightarrow> nat set \<Rightarrow> ItemSet \<Rightarrow> SeqStorage
     \<Rightarrow> Fingerprint list \<times> Fingerprint list \<times> RangesData
     \<Rightarrow> Fingerprint list \<times> Fingerprint list \<times> RangesData" where
  "processItemSetRange inputBounds pset cset inputItemSet s acc =
     (case acc of (hashToSend, hashToRecv, out) \<Rightarrow>
        (case findIdxBounds inputBounds s of
           None \<Rightarrow>
             (hashToSend, hashToRecv,
              if \<not> reconciled inputItemSet then add_item_set inputBounds [] True out
              else add_range inputBounds Skip out)
         | Some sl \<Rightarrow>
             (case diff_loop pset cset (slice_rows sl s) (elements_of inputItemSet) hashToSend hashToRecv of
                (hashToSend, hashToRecv) \<Rightarrow>
                  (hashToSend, hashToRecv,
                   if \<not> reconciled inputItemSet
                   then add_item_set inputBounds (getFilteredElements sl pset cset s) True out
                   else add_range inputBounds Skip out))))"

text \<open>The loop over the ranges; a fingerprint or item set that is missing is an index defect.\<close>

fun process_ranges ::
  "nat set \<Rightarrow> nat set \<Rightarrow> SeqStorage \<Rightarrow> (bounds \<times> RangeType) list \<Rightarrow> Fingerprint list
     \<Rightarrow> ItemSet list \<Rightarrow> Fingerprint list \<times> Fingerprint list \<times> RangesData
     \<Rightarrow> defect + Fingerprint list \<times> Fingerprint list \<times> RangesData" where
  "process_ranges pset cset s [] fps sets acc = Inr acc"
| "process_ranges pset cset s ((bnds, Skip) # rs) fps sets (toSend, toRecv, out) =
     process_ranges pset cset s rs fps sets (toSend, toRecv, add_range bnds Skip out)"
| "process_ranges pset cset s ((bnds, FingerprintRange) # rs) fps sets (toSend, toRecv, out) =
     (case fps of
        [] \<Rightarrow> Inl IndexDefect
      | fp # fps' \<Rightarrow>
          rbind (processFingerprintRange bnds pset cset fp s out) (\<lambda>out.
          process_ranges pset cset s rs fps' sets (toSend, toRecv, out)))"
| "process_ranges pset cset s ((bnds, ItemSetRange) # rs) fps sets acc =
     (case sets of
        [] \<Rightarrow> Inl IndexDefect
      | i # sets' \<Rightarrow>
          process_ranges pset cset s rs fps sets' (processItemSetRange bnds pset cset i s acc))"

text \<open>
  The merge of consecutive skip ranges, from index \<open>i\<close> down, with the flag that all ranges seen
  are skips.
\<close>

fun merge_skips ::
  "nat \<Rightarrow> (bounds \<times> RangeType) list \<Rightarrow> bool \<Rightarrow> (bounds \<times> RangeType) list \<times> bool" where
  "merge_skips 0 rs allSkip = (rs, allSkip \<and> snd (rs ! 0) = Skip)"
| "merge_skips (Suc i) rs allSkip =
     (let curr = rs ! Suc i; prev = rs ! i; allSkip' = (allSkip \<and> snd curr = Skip) in
      if snd curr \<noteq> Skip \<or> snd prev \<noteq> Skip then merge_skips i rs allSkip'
      else merge_skips i
             ((take (Suc i) rs @ drop (Suc (Suc i)) rs)[i := ((fst (fst prev), snd (fst curr)), Skip)])
             allSkip')"

definition processPayload ::
  "RangesData \<Rightarrow> SeqStorage \<Rightarrow> Fingerprint list \<Rightarrow> Fingerprint list
     \<Rightarrow> defect + Fingerprint list \<times> Fingerprint list \<times> RangesData" where
  "processPayload input s hashToSend hashToRecv =
     rbind (process_ranges (topic_set (rd_pubsubTopics input) (pubsubTopics s))
              (topic_set (rd_contentTopics input) (contentTopics s)) s (ranges input)
              (fingerprints input) (itemSets input) (hashToSend, hashToRecv, empty_ranges))
       (\<lambda>(toSend, toRecv, out).
     (case (if ranges out = [] then ([], True)
            else merge_skips (length (ranges out) - 1) (ranges out) True) of
        (rs, allSkip) \<Rightarrow> Inr (toSend, toRecv, if allSkip then empty_ranges else out\<lparr>ranges := rs\<rparr>)))"

section \<open>Item sets\<close>

definition view :: "bounds \<Rightarrow> nat set \<Rightarrow> nat set \<Rightarrow> SeqStorage \<Rightarrow> SyncID list" where
  "view bnds pset cset s =
     map fst (filter (\<lambda>(e, p, c). in_bounds bnds e \<and> selected pset cset p c) (rows s))"

lemma view_filtered:
  assumes "wf_storage s" "fst bnds \<le> snd bnds" "findIdxBounds bnds s = Some sl"
  shows "getFilteredElements sl pset cset s = view bnds pset cset s"
proof -
  obtain lo hi where sl: "sl = (lo, hi)" by (cases sl)
  show ?thesis
    using findIdxBounds_slice(3) [OF assms(1,2) assms(3) [unfolded sl]]
    by (simp add: getFilteredElements_def view_def sl case_prod_unfold conj_commute)
qed

lemma view_None:
  assumes "wf_storage s" "findIdxBounds bnds s = None"
  shows "view bnds pset cset s = []"
  using findIdxBounds_None_rows [OF assms] by (auto simp: view_def filter_empty_conv)

lemma sorted_map_fst_filter_rows:
  assumes "wf_storage s"
  shows "sorted_wrt (<) (map fst (filter P (rows s)))"
proof -
  have l: "length (pubsubTopicIndexes s) = length (elements s)" "length (contentTopicIndexes s) = length (elements s)"
    and "sorted_wrt (<) (elements s)"
    using assms by (auto simp: wf_storage_def slots_ok_def)
  then have "sorted_wrt (<) (map fst (rows s))" by (simp add: rows_def)
  then show ?thesis by (simp add: sorted_wrt_map sorted_wrt_filter)
qed

lemma view_sorted: "wf_storage s \<Longrightarrow> sorted_wrt (<) (view bnds pset cset s)"
  unfolding view_def by (rule sorted_map_fst_filter_rows)

text \<open>The merge of two sorted lists outputs their differences.\<close>

definition only :: "SyncID list \<Rightarrow> SyncID list \<Rightarrow> SyncID list" where
  "only xs ys = filter (\<lambda>x. x \<notin> set ys) xs"

lemma only_Nil [simp]: "only xs [] = xs" "only [] ys = []"
  by (simp_all add: only_def)

lemma only_Cons: "only (x # xs) ys = (if x \<in> set ys then only xs ys else x # only xs ys)"
  by (simp add: only_def)

lemma only_skip: "t \<notin> set xs \<Longrightarrow> only xs (t # ys) = only xs ys"
  by (auto simp: only_def intro!: filter_cong)

lemma set_only [simp]: "set (only xs ys) = set xs - set ys"
  by (auto simp: only_def)

definition ours_of :: "nat set \<Rightarrow> nat set \<Rightarrow> (SyncID \<times> nat \<times> nat) list \<Rightarrow> SyncID list" where
  "ours_of pset cset rs = map fst (filter (\<lambda>(e, p, c). selected pset cset p c) rs)"

lemma ours_of_simps [simp]:
  "ours_of pset cset [] = []"
  "ours_of pset cset ((e, p, c) # rs)
    = (if selected pset cset p c then e # ours_of pset cset rs else ours_of pset cset rs)"
  by (simp_all add: ours_of_def)

lemma diff_loop_differences:
  assumes "sorted_wrt (<) (ours_of pset cset rs)" "sorted_wrt (<) theirs"
  shows "diff_loop pset cset rs theirs S R =
     (S @ map id_hash (only (ours_of pset cset rs) theirs),
      R @ map id_hash (only theirs (ours_of pset cset rs)))"
  using assms
proof (induction pset cset rs theirs S R rule: diff_loop.induct)
  case (2 pset cset e p c rs theirs S R)
  define ours where "ours = ours_of pset cset rs"
  note o [simp] = ours_def [symmetric]
  show ?case
  proof (cases "selected pset cset p c")
    case False
    then show ?thesis using 2 by simp
  next
    case True
    have os: "sorted_wrt (<) ours" "\<forall>x \<in> set ours. e < x" using "2.prems"(1) True by auto
    show ?thesis
    proof (cases theirs)
      case Nil
      then show ?thesis using "2.IH"(2) [OF _ Nil] os True by simp
    next
      case (Cons t ts)
      have ts: "sorted_wrt (<) ts" "\<forall>x \<in> set ts. t < x" using "2.prems"(2) Cons by auto
      consider "t < e" | "e < t" | "e = t" by (metis less_linear)
      then show ?thesis
      proof cases
        case 1
        have n: "t \<notin> set (e # ours)" using os 1 by (auto dest: less_asym)
        show ?thesis
          using "2.IH"(3) [OF _ Cons 1] True os ts n 1
          by (simp add: Cons only_skip [OF n] only_Cons [of t])
      next
        case 2
        have n: "e \<notin> set (t # ts)" using ts 2 by (auto dest: less_asym)
        have nl: "\<not> t < e" using 2 by (simp add: not_less less_imp_le)
        show ?thesis
          using "2.IH"(4) [OF _ Cons nl 2] True os ts n 2 nl
          by (simp add: Cons only_skip [OF n] only_Cons [of e])
      next
        case 3
        have n: "e \<notin> set ts" "e \<notin> set ours" using os ts 3 by auto
        show ?thesis
          using "2.IH"(5) [OF _ Cons] True os ts n 3
          by (simp add: Cons only_skip only_Cons)
      qed
    qed
  qed
qed simp

lemma view_ours:
  assumes "wf_storage s" "fst bnds \<le> snd bnds" "findIdxBounds bnds s = Some sl"
  shows "ours_of pset cset (slice_rows sl s) = view bnds pset cset s"
  using view_filtered [OF assms] by (simp add: getFilteredElements_def ours_of_def)

section \<open>Merged skips\<close>

definition glue :: "bounds \<times> RangeType \<Rightarrow> (bounds \<times> RangeType) list \<Rightarrow> (bounds \<times> RangeType) list" where
  "glue r rs =
     (case rs of
        [] \<Rightarrow> [r]
      | r' # rs' \<Rightarrow>
          (if snd r = Skip \<and> snd r' = Skip then ((fst (fst r), snd (fst r')), Skip) # rs'
           else r # r' # rs'))"

definition merged :: "(bounds \<times> RangeType) list \<Rightarrow> (bounds \<times> RangeType) list" where
  "merged rs = foldr glue rs []"

fun no_adjacent_skips :: "(bounds \<times> RangeType) list \<Rightarrow> bool" where
  "no_adjacent_skips (r # r' # rs) = (\<not> (snd r = Skip \<and> snd r' = Skip) \<and> no_adjacent_skips (r' # rs))"
| "no_adjacent_skips _ = True"

lemma merge_skips_glue:
  "merge_skips (length pre) (pre @ c # suf) b
    = (foldr glue pre (c # suf), b \<and> (\<forall>r \<in> set (pre @ [c]). snd r = Skip))"
proof (induction pre arbitrary: c suf b rule: rev_induct)
  case (snoc p pre)
  let ?rs = "(pre @ [p]) @ c # suf"
  have i: "?rs ! Suc (length pre) = c" "?rs ! length pre = p"
    by (simp_all add: nth_append)
  show ?case
  proof (cases "snd c = Skip \<and> snd p = Skip")
    case True
    have "(take (Suc (length pre)) ?rs @ drop (Suc (Suc (length pre))) ?rs)
        [length pre := ((fst (fst p), snd (fst c)), Skip)]
      = pre @ ((fst (fst p), snd (fst c)), Skip) # suf"
      by (simp add: list_update_append)
    then show ?thesis using snoc True i by (auto simp: Let_def glue_def)
  next
    case False
    then show ?thesis using snoc [of p "c # suf"] i by (auto simp: Let_def glue_def)
  qed
qed simp

lemma foldr_glue_Nil: "foldr glue (pre @ [c]) [] = foldr glue pre [c]"
  by (simp add: glue_def)

lemma merge_skips_merged:
  assumes "rs \<noteq> []"
  shows "merge_skips (length rs - 1) rs True = (merged rs, \<forall>r \<in> set rs. snd r = Skip)"
proof -
  obtain pre c where rs: "rs = pre @ [c]" using assms rev_exhaust by blast
  show ?thesis
    using merge_skips_glue [of pre c "[]" True] by (simp add: rs merged_def foldr_glue_Nil del: foldr_append)
qed

lemma glue_no_adjacent:
  "no_adjacent_skips rs \<Longrightarrow> no_adjacent_skips (glue r rs)"
  by (cases rs; cases "tl rs") (auto simp: glue_def)

lemma merged_no_adjacent: "no_adjacent_skips (merged rs)"
  by (induction rs) (simp_all add: merged_def glue_no_adjacent)

lemma glue_others: "filter (\<lambda>r. snd r \<noteq> Skip) (glue r rs) = filter (\<lambda>r. snd r \<noteq> Skip) (r # rs)"
  by (auto simp: glue_def split: list.split)

lemma merged_others: "filter (\<lambda>r. snd r \<noteq> Skip) (merged rs) = filter (\<lambda>r. snd r \<noteq> Skip) rs"
  by (induction rs) (simp_all add: merged_def glue_others)

lemma glue_ends:
  "glue r rs \<noteq> []" "fst (fst (hd (glue r rs))) = fst (fst r)"
  "rs \<noteq> [] \<Longrightarrow> snd (fst (last (glue r rs))) = snd (fst (last rs))"
  by (auto simp: glue_def split: list.split)

lemma merged_ends:
  assumes "rs \<noteq> []"
  shows "fst (fst (hd (merged rs))) = fst (fst (hd rs))"
    "merged rs \<noteq> [] \<and> snd (fst (last (merged rs))) = snd (fst (last rs))"
proof -
  show "fst (fst (hd (merged rs))) = fst (fst (hd rs))"
    using assms by (cases rs) (simp_all add: merged_def glue_ends)
  show "merged rs \<noteq> [] \<and> snd (fst (last (merged rs))) = snd (fst (last rs))"
    using assms
  proof (induction rs rule: list_nonempty_induct)
    case (single r)
    then show ?case by (simp add: merged_def glue_def)
  next
    case (cons r rs)
    then show ?case by (simp add: merged_def glue_ends)
  qed
qed

lemma count_type_others:
  "t \<noteq> Skip \<Longrightarrow> count_type t rs = count_type t (filter (\<lambda>r. snd r \<noteq> Skip) rs)"
  by (auto simp: count_type_def intro!: arg_cong [where f = length] filter_cong)

lemma count_type_merged: "t \<noteq> Skip \<Longrightarrow> count_type t (merged rs) = count_type t rs"
  using count_type_others [of t rs] count_type_others [of t "merged rs"] by (simp add: merged_others)

section \<open>Payloads that can be answered\<close>

definition ordered :: "bounds \<Rightarrow> bool" where
  "ordered b \<longleftrightarrow> fst b \<le> snd b \<and> 0 \<le> id_time (fst b) \<and> id_time (snd b) < 2 ^ 63"

definition payload_ok :: "RangesData \<Rightarrow> bool" where
  "payload_ok d \<longleftrightarrow> (\<forall>(b, t) \<in> set (ranges d). t \<noteq> Skip \<longrightarrow> ordered b)
     \<and> count_type FingerprintRange (ranges d) = length (fingerprints d)
     \<and> count_type ItemSetRange (ranges d) = length (itemSets d)"

lemma count_type_append [simp]: "count_type t (xs @ ys) = count_type t xs + count_type t ys"
  by (simp add: count_type_def)

lemma count_type_simps [simp]:
  "count_type t (r # rs) = (if snd r = t then Suc (count_type t rs) else count_type t rs)" "count_type t [] = 0"
  by (simp_all add: count_type_def)

lemma payload_ok_adds [simp]:
  "payload_ok (add_range b Skip d) = payload_ok d"
  "payload_ok (add_item_set b es r d) \<longleftrightarrow> ordered b \<and> payload_ok d"
  "payload_ok (add_fingerprint b fp d) \<longleftrightarrow> ordered b \<and> payload_ok d"
  "payload_ok empty_ranges"
  by (auto simp: payload_ok_def add_range_def add_item_set_def add_fingerprint_def empty_ranges_def)

lemma empty_ranges_ranges: "ranges empty_ranges = []"
  by (simp add: empty_ranges_def)

section \<open>Answers\<close>

definition answer :: "nat set \<Rightarrow> nat set \<Rightarrow> SeqStorage \<Rightarrow> bounds \<Rightarrow> RangesData \<Rightarrow> RangesData" where
  "answer pset cset s b out =
     (case findIdxBounds b s of
        None \<Rightarrow> add_item_set b [] True out
      | Some sl \<Rightarrow>
          (if int (snd sl - fst sl) \<le> lengthThreshold s then add_item_set b (view b pset cset s) False out
           else add_fingerprint b (xor_all (view b pset cset s)) out))"

lemma fingerprint_view:
  assumes "wf_storage s" "fst b \<le> snd b"
  shows "computefingerprintFromSlice (findIdxBounds b s) pset cset s = Inr (xor_all (view b pset cset s))"
  unfolding view_def by (rule fingerprint_of_bounds [OF assms])

lemma process_partition_answer:
  assumes "wf_storage s" "fst b \<le> snd b"
  shows "process_partition pset cset s b out = Inr (answer pset cset s b out)"
  using fingerprint_view [OF assms, of pset cset] view_filtered [OF assms]
  by (auto simp: process_partition_def answer_def split: option.split)

lemma process_partitions_answers:
  assumes "wf_storage s" "\<forall>b \<in> set ps. fst b \<le> snd b"
  shows "process_partitions pset cset s ps out = Inr (fold (answer pset cset s) ps out)"
  using assms(2)
  by (induction ps arbitrary: out) (simp_all add: process_partition_answer [OF assms(1)])

definition answer_type :: "SeqStorage \<Rightarrow> bounds \<Rightarrow> RangeType" where
  "answer_type s b =
     (case findIdxBounds b s of
        Some sl \<Rightarrow> (if int (snd sl - fst sl) \<le> lengthThreshold s then ItemSetRange else FingerprintRange)
      | None \<Rightarrow> ItemSetRange)"

lemma answer_type_not_Skip: "answer_type s b \<noteq> Skip"
  by (simp add: answer_type_def split: option.split)

lemma answer_ranges: "ranges (answer pset cset s b out) = ranges out @ [(b, answer_type s b)]"
  by (auto simp: answer_def answer_type_def add_item_set_def add_fingerprint_def add_range_def
      split: option.split)

lemma answers_ranges:
  "ranges (fold (answer pset cset s) ps out) = ranges out @ map (\<lambda>b. (b, answer_type s b)) ps"
  by (induction ps arbitrary: out) (simp_all add: answer_ranges)

lemma answer_ok: "payload_ok out \<Longrightarrow> ordered b \<Longrightarrow> payload_ok (answer pset cset s b out)"
  by (simp add: answer_def split: option.split)

lemma answers_ok: "payload_ok out \<Longrightarrow> \<forall>b \<in> set ps. ordered b \<Longrightarrow> payload_ok (fold (answer pset cset s) ps out)"
  by (induction ps arbitrary: out) (simp_all add: answer_ok)

text \<open>What \<open>equalPartitioning\<close> returns for bounds in the range of the protocol.\<close>

definition partitions_of :: "bounds \<Rightarrow> int \<Rightarrow> bounds list" where
  "partitions_of b n =
     (let d = id_time (snd b) - id_time (fst b) in
      if d < n then [] else partition_loop (nat n) (d div n) (d mod n) (id_time (fst b)))"

lemma equalPartitioning_ordered:
  assumes "ordered b" "0 < n"
  shows "equalPartitioning b n = Inr (partitions_of b n)"
proof -
  have "id_time (fst b) \<le> id_time (snd b)" using assms(1) by (auto simp: ordered_def SyncID_le_iff)
  then have "is_int64 (id_time (snd b) - id_time (fst b))"
    using assms(1) by (auto simp: ordered_def is_int64_def)
  then show ?thesis using assms(2) by (simp add: equalPartitioning_def partitions_of_def Let_def)
qed

lemma partitions_of_chained:
  assumes "0 < n" "n \<le> id_time (snd b) - id_time (fst b)"
  shows "chained (id_time (fst b)) (partitions_of b n) (id_time (snd b))"
proof -
  define d where "d = id_time (snd b) - id_time (fst b)"
  have d: "n \<le> d" using assms(2) by (simp add: d_def)
  have p: "1 \<le> d div n" using assms(1) d by (simp add: pos_imp_zdiv_pos_iff int_one_le_iff_zero_less)
  have r: "0 \<le> d mod n" "d mod n \<le> int (nat n)" using assms(1) pos_mod_bound [of n d] by (simp_all add: less_imp_le)
  have "id_time (fst b) + int (nat n) * (d div n) + d mod n = id_time (snd b)"
    using assms(1) mult_div_mod_eq [of n d] by (simp add: d_def)
  then show ?thesis
    using partition_loop_chained [OF r p, of "id_time (fst b)"] d
    by (simp add: partitions_of_def d_def [symmetric])
qed

lemma chained_ordered:
  assumes "chained lo ss hi" "0 \<le> lo" "hi < 2 ^ 63" "s \<in> set ss"
  shows "ordered s"
  using chained_bounds [OF assms(1,4)] assms(2,3) by (auto simp: ordered_def SyncID_le_iff)

lemma partitions_of_ordered:
  assumes "ordered b" "0 < n" "p \<in> set (partitions_of b n)"
  shows "ordered p"
proof -
  have "n \<le> id_time (snd b) - id_time (fst b)"
    using assms(3) by (auto simp: partitions_of_def Let_def split: if_splits)
  then show ?thesis
    using chained_ordered [OF partitions_of_chained [OF assms(2)] _ _ assms(3)] assms(1)
    by (simp add: ordered_def)
qed

text \<open>The outcome of a fingerprint range on a well-formed storage.\<close>

definition fingerprint_outcome ::
  "nat set \<Rightarrow> nat set \<Rightarrow> SeqStorage \<Rightarrow> bounds \<Rightarrow> Fingerprint \<Rightarrow> RangesData \<Rightarrow> RangesData" where
  "fingerprint_outcome pset cset s b fp out =
     (if xor_all (view b pset cset s) = fp then add_range b Skip out
      else (case findIdxBounds b s of
          None \<Rightarrow> add_item_set b [] True out
        | Some sl \<Rightarrow>
            (if int (snd sl - fst sl) \<le> lengthThreshold s then add_item_set b (view b pset cset s) False out
             else fold (answer pset cset s) (partitions_of b (partitionCount s)) out)))"

lemma processFingerprintRange_outcome:
  assumes "wf_storage s" "ordered b" "0 < partitionCount s"
  shows "processFingerprintRange b pset cset fp s out = Inr (fingerprint_outcome pset cset s b fp out)"
proof -
  have o: "fst b \<le> snd b" using assms(2) by (simp add: ordered_def)
  have le: "\<forall>p \<in> set (partitions_of b (partitionCount s)). fst p \<le> snd p"
    using partitions_of_ordered [OF assms(2,3)] by (auto simp: ordered_def)
  show ?thesis
    using view_filtered [OF assms(1) o]
    by (auto simp: processFingerprintRange_def fingerprint_outcome_def fingerprint_view [OF assms(1) o]
        equalPartitioning_ordered [OF assms(2,3)] process_partitions_answers [OF assms(1) le]
        split: option.split)
qed

lemma fingerprint_outcome_ok:
  assumes "ordered b" "0 < partitionCount s" "payload_ok out"
  shows "payload_ok (fingerprint_outcome pset cset s b fp out)"
  using answers_ok [OF assms(3)] partitions_of_ordered [OF assms(1,2)] assms
  by (auto simp: fingerprint_outcome_def split: option.split)

lemma processItemSetRange_ok:
  "ordered b \<Longrightarrow> payload_ok out \<Longrightarrow>
    payload_ok (snd (snd (processItemSetRange b pset cset i s (S, R, out))))"
  by (auto simp: processItemSetRange_def split: option.split prod.split)

lemma process_ranges_ok:
  assumes "wf_storage s" "0 < partitionCount s"
  shows "(\<forall>(b, t) \<in> set rs. t \<noteq> Skip \<longrightarrow> ordered b)
    \<Longrightarrow> count_type FingerprintRange rs = length fps \<Longrightarrow> count_type ItemSetRange rs = length sets
    \<Longrightarrow> payload_ok (snd (snd acc))
    \<Longrightarrow> \<exists>S R out. process_ranges pset cset s rs fps sets acc = Inr (S, R, out) \<and> payload_ok out"
proof (induction rs arbitrary: fps sets acc)
  case Nil
  then show ?case by (cases acc) auto
next
  case (Cons r rs)
  obtain b t S R out where r: "r = (b, t)" and acc: "acc = (S, R, out)" by (cases r; cases acc)
  have ok: "payload_ok out" using Cons.prems(4) acc by simp
  show ?case
  proof (cases t)
    case Skip
    then show ?thesis using Cons.IH [of fps sets "(S, R, add_range b Skip out)"] Cons.prems by (simp add: r acc)
  next
    case FingerprintRange
    then have o: "ordered b" using Cons.prems(1) r by auto
    obtain fp fps' where f: "fps = fp # fps'" using Cons.prems(2) r FingerprintRange by (cases fps) auto
    show ?thesis
      using Cons.IH [of fps' sets "(S, R, fingerprint_outcome pset cset s b fp out)"] Cons.prems
        fingerprint_outcome_ok [OF o assms(2) ok]
      by (simp add: r acc f FingerprintRange processFingerprintRange_outcome [OF assms(1) o assms(2)])
  next
    case ItemSetRange
    then have o: "ordered b" using Cons.prems(1) r by auto
    obtain i sets' where f: "sets = i # sets'" using Cons.prems(3) r ItemSetRange by (cases sets) auto
    show ?thesis
      using Cons.IH [of fps sets' "processItemSetRange b pset cset i s acc"] Cons.prems
        processItemSetRange_ok [OF o ok, of pset cset i s S R]
      by (simp add: r acc f ItemSetRange)
  qed
qed

lemma processPayload_answers_aux:
  assumes "wf_storage s" "0 < partitionCount s" "payload_ok input"
  shows "\<exists>S' R' out. processPayload input s S R = Inr (S', R', out)
    \<and> payload_ok out \<and> no_adjacent_skips (ranges out)
    \<and> (ranges out \<noteq> [] \<longrightarrow> (\<exists>r \<in> set (ranges out). snd r \<noteq> Skip))"
proof -
  obtain S' R' out where run: "process_ranges (topic_set (rd_pubsubTopics input) (pubsubTopics s))
      (topic_set (rd_contentTopics input) (contentTopics s)) s (ranges input) (fingerprints input)
      (itemSets input) (S, R, empty_ranges) = Inr (S', R', out)" and ok: "payload_ok out"
    using process_ranges_ok [OF assms(1,2), of "ranges input" "fingerprints input" "itemSets input"
        "(S, R, empty_ranges)"] assms(3) [unfolded payload_ok_def]
    by fastforce
  show ?thesis
  proof (cases "ranges out = []")
    case True
    then show ?thesis using run by (simp add: processPayload_def empty_ranges_ranges)
  next
    case False
    note m = merge_skips_merged [OF False]
    have others: "r \<in> set (merged (ranges out)) \<longleftrightarrow> r \<in> set (ranges out)" if "snd r \<noteq> Skip" for r
      using arg_cong [OF merged_others [of "ranges out"], of set] that by (cases r) (auto simp: set_eq_iff)
    have "payload_ok (out\<lparr>ranges := merged (ranges out)\<rparr>)"
      using ok others unfolding payload_ok_def by (auto simp: count_type_merged)
    then show ?thesis
      using run False m others merged_no_adjacent [of "ranges out"]
      by (cases "\<forall>r \<in> set (ranges out). snd r = Skip") (auto simp: processPayload_def empty_ranges_ranges)
  qed
qed

lemma processItemSetRange_values:
  assumes "wf_storage s" "fst b \<le> snd b" "sorted_wrt (<) (elements_of i)"
  shows "processItemSetRange b pset cset i s (S, R, out) =
    (let ours = view b pset cset s; theirs = elements_of i in
     (S @ map id_hash (filter (\<lambda>e. e \<notin> set theirs) ours),
      if findIdxBounds b s = None then R else R @ map id_hash (filter (\<lambda>t. t \<notin> set ours) theirs),
      if reconciled i then add_range b Skip out else add_item_set b ours True out))"
proof (cases "findIdxBounds b s")
  case None
  then show ?thesis using view_None [OF assms(1) None] by (simp add: processItemSetRange_def)
next
  case (Some sl)
  note v = view_ours [OF assms(1,2) Some] view_filtered [OF assms(1,2) Some]
  show ?thesis
    using diff_loop_differences [of pset cset "slice_rows sl s" "elements_of i" S R] assms(3)
      view_sorted [OF assms(1), of b pset cset]
    by (simp add: processItemSetRange_def Some v only_def Let_def)
qed

section \<open>Properties\<close>

text \<open>
  An item set is answered with the exact difference: for a sorted remote set, we send what we
  hold in the range and the remote does not name, we count as missing what it names and we do not
  hold, and the answer carries our elements of the range, unless the set was already reconciled,
  which ends the range with a skip. (Where our storage has nothing on one side of the range, the
  code does not count what we miss.)
\<close>

lemma processItemSetRange_difference:
  assumes "wf_storage s" "fst b \<le> snd b" "sorted_wrt (<) (elements_of i)"
  shows "processItemSetRange b pset cset i s (S, R, out) =
    (let ours = view b pset cset s; theirs = elements_of i in
     (S @ map id_hash (filter (\<lambda>e. e \<notin> set theirs) ours),
      if findIdxBounds b s = None then R else R @ map id_hash (filter (\<lambda>t. t \<notin> set ours) theirs),
      if reconciled i then add_range b Skip out else add_item_set b ours True out))"
  by (rule processItemSetRange_values [OF assms])

lemma processItemSetRange_difference_example:
  "fst (processItemSetRange (sample 1, sample 9) {} {} \<lparr>elements_of = [sample 2], reconciled = False\<rparr>
      (storage_insert Min (sample 1) ''p'' ''c'' (new_storage 100 8)) ([], [], empty_ranges))
    = [id_hash (sample 1)]"
proof -
  have w: "wf_storage (storage_insert Min (sample 1) ''p'' ''c'' (new_storage 100 8))"
    by (rule storage_insert_wf) (simp_all add: picks_Min)
  have v: "view (sample 1, sample 9) {} {} (storage_insert Min (sample 1) ''p'' ''c'' (new_storage 100 8)) = [sample 1]"
    unfolding insert_one by (simp add: view_def rows_def in_bounds_def selected_def)
  show ?thesis
    using processItemSetRange_difference [OF w, of "(sample 1, sample 9)"
        "\<lparr>elements_of = [sample 2], reconciled = False\<rparr>" "{}" "{}" "[]" "[]" empty_ranges] v
    by (simp add: Let_def)
qed

lemma view_in_bounds:
  assumes "wf_storage s" "e \<in> set (view b pset cset s)"
  shows "in_bounds b e" "length (id_hash e) = 32"
  using assms rows_in_elements by (auto simp: view_def wf_storage_def)

lemma partitions_of_empty:
  assumes "0 < n"
  shows "partitions_of b n = [] \<longleftrightarrow> id_time (snd b) - id_time (fst b) < n"
proof -
  have "partition_loop (nat n) q r lo \<noteq> []" for q r lo
    using assms length_partition_loop [of "nat n" q r lo] by auto
  then show ?thesis by (simp add: partitions_of_def Let_def)
qed

lemma partitions_of_covers:
  assumes "0 < n" "partitions_of b n \<noteq> []" "fst b \<le> e" "length (id_hash e) = 32"
    "e < SyncID (id_time (snd b)) EmptyFingerprint"
  shows "\<exists>p \<in> set (partitions_of b n). in_bounds p e"
proof -
  have "n \<le> id_time (snd b) - id_time (fst b)" using assms(1,2) partitions_of_empty by fastforce
  moreover have "id_time (fst b) \<le> id_time e" using assms(3) by (auto simp: SyncID_le_iff)
  ultimately show ?thesis
    using chained_covers [OF partitions_of_chained [OF assms(1)] _ assms(4,5)]
    by (simp add: in_bounds_def)
qed

text \<open>
  C2. A fingerprint range whose fingerprint is not ours is answered so that no element we hold in
  it is lost, up to two gaps: an element at the upper time with a non-zero hash, when the range is
  split, and a range that spans fewer nanoseconds than the partition count, for which nothing is
  answered.
\<close>

theorem processFingerprintRange_covers:
  assumes "wf_storage s" "ordered b" "0 < partitionCount s" "xor_all (view b pset cset s) \<noteq> fp"
  shows "\<exists>out' ext. processFingerprintRange b pset cset fp s out = Inr out'
    \<and> ranges out' = ranges out @ ext
    \<and> (ext = [] \<longleftrightarrow> (\<exists>sl. findIdxBounds b s = Some sl \<and> lengthThreshold s < int (snd sl - fst sl)
          \<and> id_time (snd b) - id_time (fst b) < partitionCount s))
    \<and> (ext \<noteq> [] \<longrightarrow> (\<forall>e \<in> set (view b pset cset s). e < SyncID (id_time (snd b)) EmptyFingerprint
          \<longrightarrow> (\<exists>r \<in> set ext. snd r \<noteq> Skip \<and> in_bounds (fst r) e)))"
proof -
  let ?ps = "partitions_of b (partitionCount s)"
  note run = processFingerprintRange_outcome [OF assms(1-3), of pset cset fp out]
  consider (none) "findIdxBounds b s = None"
    | (small) sl where "findIdxBounds b s = Some sl" "int (snd sl - fst sl) \<le> lengthThreshold s"
    | (big) sl where "findIdxBounds b s = Some sl" "lengthThreshold s < int (snd sl - fst sl)"
    by (cases "findIdxBounds b s") fastforce+
  then show ?thesis
  proof cases
    case none
    then show ?thesis
      using run assms(4) view_None [OF assms(1) none, of pset cset]
      by (intro exI [of _ "add_item_set b [] True out"] exI [of _ "[(b, ItemSetRange)]"])
        (simp add: fingerprint_outcome_def add_item_set_def add_range_def)
  next
    case small
    then show ?thesis
      using run assms(4) view_in_bounds [OF assms(1), of _ b pset cset]
      by (intro exI [of _ "add_item_set b (view b pset cset s) False out"] exI [of _ "[(b, ItemSetRange)]"])
        (simp add: fingerprint_outcome_def add_item_set_def add_range_def)
  next
    case big
    have cover: "\<exists>p \<in> set ?ps. in_bounds p e"
      if "?ps \<noteq> []" "e \<in> set (view b pset cset s)" "e < SyncID (id_time (snd b)) EmptyFingerprint" for e
      using partitions_of_covers [OF assms(3) that(1) _ _ that(3)] view_in_bounds [OF assms(1) that(2)]
      by (simp add: in_bounds_def)
    show ?thesis
      using run assms(4) big cover partitions_of_empty [OF assms(3), of b]
      by (intro exI [of _ "fold (answer pset cset s) ?ps out"]
          exI [of _ "map (\<lambda>b. (b, answer_type s b)) ?ps"])
        (auto simp: fingerprint_outcome_def answers_ranges answer_type_not_Skip)
  qed
qed

theorem processFingerprintRange_covers_witness:
  "\<exists>out' ext. processFingerprintRange (sample 1, sample 9) {} {} []
      (storage_insert Min (sample 1) ''p'' ''c'' (new_storage 100 8)) empty_ranges = Inr out'
    \<and> ranges out' = ext \<and> ext \<noteq> []"
proof -
  let ?s = "storage_insert Min (sample 1) ''p'' ''c'' (new_storage 100 8)"
  have w: "wf_storage ?s" by (rule storage_insert_wf) (simp_all add: picks_Min)
  have v: "view (sample 1, sample 9) {} {} ?s = [sample 1]"
    unfolding insert_one by (simp add: view_def rows_def in_bounds_def selected_def)
  have o: "ordered (sample 1, sample 9)" by (simp add: ordered_def)
  have n: "xor_all (view (sample 1, sample 9) {} {} ?s) \<noteq> []"
    unfolding v by (simp add: xor_all_def xor_hash_def sample_def EmptyFingerprint_def)
  have p: "partitionCount ?s = 8" unfolding insert_one by simp
  show ?thesis
    using processFingerprintRange_covers [OF w o _ n, of empty_ranges] p
    by (auto simp: empty_ranges_def)
qed

text \<open>
  C1. A payload whose bounds are ordered and which carries one fingerprint or item set per range
  of that kind is always answered without a defect; the answer is such a payload again, so that an
  exchange can go on; it is empty exactly when all its ranges are skips, and no two skips follow
  each other.
\<close>

theorem processPayload_answers:
  assumes "wf_storage s" "0 < partitionCount s" "payload_ok input"
  shows "\<exists>S' R' out. processPayload input s S R = Inr (S', R', out)
    \<and> payload_ok out \<and> no_adjacent_skips (ranges out)
    \<and> (ranges out \<noteq> [] \<longrightarrow> (\<exists>r \<in> set (ranges out). snd r \<noteq> Skip))"
  by (rule processPayload_answers_aux [OF assms])

theorem processPayload_answers_witness:
  "\<exists>r. processPayload \<lparr>rd_pubsubTopics = [''p''], rd_contentTopics = [],
      ranges = [((sample 1, sample 9), FingerprintRange)], fingerprints = [EmptyFingerprint], itemSets = []\<rparr>
      (storage_insert Min (sample 1) ''p'' ''c'' (new_storage 100 8)) [] [] = Inr r"
proof -
  let ?s = "storage_insert Min (sample 1) ''p'' ''c'' (new_storage 100 8)"
  let ?i = "\<lparr>rd_pubsubTopics = [''p''], rd_contentTopics = [],
      ranges = [((sample 1, sample 9), FingerprintRange)], fingerprints = [EmptyFingerprint], itemSets = []\<rparr>"
  have w: "wf_storage ?s" by (rule storage_insert_wf) (simp_all add: picks_Min)
  have p: "0 < partitionCount ?s" unfolding insert_one by simp
  have o: "payload_ok ?i" by (simp add: payload_ok_def ordered_def)
  show ?thesis using processPayload_answers [OF w p o, of "[]" "[]"] by blast
qed

end
