(* ===== verification/SyncCodec.thy ===== *)
theory SyncCodec
  imports SyncPayload
begin

text \<open>
  The wire format of the synchronisation payloads, \<open>waku/waku_store_sync/codec.nim\<close>. The variable
  length integers are those of \<open>stew/leb128\<close>: \<open>enc\<close> gives the bytes of an unsigned 64-bit number,
  \<open>dec\<close> the number at the start of a slice and how many bytes it took, 0 when the slice ends too
  early. The decoder reads slices of at most nine bytes, in which no overflow can occur. Times are
  converted and added as \<open>int64\<close>, with the defects these operations can raise.
\<close>

section \<open>Parameters and results\<close>

datatype failure = Defect defect | Err string | Err_topic string nat

definition leb128 :: "(nat \<Rightarrow> byte list) \<Rightarrow> (byte list \<Rightarrow> nat \<times> nat) \<Rightarrow> bool" where
  "leb128 enc dec \<longleftrightarrow>
     (\<forall>n rest. n < 2 ^ 64 \<longrightarrow> dec (enc n @ rest) = (n, length (enc n)))
     \<and> (\<forall>n. n < 2 ^ 63 \<longrightarrow> 1 \<le> length (enc n) \<and> length (enc n) \<le> 9)
     \<and> (\<forall>xs v l. length xs \<le> 9 \<longrightarrow> dec xs = (v, l) \<longrightarrow> l \<le> length xs \<and> v < 2 ^ 63)
     \<and> (\<forall>k. dec (replicate k 128) = (0, 0))"

definition u64_diff :: "Timestamp \<Rightarrow> Timestamp \<Rightarrow> nat" where
  "u64_diff t lastTime = nat ((t - lastTime) mod 2 ^ 64)"

text \<open>A \<open>uint64\<close> converted to \<open>int64\<close> or \<open>int\<close>, and sums of \<open>int64\<close>.\<close>

definition to_int64 :: "nat \<Rightarrow> failure + int" where
  "to_int64 v = (if v < 2 ^ 63 then Inr (int v) else Inl (Defect RangeDefect))"

definition add_int64 :: "int \<Rightarrow> int \<Rightarrow> failure + int" where
  "add_int64 a b = (case int64 (a + b) of Inl d \<Rightarrow> Inl (Defect d) | Inr s \<Rightarrow> Inr s)"

definition topic_bytes :: "string \<Rightarrow> byte list" where
  "topic_bytes t = map of_char t"

definition bytes_topic :: "byte list \<Rightarrow> string" where
  "bytes_topic bs = map (\<lambda>b. char_of (unat b)) bs"

section \<open>Encoding\<close>

fun encode_elements :: "(nat \<Rightarrow> byte list) \<Rightarrow> Timestamp \<Rightarrow> SyncID list \<Rightarrow> byte list" where
  "encode_elements enc lastTime [] = []"
| "encode_elements enc lastTime (e # es) =
     enc (u64_diff (id_time e) lastTime) @ id_hash e @ encode_elements enc (id_time e) es"

definition deltaEncode_set :: "(nat \<Rightarrow> byte list) \<Rightarrow> ItemSet \<Rightarrow> byte list" where
  "deltaEncode_set enc itemSet =
     encode_elements enc 0 (elements_of itemSet) @ [if reconciled itemSet then 1 else 0]"

text \<open>The bytes up to and including the first difference.\<close>

fun same_bytes :: "byte list \<Rightarrow> byte list \<Rightarrow> nat" where
  "same_bytes (x # xs) (y # ys) = (if x \<noteq> y then 1 else Suc (same_bytes xs ys))"
| "same_bytes _ _ = 0"

definition type_byte :: "RangeType \<Rightarrow> byte" where
  "type_byte t = (case t of Skip \<Rightarrow> 0 | FingerprintRange \<Rightarrow> 1 | ItemSetRange \<Rightarrow> 2)"

fun encode_ranges ::
  "(nat \<Rightarrow> byte list) \<Rightarrow> Fingerprint \<Rightarrow> Timestamp \<Rightarrow> (bounds \<times> RangeType) list \<Rightarrow> Fingerprint list
     \<Rightarrow> ItemSet list \<Rightarrow> defect + byte list" where
  "encode_ranges enc lastHash lastTime [] fps sets = Inr []"
| "encode_ranges enc lastHash lastTime ((b, t) # rs) fps sets =
     (let d = u64_diff (id_time (snd b)) lastTime;
          same = same_bytes lastHash (id_hash (snd b));
          hashes = (if d = 0 then word_of_nat same # take same (id_hash (snd b)) else []);
          start = enc d @ hashes @ [type_byte t]
      in case t of
           Skip \<Rightarrow>
             rbind (encode_ranges enc lastHash (id_time (snd b)) rs fps sets) (\<lambda>out. Inr (start @ out))
         | FingerprintRange \<Rightarrow>
             (case fps of
                [] \<Rightarrow> Inl IndexDefect
              | fp # fps' \<Rightarrow>
                  rbind (encode_ranges enc lastHash (id_time (snd b)) rs fps' sets)
                    (\<lambda>out. Inr (start @ fp @ out)))
         | ItemSetRange \<Rightarrow>
             (case sets of
                [] \<Rightarrow> Inl IndexDefect
              | i # sets' \<Rightarrow>
                  rbind (encode_ranges enc lastHash (id_time (snd b)) rs fps sets')
                    (\<lambda>out. Inr (start @ enc (length (elements_of i)) @ deltaEncode_set enc i @ out))))"

definition encode_topics :: "(nat \<Rightarrow> byte list) \<Rightarrow> string list \<Rightarrow> byte list" where
  "encode_topics enc topics =
     enc (length topics) @ concat (map (\<lambda>t. enc (length t) @ topic_bytes t) topics)"

definition deltaEncode :: "(nat \<Rightarrow> byte list) \<Rightarrow> RangesData \<Rightarrow> defect + byte list" where
  "deltaEncode enc value =
     (case ranges value of
        [] \<Rightarrow> Inr [0]
      | (b, _) # _ \<Rightarrow>
          rbind (encode_ranges enc (id_hash (fst b)) (id_time (fst b)) (ranges value)
                   (fingerprints value) (itemSets value)) (\<lambda>out.
          Inr (encode_topics enc (rd_pubsubTopics value) @ encode_topics enc (rd_contentTopics value)
                @ enc (u64_diff (id_time (fst b)) 0) @ out)))"

section \<open>Decoding\<close>

text \<open>Each reader takes the index and the buffer and returns its value with the next index.\<close>

definition getItemSetLength :: "(byte list \<Rightarrow> nat \<times> nat) \<Rightarrow> nat \<Rightarrow> byte list \<Rightarrow> failure + int \<times> nat" where
  "getItemSetLength dec idx buffer =
     (case dec (take 9 (drop idx buffer)) of (v, l) \<Rightarrow> rbind (to_int64 v) (\<lambda>n. Inr (n, idx + l)))"

definition getFingerprint :: "nat \<Rightarrow> byte list \<Rightarrow> failure + Fingerprint \<times> nat" where
  "getFingerprint idx buffer =
     (if length buffer < idx + 32 then Inl (Err ''Cannot decode fingerprint'')
      else Inr (take 32 (drop idx buffer), idx + 32))"

definition getRangeType :: "nat \<Rightarrow> byte list \<Rightarrow> failure + RangeType \<times> nat" where
  "getRangeType idx buffer =
     (if length buffer \<le> idx then Inl (Err ''Cannot decode range type'')
      else if buffer ! idx = 0 then Inr (Skip, idx + 1)
      else if buffer ! idx = 1 then Inr (FingerprintRange, idx + 1)
      else if buffer ! idx = 2 then Inr (ItemSetRange, idx + 1)
      else Inl (Err ''Cannot decode range type''))"

definition updateHash :: "nat \<Rightarrow> byte list \<Rightarrow> Fingerprint \<Rightarrow> Fingerprint \<times> nat" where
  "updateHash idx buffer hash =
     (if length buffer \<le> idx then (hash, idx)
      else
        (let sameBytes = unat (buffer ! idx) in
         if 32 < sameBytes then (hash, idx)
         else if length buffer < idx + 1 + sameBytes then (hash, idx + 1)
         else (take sameBytes (drop (idx + 1) buffer) @ drop sameBytes hash, idx + 1 + sameBytes)))"

definition getTimeDiff :: "(byte list \<Rightarrow> nat \<times> nat) \<Rightarrow> nat \<Rightarrow> byte list \<Rightarrow> failure + Timestamp \<times> nat" where
  "getTimeDiff dec idx buffer =
     (case dec (take 9 (drop idx buffer)) of (v, l) \<Rightarrow> rbind (to_int64 v) (\<lambda>t. Inr (t, idx + l)))"

definition getTimestamp :: "(byte list \<Rightarrow> nat \<times> nat) \<Rightarrow> nat \<Rightarrow> byte list \<Rightarrow> failure + Timestamp \<times> nat" where
  "getTimestamp dec idx buffer =
     (if length buffer < idx + 9 then Inl (Err ''Cannot decode timestamp'')
      else (case dec (take 9 (drop idx buffer)) of (v, l) \<Rightarrow>
              rbind (to_int64 v) (\<lambda>t. Inr (t, idx + l))))"

definition getHash :: "nat \<Rightarrow> byte list \<Rightarrow> failure + Fingerprint \<times> nat" where
  "getHash idx buffer =
     (if length buffer < idx + 32 then Inl (Err ''Cannot decode hash'')
      else Inr (take 32 (drop idx buffer), idx + 32))"

definition getReconciled :: "nat \<Rightarrow> byte list \<Rightarrow> failure + bool \<times> nat" where
  "getReconciled idx buffer =
     (if length buffer \<le> idx then Inl (Err ''Cannot decode reconciled'')
      else if buffer ! idx = 0 then Inr (False, idx + 1)
      else if buffer ! idx = 1 then Inr (True, idx + 1)
      else Inl (Err ''Cannot decode reconciled''))"

text \<open>
  The loop over the topics: \<open>count\<close> iterations are left, the next is number \<open>i\<close>. The index plus the
  length of a topic can overflow.
\<close>

fun topics_loop ::
  "(byte list \<Rightarrow> nat \<times> nat) \<Rightarrow> nat \<Rightarrow> nat \<Rightarrow> nat \<Rightarrow> byte list \<Rightarrow> string list
     \<Rightarrow> failure + string list \<times> nat" where
  "topics_loop dec 0 i idx buffer topics = Inr (topics, idx)"
| "topics_loop dec (Suc count) i idx buffer topics =
     (if length buffer < idx + 9 then Inl (Err_topic ''Cannot decode length. Topic index: '' i)
      else
        (case dec (take 9 (drop idx buffer)) of (v, l) \<Rightarrow>
           rbind (to_int64 v) (\<lambda>topicLen.
           rbind (add_int64 (int (idx + l)) topicLen) (\<lambda>end_idx.
           if int (length buffer) < end_idx then Inl (Err_topic ''Cannot decode bytes. Topic index: '' i)
           else topics_loop dec count (Suc i) (idx + l + nat topicLen) buffer
                  (topics @ [bytes_topic (take (nat topicLen) (drop (idx + l) buffer))])))))"

definition getTopics ::
  "(byte list \<Rightarrow> nat \<times> nat) \<Rightarrow> nat \<Rightarrow> byte list \<Rightarrow> failure + string list \<times> nat" where
  "getTopics dec idx buffer =
     (if length buffer < idx + 9 then Inl (Err ''Cannot decode topic count'')
      else
        (case dec (take 9 (drop idx buffer)) of (v, l) \<Rightarrow>
           rbind (to_int64 v) (\<lambda>topicCount. topics_loop dec (nat topicCount) 0 (idx + l) buffer [])))"

text \<open>The elements of a set: \<open>count\<close> of them are missing.\<close>

fun elements_loop ::
  "(byte list \<Rightarrow> nat \<times> nat) \<Rightarrow> nat \<Rightarrow> Timestamp \<Rightarrow> nat \<Rightarrow> byte list \<Rightarrow> SyncID list
     \<Rightarrow> failure + SyncID list \<times> nat" where
  "elements_loop dec 0 lastTime idx buffer es = Inr (es, idx)"
| "elements_loop dec (Suc count) lastTime idx buffer es =
     rbind (getTimestamp dec idx buffer) (\<lambda>(timeDiff, idx).
     rbind (add_int64 lastTime timeDiff) (\<lambda>time.
     rbind (getHash idx buffer) (\<lambda>(hash, idx).
     elements_loop dec count time idx buffer (es @ [SyncID time hash]))))"

definition deltaDecode_set ::
  "(byte list \<Rightarrow> nat \<times> nat) \<Rightarrow> byte list \<Rightarrow> int \<Rightarrow> failure + ItemSet \<times> nat" where
  "deltaDecode_set dec buffer setLength =
     rbind (elements_loop dec (nat setLength) 0 0 buffer []) (\<lambda>(es, idx).
     rbind (getReconciled idx buffer) (\<lambda>(r, idx).
     Inr (\<lparr>elements_of = es, reconciled = r\<rparr>, idx)))"

definition getItemSet ::
  "(byte list \<Rightarrow> nat \<times> nat) \<Rightarrow> nat \<Rightarrow> byte list \<Rightarrow> int \<Rightarrow> failure + ItemSet \<times> nat" where
  "getItemSet dec idx buffer itemSetLength =
     rbind (deltaDecode_set dec (drop idx buffer) itemSetLength) (\<lambda>(s, count). Inr (s, idx + count))"

text \<open>One iteration of the loop over the ranges.\<close>

definition decode_range ::
  "(byte list \<Rightarrow> nat \<times> nat) \<Rightarrow> byte list \<Rightarrow> nat \<Rightarrow> Timestamp \<Rightarrow> RangesData
     \<Rightarrow> failure + RangesData \<times> Timestamp \<times> nat" where
  "decode_range dec buffer idx lastTime payload =
     (let lowerRangeBound = SyncID lastTime EmptyFingerprint in
      rbind (getTimeDiff dec idx buffer) (\<lambda>(timeDiff, idx).
      (case (if timeDiff = 0 then updateHash idx buffer EmptyFingerprint else (EmptyFingerprint, idx)) of
         (hash, idx) \<Rightarrow>
           rbind (add_int64 lastTime timeDiff) (\<lambda>thisTime.
           let bnds = (lowerRangeBound, SyncID thisTime hash) in
           rbind (getRangeType idx buffer) (\<lambda>(rangeType, idx).
           let payload = payload\<lparr>ranges := ranges payload @ [(bnds, rangeType)]\<rparr> in
           (case rangeType of
              Skip \<Rightarrow> Inr (payload, thisTime, idx)
            | FingerprintRange \<Rightarrow>
                rbind (getFingerprint idx buffer) (\<lambda>(fp, idx).
                Inr (payload\<lparr>fingerprints := fingerprints payload @ [fp]\<rparr>, thisTime, idx))
            | ItemSetRange \<Rightarrow>
                rbind (getItemSetLength dec idx buffer) (\<lambda>(itemSetLength, idx).
                rbind (getItemSet dec idx buffer itemSetLength) (\<lambda>(s, idx).
                Inr (payload\<lparr>itemSets := itemSets payload @ [s]\<rparr>, thisTime, idx)))))))))"

lemma updateHash_idx: "idx \<le> snd (updateHash idx buffer h)"
  by (simp add: updateHash_def Let_def)

lemma getRangeType_idx: "getRangeType idx buffer = Inr (t, idx') \<Longrightarrow> idx' = idx + 1"
  by (auto simp: getRangeType_def split: if_splits)

lemma decode_range_progress:
  assumes "decode_range dec buffer idx lastTime payload = Inr (p, t, idx')"
  shows "idx < idx'"
proof -
  obtain d i1 where d: "getTimeDiff dec idx buffer = Inr (d, i1)"
    using assms by (auto simp: decode_range_def Let_def rbind_eq_Inr)
  have i1: "idx \<le> i1" using d by (auto simp: getTimeDiff_def rbind_eq_Inr split: prod.splits)
  obtain h i2 where h: "(if d = 0 then updateHash i1 buffer EmptyFingerprint else (EmptyFingerprint, i1)) = (h, i2)"
    by (metis prod.exhaust_sel)
  have i2: "i1 \<le> i2" using h updateHash_idx [of i1 buffer EmptyFingerprint] by (auto split: if_splits)
  obtain r i3 where r: "getRangeType i2 buffer = Inr (r, i3)"
    using assms by (auto simp: decode_range_def Let_def rbind_eq_Inr d h)
  have i3: "i3 = i2 + 1" using getRangeType_idx [OF r] .
  have "i3 \<le> idx'"
    using assms
    by (cases r)
      (auto simp: decode_range_def Let_def rbind_eq_Inr d h r getFingerprint_def getItemSetLength_def
        getItemSet_def split: if_splits prod.splits)
  then show ?thesis using i1 i2 i3 by simp
qed

function ranges_loop ::
  "(byte list \<Rightarrow> nat \<times> nat) \<Rightarrow> byte list \<Rightarrow> nat \<Rightarrow> Timestamp \<Rightarrow> RangesData \<Rightarrow> failure + RangesData"
where
  "ranges_loop dec buffer idx lastTime payload =
     (if int idx < int (length buffer) - 1
      then (case decode_range dec buffer idx lastTime payload of
              Inl e \<Rightarrow> Inl e
            | Inr (payload', lastTime', idx') \<Rightarrow> ranges_loop dec buffer idx' lastTime' payload')
      else Inr payload)"
  by pat_completeness auto
termination
  by (relation "measure (\<lambda>(dec, buffer, idx, lastTime, payload). length buffer - idx)")
    (auto dest: decode_range_progress)

declare ranges_loop.simps [simp del]

definition deltaDecode :: "(byte list \<Rightarrow> nat \<times> nat) \<Rightarrow> byte list \<Rightarrow> failure + RangesData" where
  "deltaDecode dec buffer =
     (if length buffer \<le> 1 then Inr empty_ranges
      else
        rbind (getTopics dec 0 buffer) (\<lambda>(ps, idx).
        rbind (getTopics dec idx buffer) (\<lambda>(cs, idx).
        rbind (getTimestamp dec idx buffer) (\<lambda>(lastTime, idx).
        ranges_loop dec buffer idx lastTime
          (empty_ranges\<lparr>rd_pubsubTopics := ps, rd_contentTopics := cs\<rparr>)))))"

section \<open>Decoded payloads\<close>

lemma leb128_dec:
  assumes "leb128 enc dec" "dec (take 9 xs) = (v, l)"
  shows "v < 2 ^ 63" "l \<le> length xs"
proof -
  have "length (take 9 xs) \<le> 9" by simp
  then have "l \<le> length (take 9 xs) \<and> v < 2 ^ 63" using assms unfolding leb128_def by blast
  then show "v < 2 ^ 63" "l \<le> length xs" by auto
qed

lemma getTimeDiff_range:
  assumes "getTimeDiff dec idx buffer = Inr (t, idx')"
  shows "0 \<le> t" "t < 2 ^ 63"
  using assms by (auto simp: getTimeDiff_def to_int64_def rbind_eq_Inr split: prod.splits if_splits)

lemma getTimestamp_range:
  assumes "getTimestamp dec idx buffer = Inr (t, idx')"
  shows "0 \<le> t" "t < 2 ^ 63"
  using assms by (auto simp: getTimestamp_def to_int64_def rbind_eq_Inr split: prod.splits if_splits)

lemma add_int64_eq_Inr: "add_int64 a b = Inr c \<longleftrightarrow> c = a + b \<and> is_int64 (a + b)"
  by (auto simp: add_int64_def int64_def is_int64_def)

lemma updateHash_length: "length h = 32 \<Longrightarrow> length (fst (updateHash idx buffer h)) = 32"
  by (auto simp: updateHash_def Let_def)

lemma length_EmptyFingerprint [simp]: "length EmptyFingerprint = 32"
  by (simp add: EmptyFingerprint_def)

definition time_ok :: "Timestamp \<Rightarrow> bool" where
  "time_ok t \<longleftrightarrow> 0 \<le> t \<and> t < 2 ^ 63"

lemma decode_range_ok:
  assumes "decode_range dec buffer idx lastTime payload = Inr (p, t, idx')" "payload_ok payload" "time_ok lastTime"
  shows "payload_ok p \<and> time_ok t"
proof -
  obtain d i1 where d: "getTimeDiff dec idx buffer = Inr (d, i1)"
    using assms(1) by (auto simp: decode_range_def Let_def rbind_eq_Inr)
  obtain h i2 where h: "(if d = 0 then updateHash i1 buffer EmptyFingerprint else (EmptyFingerprint, i1)) = (h, i2)"
    by (metis prod.exhaust_sel)
  obtain r i3 where r: "getRangeType i2 buffer = Inr (r, i3)"
    using assms(1) by (auto simp: decode_range_def Let_def rbind_eq_Inr d h)
  have s: "is_int64 (lastTime + d)" "t = lastTime + d"
    using assms(1)
    by (cases r; auto simp: decode_range_def Let_def rbind_eq_Inr d h r add_int64_eq_Inr)+
  have hl: "length h = 32"
    using h updateHash_length [of EmptyFingerprint i1 buffer] by (auto split: if_splits)
  have t: "time_ok (lastTime + d)"
    using s assms(3) getTimeDiff_range [OF d] by (auto simp: time_ok_def is_int64_def)
  have o: "ordered (SyncID lastTime EmptyFingerprint, SyncID (lastTime + d) h)"
    using t assms(3) getTimeDiff_range(1) [OF d] EmptyFingerprint_le [OF hl]
    by (auto simp: ordered_def time_ok_def SyncID_le_iff)
  show ?thesis
    using assms(1,2) t o s
    by (cases r)
      (auto simp: decode_range_def Let_def rbind_eq_Inr d h r add_int64_eq_Inr payload_ok_def)
qed

lemma ranges_loop_ok:
  "ranges_loop dec buffer idx lastTime payload = Inr p \<Longrightarrow> payload_ok payload \<Longrightarrow> time_ok lastTime
    \<Longrightarrow> payload_ok p"
proof (induction dec buffer idx lastTime payload rule: ranges_loop.induct)
  case (1 dec buffer idx lastTime payload)
  show ?case
  proof (cases "int idx < int (length buffer) - 1")
    case False
    then show ?thesis using "1.prems" by (simp add: ranges_loop.simps)
  next
    case True
    then obtain p' t' idx' where d: "decode_range dec buffer idx lastTime payload = Inr (p', t', idx')"
      and rest: "ranges_loop dec buffer idx' t' p' = Inr p"
      using "1.prems"(1) by (subst (asm) ranges_loop.simps) (auto split: sum.splits)
    show ?thesis
      using "1.IH" [OF True d refl refl rest] decode_range_ok [OF d "1.prems"(2,3)] by blast
  qed
qed

lemma deltaDecode_ok:
  assumes "deltaDecode dec buffer = Inr p"
  shows "payload_ok p"
  using assms getTimestamp_range
  by (fastforce simp: deltaDecode_def rbind_eq_Inr time_ok_def payload_ok_def empty_ranges_def
      split: if_splits prod.splits dest!: ranges_loop_ok)

section \<open>Defects\<close>

text \<open>A computation whose only defect is an overflow.\<close>

definition overflow_only :: "failure + 'a \<Rightarrow> bool" where
  "overflow_only r \<longleftrightarrow> (\<forall>d. r = Inl (Defect d) \<longrightarrow> d = OverflowDefect)"

lemma overflow_only_simps [simp]:
  "overflow_only (Inr x)" "overflow_only (Inl (Err m))" "overflow_only (Inl (Err_topic m i))"
  by (simp_all add: overflow_only_def)

lemma overflow_only_rbind:
  "overflow_only r \<Longrightarrow> (\<And>x. r = Inr x \<Longrightarrow> overflow_only (f x)) \<Longrightarrow> overflow_only (rbind r f)"
  by (cases r) (auto simp: overflow_only_def)

lemma overflow_only_add [simp]: "overflow_only (add_int64 a b)"
  by (simp add: overflow_only_def add_int64_def int64_def)

lemma to_int64_ok: "v < 2 ^ 63 \<Longrightarrow> to_int64 v = Inr (int v)"
  by (simp add: to_int64_def)

lemma readers_overflow_only:
  assumes "leb128 enc dec"
  shows "overflow_only (getItemSetLength dec idx buffer)" "overflow_only (getTimeDiff dec idx buffer)"
    "overflow_only (getTimestamp dec idx buffer)"
  using leb128_dec [OF assms]
  by (auto simp: getItemSetLength_def getTimeDiff_def getTimestamp_def to_int64_ok split: prod.split)

lemma simple_readers_overflow_only:
  "overflow_only (getFingerprint idx buffer)" "overflow_only (getRangeType idx buffer)"
  "overflow_only (getHash idx buffer)" "overflow_only (getReconciled idx buffer)"
  by (simp_all add: getFingerprint_def getRangeType_def getHash_def getReconciled_def)

lemma topics_overflow_only:
  assumes "leb128 enc dec"
  shows "overflow_only (topics_loop dec count i idx buffer topics)" "overflow_only (getTopics dec idx buffer)"
proof -
  have t: "overflow_only (to_int64 v)" if "dec (take 9 (drop idx buffer)) = (v, l)" for v l idx
    using leb128_dec(1) [OF assms that] by (simp add: to_int64_ok)
  show l: "overflow_only (topics_loop dec count i idx buffer topics)" for count i idx topics
    by (induction count arbitrary: i idx topics)
      (auto intro!: overflow_only_rbind t split: prod.split)
  show "overflow_only (getTopics dec idx buffer)"
    using leb128_dec [OF assms] l by (auto simp: getTopics_def to_int64_ok split: prod.split)
qed

lemma elements_overflow_only:
  assumes "leb128 enc dec"
  shows "overflow_only (elements_loop dec count lastTime idx buffer es)"
  by (induction count arbitrary: lastTime idx es)
    (auto intro!: overflow_only_rbind readers_overflow_only [OF assms] simple_readers_overflow_only
      split: prod.split)

lemma getItemSet_overflow_only:
  assumes "leb128 enc dec"
  shows "overflow_only (getItemSet dec idx buffer n)"
  by (auto simp: getItemSet_def deltaDecode_set_def
      intro!: overflow_only_rbind elements_overflow_only [OF assms] simple_readers_overflow_only
      split: prod.split)

lemma decode_range_overflow_only:
  assumes "leb128 enc dec"
  shows "overflow_only (decode_range dec buffer idx lastTime payload)"
  unfolding decode_range_def Let_def
  by (intro overflow_only_rbind readers_overflow_only [OF assms])
    (auto intro!: overflow_only_rbind readers_overflow_only [OF assms] simple_readers_overflow_only
      getItemSet_overflow_only [OF assms] split: prod.split RangeType.split)

lemma ranges_overflow_only:
  assumes "leb128 enc dec"
  shows "overflow_only (ranges_loop dec buffer idx lastTime payload)"
proof (induction "length buffer - idx" arbitrary: idx lastTime payload rule: less_induct)
  case less
  show ?case
  proof (cases "int idx < int (length buffer) - 1")
    case False
    then show ?thesis by (simp add: ranges_loop.simps [of dec buffer idx])
  next
    case True
    show ?thesis
    proof (cases "decode_range dec buffer idx lastTime payload")
      case (Inl e)
      then show ?thesis
        using decode_range_overflow_only [OF assms, of buffer idx lastTime payload] True
        by (simp add: ranges_loop.simps [of dec buffer idx] overflow_only_def)
    next
      case (Inr r)
      obtain p t i where r: "r = (p, t, i)" by (cases r)
      have "length buffer - i < length buffer - idx"
        using decode_range_progress [OF Inr [unfolded r]] True by auto
      then show ?thesis
        using less True by (simp add: ranges_loop.simps [of dec buffer idx] Inr r)
    qed
  qed
qed

lemma deltaDecode_overflow_only:
  assumes "leb128 enc dec"
  shows "overflow_only (deltaDecode dec buffer)"
  by (auto simp: deltaDecode_def intro!: overflow_only_rbind topics_overflow_only [OF assms]
      readers_overflow_only [OF assms] ranges_overflow_only [OF assms] split: prod.split)

section \<open>An instance of the integer encoding\<close>

fun leb_enc :: "nat \<Rightarrow> byte list" where
  "leb_enc n = (if n < 128 then [word_of_nat n] else word_of_nat (n mod 128 + 128) # leb_enc (n div 128))"

declare leb_enc.simps [simp del]

fun leb_read :: "byte list \<Rightarrow> (nat \<times> nat) option" where
  "leb_read [] = None"
| "leb_read (b # bs) =
     (if unat b < 128 then Some (unat b, 1)
      else (case leb_read bs of None \<Rightarrow> None | Some (v, l) \<Rightarrow> Some (unat b - 128 + 128 * v, l + 1)))"

definition leb_dec :: "byte list \<Rightarrow> nat \<times> nat" where
  "leb_dec bs = (case leb_read bs of None \<Rightarrow> (0, 0) | Some r \<Rightarrow> r)"

lemma leb_read_enc: "leb_read (leb_enc n @ rest) = Some (n, length (leb_enc n))"
proof (induction n rule: leb_enc.induct)
  case (1 n)
  show ?case
  proof (cases "n < 128")
    case True
    then show ?thesis by (simp add: leb_enc.simps [of n] unat_byte_of_nat)
  next
    case False
    have "n mod 128 < 128" by simp
    then have u: "unat (word_of_nat (n mod 128 + 128) :: byte) = n mod 128 + 128"
      by (intro unat_byte_of_nat) linarith
    show ?thesis
      using "1.IH" [OF False] False u by (simp add: leb_enc.simps [of n])
  qed
qed

lemma leb_enc_length: "n < 128 ^ Suc k \<Longrightarrow> 1 \<le> length (leb_enc n) \<and> length (leb_enc n) \<le> Suc k"
proof (induction k arbitrary: n)
  case 0
  then show ?case by (simp add: leb_enc.simps [of n])
next
  case (Suc k)
  show ?case
  proof (cases "n < 128")
    case True
    then show ?thesis by (simp add: leb_enc.simps [of n])
  next
    case False
    have "n div 128 < 128 ^ Suc k" using Suc.prems by (simp add: div_less_iff_less_mult mult.commute)
    then show ?thesis using Suc.IH [of "n div 128"] False by (simp add: leb_enc.simps [of n])
  qed
qed

lemma leb_read_bound: "leb_read xs = Some (v, l) \<Longrightarrow> l \<le> length xs \<and> v < 128 ^ length xs"
proof (induction xs arbitrary: v l)
  case (Cons b bs)
  have p: "1 \<le> (128 :: nat) ^ length bs" by simp
  show ?case
  proof (cases "unat b < 128")
    case True
    then show ?thesis using Cons.prems p by (auto intro: order_less_le_trans)
  next
    case False
    then obtain w m where r: "leb_read bs = Some (w, m)" "v = unat b - 128 + 128 * w" "l = m + 1"
      using Cons.prems by (auto split: option.splits)
    have "unat b < 256" by (rule unat_byte_less)
    then have "v < 128 * Suc w" using r(2) False by simp
    also have "\<dots> \<le> 128 * 128 ^ length bs" using Cons.IH [OF r(1)] by (simp add: Suc_le_eq)
    finally show ?thesis using Cons.IH [OF r(1)] r(3) by simp
  qed
qed simp

lemma leb_read_stall: "leb_read (replicate k 128) = None"
  by (induction k) simp_all

lemma leb128_instance: "leb128 leb_enc leb_dec"
  unfolding leb128_def
proof (intro conjI allI impI)
  fix xs v l
  assume xs: "length (xs :: byte list) \<le> 9" and d: "leb_dec xs = (v, l)"
  show "l \<le> length xs" using d leb_read_bound [of xs v l] by (auto simp: leb_dec_def split: option.splits)
  have "(128 :: nat) ^ length xs \<le> 128 ^ 9" using xs by (intro power_increasing) simp_all
  then show "v < 2 ^ 63"
    using d leb_read_bound [of xs v l]
    by (auto simp: leb_dec_def split: option.splits)
qed (use leb_enc_length [of _ 8] in \<open>simp_all add: leb_dec_def leb_read_enc leb_read_stall\<close>)

section \<open>Reading back\<close>

lemma leb_at:
  assumes "leb128 enc dec" "n < 2 ^ 63"
  shows "dec (take 9 (drop (length pre) (pre @ enc n @ rest))) = (n, length (enc n))"
proof -
  have "length (enc n) \<le> 9" using assms by (simp add: leb128_def)
  then have "take 9 (drop (length pre) (pre @ enc n @ rest)) = enc n @ take (9 - length (enc n)) rest" by simp
  moreover have "dec (enc n @ r) = (n, length (enc n))" for r using assms by (simp add: leb128_def)
  ultimately show ?thesis by simp
qed

lemma leb_pos: "leb128 enc dec \<Longrightarrow> n < 2 ^ 63 \<Longrightarrow> 1 \<le> length (enc n) \<and> length (enc n) \<le> 9"
  by (simp add: leb128_def)

lemma getTimestamp_at:
  assumes "leb128 enc dec" "n < 2 ^ 63" "9 \<le> length (enc n @ rest)"
  shows "getTimestamp dec (length pre) (pre @ enc n @ rest) = Inr (int n, length (pre @ enc n))"
  unfolding getTimestamp_def leb_at [OF assms(1,2)] using assms(2,3) by (simp add: to_int64_ok)

lemma getTimeDiff_at:
  assumes "leb128 enc dec" "n < 2 ^ 63"
  shows "getTimeDiff dec (length pre) (pre @ enc n @ rest) = Inr (int n, length (pre @ enc n))"
    "getItemSetLength dec (length pre) (pre @ enc n @ rest) = Inr (int n, length (pre @ enc n))"
  unfolding getTimeDiff_def getItemSetLength_def leb_at [OF assms] using assms(2) by (simp_all add: to_int64_ok)

lemma getHash_at:
  assumes "length h = 32"
  shows "getHash (length pre) (pre @ h @ rest) = Inr (h, length (pre @ h))"
    "getFingerprint (length pre) (pre @ h @ rest) = Inr (h, length (pre @ h))"
  using assms by (simp_all add: getHash_def getFingerprint_def)

lemma bytes_topic_of_bytes [simp]: "bytes_topic (topic_bytes t) = t"
  by (simp add: bytes_topic_def topic_bytes_def comp_def)

lemma length_topic_bytes [simp]: "length (topic_bytes t) = length t"
  by (simp add: topic_bytes_def)

lemma topics_loop_at:
  assumes "leb128 enc dec" "9 \<le> length rest"
    "length pre + length (concat (map (\<lambda>t. enc (length t) @ topic_bytes t) ts)) + length rest < 2 ^ 63"
  shows "topics_loop dec (length ts) i (length pre)
      (pre @ concat (map (\<lambda>t. enc (length t) @ topic_bytes t) ts) @ rest) acc
    = Inr (acc @ ts, length pre + length (concat (map (\<lambda>t. enc (length t) @ topic_bytes t) ts)))"
  using assms(3)
proof (induction ts arbitrary: i pre acc)
  case (Cons t ts)
  let ?c = "concat (map (\<lambda>t. enc (length t) @ topic_bytes t) ts)"
  let ?e = "enc (length t)"
  have t: "length t < 2 ^ 63" using Cons.prems by simp
  define buf where "buf = pre @ ?e @ (topic_bytes t @ ?c @ rest)"
  have d: "dec (take 9 (drop (length pre) buf)) = (length t, length ?e)"
    unfolding buf_def by (rule leb_at [OF assms(1) t])
  have l: "length buf = length pre + length ?e + length t + length ?c + length rest"
    by (simp add: buf_def)
  have s: "add_int64 (int (length pre) + int (length ?e)) (int (length t))
      = Inr (int (length pre) + int (length ?e) + int (length t))"
    using Cons.prems unfolding add_int64_eq_Inr by (simp add: is_int64_def)
  have x: "take (length t) (drop (length pre + length ?e) buf) = topic_bytes t"
    by (simp add: buf_def)
  have "topics_loop dec (length ts) (Suc i) (length (pre @ ?e @ topic_bytes t))
        ((pre @ ?e @ topic_bytes t) @ ?c @ rest) (acc @ [t])
      = Inr ((acc @ [t]) @ ts, length (pre @ ?e @ topic_bytes t) + length ?c)"
    by (rule Cons.IH) (use Cons.prems in simp)
  then have i: "topics_loop dec (length ts) (Suc i) (length pre + length ?e + length t) buf (acc @ [t])
      = Inr (acc @ t # ts, length pre + length ?e + length t + length ?c)"
    by (simp add: buf_def add.assoc)
  have "topics_loop dec (Suc (length ts)) i (length pre) buf acc
      = Inr (acc @ t # ts, length pre + length ?e + length t + length ?c)"
    using l s x i d t assms(2) by (simp add: to_int64_ok)
  then show ?case by (simp add: buf_def)
qed simp

lemma getTopics_at:
  assumes "leb128 enc dec" "9 \<le> length rest" "length (pre @ encode_topics enc ts @ rest) < 2 ^ 63"
  shows "getTopics dec (length pre) (pre @ encode_topics enc ts @ rest)
    = Inr (ts, length (pre @ encode_topics enc ts))"
proof -
  let ?c = "concat (map (\<lambda>t. enc (length t) @ topic_bytes t) ts)"
  have "length ts \<le> length ?c" if "length ?c < 2 ^ 63"
    using that
  proof (induction ts)
    case (Cons t ts)
    have "1 \<le> length (enc (length t))" using leb_pos [OF assms(1), of "length t"] Cons.prems by simp
    then show ?case using Cons by simp
  qed simp
  then have n: "length ts < 2 ^ 63" using assms(3) by (simp add: encode_topics_def)
  have b: "pre @ encode_topics enc ts @ rest = pre @ enc (length ts) @ (?c @ rest)"
    by (simp add: encode_topics_def)
  have "topics_loop dec (length ts) 0 (length (pre @ enc (length ts))) ((pre @ enc (length ts)) @ ?c @ rest) []
      = Inr ([] @ ts, length (pre @ enc (length ts)) + length ?c)"
    by (rule topics_loop_at [OF assms(1,2)]) (use assms(3) in \<open>simp add: encode_topics_def\<close>)
  then show ?thesis
    unfolding b getTopics_def leb_at [OF assms(1) n]
    using assms(2) n by (simp add: to_int64_ok encode_topics_def)
qed

text \<open>What the format keeps: times that do not decrease, and hashes the compression restores.\<close>

fun elements_encodable :: "Timestamp \<Rightarrow> SyncID list \<Rightarrow> bool" where
  "elements_encodable lastTime [] = True"
| "elements_encodable lastTime (e # es) =
     (lastTime \<le> id_time e \<and> id_time e < 2 ^ 63 \<and> length (id_hash e) = 32 \<and> elements_encodable (id_time e) es)"

lemma u64_diff_le: "0 \<le> a \<Longrightarrow> a \<le> b \<Longrightarrow> b < 2 ^ 63 \<Longrightarrow> u64_diff b a = nat (b - a) \<and> nat (b - a) < 2 ^ 63"
  by (simp add: u64_diff_def)

lemma elements_loop_at:
  assumes "leb128 enc dec" "elements_encodable lastTime es" "0 \<le> lastTime"
  shows "elements_loop dec (length es) lastTime (length pre) (pre @ encode_elements enc lastTime es @ rest) acc
    = Inr (acc @ es, length (pre @ encode_elements enc lastTime es))"
  using assms(2,3)
proof (induction es arbitrary: lastTime pre acc)
  case (Cons e es)
  obtain t h where e: "e = SyncID t h" by (cases e)
  have c: "lastTime \<le> t" "t < 2 ^ 63" "length h = 32" "elements_encodable t es" "0 \<le> t"
    using Cons.prems by (simp_all add: e)
  let ?d = "u64_diff t lastTime" and ?r = "encode_elements enc t es @ rest"
  have d: "?d = nat (t - lastTime)" "?d < 2 ^ 63" using u64_diff_le [of lastTime t] c Cons.prems(2) by auto
  define buf where "buf = pre @ enc ?d @ (h @ ?r)"
  have 1: "getTimestamp dec (length pre) buf = Inr (int ?d, length (pre @ enc ?d))"
    unfolding buf_def by (rule getTimestamp_at [OF assms(1) d(2)]) (use c(3) in simp)
  have 2: "getHash (length (pre @ enc ?d)) buf = Inr (h, length ((pre @ enc ?d) @ h))"
    unfolding buf_def using getHash_at(1) [OF c(3), of "pre @ enc ?d" ?r] by simp
  have 3: "add_int64 lastTime (int ?d) = Inr t"
    unfolding add_int64_eq_Inr using d(1) c by (simp add: is_int64_def)
  have "elements_loop dec (length es) t (length ((pre @ enc ?d) @ h)) (((pre @ enc ?d) @ h) @ ?r) (acc @ [e])
      = Inr ((acc @ [e]) @ es, length (((pre @ enc ?d) @ h) @ encode_elements enc t es))"
    by (rule Cons.IH) (use c in simp_all)
  then have 4: "elements_loop dec (length es) t (length ((pre @ enc ?d) @ h)) buf (acc @ [e])
      = Inr (acc @ e # es, length (pre @ encode_elements enc lastTime (e # es)))"
    by (simp add: buf_def e)
  have b: "pre @ encode_elements enc lastTime (e # es) @ rest = buf" by (simp add: buf_def e)
  show ?case unfolding b length_Cons elements_loop.simps 1 2 rbind_Inr prod.case 3 4 e [symmetric] ..
qed simp

lemma deltaDecode_set_at:
  assumes "leb128 enc dec" "elements_encodable 0 (elements_of i)"
  shows "deltaDecode_set dec (deltaEncode_set enc i @ rest) (int (length (elements_of i)))
    = Inr (i, length (deltaEncode_set enc i))"
proof -
  let ?x = "encode_elements enc 0 (elements_of i)" and ?b = "if reconciled i then (1 :: byte) else 0"
  have 1: "elements_loop dec (length (elements_of i)) 0 0 (?x @ (?b # rest)) []
      = Inr (elements_of i, length ?x)"
    using elements_loop_at [OF assms, of "[]" "?b # rest" "[]"] by simp
  have "getReconciled (length ?x) (?x @ ?b # rest) = Inr (reconciled i, length ?x + 1)"
    by (simp add: getReconciled_def nth_append)
  then show ?thesis using 1 by (simp add: deltaDecode_set_def deltaEncode_set_def)
qed

lemma getItemSet_at:
  assumes "leb128 enc dec" "elements_encodable 0 (elements_of i)"
  shows "getItemSet dec (length pre) (pre @ deltaEncode_set enc i @ rest) (int (length (elements_of i)))
    = Inr (i, length (pre @ deltaEncode_set enc i))"
  using deltaDecode_set_at [OF assms, of rest] by (simp add: getItemSet_def)

text \<open>The compressed upper hash of a range that begins and ends at the same time.\<close>

definition hash_kept :: "Fingerprint \<Rightarrow> bool" where
  "hash_kept h \<longleftrightarrow> length h = 32
     \<and> take (same_bytes EmptyFingerprint h) h @ drop (same_bytes EmptyFingerprint h) EmptyFingerprint = h"

lemma same_bytes_le: "same_bytes xs ys \<le> length ys"
  by (induction xs ys rule: same_bytes.induct) auto

lemma updateHash_at:
  assumes "hash_kept h"
  shows "updateHash (length pre)
      (pre @ word_of_nat (same_bytes EmptyFingerprint h) # take (same_bytes EmptyFingerprint h) h @ rest)
      EmptyFingerprint
    = (h, length (pre @ word_of_nat (same_bytes EmptyFingerprint h) # take (same_bytes EmptyFingerprint h) h))"
proof -
  let ?n = "same_bytes EmptyFingerprint h"
  have n: "?n \<le> 32" using same_bytes_le [of EmptyFingerprint h] assms by (simp add: hash_kept_def)
  then have "unat (word_of_nat ?n :: byte) = ?n" by (intro unat_byte_of_nat) simp
  then show ?thesis using n assms by (simp add: updateHash_def hash_kept_def nth_append)
qed

lemma getRangeType_at: "getRangeType (length pre) (pre @ type_byte t # rest) = Inr (t, length pre + 1)"
  by (cases t) (simp_all add: getRangeType_def type_byte_def nth_append)

definition range_start :: "(nat \<Rightarrow> byte list) \<Rightarrow> Timestamp \<Rightarrow> bounds \<Rightarrow> RangeType \<Rightarrow> byte list" where
  "range_start enc lastTime b t =
     (let d = u64_diff (id_time (snd b)) lastTime;
          same = same_bytes EmptyFingerprint (id_hash (snd b))
      in enc d @ (if d = 0 then word_of_nat same # take same (id_hash (snd b)) else []) @ [type_byte t])"

definition bounds_encodable :: "Timestamp \<Rightarrow> bounds \<Rightarrow> bool" where
  "bounds_encodable lastTime b \<longleftrightarrow> fst b = SyncID lastTime EmptyFingerprint
     \<and> 0 \<le> lastTime \<and> lastTime \<le> id_time (snd b) \<and> id_time (snd b) < 2 ^ 63
     \<and> (if id_time (snd b) = lastTime then hash_kept (id_hash (snd b)) else id_hash (snd b) = EmptyFingerprint)"

text \<open>Decoding the part of a range before its fingerprint or item set.\<close>

lemma decode_range_at:
  assumes "leb128 enc dec" "bounds_encodable lastTime b"
    and "buf = pre @ range_start enc lastTime b t @ rest" "idx = length (pre @ range_start enc lastTime b t)"
  shows "decode_range dec buf (length pre) lastTime p =
    (let p = p\<lparr>ranges := ranges p @ [(b, t)]\<rparr>; tm = id_time (snd b) in
     case t of
       Skip \<Rightarrow> Inr (p, tm, idx)
     | FingerprintRange \<Rightarrow>
         rbind (getFingerprint idx buf) (\<lambda>(fp, i). Inr (p\<lparr>fingerprints := fingerprints p @ [fp]\<rparr>, tm, i))
     | ItemSetRange \<Rightarrow>
         rbind (getItemSetLength dec idx buf) (\<lambda>(n, i).
         rbind (getItemSet dec i buf n) (\<lambda>(s, i). Inr (p\<lparr>itemSets := itemSets p @ [s]\<rparr>, tm, i))))"
proof -
  obtain u h where b: "b = (SyncID lastTime EmptyFingerprint, SyncID u h)"
    using assms(2) by (cases b; cases "snd b") (auto simp: bounds_encodable_def)
  have c: "0 \<le> lastTime" "lastTime \<le> u" "u < 2 ^ 63"
    "if u = lastTime then hash_kept h else h = EmptyFingerprint"
    using assms(2) by (auto simp: b bounds_encodable_def)
  let ?d = "u64_diff u lastTime" and ?n = "same_bytes EmptyFingerprint h"
  have d: "?d = nat (u - lastTime)" "?d < 2 ^ 63" using u64_diff_le c by auto
  have z: "?d = 0 \<longleftrightarrow> u = lastTime" using d c by simp
  let ?hs = "if ?d = 0 then (word_of_nat ?n :: byte) # take ?n h else []"
  have rs: "range_start enc lastTime b t = enc ?d @ ?hs @ [type_byte t]" by (simp add: range_start_def Let_def b)
  have 1: "getTimeDiff dec (length pre) buf = Inr (int ?d, length (pre @ enc ?d))"
    unfolding assms(3) rs append_assoc by (rule getTimeDiff_at(1) [OF assms(1) d(2)])
  have 2: "(if int ?d = 0 then updateHash (length (pre @ enc ?d)) buf EmptyFingerprint
        else (EmptyFingerprint, length (pre @ enc ?d))) = (h, length (pre @ enc ?d @ ?hs))"
  proof (cases "?d = 0")
    case True
    then have k: "hash_kept h" using c(4) z by simp
    show ?thesis
      using updateHash_at [OF k, of "pre @ enc ?d" "type_byte t # rest"] True by (simp add: assms(3) rs)
  next
    case False
    then show ?thesis using c(4) z by simp
  qed
  have 3: "add_int64 lastTime (int ?d) = Inr u"
    unfolding add_int64_eq_Inr using d(1) c by (simp add: is_int64_def)
  have 4: "getRangeType (length (pre @ enc ?d @ ?hs)) buf = Inr (t, idx)"
    using getRangeType_at [of "pre @ enc ?d @ ?hs" t rest] by (simp add: assms(3,4) rs)
  show ?thesis
    unfolding decode_range_def Let_def 1 rbind_Inr prod.case 2 3 4 b snd_conv SyncID.sel ..
qed

fun ranges_encodable :: "Timestamp \<Rightarrow> (bounds \<times> RangeType) list \<Rightarrow> bool" where
  "ranges_encodable lastTime [] = True"
| "ranges_encodable lastTime ((b, t) # rs) =
     (bounds_encodable lastTime b \<and> ranges_encodable (id_time (snd b)) rs)"

definition parts_encodable :: "Fingerprint list \<Rightarrow> ItemSet list \<Rightarrow> bool" where
  "parts_encodable fps sets \<longleftrightarrow> (\<forall>fp \<in> set fps. length fp = 32)
     \<and> (\<forall>i \<in> set sets. elements_encodable 0 (elements_of i) \<and> length (elements_of i) < 2 ^ 63)"

definition add_parts ::
  "(bounds \<times> RangeType) list \<Rightarrow> Fingerprint list \<Rightarrow> ItemSet list \<Rightarrow> RangesData \<Rightarrow> RangesData" where
  "add_parts rs fps sets p =
     p\<lparr>ranges := ranges p @ rs, fingerprints := fingerprints p @ fps, itemSets := itemSets p @ sets\<rparr>"

lemma ranges_loop_step:
  assumes "decode_range dec buf idx lastTime p = Inr (p', t, idx')" "idx + 2 \<le> length buf"
  shows "ranges_loop dec buf idx lastTime p = ranges_loop dec buf idx' t p'"
  using assms by (simp add: ranges_loop.simps [of dec buf idx])

lemma ranges_loop_end: "ranges_loop dec buf (length buf) lastTime p = Inr p"
  by (simp add: ranges_loop.simps)

lemma range_start_length:
  assumes "leb128 enc dec" "bounds_encodable lastTime b"
  shows "2 \<le> length (range_start enc lastTime b t)"
proof -
  have "u64_diff (id_time (snd b)) lastTime < 2 ^ 63"
    using u64_diff_le assms(2) by (simp add: bounds_encodable_def)
  then show ?thesis using leb_pos [OF assms(1)] by (simp add: range_start_def Let_def)
qed

lemma encode_elements_length:
  "elements_encodable lastTime es \<Longrightarrow> es \<noteq> [] \<Longrightarrow> 9 \<le> length (encode_elements enc lastTime es)"
  by (cases es) auto

text \<open>
  A range followed by what is encoded after it: the decoder consumes the range and goes on behind it.
\<close>

definition decodes ::
  "(byte list \<Rightarrow> nat \<times> nat) \<Rightarrow> Timestamp \<Rightarrow> byte list \<Rightarrow> (bounds \<times> RangeType) list \<Rightarrow> Fingerprint list
     \<Rightarrow> ItemSet list \<Rightarrow> bool" where
  "decodes dec lastTime out rs fps sets \<longleftrightarrow>
     (\<forall>pre p. ranges_loop dec (pre @ out) (length pre) lastTime p = Inr (add_parts rs fps sets p))"

lemma decodes_Cons:
  assumes "decodes dec (id_time (snd b)) out rs fps sets" "2 \<le> length start"
    and "\<And>pre p. decode_range dec (pre @ start @ out) (length pre) lastTime p
        = Inr (add_parts [(b, t)] fps1 sets1 p, id_time (snd b), length (pre @ start))"
  shows "decodes dec lastTime (start @ out) ((b, t) # rs) (fps1 @ fps) (sets1 @ sets)"
  unfolding decodes_def
proof (intro allI)
  fix pre p
  have "ranges_loop dec (pre @ start @ out) (length pre) lastTime p
      = ranges_loop dec ((pre @ start) @ out) (length (pre @ start)) (id_time (snd b)) (add_parts [(b, t)] fps1 sets1 p)"
    using assms(2) by (subst ranges_loop_step [OF assms(3)]) simp_all
  also have "\<dots> = Inr (add_parts rs fps sets (add_parts [(b, t)] fps1 sets1 p))"
    using assms(1) unfolding decodes_def by blast
  finally show "ranges_loop dec (pre @ start @ out) (length pre) lastTime p
      = Inr (add_parts ((b, t) # rs) (fps1 @ fps) (sets1 @ sets) p)"
    by (simp add: add_parts_def)
qed

lemma encode_ranges_decodes:
  assumes leb: "leb128 enc dec"
  shows "ranges_encodable lastTime rs \<Longrightarrow> parts_encodable fps sets
    \<Longrightarrow> count_type FingerprintRange rs = length fps \<Longrightarrow> count_type ItemSetRange rs = length sets
    \<Longrightarrow> \<exists>out. encode_ranges enc EmptyFingerprint lastTime rs fps sets = Inr out
      \<and> decodes dec lastTime out rs fps sets
      \<and> (fps \<noteq> [] \<or> (\<exists>i \<in> set sets. elements_of i \<noteq> []) \<longrightarrow> 9 \<le> length out)"
proof (induction rs arbitrary: lastTime fps sets)
  case Nil
  then show ?case using ranges_loop_end by (fastforce simp: decodes_def add_parts_def)
next
  case (Cons r rs)
  obtain b t where r: "r = (b, t)" by (cases r)
  have b: "bounds_encodable lastTime b" "ranges_encodable (id_time (snd b)) rs" using Cons.prems(1) by (simp_all add: r)
  let ?st = "range_start enc lastTime b t"
  have l: "2 \<le> length ?st" by (rule range_start_length [OF leb b(1)])
  note dr = decode_range_at [OF leb b(1) refl refl]
  show ?case
  proof (cases t)
    case Skip
    obtain out where o: "encode_ranges enc EmptyFingerprint (id_time (snd b)) rs fps sets = Inr out"
      "decodes dec (id_time (snd b)) out rs fps sets"
      "fps \<noteq> [] \<or> (\<exists>i \<in> set sets. elements_of i \<noteq> []) \<longrightarrow> 9 \<le> length out"
      using Cons.IH [OF b(2) Cons.prems(2)] Cons.prems(3,4) by (auto simp: r Skip)
    have "decodes dec lastTime (?st @ out) ((b, t) # rs) ([] @ fps) ([] @ sets)"
      by (rule decodes_Cons [OF o(2) l]) (simp add: dr Skip add_parts_def Let_def)
    moreover have "encode_ranges enc EmptyFingerprint lastTime (r # rs) fps sets = Inr (?st @ out)"
      by (simp add: r Skip o(1) Let_def range_start_def)
    ultimately show ?thesis using o(3) by (auto simp: r)
  next
    case FingerprintRange
    obtain fp fps' where f: "fps = fp # fps'" using Cons.prems(3) by (cases fps) (auto simp: r FingerprintRange)
    have fl: "length fp = 32" "parts_encodable fps' sets" using Cons.prems(2) by (auto simp: f parts_encodable_def)
    obtain out where o: "encode_ranges enc EmptyFingerprint (id_time (snd b)) rs fps' sets = Inr out"
      "decodes dec (id_time (snd b)) out rs fps' sets"
      using Cons.IH [OF b(2) fl(2)] Cons.prems(3,4) by (auto simp: r f FingerprintRange)
    have g: "getFingerprint (length (pre @ ?st)) (pre @ ?st @ fp @ out) = Inr (fp, length (pre @ ?st @ fp))" for pre
      using getHash_at(2) [OF fl(1), of "pre @ ?st" out] by simp
    have "decodes dec lastTime ((?st @ fp) @ out) ((b, t) # rs) ([fp] @ fps') ([] @ sets)"
      using l g by (intro decodes_Cons [OF o(2)]) (simp_all add: dr FingerprintRange add_parts_def Let_def)
    moreover have "encode_ranges enc EmptyFingerprint lastTime (r # rs) fps sets = Inr ((?st @ fp) @ out)"
      by (simp add: r f FingerprintRange o(1) Let_def range_start_def)
    ultimately show ?thesis using fl(1) by (auto simp: r f)
  next
    case ItemSetRange
    obtain i sets' where f: "sets = i # sets'" using Cons.prems(4) by (cases sets) (auto simp: r ItemSetRange)
    have il: "elements_encodable 0 (elements_of i)" "length (elements_of i) < 2 ^ 63" "parts_encodable fps sets'"
      using Cons.prems(2) by (auto simp: f parts_encodable_def)
    obtain out where o: "encode_ranges enc EmptyFingerprint (id_time (snd b)) rs fps sets' = Inr out"
      "decodes dec (id_time (snd b)) out rs fps sets'"
      "fps \<noteq> [] \<or> (\<exists>i \<in> set sets'. elements_of i \<noteq> []) \<longrightarrow> 9 \<le> length out"
      using Cons.IH [OF b(2) il(3)] Cons.prems(3,4) by (auto simp: r f ItemSetRange)
    let ?n = "enc (length (elements_of i))" and ?s = "deltaEncode_set enc i"
    have g: "getItemSetLength dec (length (pre @ ?st)) (pre @ ?st @ ?n @ ?s @ out)
        = Inr (int (length (elements_of i)), length (pre @ ?st @ ?n))" for pre
      using getTimeDiff_at(2) [OF leb il(2), of "pre @ ?st" "?s @ out"] by simp
    have g': "getItemSet dec (length (pre @ ?st @ ?n)) (pre @ ?st @ ?n @ ?s @ out) (int (length (elements_of i)))
        = Inr (i, length (pre @ ?st @ ?n @ ?s))" for pre
      using getItemSet_at [OF leb il(1), of "pre @ ?st @ ?n" out] by simp
    have "decodes dec lastTime ((?st @ ?n @ ?s) @ out) ((b, t) # rs) ([] @ fps) ([i] @ sets')"
      using l g g' by (intro decodes_Cons [OF o(2)]) (simp_all add: dr ItemSetRange add_parts_def Let_def)
    moreover have "encode_ranges enc EmptyFingerprint lastTime (r # rs) fps sets = Inr ((?st @ ?n @ ?s) @ out)"
      by (simp add: r f ItemSetRange o(1) Let_def range_start_def)
    moreover have "elements_of i \<noteq> [] \<Longrightarrow> 9 \<le> length ?s"
      using encode_elements_length [OF il(1), of enc] by (simp add: deltaEncode_set_def)
    ultimately show ?thesis using o(3) by (auto simp: r f)
  qed
qed

definition encodable :: "RangesData \<Rightarrow> bool" where
  "encodable p \<longleftrightarrow> ranges p \<noteq> [] \<and> ranges_encodable (id_time (fst (fst (hd (ranges p))))) (ranges p)
     \<and> parts_encodable (fingerprints p) (itemSets p)
     \<and> count_type FingerprintRange (ranges p) = length (fingerprints p)
     \<and> count_type ItemSetRange (ranges p) = length (itemSets p)
     \<and> (fingerprints p \<noteq> [] \<or> (\<exists>i \<in> set (itemSets p). elements_of i \<noteq> []))"

section \<open>Properties\<close>

text \<open>
  C23. A payload of contiguous ranges with increasing times, whose upper hashes are empty where the
  range spans time, survives the wire: encoding succeeds, and decoding the bytes (fewer than
  \<open>2 ^ 63\<close>) gives the payload back, for every integer encoding that keeps its contract. One
  fingerprint or one element is needed, for the decoder wants nine bytes wherever it reads an
  integer of the header.
\<close>

theorem deltaEncode_roundtrip:
  assumes "leb128 enc dec" "encodable p" "\<And>buf. deltaEncode enc p = Inr buf \<Longrightarrow> length buf < 2 ^ 63"
  shows "\<exists>buf. deltaEncode enc p = Inr buf \<and> deltaDecode dec buf = Inr p"
proof -
  obtain b t rs where r: "ranges p = (b, t) # rs"
    using assms(2) by (cases "ranges p") (auto simp: encodable_def)
  let ?t = "id_time (fst b)"
  have e: "ranges_encodable ?t (ranges p)" and bl: "bounds_encodable ?t b"
    using assms(2) by (auto simp: encodable_def r)
  have t: "u64_diff ?t 0 = nat ?t" "nat ?t < 2 ^ 63" "0 \<le> ?t"
    using bl u64_diff_le [of 0 ?t] by (auto simp: bounds_encodable_def)
  obtain out where o: "encode_ranges enc EmptyFingerprint ?t (ranges p) (fingerprints p) (itemSets p) = Inr out"
    "decodes dec ?t out (ranges p) (fingerprints p) (itemSets p)" "9 \<le> length out"
    using encode_ranges_decodes [OF assms(1) e, of "fingerprints p" "itemSets p"] assms(2)
    by (auto simp: encodable_def)
  have h: "id_hash (fst b) = EmptyFingerprint" using bl by (metis bounds_encodable_def SyncID.sel(2))
  let ?ps = "encode_topics enc (rd_pubsubTopics p)" and ?cs = "encode_topics enc (rd_contentTopics p)"
  let ?e = "enc (nat ?t)"
  define buf where "buf = ?ps @ ?cs @ ?e @ out"
  have run: "deltaEncode enc p = Inr buf" using o(1) h t(1) by (simp add: deltaEncode_def r buf_def del: encode_ranges.simps)
  have bl: "length buf < 2 ^ 63" by (rule assms(3) [OF run])
  have 1: "getTopics dec 0 buf = Inr (rd_pubsubTopics p, length ?ps)"
    using getTopics_at [OF assms(1), of "?cs @ ?e @ out" "[]" "rd_pubsubTopics p"] o(3) bl by (simp add: buf_def)
  have 2: "getTopics dec (length ?ps) buf = Inr (rd_contentTopics p, length (?ps @ ?cs))"
    using getTopics_at [OF assms(1), of "?e @ out" ?ps "rd_contentTopics p"] o(3) bl by (simp add: buf_def)
  have 3: "getTimestamp dec (length (?ps @ ?cs)) buf = Inr (?t, length (?ps @ ?cs @ ?e))"
    using getTimestamp_at [OF assms(1) t(2), of out "?ps @ ?cs"] o(3) t(3) by (simp add: buf_def)
  have 4: "ranges_loop dec buf (length (?ps @ ?cs @ ?e)) ?t q
      = Inr (add_parts (ranges p) (fingerprints p) (itemSets p) q)" for q
    using o(2) unfolding decodes_def buf_def by (metis append_assoc)
  have "deltaDecode dec buf = Inr p"
    using o(3) 1 2 3 4 by (simp add: deltaDecode_def buf_def [symmetric] add_parts_def empty_ranges_def)
      (simp add: buf_def)
  then show ?thesis using run by blast
qed

definition sample_payload :: RangesData where
  "sample_payload = \<lparr>rd_pubsubTopics = [''t''], rd_contentTopics = [],
     ranges = [((sample 1, sample 9), FingerprintRange)], fingerprints = [EmptyFingerprint], itemSets = []\<rparr>"

lemma leb_enc_small: "n < 128 \<Longrightarrow> leb_enc n = [word_of_nat n]"
  by (simp add: leb_enc.simps [of n])

theorem deltaEncode_roundtrip_witness:
  "\<exists>buf. deltaEncode leb_enc sample_payload = Inr buf \<and> deltaDecode leb_dec buf = Inr sample_payload"
proof (rule deltaEncode_roundtrip [OF leb128_instance])
  show "encodable sample_payload"
    by (simp add: encodable_def sample_payload_def bounds_encodable_def parts_encodable_def sample_def)
  fix buf
  assume "deltaEncode leb_enc sample_payload = Inr buf"
  then show "length buf < 2 ^ 63"
    by (auto simp: deltaEncode_def sample_payload_def encode_topics_def u64_diff_def leb_enc_small sample_def
        Let_def topic_bytes_def)
qed

text \<open>
  Whatever bytes a peer sends, the decoder ends, and a payload it returns has ordered bounds
  and one fingerprint or item set per range of that kind, which is what the storage needs; it can
  be stopped by an overflow of a sum, but by no other defect.
\<close>

lemma deltaDecode_results:
  assumes "leb128 enc dec"
  shows "(\<forall>p. deltaDecode dec buffer = Inr p \<longrightarrow> payload_ok p)
    \<and> (\<forall>d. deltaDecode dec buffer = Inl (Defect d) \<longrightarrow> d = OverflowDefect)"
  using deltaDecode_ok deltaDecode_overflow_only [OF assms] by (auto simp: overflow_only_def)

lemma deltaDecode_results_example:
  "\<nexists>d. deltaDecode leb_dec [1, 2, 3] = Inl (Defect d) \<and> d \<noteq> OverflowDefect"
  using deltaDecode_results [OF leb128_instance, of "[1, 2, 3]"] by blast

text \<open>
  Two short messages the decoder does not withstand: a topic of length \<open>2 ^ 63 - 1\<close> overflows
  the index, which is a defect, and a topic count \<open>n\<close> followed by nine bytes of an unfinished
  integer makes it append \<open>n\<close> empty topics without reading on.
\<close>

lemma deltaDecode_hostile:
  assumes "leb128 enc dec" "n < 2 ^ 63"
  shows "deltaDecode dec (enc 1 @ enc (2 ^ 63 - 1) @ replicate 9 0) = Inl (Defect OverflowDefect)
    \<and> getTopics dec 0 (enc n @ replicate 9 128) = Inr (replicate n [], length (enc n))"
proof
  let ?m = "2 ^ 63 - 1 :: nat"
  have p: "1 \<le> length (enc 1)" "length (enc ?m) \<le> 9" "1 \<le> length (enc ?m)"
    using leb_pos [OF assms(1), of 1] leb_pos [OF assms(1), of ?m] by simp_all
  define buf where "buf = enc 1 @ enc ?m @ replicate 9 (0 :: byte)"
  have 1: "dec (take 9 (drop 0 buf)) = (1, length (enc 1))"
    using leb_at [OF assms(1), of 1 "[]" "enc ?m @ replicate 9 0"] by (simp add: buf_def)
  have 2: "dec (take 9 (drop (length (enc 1)) buf)) = (?m, length (enc ?m))"
    using leb_at [OF assms(1), of ?m "enc 1" "replicate 9 0"] by (simp add: buf_def)
  have l: "length buf = length (enc 1) + length (enc ?m) + 9" by (simp add: buf_def)
  have "add_int64 (int (length (enc 1) + length (enc ?m))) (int ?m) = Inl (Defect OverflowDefect)"
    using p by (simp add: add_int64_def int64_def)
  then have "topics_loop dec (Suc 0) 0 (length (enc 1)) buf [] = Inl (Defect OverflowDefect)"
    using 2 l p by (simp add: to_int64_def)
  then have "getTopics dec 0 buf = Inl (Defect OverflowDefect)"
    using 1 l p by (simp add: getTopics_def to_int64_def)
  then show "deltaDecode dec (enc 1 @ enc (2 ^ 63 - 1) @ replicate 9 0) = Inl (Defect OverflowDefect)"
    using l p by (simp add: deltaDecode_def buf_def)
next
  define buf where "buf = enc n @ replicate 9 (128 :: byte)"
  have s: "dec (take 9 (drop (length (enc n)) buf)) = (0, 0)"
    using assms(1) by (simp add: buf_def leb128_def)
  have l: "length buf = length (enc n) + 9" by (simp add: buf_def)
  have z: "add_int64 (int (length (enc n))) 0 = Inr (int (length (enc n)))"
    using leb_pos [OF assms] unfolding add_int64_eq_Inr by (simp add: is_int64_def)
  have "topics_loop dec k i (length (enc n)) buf acc = Inr (acc @ replicate k [], length (enc n))" for k i acc
  proof (induction k arbitrary: i acc)
    case (Suc k)
    then show ?case
      using s l z by (simp add: to_int64_def bytes_topic_def replicate_append_same [symmetric])
  qed simp
  moreover have "dec (take 9 (drop 0 buf)) = (n, length (enc n))"
    using leb_at [OF assms, of "[]" "replicate 9 128"] by (simp add: buf_def)
  ultimately show "getTopics dec 0 (enc n @ replicate 9 128) = Inr (replicate n [], length (enc n))"
    using l assms(2) by (simp add: getTopics_def to_int64_def buf_def [symmetric])
qed

lemma deltaDecode_hostile_example:
  "deltaDecode leb_dec (leb_enc 1 @ leb_enc (2 ^ 63 - 1) @ replicate 9 0) = Inl (Defect OverflowDefect)
    \<and> getTopics leb_dec 0 (leb_enc 5 @ replicate 9 128) = Inr (replicate 5 [], 1)"
  using deltaDecode_hostile [OF leb128_instance, of 5] by (simp add: leb_enc_small)

end
