(* ===== verification/SyncSession.thy ===== *)
theory SyncSession
  imports SyncCodec
begin

text \<open>
  The reconciliation and transfer protocols, \<open>waku/waku_store_sync/reconciliation.nim\<close> and
  \<open>waku/waku_store_sync/transfer.nim\<close>. A session is the list of what its connection delivers: each
  read is a buffer or an error, each write succeeds or fails. Queues are the lists of what was put
  into them. The current time, the message hash, the archive and the dialling of peers are
  parameters. A hash set of topics is a list in the order its iteration gives.
\<close>

section \<open>Reconciliation\<close>

record message =
  msg_payload :: "byte list"
  msg_contentTopic :: string
  msg_timestamp :: Timestamp
  msg_ephemeral :: bool

record 'peer SyncReconciliation =
  rc_pubsubTopics :: "string list"
  rc_contentTopics :: "string list"
  storage :: SeqStorage
  localWantsTx :: "'peer list"
  remoteNeedsTx :: "('peer \<times> Fingerprint) list"
  syncRange :: int
  relayJitter :: int

definition messageIngress_id ::
  "(nat set \<Rightarrow> nat) \<Rightarrow> SyncID \<Rightarrow> string \<Rightarrow> string \<Rightarrow> 'p SyncReconciliation \<Rightarrow> 'p SyncReconciliation" where
  "messageIngress_id pick sid pubsubTopic contentTopic self =
     self\<lparr>storage := storage_insert pick sid pubsubTopic contentTopic (storage self)\<rparr>"

definition messageIngress_hash ::
  "(nat set \<Rightarrow> nat) \<Rightarrow> Fingerprint \<Rightarrow> string \<Rightarrow> message \<Rightarrow> 'p SyncReconciliation \<Rightarrow> 'p SyncReconciliation"
where
  "messageIngress_hash pick msgHash pubsubTopic msg self =
     (if msg_ephemeral msg then self
      else messageIngress_id pick (SyncID (msg_timestamp msg) msgHash) pubsubTopic (msg_contentTopic msg) self)"

definition messageIngress ::
  "(string \<Rightarrow> message \<Rightarrow> Fingerprint) \<Rightarrow> (nat set \<Rightarrow> nat) \<Rightarrow> string \<Rightarrow> message \<Rightarrow> 'p SyncReconciliation
     \<Rightarrow> 'p SyncReconciliation" where
  "messageIngress computeMessageHash pick pubsubTopic msg self =
     (if msg_ephemeral msg then self
      else messageIngress_id pick (SyncID (msg_timestamp msg) (computeMessageHash pubsubTopic msg))
             pubsubTopic (msg_contentTopic msg) self)"

text \<open>The topic scope: the intersection where both sides name topics, else the one that is named.\<close>

definition topic_scope :: "string list \<Rightarrow> string list \<Rightarrow> string list option" where
  "topic_scope ours theirs =
     (if theirs \<noteq> [] \<and> ours \<noteq> [] then
        (let both = filter (\<lambda>t. t \<in> set theirs) ours in if length both < 1 then None else Some both)
      else if ours \<noteq> [] then Some ours
      else Some theirs)"

text \<open>
  The loop over the ranges of \<open>preProcessPayload\<close>, with the ranges before the index in \<open>done\<close>: it
  passes over every range that is not a skip, and ends at a skip that is not older than our bound.
\<close>

fun skip_loop ::
  "Timestamp \<Rightarrow> (bounds \<times> RangeType) list \<Rightarrow> (bounds \<times> RangeType) list \<Rightarrow> RangesData \<Rightarrow> RangesData" where
  "skip_loop selfLowerBound passed [] payload = payload\<lparr>ranges := passed\<rparr>"
| "skip_loop selfLowerBound passed ((b, t) # rs) payload =
     (if t \<noteq> Skip then skip_loop selfLowerBound (passed @ [(b, t)]) rs payload
      else if id_time (snd b) < selfLowerBound then
        skip_loop selfLowerBound (passed @ [(b, Skip)]) rs
          (if t = FingerprintRange then payload\<lparr>fingerprints := tl (fingerprints payload)\<rparr>
           else if t = ItemSetRange then payload\<lparr>itemSets := tl (itemSets payload)\<rparr>
           else payload)
      else payload\<lparr>ranges := passed @ (b, t) # rs\<rparr>)"

definition preProcessPayload ::
  "int \<Rightarrow> RangesData \<Rightarrow> 'p SyncReconciliation \<Rightarrow> defect + RangesData option" where
  "preProcessPayload now payload self =
     (case topic_scope (rc_pubsubTopics self) (rd_pubsubTopics payload) of
        None \<Rightarrow> Inr None
      | Some ps \<Rightarrow>
          (case topic_scope (rc_contentTopics self) (rd_contentTopics payload) of
             None \<Rightarrow> Inr None
           | Some cs \<Rightarrow>
               rbind (calculateTimeRange now (relayJitter self) (syncRange self)) (\<lambda>(lo, hi).
               Inr (Some (skip_loop lo [] (ranges payload)
                 (payload\<lparr>rd_pubsubTopics := ps, rd_contentTopics := cs\<rparr>))))))"

text \<open>One iteration of \<open>processRequest\<close> on a buffer that was read.\<close>

datatype round =
    Break
  | Reply "byte list" bool
  | Fail string

definition all_skip :: "RangesData \<Rightarrow> bool" where
  "all_skip d \<longleftrightarrow> ranges d = [] \<or> (\<forall>r \<in> set (ranges d). snd r = Skip)"

definition lift_defect :: "defect + 'a \<Rightarrow> failure + 'a" where
  "lift_defect r = (case r of Inl d \<Rightarrow> Inl (Defect d) | Inr x \<Rightarrow> Inr x)"

definition process_round ::
  "(nat \<Rightarrow> byte list) \<Rightarrow> (byte list \<Rightarrow> nat \<times> nat) \<Rightarrow> int \<Rightarrow> 'p \<Rightarrow> byte list \<Rightarrow> 'p SyncReconciliation
     \<Rightarrow> defect + round \<times> 'p SyncReconciliation" where
  "process_round enc dec now peer buffer self =
     (case deltaDecode dec buffer of
        Inl (Defect d) \<Rightarrow> Inl d
      | Inl _ \<Rightarrow> Inr (Fail ''payload decoding error'', self)
      | Inr recvPayload \<Rightarrow>
          if all_skip recvPayload then Inr (Break, self)
          else
            rbind (preProcessPayload now recvPayload self) (\<lambda>pre.
            case pre of
              None \<Rightarrow> Inr (Reply [] False, self)
            | Some payload \<Rightarrow>
                rbind (processPayload payload (storage self) [] []) (\<lambda>(hashToSend, hashToRecv, out).
                let sendPayload = out\<lparr>rd_pubsubTopics := rc_pubsubTopics self,
                                      rd_contentTopics := rc_contentTopics self\<rparr> in
                rbind (deltaEncode enc sendPayload) (\<lambda>rawPayload.
                Inr (Reply rawPayload (\<not> all_skip sendPayload),
                     self\<lparr>remoteNeedsTx := remoteNeedsTx self @ map (\<lambda>h. (peer, h)) hashToSend\<rparr>)))))"

text \<open>
  The loop over the reads of a connection, each with the result of the write that may follow. The
  first and the last signal of a session go to the transfer protocol; the error returns skip the
  last. \<open>Waiting\<close> is a session whose connection has not delivered more.
\<close>

datatype session = Ended | Failed string | Waiting

fun session_loop ::
  "(nat \<Rightarrow> byte list) \<Rightarrow> (byte list \<Rightarrow> nat \<times> nat) \<Rightarrow> int \<Rightarrow> 'p \<Rightarrow> (byte list option \<times> bool) list
     \<Rightarrow> 'p SyncReconciliation \<Rightarrow> defect + session \<times> 'p SyncReconciliation" where
  "session_loop enc dec now peer [] self = Inr (Waiting, self)"
| "session_loop enc dec now peer ((None, w) # io) self = Inr (Failed ''connection read error'', self)"
| "session_loop enc dec now peer ((Some buffer, w) # io) self =
     rbind (process_round enc dec now peer buffer self) (\<lambda>(r, self).
     case r of
       Break \<Rightarrow> Inr (Ended, self)
     | Fail e \<Rightarrow> Inr (Failed e, self)
     | Reply raw again \<Rightarrow>
         (if \<not> w then Inr (Failed ''connection write error'', self)
          else if again then session_loop enc dec now peer io self
          else Inr (Ended, self)))"

definition signal_transfer :: "'p \<Rightarrow> 'p SyncReconciliation \<Rightarrow> 'p SyncReconciliation" where
  "signal_transfer peer self = self\<lparr>localWantsTx := localWantsTx self @ [peer]\<rparr>"

definition processRequest ::
  "(nat \<Rightarrow> byte list) \<Rightarrow> (byte list \<Rightarrow> nat \<times> nat) \<Rightarrow> int \<Rightarrow> 'p \<Rightarrow> (byte list option \<times> bool) list
     \<Rightarrow> 'p SyncReconciliation \<Rightarrow> defect + session \<times> 'p SyncReconciliation" where
  "processRequest enc dec now peer io self =
     rbind (session_loop enc dec now peer io (signal_transfer peer self)) (\<lambda>(r, self).
     Inr (r, if r = Ended then signal_transfer peer self else self))"

text \<open>The first payload of a session we start; a failed write ends it.\<close>

definition initiate ::
  "(nat \<Rightarrow> byte list) \<Rightarrow> (byte list \<Rightarrow> nat \<times> nat) \<Rightarrow> int \<Rightarrow> 'p \<Rightarrow> int \<Rightarrow> int \<Rightarrow> string list \<Rightarrow> string list
     \<Rightarrow> bool \<Rightarrow> (byte list option \<times> bool) list \<Rightarrow> 'p SyncReconciliation
     \<Rightarrow> defect + byte list \<times> session \<times> 'p SyncReconciliation" where
  "initiate enc dec now peer offset rng ps cs w io self =
     rbind (calculateTimeRange now offset rng) (\<lambda>(lo, hi).
     let bnds = (SyncID lo EmptyFingerprint, SyncID hi FullFingerprint) in
     rbind (computeFingerprint bnds ps cs (storage self)) (\<lambda>fp.
     rbind (deltaEncode enc \<lparr>rd_pubsubTopics = ps, rd_contentTopics = cs,
              ranges = [(bnds, FingerprintRange)], fingerprints = [fp], itemSets = []\<rparr>) (\<lambda>sendPayload.
     if \<not> w then Inr (sendPayload, Failed ''connection write error'', self)
     else rbind (processRequest enc dec now peer io self) (\<lambda>(r, self). Inr (sendPayload, r, self)))))"

definition periodicPrune :: "int \<Rightarrow> 'p SyncReconciliation \<Rightarrow> defect + nat \<times> 'p SyncReconciliation" where
  "periodicPrune now self =
     rbind (int64 (now - syncRange self)) (\<lambda>time.
     case prune time (storage self) of (n, s) \<Rightarrow> Inr (n, self\<lparr>storage := s\<rparr>))"

section \<open>Transfer\<close>

record 'peer SyncTransfer =
  idsTx :: "(SyncID \<times> string \<times> string) list"
  inSessions :: "'peer set"
  outSessions :: "'peer set"
  sent :: "('peer \<times> string \<times> message) list"

text \<open>\<open>wantsReceiverLoop\<close> toggles the peer of each signal.\<close>

fun wantsReceiverLoop :: "'p list \<Rightarrow> 'p SyncTransfer \<Rightarrow> 'p SyncTransfer" where
  "wantsReceiverLoop [] self = self"
| "wantsReceiverLoop (peer # ps) self =
     wantsReceiverLoop ps
       (if peer \<in> inSessions self then self\<lparr>inSessions := inSessions self - {peer}\<rparr>
        else self\<lparr>inSessions := insert peer (inSessions self)\<rparr>)"

text \<open>
  One request of \<open>needsReceiverLoop\<close>: \<open>dial\<close> says whether the connection opens, \<open>closed\<close> whether the
  one we have was closed, \<open>findMessages\<close> is the archive and \<open>w\<close> the result of the write.
\<close>

definition needs_step ::
  "('p \<Rightarrow> bool) \<Rightarrow> ('p \<Rightarrow> bool) \<Rightarrow> (Fingerprint \<Rightarrow> string + (string \<times> message) list) \<Rightarrow> bool
     \<Rightarrow> 'p \<times> Fingerprint \<Rightarrow> 'p SyncTransfer \<Rightarrow> 'p SyncTransfer" where
  "needs_step dial closed findMessages w req self =
     (case req of (peer, fp) \<Rightarrow>
        let reopen = (peer \<notin> outSessions self \<or> closed peer) in
        if reopen \<and> \<not> dial peer then self
        else
          (let self = self\<lparr>outSessions := insert peer (outSessions self)\<rparr> in
           case findMessages fp of
             Inl e \<Rightarrow> self
           | Inr [] \<Rightarrow> self
           | Inr ((topic, msg) # _) \<Rightarrow>
               (if \<not> w then self\<lparr>outSessions := outSessions self - {peer}\<rparr>
                else self\<lparr>sent := sent self @ [(peer, topic, msg)]\<rparr>)))"

text \<open>A message received by the transfer handler; \<open>archived\<close> is the result of storing it.\<close>

definition transfer_received ::
  "(string \<Rightarrow> message \<Rightarrow> Fingerprint) \<Rightarrow> bool \<Rightarrow> (string \<times> message) option \<Rightarrow> 'p SyncTransfer \<Rightarrow> 'p SyncTransfer"
where
  "transfer_received computeMessageHash archived payload self =
     (case payload of
        None \<Rightarrow> self
      | Some (pubsub, msg) \<Rightarrow>
          (if \<not> archived then self
           else self\<lparr>idsTx := idsTx self
                  @ [(SyncID (msg_timestamp msg) (computeMessageHash pubsub msg), pubsub, msg_contentTopic msg)]\<rparr>))"

section \<open>Rounds\<close>

lemma skip_loop_unchanged: "skip_loop lo passed rs payload = payload\<lparr>ranges := passed @ rs\<rparr>"
  by (induction lo passed rs payload rule: skip_loop.induct) auto

lemma preProcess_payload:
  assumes "preProcessPayload now payload self = Inr (Some p)"
  shows "ranges p = ranges payload \<and> fingerprints p = fingerprints payload \<and> itemSets p = itemSets payload"
  using assms
  by (auto simp: preProcessPayload_def rbind_eq_Inr skip_loop_unchanged split: option.splits prod.splits)

lemma preProcess_ok:
  "preProcessPayload now payload self = Inr (Some p) \<Longrightarrow> payload_ok payload \<Longrightarrow> payload_ok p"
  using preProcess_payload by (fastforce simp: payload_ok_def)

lemma preProcess_overflow:
  assumes "preProcessPayload now payload self = Inl d"
  shows "d = OverflowDefect"
  using assms
  by (auto simp: preProcessPayload_def calculateTimeRange_def rbind_eq_Inl int64_def
      split: option.splits if_splits)

lemma encode_ranges_ok:
  "count_type FingerprintRange rs = length fps \<Longrightarrow> count_type ItemSetRange rs = length sets
    \<Longrightarrow> \<exists>out. encode_ranges enc lh lt rs fps sets = Inr out"
proof (induction rs arbitrary: lt fps sets)
  case (Cons r rs)
  obtain b t where r: "r = (b, t)" by (cases r)
  show ?case
  proof (cases t)
    case Skip
    then show ?thesis using Cons.IH [of fps sets "id_time (snd b)"] Cons.prems by (auto simp: r Let_def)
  next
    case FingerprintRange
    then obtain f fps' where f: "fps = f # fps'" using Cons.prems(1) by (cases fps) (auto simp: r)
    then show ?thesis
      using Cons.IH [of fps' sets "id_time (snd b)"] Cons.prems FingerprintRange by (auto simp: r Let_def)
  next
    case ItemSetRange
    then obtain i sets' where f: "sets = i # sets'" using Cons.prems(2) by (cases sets) (auto simp: r)
    then show ?thesis
      using Cons.IH [of fps sets' "id_time (snd b)"] Cons.prems ItemSetRange by (auto simp: r Let_def)
  qed
qed simp

lemma deltaEncode_ok:
  assumes "payload_ok p"
  shows "\<exists>buf. deltaEncode enc p = Inr buf"
proof (cases "ranges p")
  case (Cons r rs)
  obtain b t where r: "r = (b, t)" by (cases r)
  obtain out where "encode_ranges enc (id_hash (fst b)) (id_time (fst b)) (ranges p) (fingerprints p)
      (itemSets p) = Inr out"
    using encode_ranges_ok assms unfolding payload_ok_def by blast
  then show ?thesis by (simp add: deltaEncode_def Cons r del: encode_ranges.simps)
qed (simp add: deltaEncode_def)

text \<open>Only hashes of stored elements are offered.\<close>

definition offers :: "SeqStorage \<Rightarrow> Fingerprint list \<Rightarrow> bool" where
  "offers s hs \<longleftrightarrow> set hs \<subseteq> id_hash ` set (elements s)"

lemma offers_simps [simp]:
  "offers s []" "offers s (xs @ ys) \<longleftrightarrow> offers s xs \<and> offers s ys"
  "offers s [id_hash e] \<longleftrightarrow> id_hash e \<in> id_hash ` set (elements s)"
  by (auto simp: offers_def)

lemma diff_loop_offers:
  "offers s S \<Longrightarrow> fst ` set rs \<subseteq> set (elements s) \<Longrightarrow> offers s (fst (diff_loop pset cset rs theirs S R))"
proof (induction pset cset rs theirs S R rule: diff_loop.induct)
  case (2 pset cset e p c ours theirs S R)
  then show ?case by (cases theirs) (auto simp: offers_def)
qed simp

lemma processItemSetRange_offers:
  assumes "offers s S"
  shows "offers s (fst (processItemSetRange b pset cset i s (S, R, out)))"
proof (cases "findIdxBounds b s")
  case None
  then show ?thesis using assms by (simp add: processItemSetRange_def)
next
  case (Some sl)
  have "fst ` set (slice_rows sl s) \<subseteq> set (elements s)"
    using rows_in_elements by (auto simp: slice_rows_def dest!: in_set_takeD in_set_dropD)
  then have "offers s (fst (diff_loop pset cset (slice_rows sl s) (elements_of i) S R))"
    by (rule diff_loop_offers [OF assms])
  then show ?thesis by (auto simp: processItemSetRange_def Some split: prod.split)
qed

lemma process_ranges_offers:
  "process_ranges pset cset s rs fps sets (S, R, out) = Inr (S', R', out') \<Longrightarrow> offers s S \<Longrightarrow> offers s S'"
proof (induction rs arbitrary: fps sets S R out)
  case (Cons r rs)
  obtain b t where r: "r = (b, t)" by (cases r)
  show ?case
  proof (cases t)
    case Skip
    then show ?thesis using Cons by (simp add: r)
  next
    case FingerprintRange
    then show ?thesis using Cons by (cases fps) (auto simp: r rbind_eq_Inr)
  next
    case ItemSetRange
    then obtain i sets' where i: "sets = i # sets'" using Cons.prems(1) by (cases sets) (auto simp: r)
    obtain S1 R1 o1 where p: "processItemSetRange b pset cset i s (S, R, out) = (S1, R1, o1)"
      by (metis prod_cases3)
    have "offers s S1" using processItemSetRange_offers [OF Cons.prems(2), of b pset cset i R out] p by simp
    then show ?thesis using Cons.IH Cons.prems(1) ItemSetRange by (simp add: r i p)
  qed
qed simp

lemma processPayload_offers:
  assumes "processPayload p s [] [] = Inr (S', R', out)"
  shows "offers s S'"
proof -
  obtain S1 R1 o1 where r: "process_ranges (topic_set (rd_pubsubTopics p) (pubsubTopics s))
      (topic_set (rd_contentTopics p) (contentTopics s)) s (ranges p) (fingerprints p) (itemSets p)
      ([], [], empty_ranges) = Inr (S1, R1, o1)"
    using assms by (auto simp: processPayload_def rbind_eq_Inr)
  have "S1 = S'" using assms by (auto simp: processPayload_def r split: prod.splits)
  then show ?thesis using process_ranges_offers [OF r] by simp
qed

definition needs_ok :: "'p SyncReconciliation \<Rightarrow> bool" where
  "needs_ok self \<longleftrightarrow> offers (storage self) (map snd (remoteNeedsTx self))"

lemma process_round_safe:
  assumes "leb128 enc dec" "wf_storage (storage self)" "0 < partitionCount (storage self)"
  shows "process_round enc dec now peer buffer self = Inl d \<Longrightarrow> d = OverflowDefect"
    and "process_round enc dec now peer buffer self = Inr (r, self') \<Longrightarrow>
      storage self' = storage self \<and> (needs_ok self \<longrightarrow> needs_ok self')"
proof -
  have main: "(\<forall>d. process_round enc dec now peer buffer self = Inl d \<longrightarrow> d = OverflowDefect)
      \<and> (\<forall>r self'. process_round enc dec now peer buffer self = Inr (r, self') \<longrightarrow>
        storage self' = storage self \<and> (needs_ok self \<longrightarrow> needs_ok self'))"
  proof (cases "deltaDecode dec buffer")
    case (Inl f)
    then show ?thesis
      using deltaDecode_overflow_only [OF assms(1), of buffer]
      by (cases f) (auto simp: process_round_def overflow_only_def)
  next
    case (Inr p)
    note ok = deltaDecode_ok [OF Inr]
    show ?thesis
    proof (cases "all_skip p \<or> (\<exists>d. preProcessPayload now p self = Inl d)
        \<or> preProcessPayload now p self = Inr None")
      case True
      then show ?thesis using preProcess_overflow by (auto simp: process_round_def Inr)
    next
      case False
      then obtain q where q: "preProcessPayload now p self = Inr (Some q)" and n: "\<not> all_skip p"
        by (cases "preProcessPayload now p self") auto
      obtain S' R' out where o: "processPayload q (storage self) [] [] = Inr (S', R', out)" "payload_ok out"
        using processPayload_answers_aux [OF assms(2,3) preProcess_ok [OF q ok]] by blast
      have "payload_ok (out\<lparr>rd_pubsubTopics := x, rd_contentTopics := y\<rparr>)" for x y
        using o(2) by (simp add: payload_ok_def)
      then obtain buf where "deltaEncode enc (out\<lparr>rd_pubsubTopics := rc_pubsubTopics self,
          rd_contentTopics := rc_contentTopics self\<rparr>) = Inr buf"
        using deltaEncode_ok by blast
      then show ?thesis
        using processPayload_offers [OF o(1)]
        by (auto simp: process_round_def Inr n q o(1) needs_ok_def comp_def)
    qed
  qed
  then show "process_round enc dec now peer buffer self = Inl d \<Longrightarrow> d = OverflowDefect"
    "process_round enc dec now peer buffer self = Inr (r, self') \<Longrightarrow>
      storage self' = storage self \<and> (needs_ok self \<longrightarrow> needs_ok self')" by blast+
qed

lemma process_round_wants:
  "process_round enc dec now peer buffer self = Inr (r, self') \<Longrightarrow> localWantsTx self' = localWantsTx self"
  by (auto simp: process_round_def rbind_eq_Inr Let_def
      split: sum.split_asm failure.split_asm if_split_asm option.split_asm)

lemma session_loop_wants:
  "session_loop enc dec now peer io self = Inr (r, self') \<Longrightarrow> localWantsTx self' = localWantsTx self"
proof (induction io arbitrary: self)
  case (Cons x io)
  obtain rd w where x: "x = (rd, w)" by (cases x)
  show ?case
  proof (cases rd)
    case None
    then show ?thesis using Cons.prems by (simp add: x)
  next
    case (Some buffer)
    obtain rn s1 where p: "process_round enc dec now peer buffer self = Inr (rn, s1)"
      using Cons.prems by (auto simp: x Some rbind_eq_Inr)
    show ?thesis
      using Cons.IH [of s1] Cons.prems process_round_wants [OF p]
      by (cases rn) (auto simp: x Some p split: if_splits)
  qed
qed simp

lemma session_loop_safe:
  assumes "leb128 enc dec"
  shows "wf_storage (storage self) \<Longrightarrow> 0 < partitionCount (storage self) \<Longrightarrow>
      (\<forall>d. session_loop enc dec now peer io self = Inl d \<longrightarrow> d = OverflowDefect)
      \<and> (\<forall>r self'. session_loop enc dec now peer io self = Inr (r, self') \<longrightarrow>
          storage self' = storage self \<and> (needs_ok self \<longrightarrow> needs_ok self')
          \<and> localWantsTx self' = localWantsTx self)"
proof (induction io arbitrary: self)
  case (Cons x io)
  obtain rd w where x: "x = (rd, w)" by (cases x)
  show ?case
  proof (cases rd)
    case None
    then show ?thesis by (simp add: x)
  next
    case (Some buffer)
    note safe = process_round_safe [OF assms Cons.prems, of now peer buffer]
    show ?thesis
    proof (cases "process_round enc dec now peer buffer self")
      case (Inl d)
      then show ?thesis using safe(1) by (simp add: x Some)
    next
      case (Inr r)
      obtain rn s1 where r: "r = (rn, s1)" by (cases r)
      have s1: "storage s1 = storage self" "needs_ok self \<longrightarrow> needs_ok s1" "localWantsTx s1 = localWantsTx self"
        using safe(2) [OF Inr [unfolded r]] process_round_wants [OF Inr [unfolded r]] by simp_all
      show ?thesis
        using Cons.IH [of s1] Cons.prems s1 by (cases rn) (auto simp: x Some Inr r)
    qed
  qed
qed simp

section \<open>Properties\<close>

text \<open>
  C22. Whatever a peer sends, over however many rounds, a session either is stopped by an overflow
  or returns; it never changes the storage, and it only offers hashes of elements we hold.
\<close>

theorem processRequest_safe:
  assumes "leb128 enc dec" "wf_storage (storage self)" "0 < partitionCount (storage self)" "remoteNeedsTx self = []"
  shows "(\<exists>r self'. processRequest enc dec now peer io self = Inr (r, self')
        \<and> storage self' = storage self
        \<and> snd ` set (remoteNeedsTx self') \<subseteq> id_hash ` set (elements (storage self)))
    \<or> processRequest enc dec now peer io self = Inl OverflowDefect"
proof -
  let ?s = "signal_transfer peer self"
  have s: "storage ?s = storage self" "needs_ok ?s" using assms(4) by (simp_all add: signal_transfer_def needs_ok_def)
  note safe = session_loop_safe [OF assms(1), of ?s now peer io] assms(2,3) s
  show ?thesis
  proof (cases "session_loop enc dec now peer io ?s")
    case (Inl d)
    then show ?thesis using safe by (simp add: processRequest_def)
  next
    case (Inr x)
    obtain r s1 where x: "x = (r, s1)" by (cases x)
    have s1: "storage s1 = storage self" "needs_ok s1" using safe Inr x by simp_all
    have "processRequest enc dec now peer io self = Inr (r, if r = Ended then signal_transfer peer s1 else s1)"
      by (simp add: processRequest_def Inr x)
    then show ?thesis using s1 by (auto simp: needs_ok_def offers_def signal_transfer_def)
  qed
qed

definition sample_node :: "nat SyncReconciliation" where
  "sample_node = \<lparr>rc_pubsubTopics = [], rc_contentTopics = [],
     storage = storage_insert Min (sample 1) ''p'' ''c'' (new_storage 100 8), localWantsTx = [],
     remoteNeedsTx = [], syncRange = 3600, relayJitter = 20\<rparr>"

theorem processRequest_safe_witness:
  "\<exists>x. (processRequest leb_enc leb_dec 5 7 [(Some [1, 2, 3], True)] sample_node = Inr x)
    \<or> (processRequest leb_enc leb_dec 5 7 [(Some [1, 2, 3], True)] sample_node = Inl OverflowDefect)"
proof -
  have w: "wf_storage (storage sample_node)"
    unfolding sample_node_def by simp (rule storage_insert_wf, simp_all add: picks_Min)
  have p: "0 < partitionCount (storage sample_node)" unfolding sample_node_def insert_one by simp
  have n: "remoteNeedsTx sample_node = []" by (simp add: sample_node_def)
  show ?thesis using processRequest_safe [OF leb128_instance w p n, of 5 7 "[(Some [1, 2, 3], True)]"] by blast
qed

text \<open>
  The preprocessing narrows the topics of a payload to the scope of both sides, and leaves its
  ranges, fingerprints and item sets alone, also where they are older than what we synchronise
  (which its comments say become skips).
\<close>

lemma preProcessPayload_only_topics:
  assumes "preProcessPayload now payload self = Inr (Some p)"
  shows "ranges p = ranges payload \<and> fingerprints p = fingerprints payload \<and> itemSets p = itemSets payload
    \<and> set (rd_pubsubTopics p) =
       (if rc_pubsubTopics self = [] then set (rd_pubsubTopics payload)
        else if rd_pubsubTopics payload = [] then set (rc_pubsubTopics self)
        else set (rc_pubsubTopics self) \<inter> set (rd_pubsubTopics payload))"
  using assms
  by (auto simp: preProcessPayload_def rbind_eq_Inr skip_loop_unchanged topic_scope_def Let_def
      split: option.splits prod.splits if_splits)

lemma preProcessPayload_only_topics_example:
  "\<exists>p. preProcessPayload 100 sample_payload (sample_node\<lparr>syncRange := 10\<rparr>) = Inr (Some p)
    \<and> ranges p = [((sample 1, sample 9), FingerprintRange)]"
proof -
  obtain p where p: "preProcessPayload 100 sample_payload (sample_node\<lparr>syncRange := 10\<rparr>) = Inr (Some p)"
    by (simp add: preProcessPayload_def sample_node_def topic_scope_def sample_payload_def
        calculateTimeRange_def int64_def)
  then show ?thesis using preProcessPayload_only_topics [OF p] by (simp add: sample_payload_def)
qed

text \<open>
  C24. Two nodes that compare a range by item sets agree on it: the first sends its view, the second
  answers with its own and offers exactly what the first lacks, the first then skips the range and
  offers exactly what the second lacks.
\<close>

theorem item_set_exchange:
  assumes "wf_storage sA" "wf_storage sB" "fst b \<le> snd b"
    and "processItemSetRange b {} {} \<lparr>elements_of = view b {} {} sA, reconciled = False\<rparr> sB ([], [], empty_ranges)
          = (sendB, recvB, outB)"
    and "processItemSetRange b {} {} (hd (itemSets outB)) sA ([], [], empty_ranges) = (sendA, recvA, outA)"
  shows "ranges outB = [(b, ItemSetRange)] \<and> ranges outA = [(b, Skip)]
    \<and> set sendB = id_hash ` (set (view b {} {} sB) - set (view b {} {} sA))
    \<and> set sendA = id_hash ` (set (view b {} {} sA) - set (view b {} {} sB))"
proof -
  note sorted = view_sorted [OF assms(1), of b "{}" "{}"] view_sorted [OF assms(2), of b "{}" "{}"]
  have B: "sendB = map id_hash (filter (\<lambda>e. e \<notin> set (view b {} {} sA)) (view b {} {} sB))"
    "outB = add_item_set b (view b {} {} sB) True empty_ranges"
    using processItemSetRange_values [OF assms(2,3), of "\<lparr>elements_of = view b {} {} sA, reconciled = False\<rparr>"
        "{}" "{}" "[]" "[]" empty_ranges] sorted(1) assms(4)
    by (auto simp: Let_def)
  then have i: "hd (itemSets outB) = \<lparr>elements_of = view b {} {} sB, reconciled = True\<rparr>"
    by (simp add: add_item_set_def empty_ranges_def)
  have A: "sendA = map id_hash (filter (\<lambda>e. e \<notin> set (view b {} {} sB)) (view b {} {} sA))"
    "outA = add_range b Skip empty_ranges"
    using processItemSetRange_values [OF assms(1,3), of "\<lparr>elements_of = view b {} {} sB, reconciled = True\<rparr>"
        "{}" "{}" "[]" "[]" empty_ranges] sorted(2) assms(5)
    by (auto simp: Let_def i)
  show ?thesis
    using A B by (auto simp: add_item_set_def add_range_def empty_ranges_def)
qed

theorem item_set_exchange_witness:
  "\<exists>sendB recvB outB. processItemSetRange (sample 1, sample 9) {} {}
      \<lparr>elements_of = view (sample 1, sample 9) {} {} (new_storage 100 8), reconciled = False\<rparr>
      (storage_insert Min (sample 1) ''p'' ''c'' (new_storage 100 8)) ([], [], empty_ranges) = (sendB, recvB, outB)
    \<and> set sendB = {id_hash (sample 1)}"
proof -
  let ?b = "(sample 1, sample 9)" and ?sB = "storage_insert Min (sample 1) ''p'' ''c'' (new_storage 100 8)"
  let ?i = "\<lparr>elements_of = view ?b {} {} (new_storage 100 8), reconciled = False\<rparr>"
  have w: "wf_storage ?sB" by (rule storage_insert_wf) (simp_all add: picks_Min)
  obtain sendB recvB outB where B: "processItemSetRange ?b {} {} ?i ?sB ([], [], empty_ranges) = (sendB, recvB, outB)"
    by (metis prod_cases3)
  obtain sendA recvA outA where A: "processItemSetRange ?b {} {} (hd (itemSets outB)) (new_storage 100 8)
      ([], [], empty_ranges) = (sendA, recvA, outA)" by (metis prod_cases3)
  have v: "view ?b {} {} ?sB = [sample 1]" "view ?b {} {} (new_storage 100 8) = []"
    unfolding insert_one by (simp_all add: view_def rows_def in_bounds_def selected_def)
  show ?thesis
    using item_set_exchange [OF new_storage_wf w _ B A] B v by auto
qed

text \<open>
  Each session that ends signals the transfer protocol twice, and each that fails only once;
  as the transfer protocol toggles on each signal, after a failed session the peer stays marked,
  and during the next session with it the mark is gone.
\<close>

lemma failed_session_inverts_mark:
  assumes "processRequest enc dec now peer io self = Inr (r, self')" "peer \<notin> inSessions t"
  shows "localWantsTx self' = localWantsTx self @ (if r = Ended then [peer, peer] else [peer])
    \<and> inSessions (wantsReceiverLoop (if r = Ended then [peer, peer] else [peer]) t)
        = (if r = Ended then inSessions t else insert peer (inSessions t))
    \<and> peer \<notin> inSessions (wantsReceiverLoop [peer, peer] t)"
proof -
  obtain s1 where s1: "session_loop enc dec now peer io (signal_transfer peer self) = Inr (r, s1)"
    "self' = (if r = Ended then signal_transfer peer s1 else s1)"
    using assms(1) by (auto simp: processRequest_def rbind_eq_Inr)
  have "localWantsTx s1 = localWantsTx self @ [peer]"
    using session_loop_wants [OF s1(1)] by (simp add: signal_transfer_def)
  then show ?thesis using s1(2) assms(2) by (auto simp: signal_transfer_def)
qed

lemma failed_session_inverts_mark_example:
  "\<exists>self'. processRequest leb_enc leb_dec 5 7 [(None, True)] sample_node = Inr (Failed ''connection read error'', self')
    \<and> localWantsTx self' = [7]"
proof -
  let ?t = "\<lparr>idsTx = [], inSessions = {}, outSessions = {}, sent = []\<rparr> :: nat SyncTransfer"
  obtain self' where s: "processRequest leb_enc leb_dec 5 7 [(None, True)] sample_node
      = Inr (Failed ''connection read error'', self')"
    by (simp add: processRequest_def)
  show ?thesis using failed_session_inverts_mark [OF s, of ?t] s by (simp add: sample_node_def)
qed

end
