(* ===== verification/MessageHash.thy ===== *)
theory MessageHash
  imports SyncTypes
begin

text \<open>
  Messages and their hashes, \<open>waku/waku_core/message/message.nim\<close> and
  \<open>waku/waku_core/message/digest.nim\<close>. SHA-256 is an external library and a parameter; a hash is
  the list of its 32 bytes, as in \<open>SyncTypes\<close>. Strings are their bytes.
\<close>

section \<open>Messages\<close>

record WakuMessage =
  payload :: "byte list"
  contentTopic :: string
  meta :: "byte list"
  msg_version :: "32 word"
  timestamp :: Timestamp
  ephemeral :: bool
  msg_proof :: "byte list"

type_synonym WakuMessageHash = Fingerprint

definition EmptyWakuMessageHash :: WakuMessageHash where
  "EmptyWakuMessageHash = [
     0, 0, 0, 0, 0, 0, 0, 0, 0, 0, 0, 0, 0, 0, 0, 0, 0, 0, 0, 0, 0, 0, 0, 0, 0, 0, 0, 0, 0,
     0, 0, 0]"

lemma EmptyWakuMessageHash_fingerprint: "EmptyWakuMessageHash = EmptyFingerprint"
  by (simp add: EmptyWakuMessageHash_def EmptyFingerprint_def numeral_eq_Suc)

section \<open>Hashing\<close>

definition string_bytes :: "string \<Rightarrow> byte list" where
  "string_bytes s = map of_char s"

text \<open>\<open>toBytesBE(uint64(t))\<close>: the conversion to an unsigned number wraps.\<close>

definition toBytesBE :: "Timestamp \<Rightarrow> byte list" where
  "toBytesBE t = map (\<lambda>k. word_of_int (t div 2 ^ (8 * k))) [7, 6, 5, 4, 3, 2, 1, 0]"

text \<open>The successive updates of the hash context.\<close>

definition hash_input :: "string \<Rightarrow> WakuMessage \<Rightarrow> byte list" where
  "hash_input pubsubTopic msg =
     string_bytes pubsubTopic @ payload msg @ string_bytes (contentTopic msg) @ meta msg
       @ toBytesBE (timestamp msg)"

definition computeMessageHash ::
  "(byte list \<Rightarrow> WakuMessageHash) \<Rightarrow> string \<Rightarrow> WakuMessage \<Rightarrow> WakuMessageHash" where
  "computeMessageHash sha256 pubsubTopic msg = sha256 (hash_input pubsubTopic msg)"

text \<open>\<open>copyFrom\<close> copies as many bytes as both sides have.\<close>

definition fromBytes :: "byte list \<Rightarrow> WakuMessageHash" where
  "fromBytes bs = take 32 bs @ replicate (32 - length bs) 0"

text \<open>\<open>hexToSeqByte\<close> is external; it raises on text that is not hexadecimal.\<close>

definition hexToHash :: "(string \<Rightarrow> string + byte list) \<Rightarrow> string \<Rightarrow> string + WakuMessageHash" where
  "hexToHash hexToSeqByte hexString =
     (case hexToSeqByte hexString of
        Inl e \<Rightarrow> Inl (''Exception converting hex string to hash: '' @ e)
      | Inr bs \<Rightarrow> Inr (fromBytes bs))"

lemma fromBytes_length [simp]: "length (fromBytes bs) = 32"
  by (simp add: fromBytes_def)

lemma fromBytes_id [simp]: "length h = 32 \<Longrightarrow> fromBytes h = h"
  by (simp add: fromBytes_def)

lemma toBytesBE_length [simp]: "length (toBytesBE t) = 8"
  by (simp add: toBytesBE_def)

lemma string_bytes_append [simp]: "string_bytes (s @ t) = string_bytes s @ string_bytes t"
  by (simp add: string_bytes_def)

section \<open>What the hash distinguishes\<close>

text \<open>The bytes of a timestamp within \<open>int64\<close> determine it.\<close>

lemma word_of_int_byte: "uint (word_of_int i :: byte) = i mod 256"
  by (simp add: uint_word_of_int)

definition from_be :: "byte list \<Rightarrow> int" where
  "from_be bs = foldl (\<lambda>v b. v * 256 + uint b) 0 bs"

lemma from_be_acc: "foldl (\<lambda>v b. v * 256 + uint b) a bs = a * 256 ^ length bs + from_be bs"
proof (induction bs arbitrary: a)
  case Nil
  then show ?case by (simp add: from_be_def)
next
  case (Cons b bs)
  show ?case
    using Cons.IH [of "a * 256 + uint b"] Cons.IH [of "uint b"]
    by (simp add: from_be_def algebra_simps)
qed

lemma from_be_digits: "from_be (map (\<lambda>k. word_of_int (t div 256 ^ k)) (rev [0..<n])) = t mod 256 ^ n"
proof (induction n)
  case (Suc n)
  have "from_be (map (\<lambda>k. word_of_int (t div 256 ^ k)) (rev [0..<Suc n]))
      = t div 256 ^ n mod 256 * 256 ^ n + from_be (map (\<lambda>k. word_of_int (t div 256 ^ k)) (rev [0..<n]))"
    using from_be_acc [of "t div 256 ^ n mod 256" "map (\<lambda>k. word_of_int (t div 256 ^ k)) (rev [0..<n])"]
    by (simp add: from_be_def word_of_int_byte)
  also have "\<dots> = t mod 256 ^ Suc n"
    using Suc.IH zmod_zmult2_eq [of 256 t "256 ^ n"] by (simp add: mult.commute)
  finally show ?case .
qed (simp add: from_be_def)

lemma from_be_toBytesBE: "from_be (toBytesBE t) = t mod 2 ^ 64"
proof -
  have "toBytesBE t = map (\<lambda>k. word_of_int (t div 256 ^ k)) (rev [0..<8])"
    by (simp add: toBytesBE_def upt_conv_Cons numeral_eq_Suc)
  then show ?thesis using from_be_digits [of t 8] by simp
qed

lemma toBytesBE_inj:
  assumes "is_int64 s" "is_int64 t" "toBytesBE s = toBytesBE t"
  shows "s = t"
proof -
  have "s mod 2 ^ 64 = t mod 2 ^ 64" using assms(3) by (metis from_be_toBytesBE)
  then have "(s - t) mod 2 ^ 64 = 0" by (metis mod_eq_dvd_iff dvd_imp_mod_0)
  moreover have "\<bar>s - t\<bar> < 2 ^ 64" using assms(1,2) by (auto simp: is_int64_def)
  ultimately show ?thesis by (smt (verit) mod_pos_pos_trivial mod_add_self2)
qed

text \<open>With the lengths of the topics, the payload and the meta data fixed, nothing is confused.\<close>

lemma of_char_byte_inj: "(of_char c :: byte) = of_char d \<Longrightarrow> c = d"
  by (metis char_of_byte)

lemma string_bytes_inj: "string_bytes s = string_bytes t \<Longrightarrow> s = t"
proof (induction s arbitrary: t)
  case Nil
  then show ?case by (simp add: string_bytes_def)
next
  case (Cons c s)
  then obtain d t' where t: "t = d # t'" "(of_char c :: byte) = of_char d" "string_bytes s = string_bytes t'"
    by (cases t) (auto simp: string_bytes_def)
  then show ?case using Cons.IH [OF t(3)] of_char_byte_inj [OF t(2)] by simp
qed

lemma hash_input_inj:
  assumes "hash_input p m = hash_input p' m'"
    and "length p = length p'" "length (payload m) = length (payload m')"
    and "length (contentTopic m) = length (contentTopic m')"
    and "is_int64 (timestamp m)" "is_int64 (timestamp m')"
  shows "p = p' \<and> payload m = payload m' \<and> contentTopic m = contentTopic m' \<and> meta m = meta m'
     \<and> timestamp m = timestamp m'"
proof -
  have l: "length (string_bytes x) = length x" for x by (simp add: string_bytes_def)
  from assms(1-4) have
    "string_bytes p = string_bytes p'" "payload m = payload m'"
    "string_bytes (contentTopic m) = string_bytes (contentTopic m')"
    and r: "meta m @ toBytesBE (timestamp m) = meta m' @ toBytesBE (timestamp m')"
    by (simp_all add: hash_input_def l)
  moreover from r have "meta m = meta m'" "toBytesBE (timestamp m) = toBytesBE (timestamp m')"
    by simp_all
  ultimately show ?thesis using string_bytes_inj toBytesBE_inj assms(5,6) by blast
qed

text \<open>The end of one part can be the beginning of the next.\<close>

lemma hash_input_shift:
  "hash_input (p @ s) m = hash_input p (m\<lparr>payload := string_bytes s @ payload m\<rparr>)"
  by (simp add: hash_input_def)

end
