(* ===== verification/Archive.thy ===== *)
theory Archive
  imports MessageHash
begin

text \<open>
  The message archive, \<open>waku/waku_archive/archive.nim\<close>, \<open>common.nim\<close> and \<open>driver.nim\<close>, with the
  paging directions of \<open>waku/common/paging.nim\<close>: validation and storing of messages, and queries by
  pages. The driver is an object with methods; the archive's definitions take the methods they call,
  and the locale \<open>archive_driver\<close> states what \<open>getMessages\<close> of a driver promises. A result \<open>None\<close> is
  a method that does not return.
\<close>

section \<open>Data\<close>

datatype PagingDirection = BACKWARD | FORWARD

definition direction_into :: "PagingDirection \<Rightarrow> bool" where
  "direction_into d = (d = FORWARD)"

type_synonym ArchiveCursor = WakuMessageHash
type_synonym ArchiveRow = "WakuMessageHash \<times> string \<times> WakuMessage"

record ArchiveQuery =
  q_includeData :: bool
  q_pubsubTopic :: "string option"
  q_contentTopics :: "string list"
  q_cursor :: "ArchiveCursor option"
  q_startTime :: "Timestamp option"
  q_endTime :: "Timestamp option"
  q_hashes :: "WakuMessageHash list"
  q_pageSize :: nat
  q_direction :: PagingDirection
  q_requestId :: string

text \<open>A query whose fields have the default values of their types: the first direction is \<open>BACKWARD\<close>.\<close>

definition default_query :: ArchiveQuery where
  "default_query = \<lparr>q_includeData = False, q_pubsubTopic = None, q_contentTopics = [],
     q_cursor = None, q_startTime = None, q_endTime = None, q_hashes = [], q_pageSize = 0,
     q_direction = BACKWARD, q_requestId = ''''\<rparr>"

record ArchiveResponse =
  r_hashes :: "WakuMessageHash list"
  r_messages :: "WakuMessage list"
  r_topics :: "string list"
  r_cursor :: "ArchiveCursor option"

datatype ArchiveError = UNKNOWN | DRIVER_ERROR string | INVALID_QUERY string

fun show_archive_error :: "ArchiveError \<Rightarrow> string" where
  "show_archive_error (DRIVER_ERROR cause) = ''DRIVER_ERROR: '' @ cause"
| "show_archive_error (INVALID_QUERY cause) = ''INVALID_QUERY: '' @ cause"
| "show_archive_error UNKNOWN = ''UNKNOWN''"

definition DefaultPageSize :: nat where "DefaultPageSize = 20"
definition MaxPageSize :: nat where "MaxPageSize = 100"
definition MaxContentTopicsPerQuery :: nat where "MaxContentTopicsPerQuery = 10"
definition MaxMessageTimestampVariance :: Timestamp where
  "MaxMessageTimestampVariance = 20 * 1000000000"

section \<open>Storing\<close>

text \<open>
  \<open>validate\<close> at the time \<open>now\<close>. The bare return for an ephemeral message leaves the result at its
  default value, an error with an empty text.
\<close>

definition invalidMessageOld :: string where "invalidMessageOld = ''invalid_message_too_old''"
definition invalidMessageFuture :: string where
  "invalidMessageFuture = ''invalid_message_future_timestamp''"

definition validate :: "Timestamp \<Rightarrow> WakuMessage \<Rightarrow> defect + (string + unit)" where
  "validate now msg =
     (if ephemeral msg then Inr (Inl '''')
      else
        rbind (int64 (now - MaxMessageTimestampVariance)) (\<lambda>lowerBound.
        rbind (int64 (now + MaxMessageTimestampVariance)) (\<lambda>upperBound.
          if timestamp msg < lowerBound then Inr (Inl invalidMessageOld)
          else if upperBound < timestamp msg then Inr (Inl invalidMessageFuture)
          else Inr (Inr ()))))"

text \<open>
  \<open>put\<close> is the method of the driver; a defect ends the program. An error of the validator or the
  driver is only logged. The shard that is parsed for a metric after the message is stored, which may
  end in a range defect, is left out.
\<close>

type_synonym 'd put_method =
  "WakuMessageHash \<Rightarrow> string \<Rightarrow> WakuMessage \<Rightarrow> 'd \<Rightarrow> defect + (string option \<times> 'd)"

definition archive_handleMessage ::
  "(string \<Rightarrow> WakuMessage \<Rightarrow> WakuMessageHash) \<Rightarrow> (WakuMessage \<Rightarrow> defect + (string + unit))
     \<Rightarrow> 'd put_method \<Rightarrow> string \<Rightarrow> WakuMessage \<Rightarrow> 'd \<Rightarrow> defect + 'd" where
  "archive_handleMessage hash_of validator put_row pubsubTopic msg d =
     (let msgHash = hash_of pubsubTopic msg
      in rbind (validator msg) (\<lambda>v.
           case v of
             Inl e \<Rightarrow> Inr d
           | Inr _ \<Rightarrow> rbind (put_row msgHash pubsubTopic msg d) (\<lambda>(r, d). Inr d)))"

definition syncMessageIngress ::
  "'d put_method \<Rightarrow> WakuMessageHash \<Rightarrow> string \<Rightarrow> WakuMessage \<Rightarrow> 'd
     \<Rightarrow> defect + ((string + unit) \<times> 'd)" where
  "syncMessageIngress put_row msgHash pubsubTopic msg d =
     (if ephemeral msg then Inr (Inl ''ephemeral message, will not store'', d)
      else
        rbind (put_row msgHash pubsubTopic msg d) (\<lambda>(r, d).
          case r of Some e \<Rightarrow> Inr (Inl e, d) | None \<Rightarrow> Inr (Inr (), d)))"

section \<open>Querying\<close>

text \<open>The arguments of \<open>getMessages\<close> in the source's order.\<close>

type_synonym 'd getMessages_method =
  "bool \<Rightarrow> string list \<Rightarrow> string option \<Rightarrow> ArchiveCursor option \<Rightarrow> Timestamp option \<Rightarrow> Timestamp option
     \<Rightarrow> WakuMessageHash list \<Rightarrow> nat \<Rightarrow> bool \<Rightarrow> string \<Rightarrow> 'd \<Rightarrow> (string + ArchiveRow list) option"

definition check_cursor :: "ArchiveQuery \<Rightarrow> ArchiveError option" where
  "check_cursor query =
     (case q_cursor query of
        None \<Rightarrow> None
      | Some c \<Rightarrow>
          if length c \<noteq> 32 then
            Some (INVALID_QUERY (''invalid cursor hash length: '' @ show_int (int (length c))))
          else if c = EmptyWakuMessageHash then Some (INVALID_QUERY ''all zeroes cursor hash'')
          else if MaxContentTopicsPerQuery < length (q_contentTopics query) then
            Some (INVALID_QUERY ''too many content topics'')
          else None)"

definition archive_page :: "bool \<Rightarrow> nat \<Rightarrow> bool \<Rightarrow> ArchiveRow list \<Rightarrow> ArchiveResponse" where
  "archive_page includeData maxPageSize isAscendingOrder rows =
     (if rows = [] then \<lparr>r_hashes = [], r_messages = [], r_topics = [], r_cursor = None\<rparr>
      else
        (let pageSize = min (length rows) maxPageSize;
             hashes = map fst (take pageSize rows);
             topics = (if includeData then map (\<lambda>r. fst (snd r)) (take pageSize rows) else []);
             messages = (if includeData then map (\<lambda>r. snd (snd r)) (take pageSize rows) else []);
             cursor = (if maxPageSize < length rows then Some (fst (rows ! (length rows - 2))) else None);
             order = (if isAscendingOrder then hashes else rev hashes)
         in \<lparr>r_hashes = order,
             r_messages = (if isAscendingOrder then messages else rev messages),
             r_topics = (if isAscendingOrder then topics else rev topics),
             r_cursor = cursor\<rparr>))"

definition query_page_size :: "ArchiveQuery \<Rightarrow> nat" where
  "query_page_size query =
     (if q_pageSize query = 0 then DefaultPageSize else min (q_pageSize query) MaxPageSize)"

definition findMessages ::
  "'d getMessages_method \<Rightarrow> ArchiveQuery \<Rightarrow> 'd \<Rightarrow> (ArchiveError + ArchiveResponse) option" where
  "findMessages getMessages query d =
     (case check_cursor query of
        Some e \<Rightarrow> Some (Inl e)
      | None \<Rightarrow>
          (let maxPageSize = query_page_size query;
               isAscendingOrder = direction_into (q_direction query)
           in map_option
                (\<lambda>res. case res of
                   Inl e \<Rightarrow> Inl (DRIVER_ERROR e)
                 | Inr rows \<Rightarrow>
                     Inr (archive_page (q_includeData query) maxPageSize isAscendingOrder rows))
                (getMessages (q_includeData query) (q_contentTopics query) (q_pubsubTopic query)
                   (q_cursor query) (q_startTime query) (q_endTime query) (q_hashes query)
                   (maxPageSize + 1) isAscendingOrder (q_requestId query) d)))"

section \<open>What a driver promises\<close>

definition row_matches ::
  "string list \<Rightarrow> string option \<Rightarrow> Timestamp option \<Rightarrow> Timestamp option \<Rightarrow> WakuMessageHash list
     \<Rightarrow> ArchiveRow \<Rightarrow> bool" where
  "row_matches contentTopics pubsubTopic startTime endTime hashes r \<longleftrightarrow>
     (\<forall>t. pubsubTopic = Some t \<longrightarrow> fst (snd r) = t)
     \<and> (contentTopics = [] \<or> contentTopic (snd (snd r)) \<in> set contentTopics)
     \<and> (\<forall>t. startTime = Some t \<longrightarrow> t \<le> timestamp (snd (snd r)))
     \<and> (\<forall>t. endTime = Some t \<longrightarrow> timestamp (snd (snd r)) \<le> t)
     \<and> (hashes = [] \<or> fst r \<in> set hashes)"

definition query_matches :: "ArchiveQuery \<Rightarrow> ArchiveRow \<Rightarrow> bool" where
  "query_matches q = row_matches (q_contentTopics q) (q_pubsubTopic q) (q_startTime q) (q_endTime q) (q_hashes q)"

definition in_order :: "bool \<Rightarrow> 'a list \<Rightarrow> 'a list" where
  "in_order ascending xs = (if ascending then xs else rev xs)"

lemma set_in_order [simp]: "set (in_order a xs) = set xs"
  by (simp add: in_order_def)

lemma filter_in_order: "filter P (in_order a xs) = in_order a (filter P xs)"
  by (simp add: in_order_def rev_filter)

text \<open>The pages of a list, each but the last of \<open>n\<close> elements.\<close>

function pages :: "nat \<Rightarrow> 'a list \<Rightarrow> 'a list list" where
  "pages n xs = (if length xs \<le> n \<or> n = 0 then [xs] else take n xs # pages n (drop n xs))"
  by pat_completeness auto
termination by (relation "measure (\<lambda>(n, xs). length xs)") auto

declare pages.simps [simp del]

lemma concat_pages [simp]: "concat (pages n xs) = xs"
proof (induction n xs rule: pages.induct)
  case (1 n xs)
  then show ?case by (subst pages.simps) auto
qed

lemma pages_bounded: "0 < n \<Longrightarrow> p \<in> set (pages n xs) \<Longrightarrow> length p \<le> n"
proof (induction n xs rule: pages.induct)
  case (1 n xs)
  from "1.prems"(2) have "p = xs \<and> length xs \<le> n \<or> \<not> (length xs \<le> n \<or> n = 0) \<and> (p = take n xs \<or> p \<in> set (pages n (drop n xs)))"
    using "1.prems"(1) by (subst (asm) pages.simps) (auto split: if_splits)
  with "1.IH" "1.prems"(1) show ?case by auto
qed

text \<open>The responses met when the cursor of each is put into the next query, until there is none.\<close>

fun page_chain ::
  "(ArchiveQuery \<Rightarrow> ('e + ArchiveResponse) option) \<Rightarrow> ArchiveQuery \<Rightarrow> ArchiveResponse list \<Rightarrow> bool" where
  "page_chain ask q [] = False"
| "page_chain ask q (r # rs) =
     (ask q = Some (Inr r)
       \<and> (case r_cursor r of
            None \<Rightarrow> rs = []
          | Some c \<Rightarrow> page_chain ask (q\<lparr>q_cursor := Some c\<rparr>) rs))"

text \<open>The rows of a page in chronological order.\<close>

definition page_rows :: "ArchiveResponse \<Rightarrow> ArchiveRow list" where
  "page_rows r = zip (r_hashes r) (zip (r_topics r) (r_messages r))"

section \<open>Pages of a query\<close>

definition chunk_response :: "bool \<Rightarrow> bool \<Rightarrow> ArchiveRow list \<Rightarrow> bool \<Rightarrow> ArchiveResponse" where
  "chunk_response includeData ascending c further =
     \<lparr>r_hashes = in_order ascending (map fst c),
      r_messages = (if includeData then in_order ascending (map (\<lambda>r. snd (snd r)) c) else []),
      r_topics = (if includeData then in_order ascending (map (\<lambda>r. fst (snd r)) c) else []),
      r_cursor = (if further then Some (fst (last c)) else None)\<rparr>"

fun responses :: "bool \<Rightarrow> bool \<Rightarrow> ArchiveRow list list \<Rightarrow> ArchiveResponse list" where
  "responses includeData ascending [] = []"
| "responses includeData ascending (c # cs) =
     chunk_response includeData ascending c (cs \<noteq> []) # responses includeData ascending cs"

lemma pages_nonempty [simp]: "pages n xs \<noteq> []"
  by (subst pages.simps) simp

lemma length_responses [simp]: "length (responses i a cs) = length cs"
  by (induction cs) auto

lemma archive_page_chunk:
  assumes "0 < n"
  shows "archive_page i n a (take (Suc n) ms) = chunk_response i a (take n ms) (n < length ms)"
proof (cases "n < length ms")
  case True
  from assms obtain k where k: "n = Suc k" by (cases n) auto
  have "last (take n ms) = ms ! k"
    using True by (simp add: k take_Suc_conv_app_nth)
  then have "take (Suc n) ms ! (length (take (Suc n) ms) - 2) = last (take n ms)"
  proof (cases "length ms = Suc (Suc k)")
    case False
    then show ?thesis using True \<open>last (take n ms) = ms ! k\<close> by (simp add: k min_def)
  qed (use \<open>last (take n ms) = ms ! k\<close> in \<open>simp add: k\<close>)
  moreover have "take (Suc n) ms \<noteq> []" using True by auto
  ultimately show ?thesis
    using True assms by (simp add: archive_page_def chunk_response_def in_order_def Let_def min_def)
next
  case False
  then show ?thesis
    by (simp add: archive_page_def chunk_response_def in_order_def Let_def min_def)
qed

lemma filter_split:
  "filter P xs = a @ r # b \<Longrightarrow> \<exists>p1 p2. xs = p1 @ r # p2 \<and> filter P p1 = a \<and> filter P p2 = b"
proof (induction a arbitrary: xs)
  case Nil
  then obtain us vs where "xs = us @ r # vs" "\<forall>u\<in>set us. \<not> P u" "b = filter P vs"
    by (auto simp: filter_eq_Cons_iff)
  then show ?case by (intro exI [of _ us] exI [of _ vs]) simp
next
  case (Cons x a)
  then obtain us vs where u: "xs = us @ x # vs" "\<forall>u\<in>set us. \<not> P u" "P x" "a @ r # b = filter P vs"
    by (auto simp: filter_eq_Cons_iff)
  from Cons.IH [of vs] u(4) obtain p1 p2
    where "vs = p1 @ r # p2" "filter P p1 = a" "filter P p2 = b" by auto
  with u(1-3) show ?case by (intro exI [of _ "us @ x # p1"] exI [of _ p2]) simp
qed

lemma filter_unique_key: "distinct (map f xs) \<Longrightarrow> x \<in> set xs \<Longrightarrow> filter (\<lambda>y. f y = f x) xs = [x]"
proof (induction xs)
  case (Cons y xs)
  have "filter (\<lambda>z. f z = f y) xs = []" using Cons.prems(1) by (auto simp: filter_empty_conv image_iff)
  with Cons show ?case by (auto simp: image_iff)
qed simp

text \<open>
  The contract of a driver: its rows in chronological order, without repeated hashes; a query
  returns the first rows that match, and with a cursor those that come after the row of the cursor.
\<close>

locale archive_driver =
  fixes getMessages :: "'d getMessages_method"
    and contents :: "'d \<Rightarrow> ArchiveRow list"
    and valid :: "'d \<Rightarrow> bool"
  assumes distinct_hashes: "valid d \<Longrightarrow> distinct (map fst (contents d))"
    and first_rows: "valid d \<Longrightarrow>
      getMessages inc cts pt None st et hs n asc rid d =
        Some (Inr (take n (filter (row_matches cts pt st et hs) (in_order asc (contents d)))))"
    and rows_after: "valid d \<Longrightarrow> in_order asc (contents d) = pre @ r # post \<Longrightarrow> fst r = c \<Longrightarrow>
      getMessages inc cts pt (Some c) st et hs n asc rid d =
        Some (Inr (take n (filter (row_matches cts pt st et hs) post)))"
begin

lemma chain_from:
  assumes valid: "valid d" and n: "n = query_page_size q" and asc: "asc = direction_into (q_direction q)"
    and topics: "length (q_contentTopics q) \<le> MaxContentTopicsPerQuery"
    and hashes: "\<forall>r \<in> set (contents d). length (fst r) = 32 \<and> fst r \<noteq> EmptyWakuMessageHash"
    and split: "in_order asc (contents d) = pre @ post"
    and at: "pre = [] \<and> q_cursor q = None \<or> (\<exists>pre' r. pre = pre' @ [r] \<and> q_cursor q = Some (fst r))"
    and ms: "ms = filter (query_matches q) post"
  shows "page_chain (\<lambda>q. findMessages getMessages q d) q (responses (q_includeData q) asc (pages n ms))"
  using assms
proof (induction n ms arbitrary: q pre post rule: pages.induct)
  case (1 n ms)
  have pos: "0 < n" using "1.prems"(2)
    by (auto simp: query_page_size_def DefaultPageSize_def MaxPageSize_def)
  have in_contents: "r \<in> set (contents d)" if "r \<in> set pre \<union> set post" for r
    using "1.prems"(6) that by (metis set_append set_in_order)
  have check: "check_cursor q = None"
    using "1.prems"(4,5,7) in_contents by (fastforce simp: check_cursor_def split: option.splits)
  have rows: "getMessages (q_includeData q) (q_contentTopics q) (q_pubsubTopic q) (q_cursor q)
      (q_startTime q) (q_endTime q) (q_hashes q) (n + 1) asc (q_requestId q) d
      = Some (Inr (take (Suc n) ms))"
    using "1.prems"(7)
  proof
    assume "pre = [] \<and> q_cursor q = None"
    then show ?thesis
      using first_rows [OF "1.prems"(1)] "1.prems"(6,8) by (simp add: query_matches_def)
  next
    assume "\<exists>pre' r. pre = pre' @ [r] \<and> q_cursor q = Some (fst r)"
    then obtain pre' r where "pre = pre' @ [r]" "q_cursor q = Some (fst r)" by blast
    then show ?thesis
      using rows_after [OF "1.prems"(1), of asc pre' r post] "1.prems"(6,8) by (simp add: query_matches_def)
  qed
  have ask: "findMessages getMessages q d
      = Some (Inr (chunk_response (q_includeData q) asc (take n ms) (n < length ms)))"
    unfolding findMessages_def check
    using rows "1.prems"(2,3) archive_page_chunk [OF pos] by (simp add: Let_def)
  show ?case
  proof (cases "length ms \<le> n")
    case True
    with ask show ?thesis by (subst pages.simps) (simp add: chunk_response_def)
  next
    case False
    define r where "r = last (take n ms)"
    define a where "a = butlast (take n ms)"
    have "take n ms \<noteq> []" using pos False by auto
    then have "take n ms = a @ [r]" unfolding a_def r_def by simp
    then have "ms = (a @ [r]) @ drop n ms" by (metis append_take_drop_id)
    then have "filter (query_matches q) post = a @ r # drop n ms"
      using "1.prems"(8) by (metis append.assoc append_Cons append_Nil)
    from filter_split [OF this] obtain p1 p2
      where p: "post = p1 @ r # p2" "filter (query_matches q) p2 = drop n ms" by blast
    define q' where "q' = q\<lparr>q_cursor := Some (fst r)\<rparr>"
    have "page_chain (\<lambda>q. findMessages getMessages q d) q' (responses (q_includeData q') asc (pages n (drop n ms)))"
    proof (rule "1.IH")
      show "\<not> (length ms \<le> n \<or> n = 0)" using False pos by simp
      show "in_order asc (contents d) = (pre @ p1 @ [r]) @ p2" using "1.prems"(6) p(1) by simp
      show "pre @ p1 @ [r] = [] \<and> q_cursor q' = None
          \<or> (\<exists>pre' r'. pre @ p1 @ [r] = pre' @ [r'] \<and> q_cursor q' = Some (fst r'))"
        by (intro disjI2 exI [of _ "pre @ p1"] exI [of _ r]) (simp add: q'_def)
      show "drop n ms = filter (query_matches q') p2"
        using p(2) by (simp add: q'_def query_matches_def)
    qed (use "1.prems" in \<open>simp_all add: q'_def query_page_size_def\<close>)
    then show ?thesis
      using ask False pos by (subst pages.simps) (simp add: chunk_response_def q'_def r_def)
  qed
qed

theorem query_pages:
  assumes "valid d" "q_cursor q = None" "length (q_contentTopics q) \<le> MaxContentTopicsPerQuery"
    and "\<forall>r \<in> set (contents d). length (fst r) = 32 \<and> fst r \<noteq> EmptyWakuMessageHash"
  shows "page_chain (\<lambda>q. findMessages getMessages q d) q
    (responses (q_includeData q) (direction_into (q_direction q))
      (pages (query_page_size q)
        (filter (query_matches q) (in_order (direction_into (q_direction q)) (contents d)))))"
  using chain_from [OF assms(1) refl refl assms(3,4), of "[]"] assms(2) by simp

text \<open>A query by one hash returns the row with that hash, if there is one.\<close>

lemma query_by_hash:
  assumes "valid d" "q_cursor q = None" "q_hashes q = [h]" "q_pubsubTopic q = None"
    and "q_contentTopics q = []" "q_startTime q = None" "q_endTime q = None"
  shows "findMessages getMessages q d =
    Some (Inr (chunk_response (q_includeData q) (direction_into (q_direction q))
      (filter (\<lambda>r. fst r = h) (contents d)) False))"
proof -
  define n where "n = query_page_size q"
  have pos: "0 < n"
    by (auto simp: n_def query_page_size_def DefaultPageSize_def MaxPageSize_def)
  define ms where "ms = filter (\<lambda>r. fst r = h) (contents d)"
  have "distinct (map fst ms)"
    unfolding ms_def using distinct_hashes [OF assms(1)] by (rule distinct_map_filter)
  moreover have "set (map fst ms) \<subseteq> {h}" by (auto simp: ms_def)
  ultimately have one: "length ms \<le> 1"
    using card_mono [of "{h}" "set (map fst ms)"] distinct_card by fastforce
  have m: "row_matches [] None None None [h] = (\<lambda>r. fst r = h)"
    by (simp add: row_matches_def fun_eq_iff)
  have o: "in_order a ms = ms" for a
    using one by (cases ms) (auto simp: in_order_def)
  have "findMessages getMessages q d = Some (Inr (archive_page (q_includeData q) n
      (direction_into (q_direction q)) (take (Suc n) ms)))"
    using first_rows [OF assms(1)] assms(2-7)
    by (simp add: findMessages_def check_cursor_def Let_def n_def m filter_in_order o ms_def [symmetric])
  with one pos show ?thesis unfolding archive_page_chunk [OF pos] by (simp add: ms_def)
qed

end

end
