(* ===== verification/QueueDriver.thy ===== *)
theory QueueDriver
  imports Archive
begin

text \<open>
  The in-memory driver of the archive, \<open>waku/waku_archive/driver/queue_driver/queue_driver.nim\<close> and
  \<open>index.nim\<close>: a bounded set of messages ordered by time and hash. The ordered set with its walkers is
  \<open>stew/sorted_set\<close>, an external library, and a parameter; \<open>sorted_set_sound\<close> states what is
  documented of it. Methods that only return "interface method not implemented" are one definition.
\<close>

section \<open>Indices\<close>

record Index =
  ix_time :: Timestamp
  ix_hash :: WakuMessageHash
  ix_pubsubTopic :: string

definition index_eq :: "Index \<Rightarrow> Index \<Rightarrow> bool" where
  "index_eq x y = (ix_hash x = ix_hash y)"

definition index_cmp :: "Index \<Rightarrow> Index \<Rightarrow> int" where
  "index_cmp x y =
     (let timeCMP = (if ix_time x = ix_time y then 0 else if ix_time x < ix_time y then -1 else 1)
      in if timeCMP \<noteq> 0 then timeCMP else cmp_hash (ix_hash x) (ix_hash y))"

text \<open>The key of the order, and \<open>index_cmp\<close> as the comparison of identifiers.\<close>

definition index_id :: "Index \<Rightarrow> SyncID" where
  "index_id x = SyncID (ix_time x) (ix_hash x)"

lemma index_cmp_id: "index_cmp x y = SyncTypes.cmp (index_id x) (index_id y)"
  by (auto simp: index_cmp_def index_id_def SyncTypes.cmp_def Let_def)

lemma index_cmp_less: "index_cmp x y < 0 \<longleftrightarrow> index_id x < index_id y"
  by (simp add: index_cmp_id cmp_signs)

section \<open>The ordered set\<close>

type_synonym queue_entry = "Index \<times> WakuMessage"

text \<open>
  \<open>ss_insert\<close> adds an entry with its data and fails where the key is there. A walker gives the
  entry it moves to, or nothing.
\<close>

record ('s, 'w) sorted_set_ops =
  ss_init :: 's
  ss_len :: "'s \<Rightarrow> nat"
  ss_eq :: "'s \<Rightarrow> Index \<Rightarrow> bool"
  ss_insert :: "'s \<Rightarrow> Index \<Rightarrow> WakuMessage \<Rightarrow> 's option"
  ss_delete :: "'s \<Rightarrow> Index \<Rightarrow> 's"
  walk_init :: "'s \<Rightarrow> 'w"
  walk_first :: "'w \<Rightarrow> 'w \<times> queue_entry option"
  walk_last :: "'w \<Rightarrow> 'w \<times> queue_entry option"
  walk_next :: "'w \<Rightarrow> 'w \<times> queue_entry option"
  walk_prev :: "'w \<Rightarrow> 'w \<times> queue_entry option"

section \<open>The driver\<close>

record 's QueueDriver =
  items :: 's
  capacity :: int

definition QueueDriverDefaultMaxCapacity :: int where
  "QueueDriverDefaultMaxCapacity = 25000"

definition queue_new :: "('s, 'w) sorted_set_ops \<Rightarrow> int \<Rightarrow> 's QueueDriver" where
  "queue_new ops cap = \<lparr>items = ss_init ops, capacity = cap\<rparr>"

definition queue_contains :: "('s, 'w) sorted_set_ops \<Rightarrow> 's QueueDriver \<Rightarrow> Index \<Rightarrow> bool" where
  "queue_contains ops d index = ss_eq ops (items d) index"

definition queue_len :: "('s, 'w) sorted_set_ops \<Rightarrow> 's QueueDriver \<Rightarrow> nat" where
  "queue_len ops d = ss_len ops (items d)"

text \<open>The loop of \<open>walkToCursor\<close>: \<open>step\<close> is \<open>next\<close> or \<open>prev\<close>.\<close>

partial_function (option) walk_loop ::
  "('w \<Rightarrow> 'w \<times> queue_entry option) \<Rightarrow> Index \<Rightarrow> 'w \<times> queue_entry option
     \<Rightarrow> ('w \<times> queue_entry option) option" where
  "walk_loop step startCursor st =
     (case snd st of
        None \<Rightarrow> Some st
      | Some e \<Rightarrow>
          if index_eq (fst e) startCursor then Some st
          else walk_loop step startCursor (step (fst st)))"

definition walkToCursor ::
  "('s, 'w) sorted_set_ops \<Rightarrow> 'w \<Rightarrow> Index \<Rightarrow> bool \<Rightarrow> ('w \<times> queue_entry option) option" where
  "walkToCursor ops w startCursor forward =
     (if forward then walk_loop (walk_next ops) startCursor (walk_first ops w)
      else walk_loop (walk_prev ops) startCursor (walk_last ops w))"

partial_function (option) page_loop ::
  "('w \<Rightarrow> 'w \<times> queue_entry option) \<Rightarrow> (Index \<Rightarrow> WakuMessage \<Rightarrow> bool) option \<Rightarrow> nat
     \<Rightarrow> 'w \<times> queue_entry option \<Rightarrow> nat \<Rightarrow> ArchiveRow list \<Rightarrow> ArchiveRow list option" where
  "page_loop step predicate pageSize st numberOfItems outSeq =
     (case snd st of
        None \<Rightarrow> Some outSeq
      | Some e \<Rightarrow>
          if numberOfItems < pageSize then
            (if (case predicate of None \<Rightarrow> True | Some p \<Rightarrow> p (fst e) (snd e)) then
               page_loop step predicate pageSize (step (fst st)) (numberOfItems + 1)
                 (outSeq @ [(ix_hash (fst e), ix_pubsubTopic (fst e), snd e)])
             else page_loop step predicate pageSize (step (fst st)) numberOfItems outSeq)
          else Some outSeq)"

datatype QueueDriverErrorKind = INVALID_CURSOR

fun show_queue_error :: "QueueDriverErrorKind \<Rightarrow> string" where
  "show_queue_error INVALID_CURSOR = ''invalid_cursor''"

definition getPage ::
  "('s, 'w) sorted_set_ops \<Rightarrow> 's QueueDriver \<Rightarrow> nat \<Rightarrow> bool \<Rightarrow> Index option
     \<Rightarrow> (Index \<Rightarrow> WakuMessage \<Rightarrow> bool) option \<Rightarrow> (QueueDriverErrorKind + ArchiveRow list) option" where
  "getPage ops d pageSize forward cursor predicate =
     (let w = walk_init ops (items d);
          step = (if forward then walk_next ops else walk_prev ops);
          run = (\<lambda>st. map_option Inr (page_loop step predicate pageSize st 0 []))
      in case cursor of
           None \<Rightarrow> run (if forward then walk_first ops w else walk_last ops w)
         | Some c \<Rightarrow>
             Option.bind (walkToCursor ops w c forward) (\<lambda>st.
               case snd st of
                 None \<Rightarrow> Some (Inl INVALID_CURSOR)
               | Some e \<Rightarrow> run (step (fst st))))"

definition queue_first :: "('s, 'w) sorted_set_ops \<Rightarrow> 's QueueDriver \<Rightarrow> string + Index" where
  "queue_first ops d =
     (case snd (walk_first ops (walk_init ops (items d))) of
        None \<Rightarrow> Inl ''Not found'' | Some e \<Rightarrow> Inr (fst e))"

definition queue_last :: "('s, 'w) sorted_set_ops \<Rightarrow> 's QueueDriver \<Rightarrow> string + Index" where
  "queue_last ops d =
     (case snd (walk_last ops (walk_init ops (items d))) of
        None \<Rightarrow> Inl ''Not found'' | Some e \<Rightarrow> Inr (fst e))"

text \<open>
  \<open>add\<close>. Taking the value of a result that is an error is a defect: the insertion of a key that is
  there, and the first entry of an empty set.
\<close>

definition add_item ::
  "('s, 'w) sorted_set_ops \<Rightarrow> Index \<Rightarrow> WakuMessage \<Rightarrow> 's QueueDriver
     \<Rightarrow> defect + (string option \<times> 's QueueDriver)" where
  "add_item ops index msg d =
     (case ss_insert ops (items d) index msg of
        None \<Rightarrow> Inl ResultDefect
      | Some s \<Rightarrow> Inr (None, d\<lparr>items := s\<rparr>))"

definition queue_add ::
  "('s, 'w) sorted_set_ops \<Rightarrow> Index \<Rightarrow> WakuMessage \<Rightarrow> 's QueueDriver
     \<Rightarrow> defect + (string option \<times> 's QueueDriver)" where
  "queue_add ops index msg d =
     (if queue_contains ops d index then Inr (Some ''duplicate'', d)
      else if capacity d \<le> int (ss_len ops (items d)) then
        (case snd (walk_first ops (walk_init ops (items d))) of
           None \<Rightarrow> Inl ResultDefect
         | Some firstItem \<Rightarrow>
             if index_cmp index (fst firstItem) < 0 then Inr (Some ''too_old'', d)
             else add_item ops index msg (d\<lparr>items := ss_delete ops (items d) (fst firstItem)\<rparr>))
      else add_item ops index msg d)"

definition queue_put :: "('s, 'w) sorted_set_ops \<Rightarrow> 's QueueDriver put_method" where
  "queue_put ops messageHash pubsubTopic message d =
     queue_add ops
       \<lparr>ix_time = timestamp message, ix_hash = messageHash, ix_pubsubTopic = pubsubTopic\<rparr> message d"

definition matchesQuery ::
  "string list \<Rightarrow> string option \<Rightarrow> Timestamp option \<Rightarrow> Timestamp option \<Rightarrow> WakuMessageHash list
     \<Rightarrow> Index \<Rightarrow> WakuMessage \<Rightarrow> bool" where
  "matchesQuery contentTopics pubsubTopic startTime endTime hashes index msg =
     (if (case pubsubTopic of None \<Rightarrow> False | Some t \<Rightarrow> ix_pubsubTopic index \<noteq> t) then False
      else if contentTopics \<noteq> [] \<and> contentTopic msg \<notin> set contentTopics then False
      else if (case startTime of None \<Rightarrow> False | Some t \<Rightarrow> timestamp msg < t) then False
      else if (case endTime of None \<Rightarrow> False | Some t \<Rightarrow> t < timestamp msg) then False
      else if hashes \<noteq> [] \<and> ix_hash index \<notin> set hashes then False
      else True)"

text \<open>The cursor's index has the hash alone, its other fields at their default values.\<close>

definition queue_getMessages ::
  "('s, 'w) sorted_set_ops \<Rightarrow> 's QueueDriver getMessages_method" where
  "queue_getMessages ops includeData contentTopics pubsubTopic cursor startTime endTime hashes
       maxPageSize ascendingOrder requestId d =
     (let index = map_option (\<lambda>c. \<lparr>ix_time = 0, ix_hash = c, ix_pubsubTopic = ''''\<rparr>) cursor
      in map_option
           (\<lambda>pageRes. case pageRes of Inl e \<Rightarrow> Inl (show_queue_error e) | Inr rows \<Rightarrow> Inr rows)
           (getPage ops d maxPageSize ascendingOrder index
             (Some (matchesQuery contentTopics pubsubTopic startTime endTime hashes))))"

text \<open>The four counting methods, the two times, and the methods without an implementation.\<close>

definition queue_counts :: "('s, 'w) sorted_set_ops \<Rightarrow> 's QueueDriver \<Rightarrow> string + int" where
  "queue_counts ops d = Inr (int (queue_len ops d))"

definition getOldestMessageTimestamp ::
  "('s, 'w) sorted_set_ops \<Rightarrow> 's QueueDriver \<Rightarrow> string + Timestamp" where
  "getOldestMessageTimestamp ops d = map_sum id ix_time (queue_first ops d)"

definition getNewestMessageTimestamp ::
  "('s, 'w) sorted_set_ops \<Rightarrow> 's QueueDriver \<Rightarrow> string + Timestamp" where
  "getNewestMessageTimestamp ops d = map_sum id ix_time (queue_last ops d)"

definition not_implemented :: "string + 'a" where
  "not_implemented = Inl ''interface method not implemented''"

section \<open>What the ordered set promises\<close>

definition entry_id :: "queue_entry \<Rightarrow> SyncID" where
  "entry_id e = index_id (fst e)"

definition entry_row :: "queue_entry \<Rightarrow> ArchiveRow" where
  "entry_row e = (ix_hash (fst e), ix_pubsubTopic (fst e), snd e)"

definition ordered :: "queue_entry list \<Rightarrow> bool" where
  "ordered es = sorted_wrt (<) (map entry_id es)"

text \<open>Insertion at its place; an entry that is there stays.\<close>

fun ins_entry :: "queue_entry \<Rightarrow> queue_entry list \<Rightarrow> queue_entry list" where
  "ins_entry e [] = [e]"
| "ins_entry e (x # xs) =
     (if entry_id e < entry_id x then e # x # xs
      else if entry_id e = entry_id x then x # xs
      else x # ins_entry e xs)"

text \<open>From the state of a walker, the steps visit the entries of a list and then nothing.\<close>

fun traverses ::
  "('w \<Rightarrow> 'w \<times> queue_entry option) \<Rightarrow> 'w \<times> queue_entry option \<Rightarrow> queue_entry list \<Rightarrow> bool" where
  "traverses step st [] = (snd st = None)"
| "traverses step st (e # es) = (snd st = Some e \<and> traverses step (step (fst st)) es)"

definition sorted_set_sound ::
  "('s, 'w) sorted_set_ops \<Rightarrow> ('s \<Rightarrow> queue_entry list) \<Rightarrow> bool" where
  "sorted_set_sound ops entries \<longleftrightarrow>
     entries (ss_init ops) = []
     \<and> (\<forall>s. ordered (entries s) \<longrightarrow>
          ss_len ops s = length (entries s)
          \<and> (\<forall>i. ss_eq ops s i = (index_id i \<in> entry_id ` set (entries s)))
          \<and> (\<forall>i m. (case ss_insert ops s i m of
                None \<Rightarrow> index_id i \<in> entry_id ` set (entries s)
              | Some s' \<Rightarrow> entries s' = ins_entry (i, m) (entries s)))
          \<and> (\<forall>i. entries (ss_delete ops s i) = filter (\<lambda>e. entry_id e \<noteq> index_id i) (entries s))
          \<and> traverses (walk_next ops) (walk_first ops (walk_init ops s)) (entries s)
          \<and> traverses (walk_prev ops) (walk_last ops (walk_init ops s)) (rev (entries s)))"

section \<open>Ordered lists of entries\<close>

lemma ordered_Cons: "ordered (x # xs) \<longleftrightarrow> (\<forall>y \<in> set xs. entry_id x < entry_id y) \<and> ordered xs"
  by (auto simp: ordered_def)

lemma ordered_Nil [simp]: "ordered []"
  by (simp add: ordered_def)

lemma ordered_append:
  "ordered (xs @ ys) \<longleftrightarrow>
    ordered xs \<and> ordered ys \<and> (\<forall>x \<in> set xs. \<forall>y \<in> set ys. entry_id x < entry_id y)"
  by (auto simp: ordered_def sorted_wrt_append)

lemma ordered_drop: "ordered xs \<Longrightarrow> ordered (drop n xs)"
  by (metis append_take_drop_id ordered_append)

lemma set_ins_entry: "set (ins_entry e xs) \<subseteq> insert e (set xs)"
  by (induction xs) auto

lemma ids_ins_entry: "entry_id ` set (ins_entry e xs) = insert (entry_id e) (entry_id ` set xs)"
  by (induction xs) auto

lemma ordered_ins_entry: "ordered xs \<Longrightarrow> ordered (ins_entry e xs)"
proof (induction xs)
  case (Cons x xs)
  show ?case
  proof (cases "entry_id x < entry_id e")
    case True
    then have "\<forall>y \<in> set (ins_entry e xs). entry_id x < entry_id y"
      using Cons.prems set_ins_entry [of e xs] by (fastforce simp: ordered_Cons)
    moreover from True have "\<not> entry_id e < entry_id x" "entry_id e \<noteq> entry_id x" by auto
    ultimately show ?thesis using Cons by (simp add: ordered_Cons)
  next
    case False
    then show ?thesis using Cons.prems by (auto simp: ordered_Cons not_less dest: order.not_eq_order_implies_strict)
  qed
qed (simp add: ordered_def)

lemma ins_entry_known: "ordered xs \<Longrightarrow> entry_id e \<in> entry_id ` set xs \<Longrightarrow> ins_entry e xs = xs"
  by (induction xs) (auto simp: ordered_Cons)

lemma length_ins_entry: "entry_id e \<notin> entry_id ` set xs \<Longrightarrow> length (ins_entry e xs) = Suc (length xs)"
  by (induction xs) auto

lemma ins_entry_before:
  assumes "y \<in> set ys" "ordered (xs @ ys)" "\<forall>y \<in> set ys. entry_id e < entry_id y"
  shows "ins_entry e (xs @ ys) = ins_entry e xs @ ys"
  using assms by (induction xs) (cases ys; auto simp: ordered_Cons)+

lemma ins_entry_after:
  assumes "\<forall>x \<in> set xs. entry_id x < entry_id e"
  shows "ins_entry e (xs @ ys) = xs @ ins_entry e ys"
  using assms by (induction xs) auto

text \<open>The newest \<open>n\<close> entries of an ordered list.\<close>

definition newest :: "nat \<Rightarrow> 'a list \<Rightarrow> 'a list" where
  "newest n xs = drop (length xs - n) xs"

lemma newest_all: "length xs \<le> n \<Longrightarrow> newest n xs = xs"
  by (simp add: newest_def)

lemma length_newest: "length (newest n xs) = min n (length xs)"
  by (simp add: newest_def)

lemma newest_ins_known:
  "ordered xs \<Longrightarrow> entry_id e \<in> entry_id ` set (newest n xs) \<Longrightarrow> newest n (ins_entry e xs) = newest n xs"
  by (subst ins_entry_known) (auto simp: newest_def dest: in_set_dropD)

lemma newest_ins_old:
  assumes "ordered xs" "newest n xs = f # fs" "n \<le> length xs" "entry_id e < entry_id f"
  shows "newest n (ins_entry e xs) = newest n xs"
proof -
  define k where "k = length xs - n"
  have xs: "xs = take k xs @ f # fs" using assms(2) by (metis append_take_drop_id k_def newest_def)
  have n: "n = Suc (length fs)" using assms(2,3) by (metis length_Cons length_newest min.absorb1)
  have o: "ordered (take k xs @ f # fs)" using assms(1) xs by simp
  then have "ins_entry e (take k xs @ f # fs) = ins_entry e (take k xs) @ f # fs"
    using assms(4) by (intro ins_entry_before) (auto simp: ordered_append ordered_Cons)
  then have "newest n (ins_entry e xs) = f # fs"
    using xs by (metis add_diff_cancel_right' append_eq_conv_conj length_Cons length_append n newest_def)
  then show ?thesis using assms(2) by simp
qed

lemma newest_ins_new:
  assumes "ordered xs" "newest n xs = f # fs" "n \<le> length xs" "entry_id f < entry_id e"
    and "entry_id e \<notin> entry_id ` set (newest n xs)"
  shows "newest n (ins_entry e xs) = ins_entry e fs"
proof -
  define k where "k = length xs - n"
  have xs: "xs = take k xs @ f # fs" using assms(2) by (metis append_take_drop_id k_def newest_def)
  have n: "n = Suc (length fs)" using assms(2,3) by (metis length_Cons length_newest min.absorb1)
  have "ordered (take k xs @ f # fs)" using assms(1) xs by simp
  then have "\<forall>x \<in> set (take k xs). entry_id x < entry_id e"
    using assms(4) by (fastforce simp: ordered_append)
  then have "ins_entry e (take k xs @ f # fs) = take k xs @ f # ins_entry e fs"
    using ins_entry_after [of "take k xs" e "f # fs"] ins_entry_after [of "[f]" e fs] assms(4) by simp
  moreover have "length (ins_entry e fs) = n" using assms(2,5) n by (simp add: length_ins_entry)
  ultimately show ?thesis
    using xs by (metis (no_types, lifting) add_diff_cancel_right' append.assoc append_Cons append_Nil append_eq_conv_conj length_append newest_def)
qed

section \<open>The queue keeps the newest messages\<close>

type_synonym put_args = "WakuMessageHash \<times> string \<times> WakuMessage"

definition put_entry :: "put_args \<Rightarrow> queue_entry" where
  "put_entry p = (case p of (h, t, m) \<Rightarrow>
     (\<lparr>ix_time = timestamp m, ix_hash = h, ix_pubsubTopic = t\<rparr>, m))"

fun queue_run ::
  "('s, 'w) sorted_set_ops \<Rightarrow> put_args list \<Rightarrow> 's QueueDriver \<Rightarrow> defect + 's QueueDriver" where
  "queue_run ops [] d = Inr d"
| "queue_run ops ((h, t, m) # ps) d =
     rbind (queue_put ops h t m d) (\<lambda>(r, d). queue_run ops ps d)"

text \<open>An unbounded store that keeps the first message put under each time and hash.\<close>

definition store_all :: "put_args list \<Rightarrow> queue_entry list" where
  "store_all ps = fold (\<lambda>p. ins_entry (put_entry p)) ps []"

lemmas sound_at = sorted_set_sound_def [THEN iffD1, THEN conjunct2, rule_format]

lemma sound_facts:
  assumes "sorted_set_sound ops entries" "ordered (entries s)"
  shows "ss_len ops s = length (entries s)"
    and "ss_eq ops s i \<longleftrightarrow> index_id i \<in> entry_id ` set (entries s)"
    and "entries (ss_delete ops s i) = filter (\<lambda>e. entry_id e \<noteq> index_id i) (entries s)"
    and "traverses (walk_next ops) (walk_first ops (walk_init ops s)) (entries s)"
    and "traverses (walk_prev ops) (walk_last ops (walk_init ops s)) (rev (entries s))"
  using sound_at [OF assms] by auto

lemma sound_insert:
  assumes "sorted_set_sound ops entries" "ordered (entries s)" "index_id i \<notin> entry_id ` set (entries s)"
  shows "\<exists>s'. ss_insert ops s i m = Some s' \<and> entries s' = ins_entry (i, m) (entries s)"
proof -
  from sound_at [OF assms(1,2)] have
    "case ss_insert ops s i m of None \<Rightarrow> index_id i \<in> entry_id ` set (entries s)
       | Some s' \<Rightarrow> entries s' = ins_entry (i, m) (entries s)" by blast
  with assms(3) show ?thesis by (auto split: option.splits)
qed

lemma add_item_entries:
  assumes "sorted_set_sound ops entries" "ordered (entries (items d))"
    and "index_id i \<notin> entry_id ` set (entries (items d))"
  shows "\<exists>d'. add_item ops i m d = Inr (None, d') \<and> capacity d' = capacity d
    \<and> entries (items d') = ins_entry (i, m) (entries (items d))"
  using sound_insert [OF assms, of m] by (auto simp: add_item_def)

lemma traverses_head: "traverses step st es \<Longrightarrow> snd st = (case es of [] \<Rightarrow> None | e # _ \<Rightarrow> Some e)"
  by (cases es) auto

lemma queue_add_step:
  assumes sound: "sorted_set_sound ops entries" and cap: "0 < n" "capacity d = int n"
    and U: "ordered U" "entries (items d) = newest n U"
  shows "\<exists>r d'. queue_add ops i m d = Inr (r, d') \<and> capacity d' = int n
    \<and> entries (items d') = newest n (ins_entry (i, m) U)"
proof -
  have o: "ordered (entries (items d))" using U by (simp add: newest_def ordered_drop)
  note facts = sound_facts [OF sound o] and head = traverses_head [OF sound_facts(4) [OF sound o]]
  have id: "entry_id (i, m) = index_id i" by (simp add: entry_id_def)
  show ?thesis
  proof (cases "index_id i \<in> entry_id ` set (newest n U)")
    case True
    then show ?thesis
      using U cap facts(2) newest_ins_known [OF U(1), of "(i, m)"]
      by (auto simp: queue_add_def queue_contains_def id)
  next
    case new: False
    show ?thesis
    proof (cases "n \<le> length U")
      case False
      then have "newest n (ins_entry (i, m) U) = ins_entry (i, m) (newest n U)"
        using new by (simp add: newest_all length_ins_entry id)
      moreover have "\<not> capacity d \<le> int (ss_len ops (items d))"
        using False U(2) cap(2) facts(1) by (simp add: length_newest)
      moreover have "index_id i \<notin> entry_id ` set (entries (items d))" using new U(2) by simp
      ultimately show ?thesis
        using new U(2) facts(2) cap(2) add_item_entries [OF sound o, of i m]
        by (auto simp: queue_add_def queue_contains_def)
    next
      case full: True
      then obtain f fs where f: "newest n U = f # fs"
        using cap(1) by (metis gr0_conv_Suc length_newest length_Suc_conv min.absorb1)
      have len: "capacity d \<le> int (ss_len ops (items d))"
        using full U(2) cap(2) facts(1) by (simp add: length_newest)
      have nz: "newest n U \<noteq> []" using f by simp
      have cmp: "index_cmp i (fst f) < 0 \<longleftrightarrow> index_id i < entry_id f"
        by (simp add: index_cmp_less entry_id_def)
      show ?thesis
      proof (cases "index_id i < entry_id f")
        case True
        then show ?thesis
          using new len U f head cap facts(2) cmp newest_ins_old [OF U(1) f full, of "(i, m)"]
          by (simp add: queue_add_def queue_contains_def id)
      next
        case False
        have "entry_id f \<noteq> index_id i" using new f by auto
        with False have less: "entry_id f < entry_id (i, m)" by (auto simp: id)
        define d' where "d' = d\<lparr>items := ss_delete ops (items d) (fst f)\<rparr>"
        have of: "ordered (f # fs)" using o U(2) f by simp
        have fi: "index_id (fst f) = entry_id f" by (simp add: entry_id_def)
        have flt: "filter (\<lambda>e. entry_id e \<noteq> entry_id f) fs = fs"
          using of by (auto simp: filter_id_conv ordered_Cons)
        have e': "entries (items d') = fs"
          using facts(3) [of "fst f"] U(2) f by (simp add: d'_def fi flt)
        have "ordered (entries (items d'))" "index_id i \<notin> entry_id ` set (entries (items d'))"
          using of new f e' by (auto simp: ordered_Cons)
        from add_item_entries [OF sound this, of m] obtain d'' where
          d'': "add_item ops i m d' = Inr (None, d'')" "capacity d'' = capacity d'"
            "entries (items d'') = ins_entry (i, m) fs" using e' by auto
        have "queue_add ops i m d = add_item ops i m d'"
          using new len U(2) f head facts(2) cmp False
          by (simp add: queue_add_def queue_contains_def d'_def)
        moreover have "newest n (ins_entry (i, m) U) = ins_entry (i, m) fs"
          using newest_ins_new [OF U(1) f full less] new by (simp add: id)
        ultimately show ?thesis using d'' cap(2) by (simp add: d'_def)
      qed
    qed
  qed
qed

lemma queue_run_keeps:
  assumes "sorted_set_sound ops entries" "0 < n" "capacity d = int n"
    and "ordered U" "entries (items d) = newest n U"
  shows "\<exists>d'. queue_run ops ps d = Inr d' \<and> capacity d' = int n
    \<and> entries (items d') = newest n (fold (\<lambda>p. ins_entry (put_entry p)) ps U)"
  using assms(3-5)
proof (induction ps arbitrary: d U)
  case (Cons p ps)
  obtain h t m where p: "p = (h, t, m)" by (cases p)
  obtain r d1 where d1: "queue_put ops h t m d = Inr (r, d1)" "capacity d1 = int n"
    "entries (items d1) = newest n (ins_entry (put_entry p) U)"
    using queue_add_step [OF assms(1,2) Cons.prems, of "fst (put_entry p)" m]
    by (auto simp: queue_put_def p put_entry_def)
  from Cons.IH [OF d1(2) ordered_ins_entry [OF Cons.prems(2)] d1(3)] show ?case
    by (simp add: p d1(1))
qed simp

lemma store_all_ordered: "ordered (store_all ps)"
proof -
  have "ordered U \<Longrightarrow> ordered (fold (\<lambda>p. ins_entry (put_entry p)) ps U)" for U
    by (induction ps arbitrary: U) (auto simp: ordered_ins_entry)
  then show ?thesis by (simp add: store_all_def)
qed

lemma queue_run_newest:
  assumes "sorted_set_sound ops entries" "0 < n"
  shows "\<exists>d. queue_run ops ps (queue_new ops (int n)) = Inr d \<and> capacity d = int n
    \<and> entries (items d) = newest n (store_all ps)"
proof -
  have "entries (items (queue_new ops (int n))) = newest n []"
    using assms(1) by (simp add: sorted_set_sound_def queue_new_def newest_def)
  from queue_run_keeps [OF assms _ ordered_Nil this] show ?thesis
    by (simp add: queue_new_def store_all_def)
qed

section \<open>The queue as a driver of the archive\<close>

lemma walk_loop_finds:
  assumes "traverses step st (pre @ e # post)" "index_eq (fst e) c" "\<forall>x \<in> set pre. \<not> index_eq (fst x) c"
  shows "\<exists>st'. walk_loop step c st = Some st' \<and> snd st' = Some e \<and> traverses step (step (fst st')) post"
  using assms
proof (induction pre arbitrary: st)
  case Nil
  then show ?case by (subst walk_loop.simps) auto
next
  case (Cons x pre)
  then show ?case by (subst walk_loop.simps) auto
qed

lemma walk_loop_misses:
  assumes "traverses step st es" "\<forall>x \<in> set es. \<not> index_eq (fst x) c"
  shows "\<exists>st'. walk_loop step c st = Some st' \<and> snd st' = None"
  using assms
proof (induction es arbitrary: st)
  case Nil
  then show ?case by (subst walk_loop.simps) auto
next
  case (Cons x es)
  then show ?case by (subst walk_loop.simps) auto
qed

lemma page_loop_takes:
  assumes "traverses step st es"
  shows "page_loop step (Some p) n st k out
    = Some (out @ take (n - k) (map entry_row (filter (\<lambda>e. p (fst e) (snd e)) es)))"
  using assms
proof (induction es arbitrary: st k out)
  case Nil
  then show ?case by (subst page_loop.simps) simp
next
  case (Cons e es)
  show ?case
  proof (cases "k < n")
    case True
    then have "n - k = Suc (n - Suc k)" by simp
    with Cons True show ?thesis
      by (subst page_loop.simps) (simp add: entry_row_def [of e])
  next
    case False
    with Cons.prems show ?thesis by (subst page_loop.simps) simp
  qed
qed

lemma matchesQuery_row:
  "matchesQuery cts pt st et hs (fst e) (snd e) = row_matches cts pt st et hs (entry_row e)"
  unfolding matchesQuery_def row_matches_def entry_row_def by (auto split: option.splits)

lemma filter_entry_row:
  "map entry_row (filter (\<lambda>e. matchesQuery cts pt st et hs (fst e) (snd e)) es)
    = filter (row_matches cts pt st et hs) (map entry_row es)"
  by (simp add: matchesQuery_row filter_map comp_def)

lemma in_order_map: "in_order a (map f xs) = map f (in_order a xs)"
  by (simp add: in_order_def rev_map)

definition queue_valid ::
  "('s, 'w) sorted_set_ops \<Rightarrow> ('s \<Rightarrow> queue_entry list) \<Rightarrow> 's QueueDriver \<Rightarrow> bool" where
  "queue_valid ops entries d \<longleftrightarrow>
     sorted_set_sound ops entries \<and> ordered (entries (items d))
     \<and> distinct (map (\<lambda>e. ix_hash (fst e)) (entries (items d)))"

definition queue_contents :: "('s \<Rightarrow> queue_entry list) \<Rightarrow> 's QueueDriver \<Rightarrow> ArchiveRow list" where
  "queue_contents entries d = map entry_row (entries (items d))"

lemma walker_start:
  assumes "queue_valid ops entries d"
  shows "traverses (if asc then walk_next ops else walk_prev ops)
    (if asc then walk_first ops (walk_init ops (items d)) else walk_last ops (walk_init ops (items d)))
    (in_order asc (entries (items d)))"
  using assms sound_facts(4,5) [of ops entries "items d"]
  by (auto simp: queue_valid_def in_order_def)

lemma getMessages_first:
  assumes "queue_valid ops entries d"
  shows "queue_getMessages ops inc cts pt None st et hs n asc rid d
    = Some (Inr (take n (filter (row_matches cts pt st et hs) (in_order asc (queue_contents entries d)))))"
  using page_loop_takes [OF walker_start [OF assms, of asc], of "matchesQuery cts pt st et hs" n 0 "[]"]
  by (simp add: queue_getMessages_def getPage_def Let_def filter_entry_row queue_contents_def in_order_map
      split: if_splits)

lemma getMessages_after:
  assumes "queue_valid ops entries d"
    and "in_order asc (queue_contents entries d) = pre @ r # post" "fst r = c"
  shows "queue_getMessages ops inc cts pt (Some c) st et hs n asc rid d
    = Some (Inr (take n (filter (row_matches cts pt st et hs) post)))"
proof -
  define step where "step = (if asc then walk_next ops else walk_prev ops)"
  define start where
    "start = (if asc then walk_first ops (walk_init ops (items d)) else walk_last ops (walk_init ops (items d)))"
  define cur where "cur = \<lparr>ix_time = 0, ix_hash = c, ix_pubsubTopic = ''''\<rparr>"
  from assms(2) obtain es e es' where es: "in_order asc (entries (items d)) = es @ e # es'"
    "r = entry_row e" "post = map entry_row es'"
    unfolding queue_contents_def in_order_map by (auto simp: map_eq_append_conv Cons_eq_map_conv)
  have t: "traverses step start (es @ e # es')"
    using walker_start [OF assms(1), of asc] unfolding es(1) step_def start_def .
  have "distinct (map (\<lambda>e. ix_hash (fst e)) (in_order asc (entries (items d))))"
    using assms(1) by (simp add: queue_valid_def in_order_def rev_map [symmetric])
  then have "distinct (map (\<lambda>e. ix_hash (fst e)) (es @ e # es'))" unfolding es(1) .
  then have "ix_hash (fst e) \<notin> (\<lambda>e. ix_hash (fst e)) ` set es" by simp
  moreover have "c = ix_hash (fst e)" using assms(3) es(2) by (simp add: entry_row_def)
  ultimately have miss: "\<forall>x \<in> set es. \<not> index_eq (fst x) cur"
    unfolding index_eq_def cur_def by (auto simp: image_iff)
  have hit: "index_eq (fst e) cur" using assms(3) es(2) by (simp add: index_eq_def cur_def entry_row_def)
  obtain st' where st': "walk_loop step cur start = Some st'" "snd st' = Some e"
    "traverses step (step (fst st')) es'" using walk_loop_finds [OF t hit miss] by blast
  have "walkToCursor ops (walk_init ops (items d)) cur asc = Some st'"
    using st'(1) by (cases asc) (simp_all add: walkToCursor_def step_def start_def)
  moreover have "page_loop step (Some (matchesQuery cts pt st et hs)) n (step (fst st')) 0 []
      = Some (take n (filter (row_matches cts pt st et hs) post))"
    using page_loop_takes [OF st'(3)] by (simp add: filter_entry_row es(3))
  ultimately show ?thesis
    using st'(2)
    by (simp add: queue_getMessages_def getPage_def Let_def cur_def [symmetric] step_def [symmetric])
qed

text \<open>A cursor that is not stored is refused.\<close>

lemma getMessages_unknown_cursor:
  assumes "queue_valid ops entries d" "c \<notin> fst ` set (queue_contents entries d)"
  shows "queue_getMessages ops inc cts pt (Some c) st et hs n asc rid d = Some (Inl ''invalid_cursor'')"
proof -
  define cur where "cur = \<lparr>ix_time = 0, ix_hash = c, ix_pubsubTopic = ''''\<rparr>"
  have "\<forall>x \<in> set (in_order asc (entries (items d))). \<not> index_eq (fst x) cur"
    using assms(2) by (auto simp: index_eq_def cur_def queue_contents_def entry_row_def image_iff)
  from walk_loop_misses [OF walker_start [OF assms(1), of asc] this]
  obtain st' where "walkToCursor ops (walk_init ops (items d)) cur asc = Some st'" "snd st' = None"
    unfolding walkToCursor_def by (cases asc) auto
  then show ?thesis
    by (simp add: queue_getMessages_def getPage_def Let_def cur_def [symmetric])
qed

interpretation queue: archive_driver "queue_getMessages ops" "queue_contents entries" "queue_valid ops entries"
  for ops entries
proof
  show "distinct (map fst (queue_contents entries d))" if "queue_valid ops entries d" for d
    using that by (simp add: queue_valid_def queue_contents_def entry_row_def comp_def)
qed (rule getMessages_first getMessages_after; assumption)+

section \<open>What one put changes\<close>

lemma queue_add_cases:
  assumes "queue_add ops i m d = Inr (r, d')"
  shows "d' = d \<or> (\<exists>d1. add_item ops i m d1 = Inr (r, d')
    \<and> (d1 = d \<or> (\<exists>j. d1 = d\<lparr>items := ss_delete ops (items d) j\<rparr>)))"
  using assms unfolding queue_add_def by (simp split: if_splits option.splits) blast+

lemma add_item_rows:
  assumes "sorted_set_sound ops entries" "ordered (entries (items d))" "add_item ops i m d = Inr (r, d')"
  shows "ordered (entries (items d'))" "set (entries (items d')) \<subseteq> insert (i, m) (set (entries (items d)))"
proof -
  from assms(3) obtain s where s: "ss_insert ops (items d) i m = Some s" "d' = d\<lparr>items := s\<rparr>"
    by (auto simp: add_item_def split: option.splits)
  from sound_at [OF assms(1,2)]
  have "case ss_insert ops (items d) i m of None \<Rightarrow> index_id i \<in> entry_id ` set (entries (items d))
    | Some s' \<Rightarrow> entries s' = ins_entry (i, m) (entries (items d))" by blast
  with s(1) have "entries s = ins_entry (i, m) (entries (items d))" by simp
  with assms(2) s(2) show "ordered (entries (items d'))"
    "set (entries (items d')) \<subseteq> insert (i, m) (set (entries (items d)))"
    by (simp_all add: ordered_ins_entry set_ins_entry)
qed

lemma queue_put_rows:
  assumes "sorted_set_sound ops entries" "ordered (entries (items d))"
    and "queue_put ops h t m d = Inr (r, d')"
  shows "ordered (entries (items d'))"
    and "set (queue_contents entries d') \<subseteq> insert (h, t, m) (set (queue_contents entries d))"
proof -
  define i where "i = \<lparr>ix_time = timestamp m, ix_hash = h, ix_pubsubTopic = t\<rparr>"
  have row: "entry_row (i, m) = (h, t, m)" by (simp add: entry_row_def i_def)
  have del: "ordered (entries (ss_delete ops (items d) j))"
    "set (entries (ss_delete ops (items d) j)) \<subseteq> set (entries (items d))" for j
    using sound_facts(3) [OF assms(1,2)] assms(2)
    by (auto simp: ordered_def sorted_wrt_filter sorted_wrt_map)
  from queue_add_cases [OF assms(3) [unfolded queue_put_def, folded i_def]]
  have "ordered (entries (items d')) \<and> set (entries (items d')) \<subseteq> insert (i, m) (set (entries (items d)))"
  proof (elim disjE exE conjE)
    fix d1 j
    assume "add_item ops i m d1 = Inr (r, d')" "d1 = d\<lparr>items := ss_delete ops (items d) j\<rparr>"
    then show ?thesis using add_item_rows [OF assms(1), of d1 i m r d'] del [of j] by auto
  qed (use add_item_rows [OF assms(1,2)] assms(2) in auto)
  then show "ordered (entries (items d'))"
    "set (queue_contents entries d') \<subseteq> insert (h, t, m) (set (queue_contents entries d))"
    using row by (auto simp: queue_contents_def)
qed

section \<open>An ordered set of lists\<close>

text \<open>
  An instance of the ordered set, on which the results can be evaluated: the entries as a list, a
  walker as the entries behind it, nearest first, and the entries before it.
\<close>

type_synonym list_walker = "queue_entry list \<times> queue_entry list"

definition list_next :: "list_walker \<Rightarrow> list_walker \<times> queue_entry option" where
  "list_next w = (case w of (b, []) \<Rightarrow> ((b, []), None) | (b, e # h) \<Rightarrow> ((e # b, h), Some e))"

definition list_prev :: "list_walker \<Rightarrow> list_walker \<times> queue_entry option" where
  "list_prev w =
     (case w of
        (e # e' # b, h) \<Rightarrow> ((e' # b, e # h), Some e')
      | (b, h) \<Rightarrow> (([], rev b @ h), None))"

definition list_last :: "list_walker \<Rightarrow> list_walker \<times> queue_entry option" where
  "list_last w =
     (case w of (b, h) \<Rightarrow>
        ((rev h @ b, []), (case rev h @ b of [] \<Rightarrow> None | e # _ \<Rightarrow> Some e)))"

definition list_set_ops :: "(queue_entry list, list_walker) sorted_set_ops" where
  "list_set_ops =
     \<lparr>ss_init = [], ss_len = length,
      ss_eq = (\<lambda>s i. index_id i \<in> set (map entry_id s)),
      ss_insert = (\<lambda>s i m. if index_id i \<in> set (map entry_id s) then None else Some (ins_entry (i, m) s)),
      ss_delete = (\<lambda>s i. filter (\<lambda>e. entry_id e \<noteq> index_id i) s),
      walk_init = (\<lambda>s. ([], s)),
      walk_first = (\<lambda>(b, h). list_next ([], rev b @ h)),
      walk_last = list_last, walk_next = list_next, walk_prev = list_prev\<rparr>"

lemma list_next_traverses: "traverses list_next (list_next (b, xs)) xs"
  by (induction xs arbitrary: b) (auto simp: list_next_def)

lemma list_prev_traverses: "traverses list_prev ((e # b, h), Some e) (e # b)"
  by (induction b arbitrary: e h) (auto simp: list_prev_def)

lemma list_set_sound: "sorted_set_sound list_set_ops (\<lambda>s. s)"
proof -
  have "traverses list_prev (list_last ([], s)) (rev s)" for s
    using list_prev_traverses by (cases "rev s") (auto simp: list_last_def)
  then show ?thesis
    using list_next_traverses by (auto simp: sorted_set_sound_def list_set_ops_def)
qed

section \<open>Properties\<close>

text \<open>
  C7. Whatever messages are put into a queue of capacity \<open>n\<close>, in whatever order, it holds the newest
  \<open>n\<close> of all of them by time and hash: the end of the unbounded store that keeps the first message
  put under each time and hash. No put ends in a defect.
\<close>

theorem queue_keeps_newest:
  assumes "sorted_set_sound ops entries" "0 < n"
  shows "\<exists>d. queue_run ops ps (queue_new ops (int n)) = Inr d
    \<and> entries (items d) = newest n (store_all ps)
    \<and> queue_len ops d = min n (length (store_all ps))"
proof -
  obtain d where d: "queue_run ops ps (queue_new ops (int n)) = Inr d"
    "entries (items d) = newest n (store_all ps)"
    using queue_run_newest [OF assms] by blast
  moreover have "ordered (entries (items d))"
    using d(2) store_all_ordered by (simp add: newest_def ordered_drop)
  ultimately show ?thesis
    using sound_facts(1) [OF assms(1)] by (auto simp: queue_len_def length_newest)
qed

definition example_message :: "string \<Rightarrow> Timestamp \<Rightarrow> WakuMessage" where
  "example_message topic t =
     \<lparr>payload = [1, 2], contentTopic = topic, meta = [], msg_version = 0, timestamp = t,
      ephemeral = False, msg_proof = []\<rparr>"

definition example_put :: "Timestamp \<Rightarrow> byte \<Rightarrow> put_args" where
  "example_put t b = (replicate 31 0 @ [b], ''/waku/2/rs/1/0'', example_message ''/a/1/b/c'' t)"

lemmas example_simps = example_put_def example_message_def put_entry_def entry_id_def index_id_def
  SyncID_less_iff

theorem queue_keeps_newest_witness:
  "\<exists>d. queue_run list_set_ops [example_put 5 1, example_put 3 2, example_put 4 3]
       (queue_new list_set_ops 2) = Inr d
     \<and> map entry_id (items d) = [SyncID 4 (replicate 31 0 @ [3]), SyncID 5 (replicate 31 0 @ [1])]"
proof -
  have "map entry_id (newest 2 (store_all [example_put 5 1, example_put 3 2, example_put 4 3]))
      = [SyncID 4 (replicate 31 0 @ [3]), SyncID 5 (replicate 31 0 @ [1])]"
    by (simp add: store_all_def newest_def example_simps)
  then show ?thesis
    using queue_keeps_newest [OF list_set_sound, of 2 "[example_put 5 1, example_put 3 2, example_put 4 3]"]
    by auto
qed

text \<open>The rows a list of responses gives, in the order of the query.\<close>

lemma responses_rows:
  "concat (map (\<lambda>r. in_order a (r_hashes r)) (responses i a cs)) = map fst (concat cs)"
  "concat (map (\<lambda>r. in_order a (r_topics r)) (responses True a cs)) = map (\<lambda>r. fst (snd r)) (concat cs)"
  "concat (map (\<lambda>r. in_order a (r_messages r)) (responses True a cs)) = map (\<lambda>r. snd (snd r)) (concat cs)"
  by (induction cs) (auto simp: chunk_response_def in_order_def)

lemma responses_bounded:
  "r \<in> set (responses i a cs) \<Longrightarrow> \<forall>c \<in> set cs. length c \<le> n \<Longrightarrow> length (r_hashes r) \<le> n"
  by (induction cs) (auto simp: chunk_response_def in_order_def)

lemma store_all_puts: "e \<in> set (store_all ps) \<Longrightarrow> \<exists>p \<in> set ps. e = put_entry p"
proof -
  have "e \<in> set (fold (\<lambda>p. ins_entry (put_entry p)) ps U) \<Longrightarrow> e \<in> set U \<or> (\<exists>p \<in> set ps. e = put_entry p)" for U
  proof (induction ps arbitrary: U)
    case (Cons p ps)
    then show ?case using set_ins_entry [of "put_entry p" U] by fastforce
  qed simp
  from this [of "[]"] show "e \<in> set (store_all ps) \<Longrightarrow> \<exists>p \<in> set ps. e = put_entry p"
    by (simp add: store_all_def)
qed

lemma ordered_ids_distinct: "ordered es \<Longrightarrow> distinct (map entry_id es)"
  by (induction es) (auto simp: ordered_Cons)

definition hashes_determine_times :: "put_args list \<Rightarrow> bool" where
  "hashes_determine_times ps \<longleftrightarrow>
     list_all (\<lambda>(h, t, m). list_all (\<lambda>(h', t', m'). h = h' \<longrightarrow> timestamp m = timestamp m') ps) ps"

definition proper_hashes :: "put_args list \<Rightarrow> bool" where
  "proper_hashes ps \<longleftrightarrow> list_all (\<lambda>(h, t, m). length h = 32 \<and> h \<noteq> EmptyWakuMessageHash) ps"

lemma queue_run_valid:
  assumes "sorted_set_sound ops entries" "0 < n" "hashes_determine_times ps"
    and "queue_run ops ps (queue_new ops (int n)) = Inr d"
  shows "queue_valid ops entries d" "entries (items d) = newest n (store_all ps)"
proof -
  show e: "entries (items d) = newest n (store_all ps)"
    using queue_run_newest [OF assms(1,2), of ps] assms(4) by auto
  have o: "ordered (entries (items d))"
    using e store_all_ordered by (simp add: newest_def ordered_drop)
  have "inj_on (\<lambda>e. ix_hash (fst e)) (set (entries (items d)))"
  proof (rule inj_onI)
    fix x y
    assume x: "x \<in> set (entries (items d))" and y: "y \<in> set (entries (items d))"
      and h: "ix_hash (fst x) = ix_hash (fst y)"
    from x y obtain p p' where p: "p \<in> set ps" "x = put_entry p" "p' \<in> set ps" "y = put_entry p'"
      using store_all_puts unfolding e newest_def by (meson in_set_dropD)
    with assms(3) h have "ix_time (fst x) = ix_time (fst y)"
      by (fastforce simp: hashes_determine_times_def list_all_iff put_entry_def)
    with h have "entry_id x = entry_id y" by (simp add: entry_id_def index_id_def)
    with ordered_ids_distinct [OF o] x y show "x = y"
      by (auto simp: distinct_map dest: inj_onD)
  qed
  then have "distinct (map (\<lambda>e. ix_hash (fst e)) (entries (items d)))"
    using ordered_ids_distinct [OF o] by (simp add: distinct_map)
  with assms(1) o show "queue_valid ops entries d" by (simp add: queue_valid_def)
qed

lemma proper_contents:
  assumes "proper_hashes ps" "entries (items d) = newest n (store_all ps)"
  shows "\<forall>r \<in> set (queue_contents entries d). length (fst r) = 32 \<and> fst r \<noteq> EmptyWakuMessageHash"
proof
  fix r assume "r \<in> set (queue_contents entries d)"
  then obtain e where "e \<in> set (store_all ps)" "r = entry_row e"
    unfolding queue_contents_def assms(2) newest_def by (auto dest: in_set_dropD)
  then show "length (fst r) = 32 \<and> fst r \<noteq> EmptyWakuMessageHash"
    using store_all_puts [of e ps] assms(1)
    by (fastforce simp: proper_hashes_def list_all_iff entry_row_def put_entry_def)
qed

text \<open>
  Asking the archive of a queue for page after page, with the cursor of each response in the
  next query, ends, and the pages together are exactly the messages kept that match the query, in
  its order, each once; no page exceeds the page size. This holds for queries with at most ten
  content topics.
\<close>

lemma queue_pages_complete:
  assumes "sorted_set_sound ops entries" "0 < n" "hashes_determine_times ps" "proper_hashes ps"
    and "queue_run ops ps (queue_new ops (int n)) = Inr d"
    and "q_cursor q = None" "length (q_contentTopics q) \<le> MaxContentTopicsPerQuery"
    and "asc = direction_into (q_direction q)"
    and "rows = filter (query_matches q) (in_order asc (map entry_row (newest n (store_all ps))))"
  shows "\<exists>rs. page_chain (\<lambda>q. findMessages (queue_getMessages ops) q d) q rs
    \<and> concat (map (\<lambda>r. in_order asc (r_hashes r)) rs) = map fst rows
    \<and> (q_includeData q \<longrightarrow>
        concat (map (\<lambda>r. in_order asc (r_topics r)) rs) = map (\<lambda>r. fst (snd r)) rows
        \<and> concat (map (\<lambda>r. in_order asc (r_messages r)) rs) = map (\<lambda>r. snd (snd r)) rows)
    \<and> (\<forall>r \<in> set rs. length (r_hashes r) \<le> query_page_size q)"
proof -
  note v = queue_run_valid [OF assms(1,2,3,5)]
  define rs where "rs = responses (q_includeData q) asc (pages (query_page_size q) rows)"
  have chain: "page_chain (\<lambda>q. findMessages (queue_getMessages ops) q d) q rs"
    using queue.query_pages [OF v(1) assms(6,7) proper_contents [of ps entries d, OF assms(4) v(2)]]
    by (simp add: rs_def assms(8,9) v(2) queue_contents_def)
  have pos: "0 < query_page_size q"
    by (auto simp: query_page_size_def DefaultPageSize_def MaxPageSize_def)
  have "\<forall>r \<in> set rs. length (r_hashes r) \<le> query_page_size q"
    using responses_bounded pages_bounded [OF pos] unfolding rs_def by blast
  with chain show ?thesis
    by (intro exI [of _ rs]) (auto simp: rs_def responses_rows)
qed

lemma zero_hash: "EmptyWakuMessageHash = replicate 31 0 @ [0]"
  by (simp add: EmptyWakuMessageHash_def numeral_eq_Suc)

definition example_query :: ArchiveQuery where
  "example_query = default_query\<lparr>q_includeData := True, q_pageSize := 2\<rparr>"

lemma queue_pages_complete_example:
  "\<exists>d rs. queue_run list_set_ops [example_put 5 1, example_put 3 2, example_put 4 3, example_put 4 3]
       (queue_new list_set_ops 10) = Inr d
     \<and> page_chain (\<lambda>q. findMessages (queue_getMessages list_set_ops) q d) example_query rs
     \<and> map timestamp (concat (map (\<lambda>r. rev (r_messages r)) rs)) = [5, 4, 3]"
proof -
  define ps where "ps = [example_put 5 1, example_put 3 2, example_put 4 3, example_put 4 3]"
  define rows where
    "rows = filter (query_matches example_query) (in_order False (map entry_row (newest 10 (store_all ps))))"
  obtain d where d: "queue_run list_set_ops ps (queue_new list_set_ops (int 10)) = Inr d"
    using queue_run_newest [OF list_set_sound, of 10 ps] by auto
  have "map (\<lambda>r. timestamp (snd (snd r))) rows = [5, 4, 3]"
    by (simp add: rows_def ps_def store_all_def newest_def example_simps in_order_def entry_row_def
        query_matches_def row_matches_def example_query_def default_query_def)
  moreover have "hashes_determine_times ps" "proper_hashes ps"
    by (simp_all add: ps_def example_simps hashes_determine_times_def proper_hashes_def zero_hash)
  moreover have q: "q_cursor example_query = None" "q_contentTopics example_query = []"
    "q_includeData example_query" "\<not> direction_into (q_direction example_query)"
    by (simp_all add: example_query_def default_query_def direction_into_def)
  ultimately obtain rs where
    "page_chain (\<lambda>q. findMessages (queue_getMessages list_set_ops) q d) example_query rs"
    "concat (map (\<lambda>r. in_order False (r_messages r)) rs) = map (\<lambda>r. snd (snd r)) rows"
    using queue_pages_complete [OF list_set_sound _ _ _ d, of example_query False rows]
    by (auto simp: rows_def)
  with d \<open>map (\<lambda>r. timestamp (snd (snd r))) rows = [5, 4, 3]\<close> show ?thesis
    by (intro exI [of _ d] exI [of _ rs]) (simp add: ps_def in_order_def comp_def)
qed

text \<open>
  The limit of ten content topics is only checked where a query has a cursor: a query with more
  topics is answered with a first page and a cursor, and the same query with that cursor is refused,
  so the rest of its messages cannot be reached.
\<close>

lemma topics_limit_breaks_paging:
  assumes "queue_valid ops entries d" "q_cursor q = None"
    and "MaxContentTopicsPerQuery < length (q_contentTopics q)"
    and "list_all (\<lambda>r. length (fst r) = 32 \<and> fst r \<noteq> EmptyWakuMessageHash) (queue_contents entries d)"
    and "rows = filter (query_matches q) (in_order (direction_into (q_direction q)) (queue_contents entries d))"
    and "query_page_size q < length rows"
  shows "\<exists>r c. findMessages (queue_getMessages ops) q d = Some (Inr r) \<and> r_cursor r = Some c
    \<and> findMessages (queue_getMessages ops) (q\<lparr>q_cursor := Some c\<rparr>) d
      = Some (Inl (INVALID_QUERY ''too many content topics''))"
proof -
  define m where "m = query_page_size q"
  define a where "a = direction_into (q_direction q)"
  have pos: "0 < m" by (auto simp: m_def query_page_size_def DefaultPageSize_def MaxPageSize_def)
  have "findMessages (queue_getMessages ops) q d
      = Some (Inr (archive_page (q_includeData q) m a (take (Suc m) rows)))"
    using getMessages_first [OF assms(1)] assms(2,5)
    by (simp add: findMessages_def check_cursor_def Let_def m_def a_def query_matches_def)
  then have first: "findMessages (queue_getMessages ops) q d
      = Some (Inr (chunk_response (q_includeData q) a (take m rows) True))"
    using archive_page_chunk [OF pos] assms(6) by (simp add: m_def)
  have "take m rows \<noteq> []" using pos assms(6) by auto
  then have "last (take m rows) \<in> set rows" by (meson in_set_takeD last_in_set)
  then have "last (take m rows) \<in> set (queue_contents entries d)" by (simp add: assms(5))
  then have "length (fst (last (take m rows))) = 32" "fst (last (take m rows)) \<noteq> EmptyWakuMessageHash"
    using assms(4) by (auto simp: list_all_iff)
  with first assms(3) show ?thesis
    by (simp add: findMessages_def check_cursor_def chunk_response_def)
qed

lemma topics_limit_breaks_paging_example:
  "\<exists>d r c. queue_run list_set_ops [example_put 5 1, example_put 3 2, example_put 4 3]
       (queue_new list_set_ops 10) = Inr d
     \<and> findMessages (queue_getMessages list_set_ops)
         (example_query\<lparr>q_contentTopics := replicate 11 ''/a/1/b/c''\<rparr>) d = Some (Inr r)
     \<and> findMessages (queue_getMessages list_set_ops)
         (example_query\<lparr>q_contentTopics := replicate 11 ''/a/1/b/c'', q_cursor := Some c\<rparr>) d
       = Some (Inl (INVALID_QUERY ''too many content topics''))"
proof -
  define ps where "ps = [example_put 5 1, example_put 3 2, example_put 4 3]"
  define q where "q = example_query\<lparr>q_contentTopics := replicate 11 ''/a/1/b/c''\<rparr>"
  obtain d where d: "queue_run list_set_ops ps (queue_new list_set_ops (int 10)) = Inr d"
    using queue_run_newest [OF list_set_sound, of 10 ps] by auto
  have h: "hashes_determine_times ps" "proper_hashes ps"
    by (simp_all add: ps_def example_simps hashes_determine_times_def proper_hashes_def zero_hash)
  note v = queue_run_valid [OF list_set_sound _ h(1) d]
  have contents: "queue_contents (\<lambda>s. s) d = map entry_row (newest 10 (store_all ps))"
    using v(2) by (simp add: queue_contents_def)
  have len: "length (filter (query_matches q) (rev (map entry_row (newest 10 (store_all ps))))) = 3"
    by (simp add: ps_def store_all_def newest_def example_simps entry_row_def q_def
        query_matches_def row_matches_def example_query_def default_query_def)
  have q: "q_cursor q = None" "MaxContentTopicsPerQuery < length (q_contentTopics q)"
    "query_page_size q = 2" "\<not> direction_into (q_direction q)"
    by (simp_all add: q_def example_query_def default_query_def MaxContentTopicsPerQuery_def
        query_page_size_def MaxPageSize_def direction_into_def)
  have "list_all (\<lambda>r. length (fst r) = 32 \<and> fst r \<noteq> EmptyWakuMessageHash) (queue_contents (\<lambda>s. s) d)"
    using proper_contents [OF h(2), of "\<lambda>s. s" d 10] v(2) by (simp add: list_all_iff)
  from topics_limit_breaks_paging [OF v(1) q(1,2) this refl] obtain r c where
    "findMessages (queue_getMessages list_set_ops) q d = Some (Inr r)"
    "findMessages (queue_getMessages list_set_ops) (q\<lparr>q_cursor := Some c\<rparr>) d
       = Some (Inl (INVALID_QUERY ''too many content topics''))"
    using q(3,4) len contents by (auto simp: in_order_def)
  with d show ?thesis by (auto simp: ps_def q_def)
qed

text \<open>
  The hash does not separate the topic from the payload: a message sent under a longer topic
  hides the one whose payload begins with the rest of that topic, which the queue then refuses as a
  duplicate, whatever the hash function.
\<close>

lemma shifted_message_refused:
  assumes "queue_contains ops d
      \<lparr>ix_time = timestamp m, ix_hash = computeMessageHash sha256 (p @ s) m, ix_pubsubTopic = p @ s\<rparr>"
    and "sorted_set_sound ops entries" "ordered (entries (items d))"
    and "s \<noteq> []"
  shows "p \<noteq> p @ s
    \<and> queue_put ops (computeMessageHash sha256 p (m\<lparr>payload := string_bytes s @ payload m\<rparr>)) p
        (m\<lparr>payload := string_bytes s @ payload m\<rparr>) d = Inr (Some ''duplicate'', d)"
proof -
  have "computeMessageHash sha256 p (m\<lparr>payload := string_bytes s @ payload m\<rparr>)
      = computeMessageHash sha256 (p @ s) m"
    by (simp add: computeMessageHash_def hash_input_shift)
  with assms show ?thesis
    using sound_facts(2) [OF assms(2,3)]
    by (simp add: queue_put_def queue_add_def queue_contains_def index_id_def)
qed

lemma shifted_message_refused_example:
  "\<exists>d. queue_put list_set_ops (computeMessageHash (take 32) ''/waku/2/rs/1/15'' (example_message ''c'' 7))
      ''/waku/2/rs/1/15'' (example_message ''c'' 7) (queue_new list_set_ops 5) = Inr (None, d)
    \<and> queue_put list_set_ops
        (computeMessageHash (take 32) ''/waku/2/rs/1/1'' ((example_message ''c'' 7)\<lparr>payload := [53, 1, 2]\<rparr>))
        ''/waku/2/rs/1/1'' ((example_message ''c'' 7)\<lparr>payload := [53, 1, 2]\<rparr>) d = Inr (Some ''duplicate'', d)"
proof -
  define h where "h = computeMessageHash (take 32) (''/waku/2/rs/1/1'' @ ''5'') (example_message ''c'' 7)"
  define i where "i = \<lparr>ix_time = timestamp (example_message ''c'' 7), ix_hash = h, ix_pubsubTopic = ''/waku/2/rs/1/1'' @ ''5''\<rparr>"
  define d where "d = \<lparr>items = [(i, example_message ''c'' 7)], capacity = 5\<rparr>"
  have five: "string_bytes ''5'' = [53]" by (simp add: string_bytes_def of_char_def)
  have put1: "queue_put list_set_ops h (''/waku/2/rs/1/1'' @ ''5'') (example_message ''c'' 7)
      (queue_new list_set_ops 5) = Inr (None, d)"
    by (simp add: queue_put_def queue_add_def queue_contains_def add_item_def queue_new_def list_set_ops_def
        d_def i_def)
  have "queue_put list_set_ops
      (computeMessageHash (take 32) ''/waku/2/rs/1/1''
        ((example_message ''c'' 7)\<lparr>payload := string_bytes ''5'' @ payload (example_message ''c'' 7)\<rparr>))
      ''/waku/2/rs/1/1''
      ((example_message ''c'' 7)\<lparr>payload := string_bytes ''5'' @ payload (example_message ''c'' 7)\<rparr>) d
      = Inr (Some ''duplicate'', d)"
    using shifted_message_refused [OF _ list_set_sound, of d "example_message ''c'' 7" "take 32" "''/waku/2/rs/1/1''" "''5''"]
    by (simp add: d_def i_def h_def queue_contains_def list_set_ops_def entry_id_def index_id_def ordered_Cons)
  moreover have "string_bytes ''5'' @ payload (example_message ''c'' 7) = [53, 1, 2]"
    by (simp add: five example_message_def)
  ultimately have "queue_put list_set_ops
        (computeMessageHash (take 32) ''/waku/2/rs/1/1'' ((example_message ''c'' 7)\<lparr>payload := [53, 1, 2]\<rparr>))
        ''/waku/2/rs/1/1'' ((example_message ''c'' 7)\<lparr>payload := [53, 1, 2]\<rparr>) d = Inr (Some ''duplicate'', d)"
    by simp
  with put1 show ?thesis by (auto simp: h_def)
qed

end
