(* ===== verification/SyncArchive.thy ===== *)
theory SyncArchive
  imports SyncStorage QueueDriver
begin

text \<open>
  The synchronisation protocol over the archive: filling the storage when a node starts,
  \<open>initFillStorage\<close> of \<open>waku/waku_store_sync/reconciliation.nim\<close>, and the query for a message to
  transfer of \<open>transfer.nim\<close>. The storage is \<open>SyncStorage\<close>, the archive \<open>Archive\<close>.
\<close>

section \<open>Filling the storage\<close>

text \<open>The messages of a response; a shorter sequence of messages or topics is an index defect.\<close>

fun fill_response ::
  "(nat set \<Rightarrow> nat) \<Rightarrow> WakuMessageHash list \<Rightarrow> WakuMessage list \<Rightarrow> string list \<Rightarrow> SeqStorage
     \<Rightarrow> defect + SeqStorage" where
  "fill_response pick [] ms ts s = Inr s"
| "fill_response pick (h # hs) (m # ms) (t # ts) s =
     fill_response pick hs ms ts (storage_insert pick (SyncID (timestamp m) h) t (contentTopic m) s)"
| "fill_response pick (h # hs) ms ts s = Inl IndexDefect"

partial_function (option) fill_loop ::
  "(nat set \<Rightarrow> nat) \<Rightarrow> 'd getMessages_method \<Rightarrow> 'd \<Rightarrow> ArchiveQuery \<Rightarrow> SeqStorage
     \<Rightarrow> (defect + (string + SeqStorage)) option" where
  "fill_loop pick getMessages d query s =
     (case findMessages getMessages query d of
        None \<Rightarrow> None
      | Some (Inl e) \<Rightarrow> Some (Inr (Inl (''archive retrival failed: '' @ show_archive_error e)))
      | Some (Inr response) \<Rightarrow>
          (case fill_response pick (r_hashes response) (r_messages response) (r_topics response) s of
             Inl f \<Rightarrow> Some (Inl f)
           | Inr s \<Rightarrow>
               (case r_cursor response of
                  None \<Rightarrow> Some (Inr (Inr s))
                | Some c \<Rightarrow> fill_loop pick getMessages d (query\<lparr>q_cursor := Some c\<rparr>) s)))"

definition fill_query :: "Timestamp \<Rightarrow> Timestamp \<Rightarrow> ArchiveQuery" where
  "fill_query startTime endTime =
     default_query\<lparr>q_includeData := True, q_cursor := None, q_startTime := Some startTime,
       q_endTime := Some endTime, q_pageSize := 100, q_direction := FORWARD\<rparr>"

text \<open>\<open>None\<close> for the archive is a node without one.\<close>

definition initFillStorage ::
  "(nat set \<Rightarrow> nat) \<Rightarrow> 'd getMessages_method \<Rightarrow> Timestamp \<Rightarrow> int \<Rightarrow> 'd option
     \<Rightarrow> (defect + (string + SeqStorage)) option" where
  "initFillStorage pick getMessages endTime syncRange archive =
     (case archive of
        None \<Rightarrow> Some (Inr (Inl ''waku archive unavailable''))
      | Some d \<Rightarrow>
          (case int64 (endTime - syncRange) of
             Inl f \<Rightarrow> Some (Inl f)
           | Inr startTime \<Rightarrow>
               fill_loop pick getMessages d (fill_query startTime endTime) (new_storage 100 8)))"

section \<open>The message to transfer\<close>

definition transfer_query :: "WakuMessageHash \<Rightarrow> ArchiveQuery" where
  "transfer_query fingerprint = default_query\<lparr>q_includeData := True, q_hashes := [fingerprint]\<rparr>"

text \<open>What the loop of the transfer protocol sends for a hash; \<open>Inl\<close> is logged and nothing is sent.\<close>

definition message_to_send ::
  "'d getMessages_method \<Rightarrow> WakuMessageHash \<Rightarrow> 'd \<Rightarrow> (defect + (string + string \<times> WakuMessage)) option" where
  "message_to_send getMessages fingerprint d =
     map_option
       (\<lambda>res. case res of
          Inl e \<Rightarrow> Inr (Inl (''failed to query archive'' @ show_archive_error e))
        | Inr response \<Rightarrow>
            (case r_messages response of
               [] \<Rightarrow> Inr (Inl ''failed to fetch message from db'')
             | m # ms \<Rightarrow>
                 (case r_topics response of
                    [] \<Rightarrow> Inl IndexDefect
                  | t # ts \<Rightarrow> Inr (Inr (t, m)))))
       (findMessages getMessages (transfer_query fingerprint) d)"

section \<open>Filling in order\<close>

definition row_id :: "ArchiveRow \<Rightarrow> SyncID" where
  "row_id r = SyncID (timestamp (snd (snd r))) (fst r)"

definition row_label :: "ArchiveRow \<Rightarrow> SyncID \<times> string \<times> string" where
  "row_label r = (row_id r, fst (snd r), contentTopic (snd (snd r)))"

definition holds_rows :: "ArchiveRow list \<Rightarrow> SeqStorage \<Rightarrow> bool" where
  "holds_rows rs s \<longleftrightarrow>
     wf_storage s \<and> unusedPubsubTopicSet s = {} \<and> unusedContentTopicSet s = {}
     \<and> set (elements s) = set (map row_id rs) \<and> set (labels s) = set (map row_label rs)"

lemma insertAt_unused:
  assumes "unusedPubsubTopicSet s = {}" "unusedContentTopicSet s = {}"
  shows "unusedPubsubTopicSet (insertAt pick k e p c s) = {}" "unusedContentTopicSet (insertAt pick k e p c s) = {}"
  using assms
  by (auto simp: insertAt_def getPubsubTopicIndex_def getContentTopicIndex_def get_topic_index_def Let_def
      split: option.splits)

lemma holds_rows_insert:
  assumes "holds_rows rs s" "picks pick" "length (fst r) = 32" "row_id r \<notin> set (map row_id rs)"
  shows "holds_rows (rs @ [r]) (storage_insert pick (row_id r) (fst (snd r)) (contentTopic (snd (snd r))) s)"
proof -
  have wf: "wf_storage s" using assms(1) by (simp add: holds_rows_def)
  have new: "\<not> (lowerBound (elements s) (row_id r) < length (elements s)
      \<and> elements s ! lowerBound (elements s) (row_id r) = row_id r)"
    using assms(1,4) unfolding holds_rows_def by (metis nth_mem)
  have "set (labels (storage_insert pick (row_id r) (fst (snd r)) (contentTopic (snd (snd r))) s))
      = insert (row_label r) (set (labels s))"
    unfolding storage_insert_def using wf assms(1,2) new
    by (subst labels_insertAt) (auto simp: wf_storage_def slots_clean_def holds_rows_def row_label_def)
  moreover have "wf_storage (storage_insert pick (row_id r) (fst (snd r)) (contentTopic (snd (snd r))) s)"
    using wf assms(2,3) by (intro storage_insert_wf) (auto simp: row_id_def)
  ultimately show ?thesis
    using assms(1) by (auto simp: holds_rows_def storage_insert_set) (auto simp: storage_insert_def insertAt_unused)
qed

lemma fill_response_rows:
  assumes "holds_rows rs s" "picks pick" "\<forall>r \<in> set c. length (fst r) = 32" "distinct (map row_id (rs @ c))"
  shows "\<exists>s'. fill_response pick (map fst c) (map (\<lambda>r. snd (snd r)) c) (map (\<lambda>r. fst (snd r)) c) s = Inr s'
    \<and> holds_rows (rs @ c) s'"
  using assms
proof (induction c arbitrary: rs s)
  case (Cons r c)
  have "row_id r \<notin> set (map row_id rs)" using Cons.prems(4) by auto
  with Cons.prems have "holds_rows (rs @ [r]) (storage_insert pick (row_id r) (fst (snd r)) (contentTopic (snd (snd r))) s)"
    by (intro holds_rows_insert) auto
  from Cons.IH [OF this Cons.prems(2)] Cons.prems(3,4) show ?case by (simp add: row_id_def)
qed simp

lemma fill_loop_rows:
  assumes "page_chain (\<lambda>q. findMessages getMessages q d) q (responses True True cs)"
    and "holds_rows rs s" "picks pick" "\<forall>r \<in> set (concat cs). length (fst r) = 32"
    and "distinct (map row_id (rs @ concat cs))"
  shows "\<exists>s'. fill_loop pick getMessages d q s = Some (Inr (Inr s')) \<and> holds_rows (rs @ concat cs) s'"
  using assms
proof (induction cs arbitrary: q rs s)
  case (Cons c cs)
  have find: "findMessages getMessages q d = Some (Inr (chunk_response True True c (cs \<noteq> [])))"
    using Cons.prems(1) by simp
  have c: "\<forall>r \<in> set c. length (fst r) = 32" "distinct (map row_id (rs @ c))"
    using Cons.prems(4,5) by auto
  obtain s1 where s1: "fill_response pick (map fst c) (map (\<lambda>r. snd (snd r)) c) (map (\<lambda>r. fst (snd r)) c) s = Inr s1"
    "holds_rows (rs @ c) s1"
    using fill_response_rows [OF Cons.prems(2,3) c] by blast
  show ?case
  proof (cases "cs = []")
    case True
    with s1 find show ?thesis by (subst fill_loop.simps) (simp add: chunk_response_def in_order_def)
  next
    case False
    define q' where "q' = q\<lparr>q_cursor := Some (fst (last c))\<rparr>"
    have "page_chain (\<lambda>q. findMessages getMessages q d) q' (responses True True cs)"
      using Cons.prems(1) False by (simp add: q'_def chunk_response_def)
    from Cons.IH [OF this s1(2) Cons.prems(3)] Cons.prems(4,5) obtain s' where
      "fill_loop pick getMessages d q' s1 = Some (Inr (Inr s'))" "holds_rows (rs @ concat (c # cs)) s'" by auto
    with s1 find False show ?thesis
      by (subst fill_loop.simps) (simp add: chunk_response_def in_order_def q'_def)
  qed
qed simp

lemma put_row_id: "row_id (entry_row (put_entry p)) = entry_id (put_entry p)"
  by (cases p) (simp add: row_id_def entry_row_def put_entry_def entry_id_def index_id_def)

lemma store_all_row_ids: "map row_id (map entry_row (newest n (store_all ps))) = map entry_id (newest n (store_all ps))"
proof -
  have "row_id (entry_row e) = entry_id e" if "e \<in> set (newest n (store_all ps))" for e
  proof -
    from that have "e \<in> set (store_all ps)" unfolding newest_def by (rule in_set_dropD)
    then show ?thesis using store_all_puts [of e ps] put_row_id by auto
  qed
  then show ?thesis by simp
qed

lemma sorted_unique: "sorted_wrt (<) xs \<Longrightarrow> sorted_wrt (<) ys \<Longrightarrow> set xs = set ys \<Longrightarrow> xs = (ys :: SyncID list)"
  by (simp add: strict_sorted_equal)

lemma sorted_wrt_map_filter: "sorted_wrt P (map f xs) \<Longrightarrow> sorted_wrt P (map f (filter Q xs))"
  by (simp add: sorted_wrt_map sorted_wrt_filter)

section \<open>Properties\<close>

text \<open>
  C8. A node that starts fills its storage with exactly the messages of its archive in the range of
  the synchronisation, in order and with their topics, and for the hash of each of them the transfer
  protocol finds that message to send.
\<close>

theorem storage_filled_from_archive:
  assumes "sorted_set_sound ops ents" "0 < n" "hashes_determine_times ps" "proper_hashes ps"
    and "queue_run ops ps (queue_new ops (int n)) = Inr d" "picks pick"
    and "is_int64 (endTime - syncRange)"
    and "kept = filter (\<lambda>r. endTime - syncRange \<le> id_time (row_id r) \<and> id_time (row_id r) \<le> endTime)
      (map entry_row (newest n (store_all ps)))"
  shows "\<exists>s. initFillStorage pick (queue_getMessages ops) endTime syncRange (Some d) = Some (Inr (Inr s))
    \<and> wf_storage s \<and> elements s = map row_id kept \<and> set (labels s) = set (map row_label kept)
    \<and> list_all (\<lambda>r. message_to_send (queue_getMessages ops) (fst r) d
        = Some (Inr (Inr (fst (snd r), snd (snd r))))) kept"
proof -
  note v = queue_run_valid [OF assms(1,2,3,5)]
  have contents: "queue_contents ents d = map entry_row (newest n (store_all ps))"
    by (simp add: queue_contents_def v(2))
  define q where "q = fill_query (endTime - syncRange) endTime"
  have q: "q_cursor q = None" "q_contentTopics q = []" "direction_into (q_direction q)" "q_includeData q"
    by (simp_all add: q_def fill_query_def default_query_def direction_into_def)
  define cs where "cs = pages (query_page_size q) kept"
  have match: "query_matches q = (\<lambda>r. endTime - syncRange \<le> id_time (row_id r) \<and> id_time (row_id r) \<le> endTime)"
    by (simp add: fun_eq_iff q_def fill_query_def default_query_def query_matches_def row_matches_def row_id_def)
  have chain: "page_chain (\<lambda>q. findMessages (queue_getMessages ops) q d) q (responses True True cs)"
    using queue.query_pages [OF v(1) q(1) _ proper_contents [of ps ents d, OF assms(4) v(2)]] q
    by (simp add: cs_def assms(8) contents match in_order_def)
  have ordered: "sorted_wrt (<) (map row_id kept)"
    unfolding assms(8) using store_all_row_ids [of n ps] store_all_ordered [of ps]
    by (intro sorted_wrt_map_filter) (metis newest_def ordered_def ordered_drop)
  then have dist: "distinct (map row_id kept)" by (simp add: strict_sorted_iff)
  have hashes: "\<forall>r \<in> set kept. length (fst r) = 32"
  proof
    fix r assume "r \<in> set kept"
    then have "r \<in> set (queue_contents ents d)" by (simp add: contents assms(8))
    with proper_contents [of ps ents d, OF assms(4) v(2)] show "length (fst r) = 32" by blast
  qed
  have "holds_rows [] (new_storage 100 8)"
    by (simp add: holds_rows_def) (simp add: new_storage_def labels_def rows_def)
  from fill_loop_rows [OF chain this assms(6)] hashes dist obtain s where
    s: "fill_loop pick (queue_getMessages ops) d q (new_storage 100 8) = Some (Inr (Inr s))" "holds_rows kept s"
    by (auto simp: cs_def simp del: set_concat)
  have sorted: "elements s = map row_id kept"
    using s(2) ordered by (intro sorted_unique) (auto simp: holds_rows_def wf_storage_def)
  have sent: "message_to_send (queue_getMessages ops) (fst r) d = Some (Inr (Inr (fst (snd r), snd (snd r))))"
    if "r \<in> set kept" for r
  proof -
    have "r \<in> set (queue_contents ents d)" using that by (simp add: contents assms(8))
    moreover have "distinct (map fst (queue_contents ents d))" by (rule queue.distinct_hashes [OF v(1)])
    ultimately have one: "filter (\<lambda>x. fst x = fst r) (queue_contents ents d) = [r]"
      by (metis (mono_tags) filter_unique_key)
    show ?thesis
      using queue.query_by_hash [OF v(1), of "transfer_query (fst r)" "fst r"]
      by (simp add: message_to_send_def transfer_query_def default_query_def one chunk_response_def in_order_def)
  qed
  show ?thesis
    using s sorted sent assms(7)
    by (simp add: initFillStorage_def int64_def is_int64_def q_def holds_rows_def list_all_iff)
qed

theorem storage_filled_from_archive_witness:
  "\<exists>d s. queue_run list_set_ops [example_put 50 1, example_put 30 2, example_put 40 3]
       (queue_new list_set_ops 10) = Inr d
     \<and> initFillStorage Min (queue_getMessages list_set_ops) 45 10 (Some d) = Some (Inr (Inr s))
     \<and> elements s = [SyncID 40 (replicate 31 0 @ [3])]"
proof -
  define ps where "ps = [example_put 50 1, example_put 30 2, example_put 40 3]"
  obtain d where d: "queue_run list_set_ops ps (queue_new list_set_ops (int 10)) = Inr d"
    using queue_run_newest [OF list_set_sound, of 10 ps] by auto
  define kept where "kept = filter (\<lambda>r. 45 - 10 \<le> id_time (row_id r) \<and> id_time (row_id r) \<le> 45)
      (map entry_row (newest 10 (store_all ps)))"
  have "map row_id kept = [SyncID 40 (replicate 31 0 @ [3])]"
    by (simp add: kept_def ps_def store_all_def newest_def example_simps entry_row_def row_id_def)
  moreover have "hashes_determine_times ps" "proper_hashes ps"
    by (simp_all add: ps_def example_simps hashes_determine_times_def proper_hashes_def zero_hash)
  ultimately show ?thesis
    using storage_filled_from_archive [OF list_set_sound _ _ _ d picks_Min, of 45 10 kept] d
    by (auto simp: kept_def ps_def is_int64_def)
qed

end
