(* ===== verification/RateSetting.thy ===== *)
theory RateSetting
  imports Prelude
begin

text \<open>
  Rate limit settings, \<open>waku/common/rate_limit/setting.nim\<close>: the protocols, the settings table, its
  parsing from the command line and the lookup. Durations are nanoseconds. The regular expression
  library, the conversion to lower case and the constructors of durations are a parameter.
\<close>

section \<open>Settings\<close>

type_synonym RateLimitSetting = "int \<times> int"

abbreviation (input) volume :: "RateLimitSetting \<Rightarrow> int" where "volume \<equiv> fst"
abbreviation (input) period :: "RateLimitSetting \<Rightarrow> int" where "period \<equiv> snd"

datatype RateLimitedProtocol = GLOBAL | STOREV2 | STOREV3 | LIGHTPUSH | PEEREXCHG | FILTER

type_synonym settings_table = "RateLimitedProtocol \<Rightarrow> RateLimitSetting option"

definition UnlimitedRateLimit :: RateLimitSetting where
  "UnlimitedRateLimit = (0, 0)"

definition FilterDefaultPerPeerRateLimit :: RateLimitSetting where
  "FilterDefaultPerPeerRateLimit = (30, 60 * 10 ^ 9)"

definition isUnlimited :: "RateLimitSetting \<Rightarrow> bool" where
  "isUnlimited t \<longleftrightarrow> volume t \<le> 0 \<or> period t \<le> 0"

definition translate :: "string \<Rightarrow> RateLimitedProtocol option" where
  "translate s =
     (if s = [] then Some GLOBAL
      else if s = ''global'' then Some GLOBAL
      else if s = ''storev2'' then Some STOREV2
      else if s = ''storev3'' then Some STOREV3
      else if s = ''lightpush'' then Some LIGHTPUSH
      else if s = ''px'' then Some PEEREXCHG
      else if s = ''filter'' then Some FILTER
      else None)"

definition hasKeyOrPut :: "settings_table \<Rightarrow> RateLimitedProtocol \<Rightarrow> RateLimitSetting \<Rightarrow> settings_table" where
  "hasKeyOrPut t p s = (if t p = None then t(p \<mapsto> s) else t)"

definition fillSettingTable :: "settings_table \<Rightarrow> string \<Rightarrow> RateLimitSetting \<Rightarrow> settings_table option" where
  "fillSettingTable t sProtocol setting =
     (if sProtocol = ''store'' then Some (hasKeyOrPut (hasKeyOrPut t STOREV2 setting) STOREV3 setting)
      else map_option (\<lambda>p. t(p \<mapsto> setting)) (translate sProtocol))"

section \<open>Parsing\<close>

text \<open>
  \<open>captures\<close> gives the protocol, the volume, the duration and the unit where the expression
  matches; a constructor of durations gives \<open>None\<close> where its arithmetic overflows.
\<close>

record settings_env =
  lower_case :: "string \<Rightarrow> string"
  captures :: "string \<Rightarrow> (string \<times> string \<times> string \<times> string) option"
  milliseconds :: "int \<Rightarrow> int option"
  seconds :: "int \<Rightarrow> int option"
  minutes :: "int \<Rightarrow> int option"
  hours :: "int \<Rightarrow> int option"

datatype settings_error = InvalidSetting string | DurationOverflow

definition period_of :: "settings_env \<Rightarrow> string \<Rightarrow> int \<Rightarrow> int option" where
  "period_of env periodUnit n =
     (if periodUnit = ''ms'' then milliseconds env n
      else if periodUnit = ''s'' then seconds env n
      else if periodUnit = ''m'' then minutes env n
      else if periodUnit = ''h'' then hours env n
      else Some 0)"

definition parse_one :: "settings_env \<Rightarrow> settings_table \<Rightarrow> string \<Rightarrow> settings_error + settings_table" where
  "parse_one env t settingStr =
     (case captures env (lower_case env settingStr) of
        None \<Rightarrow> Inl (InvalidSetting settingStr)
      | Some (sProtocol, v, d, periodUnit) \<Rightarrow>
         (case parseInt v of None \<Rightarrow> Inl (InvalidSetting settingStr)
          | Some vol \<Rightarrow>
             (case parseInt d of None \<Rightarrow> Inl (InvalidSetting settingStr)
              | Some dur \<Rightarrow>
                 (case period_of env periodUnit dur of None \<Rightarrow> Inl DurationOverflow
                  | Some per \<Rightarrow>
                     (case fillSettingTable t sProtocol (vol, per) of
                        None \<Rightarrow> Inl (InvalidSetting settingStr)
                      | Some t' \<Rightarrow> Inr t')))))"

fun parse_loop :: "settings_env \<Rightarrow> string list \<Rightarrow> settings_table \<Rightarrow> settings_error + settings_table" where
  "parse_loop env [] t = Inr t"
| "parse_loop env (s # ss) t = rbind (parse_one env t s) (parse_loop env ss)"

definition parse :: "settings_env \<Rightarrow> string list \<Rightarrow> settings_error + settings_table" where
  "parse env settings =
     rbind (parse_loop env settings (\<lambda>_. None)) (\<lambda>t.
       Inr (hasKeyOrPut (hasKeyOrPut t GLOBAL UnlimitedRateLimit) FILTER FilterDefaultPerPeerRateLimit))"

definition getSetting :: "settings_table \<Rightarrow> RateLimitedProtocol \<Rightarrow> RateLimitSetting" where
  "getSetting t protocol =
     (let default = (case t GLOBAL of Some s \<Rightarrow> s | None \<Rightarrow> UnlimitedRateLimit)
      in case t protocol of Some s \<Rightarrow> s | None \<Rightarrow> default)"

section \<open>What a command line asks for\<close>

text \<open>A setting by itself: the error it gives, or the name and the value.\<close>

definition reading :: "settings_env \<Rightarrow> string \<Rightarrow> settings_error + (string \<times> RateLimitSetting)" where
  "reading env s =
     (case captures env (lower_case env s) of None \<Rightarrow> Inl (InvalidSetting s)
      | Some (name, v, d, u) \<Rightarrow>
         (case (parseInt v, parseInt d) of
            (Some v, Some d) \<Rightarrow>
              (case period_of env u d of None \<Rightarrow> Inl DurationOverflow
               | Some p \<Rightarrow> if name = ''store'' \<or> translate name \<noteq> None then Inr (name, (v, p))
                          else Inl (InvalidSetting s))
          | _ \<Rightarrow> Inl (InvalidSetting s)))"

fun readings :: "settings_env \<Rightarrow> string list \<Rightarrow> settings_error + (string \<times> RateLimitSetting) list" where
  "readings env [] = Inr []"
| "readings env (s # ss) = rbind (reading env s) (\<lambda>x. rbind (readings env ss) (\<lambda>xs. Inr (x # xs)))"

text \<open>The last value given to a protocol by its own name, the first value given to the store.\<close>

definition named :: "(string \<times> RateLimitSetting) list \<Rightarrow> RateLimitedProtocol \<Rightarrow> RateLimitSetting option" where
  "named xs p = map_of (rev (map (\<lambda>(n, s). (translate n, s)) xs)) (Some p)"

definition general :: "(string \<times> RateLimitSetting) list \<Rightarrow> RateLimitedProtocol \<Rightarrow> RateLimitSetting option" where
  "general xs p = (if p = STOREV2 \<or> p = STOREV3 then map_of xs ''store'' else None)"

definition asked :: "(string \<times> RateLimitSetting) list \<Rightarrow> RateLimitedProtocol \<Rightarrow> RateLimitSetting option" where
  "asked xs p = (case named xs p of Some s \<Rightarrow> Some s | None \<Rightarrow> general xs p)"

fun fill_all :: "(string \<times> RateLimitSetting) list \<Rightarrow> settings_table \<Rightarrow> settings_table" where
  "fill_all [] t = t"
| "fill_all ((n, s) # xs) t = fill_all xs (the (fillSettingTable t n s))"

lemma parse_one_reading:
  "parse_one env t s = rbind (reading env s) (\<lambda>(n, v). Inr (the (fillSettingTable t n v)))"
  by (auto simp: parse_one_def reading_def fillSettingTable_def split: option.splits)

lemma parse_loop_readings:
  "parse_loop env ss t = rbind (readings env ss) (\<lambda>xs. Inr (fill_all xs t))"
proof (induction ss arbitrary: t)
  case (Cons s ss)
  show ?case
    by (cases "reading env s"; cases "readings env ss") (auto simp: parse_one_reading Cons)
qed simp

lemma translate_store: "translate ''store'' = None"
  by (simp add: translate_def)

lemma fillSettingTable_store:
  "the (fillSettingTable t ''store'' s) p =
     (if (p = STOREV2 \<or> p = STOREV3) \<and> t p = None then Some s else t p)"
  by (auto simp: fillSettingTable_def hasKeyOrPut_def)

lemma fillSettingTable_named:
  "n \<noteq> ''store'' \<Longrightarrow> translate n = Some q \<Longrightarrow> the (fillSettingTable t n s) = t(q \<mapsto> s)"
  by (simp add: fillSettingTable_def)

lemma named_Cons:
  "named ((n, s) # xs) p = (case named xs p of Some v \<Rightarrow> Some v
    | None \<Rightarrow> if translate n = Some p then Some s else None)"
  by (auto simp: named_def map_add_def split: option.split)

lemma fill_all_at:
  assumes "\<forall>(n, s) \<in> set xs. n = ''store'' \<or> translate n \<noteq> None"
  shows "fill_all xs t p = (case named xs p of Some s \<Rightarrow> Some s
    | None \<Rightarrow> (case t p of Some s \<Rightarrow> Some s | None \<Rightarrow> general xs p))"
  using assms
proof (induction xs arbitrary: t)
  case Nil
  then show ?case by (simp add: named_def general_def split: option.split)
next
  case (Cons x xs)
  obtain n s where x: "x = (n, s)" by (cases x)
  have IH: "fill_all xs t' p = (case named xs p of Some s \<Rightarrow> Some s
      | None \<Rightarrow> (case t' p of Some s \<Rightarrow> Some s | None \<Rightarrow> general xs p))" for t'
    using Cons by simp
  show ?case
  proof (cases "n = ''store''")
    case True
    then show ?thesis
      by (auto simp: x IH named_Cons fillSettingTable_store translate_store general_def split: option.split)
  next
    case False
    with Cons.prems x obtain q where "translate n = Some q" by auto
    with False show ?thesis
      by (auto simp: x IH named_Cons fillSettingTable_named general_def split: option.split)
  qed
qed

lemma readings_names:
  "readings env ss = Inr xs \<Longrightarrow> \<forall>(n, s) \<in> set xs. n = ''store'' \<or> translate n \<noteq> None"
proof (induction ss arbitrary: xs)
  case (Cons s ss)
  then show ?case
    by (fastforce simp: rbind_eq_Inr reading_def split: option.splits if_splits)
qed simp

section \<open>Property\<close>

text \<open>
  Parsing fails with the first setting that is malformed by itself. Otherwise a protocol gets
  the last value given under its own name; a store protocol without one gets the first value given
  to the store in general, wherever that stands; filter without one gets its default; and any other
  protocol gets the global value, which is unlimited when none is given.
\<close>

lemma settings_parsed:
  "(case readings env ss of Inl e \<Rightarrow> parse env ss = Inl e
    | Inr xs \<Rightarrow> (\<exists>t. parse env ss = Inr t
      \<and> getSetting t GLOBAL = (case named xs GLOBAL of Some s \<Rightarrow> s | None \<Rightarrow> UnlimitedRateLimit)
      \<and> getSetting t FILTER = (case named xs FILTER of Some s \<Rightarrow> s | None \<Rightarrow> FilterDefaultPerPeerRateLimit)
      \<and> getSetting t STOREV2 = (case asked xs STOREV2 of Some s \<Rightarrow> s | None \<Rightarrow> getSetting t GLOBAL)
      \<and> getSetting t STOREV3 = (case asked xs STOREV3 of Some s \<Rightarrow> s | None \<Rightarrow> getSetting t GLOBAL)
      \<and> getSetting t LIGHTPUSH = (case named xs LIGHTPUSH of Some s \<Rightarrow> s | None \<Rightarrow> getSetting t GLOBAL)
      \<and> getSetting t PEEREXCHG = (case named xs PEEREXCHG of Some s \<Rightarrow> s | None \<Rightarrow> getSetting t GLOBAL)))"
proof (cases "readings env ss")
  case (Inl e)
  then show ?thesis by (simp add: parse_def parse_loop_readings)
next
  case (Inr xs)
  have f: "fill_all xs (\<lambda>_. None) p = asked xs p" for p
    using fill_all_at [OF readings_names [OF Inr]] by (simp add: asked_def split: option.split)
  have g: "asked xs p = named xs p" if "p \<noteq> STOREV2" "p \<noteq> STOREV3" for p
    using that by (simp add: asked_def general_def split: option.split)
  let ?t = "hasKeyOrPut (hasKeyOrPut (fill_all xs (\<lambda>_. None)) GLOBAL UnlimitedRateLimit) FILTER
    FilterDefaultPerPeerRateLimit"
  have "parse env ss = Inr ?t" by (simp add: parse_def parse_loop_readings Inr)
  moreover have "?t p = (case asked xs p of Some s \<Rightarrow> Some s
      | None \<Rightarrow> if p = GLOBAL then Some UnlimitedRateLimit
        else if p = FILTER then Some FilterDefaultPerPeerRateLimit else None)" for p
    by (auto simp: hasKeyOrPut_def f split: option.split)
  ultimately show ?thesis
    by (auto simp: Inr getSetting_def g split: option.split)
qed

end
