(* ===== verification/ExpiringStore.thy ===== *)
theory ExpiringStore
  imports Prelude
begin

text \<open>
  The contract between a store whose entries expire and its clients: putting a key returns a
  reference to the value the key has, or the new one where the key is missing or out of date, and
  renews the key. What a client stores may be handles to objects of its own; the lemmas relate
  those objects to a map from keys to objects with the time they expire.
\<close>

section \<open>Maps with a time of expiry\<close>

definition alive :: "int \<Rightarrow> ('v \<times> int) option \<Rightarrow> ('v \<times> int) option" where
  "alive now r = (case r of None \<Rightarrow> None | Some (v, e) \<Rightarrow> if e \<le> now then None else Some (v, e))"

lemma alive_None [simp]: "alive now None = None"
  by (simp add: alive_def)

lemma alive_Some: "alive now (Some (v, e)) = (if e \<le> now then None else Some (v, e))"
  by (simp add: alive_def)

lemma alive_eq_Some: "alive now r = Some (v, e) \<longleftrightarrow> r = Some (v, e) \<and> now < e"
  by (auto simp: alive_def split: option.split)

lemma alive_later [simp]: "now \<le> now' \<Longrightarrow> alive now' (alive now r) = alive now' r"
  by (auto simp: alive_def split: option.split)

lemma alive_map: "alive now (map_option (\<lambda>(v, e). (f v, e)) r) = map_option (\<lambda>(v, e). (f v, e)) (alive now r)"
  by (auto simp: alive_def split: option.split)

definition value_or :: "'v \<Rightarrow> ('v \<times> int) option \<Rightarrow> 'v" where
  "value_or v r = (case r of None \<Rightarrow> v | Some (w, e) \<Rightarrow> w)"

lemma value_or_simps [simp]: "value_or v None = v" "value_or v (Some (w, e)) = w"
  by (simp_all add: value_or_def)

definition renew :: "'k \<Rightarrow> 'v \<Rightarrow> int \<Rightarrow> int \<Rightarrow> ('k \<Rightarrow> ('v \<times> int) option) \<Rightarrow> 'k \<Rightarrow> ('v \<times> int) option" where
  "renew k v now d m = (\<lambda>j. if j = k then Some (v, now + d) else alive now (m j))"

section \<open>The contract\<close>

locale expiring_store =
  fixes put_key :: "'k \<Rightarrow> 'v \<Rightarrow> int \<Rightarrow> 's \<Rightarrow> ('r \<times> 's) option"
    and read_ref :: "'s \<Rightarrow> 'r \<Rightarrow> 'v"
    and represents :: "int \<Rightarrow> 's \<Rightarrow> ('k \<Rightarrow> ('v \<times> int) option) \<Rightarrow> bool"
    and lifetime :: int
  assumes put_key_law: "represents c s m \<Longrightarrow> c \<le> now \<Longrightarrow>
    \<exists>r s'. put_key k v now s = Some (r, s')
      \<and> read_ref s' r = value_or v (alive now (m k))
      \<and> represents now s' (renew k (value_or v (alive now (m k))) now lifetime m)"

section \<open>Stores of handles\<close>

text \<open>
  \<open>bs\<close> are the objects the handles refer to. Different keys hold different handles, and the
  objects are those of \<open>peers\<close> as far as they are not out of date.
\<close>

definition handles_for :: "int \<Rightarrow> ('k \<Rightarrow> (nat \<times> int) option) \<Rightarrow> 'b list \<Rightarrow> ('k \<Rightarrow> ('b \<times> int) option) \<Rightarrow> bool" where
  "handles_for c m bs peers \<longleftrightarrow>
     (\<forall>k i e. m k = Some (i, e) \<longrightarrow> i < length bs)
   \<and> (\<forall>j k i e e'. m j = Some (i, e) \<longrightarrow> m k = Some (i, e') \<longrightarrow> j = k)
   \<and> (\<forall>k now. c \<le> now \<longrightarrow> map_option (\<lambda>(i, e). (bs ! i, e)) (alive now (m k)) = alive now (peers k))"

lemma handles_for_start: "handles_for c (\<lambda>_. None) [] (\<lambda>_. None)"
  by (simp add: handles_for_def)

text \<open>
  Renewing a key with a fresh handle, and then giving the object behind the handle found a new
  state.
\<close>

lemma handles_for_renew:
  assumes h: "handles_for c m bs peers" and c: "c \<le> now"
    and i: "i = value_or (length bs) (alive now (m k))"
  shows "i < length (bs @ [b])"
    and "(bs @ [b]) ! i = value_or b (alive now (peers k))"
    and "handles_for now (renew k i now d m) ((bs @ [b])[i := b']) (renew k b' now d peers)"
proof -
  have r: "\<And>j x e. m j = Some (x, e) \<Longrightarrow> x < length bs"
    and inj: "\<And>j j' x e e'. m j = Some (x, e) \<Longrightarrow> m j' = Some (x, e') \<Longrightarrow> j = j'"
    and v: "\<And>j t. c \<le> t \<Longrightarrow> map_option (\<lambda>(i, e). (bs ! i, e)) (alive t (m j)) = alive t (peers j)"
    using h unfolding handles_for_def by blast+
  have i_cases: "i = length bs \<and> alive now (m k) = None \<or> (\<exists>e. m k = Some (i, e) \<and> i < length bs)"
    using i r by (cases "alive now (m k)") (auto simp: alive_eq_Some)
  then show "i < length (bs @ [b])" by auto
  show "(bs @ [b]) ! i = value_or b (alive now (peers k))"
    using v [OF c, of k, symmetric] i r
    by (cases "alive now (m k)") (auto simp: alive_eq_Some nth_append)
  have other: "x < length bs" "x \<noteq> i" if "m j = Some (x, e)" "j \<noteq> k" for j x e
    using i_cases that r [of j x e] inj [of j x e k] by auto
  have "map_option (\<lambda>(x, e). ((bs @ [b])[i := b'] ! x, e)) (alive t (renew k i now d m j))
      = alive t (renew k b' now d peers j)" if "now \<le> t" for j t
  proof (cases "j = k")
    case True
    with i_cases show ?thesis by (auto simp: renew_def alive_Some)
  next
    case False
    have "map_option (\<lambda>(x, e). ((bs @ [b])[i := b'] ! x, e)) (alive t (m j))
        = map_option (\<lambda>(x, e). (bs ! x, e)) (alive t (m j))"
      using other [OF _ False] by (cases "m j") (auto simp: alive_Some nth_append)
    with False that v [of t j] c show ?thesis by (simp add: renew_def)
  qed
  moreover have "x < length ((bs @ [b])[i := b'])" if "renew k i now d m j = Some (x, e)" for j x e
    using that i_cases r [of j x e] by (auto simp: renew_def alive_eq_Some split: if_splits)
  moreover have "j = j'" if "renew k i now d m j = Some (x, e)" "renew k i now d m j' = Some (x, e')" for j j' x e e'
    using that other(2) inj [of j x _ j'] by (auto simp: renew_def alive_eq_Some split: if_splits)
  ultimately show "handles_for now (renew k i now d m) ((bs @ [b])[i := b']) (renew k b' now d peers)"
    unfolding handles_for_def by blast
qed

text \<open>Stores of handles obey the contract at the type of handles.\<close>

locale handle_store = expiring_store put_key read_ref represents lifetime
  for put_key :: "'k \<Rightarrow> nat \<Rightarrow> int \<Rightarrow> 's \<Rightarrow> ('r \<times> 's) option"
    and read_ref represents lifetime
begin

definition objects :: "int \<Rightarrow> 's \<Rightarrow> 'b list \<Rightarrow> ('k \<Rightarrow> ('b \<times> int) option) \<Rightarrow> bool" where
  "objects c s bs peers \<longleftrightarrow> (\<exists>m. represents c s m \<and> handles_for c m bs peers)"

text \<open>One access by a client: a fresh handle is offered, and the object found changes its state.\<close>

lemma access:
  assumes "objects c s bs peers" "c \<le> now"
  shows "\<exists>r s'. put_key k (length bs) now s = Some (r, s')
    \<and> read_ref s' r < length (bs @ [b])
    \<and> (bs @ [b]) ! read_ref s' r = value_or b (alive now (peers k))
    \<and> (\<forall>b'. objects now s' ((bs @ [b])[read_ref s' r := b']) (renew k b' now lifetime peers))"
proof -
  obtain m where m: "represents c s m" "handles_for c m bs peers"
    using assms(1) by (auto simp: objects_def)
  obtain r s' where s': "put_key k (length bs) now s = Some (r, s')"
    "read_ref s' r = value_or (length bs) (alive now (m k))"
    "represents now s' (renew k (value_or (length bs) (alive now (m k))) now lifetime m)"
    using put_key_law [OF m(1) assms(2)] by blast
  show ?thesis
    using handles_for_renew [OF m(2) assms(2) s'(2)] s' unfolding objects_def by auto
qed

end

end
