(* ===== verification/TimedMap.thy ===== *)
theory TimedMap
  imports ExpiringStore
begin

text \<open>
  The timed map of \<open>waku/common/rate_limit/timed_map.nim\<close>: entries in a doubly linked list ordered
  by expiry and a hash set of the same entries. The references are positions in a store of all
  entries ever allocated. An association list ordered by age is the specification; while the clock
  does not go back every operation of the linked structure computes the operation of the list.
\<close>

section \<open>The store\<close>

type_synonym ref = nat

record ('k, 'v) TimedEntry =
  key :: 'k
  val :: 'v
  addedAt :: int
  expiresAt :: int
  nxt :: "ref option"
  prv :: "ref option"

text \<open>Two entries are equal, and hash alike, when their keys are, so the set is a map from keys.\<close>

record ('k, 'v) TimedMap =
  store :: "('k, 'v) TimedEntry list"
  head :: "ref option"
  tail :: "ref option"
  entries :: "'k \<Rightarrow> ref option"
  timeout :: int

definition tm_init :: "int \<Rightarrow> ('k, 'v) TimedMap" where
  "tm_init t = \<lparr>store = [], head = None, tail = None, entries = (\<lambda>_. None), timeout = t\<rparr>"

definition entry :: "('k, 'v) TimedMap \<Rightarrow> ref \<Rightarrow> ('k, 'v) TimedEntry" where
  "entry t p = store t ! p"

definition modify ::
  "ref \<Rightarrow> (('k, 'v) TimedEntry \<Rightarrow> ('k, 'v) TimedEntry) \<Rightarrow> ('k, 'v) TimedMap \<Rightarrow> ('k, 'v) TimedMap" where
  "modify p f t = t\<lparr>store := (store t)[p := f (store t ! p)]\<rparr>"

definition excl :: "'k \<Rightarrow> ('k, 'v) TimedMap \<Rightarrow> ('k, 'v) TimedMap" where
  "excl k t = t\<lparr>entries := (entries t)(k := None)\<rparr>"

definition incl :: "ref \<Rightarrow> ('k, 'v) TimedMap \<Rightarrow> ('k, 'v) TimedMap" where
  "incl p t =
     (if entries t (key (entry t p)) = None
      then t\<lparr>entries := (entries t)(key (entry t p) := Some p)\<rparr> else t)"

text \<open>The comparison of references in the source compares the entries, that is their keys.\<close>

definition same_entry :: "('k, 'v) TimedMap \<Rightarrow> ref option \<Rightarrow> ref option \<Rightarrow> bool" where
  "same_entry t a b =
     (case (a, b) of (None, None) \<Rightarrow> True | (Some p, Some q) \<Rightarrow> key (entry t p) = key (entry t q)
      | _ \<Rightarrow> False)"

section \<open>Operations\<close>

text \<open>The loop of \<open>expire\<close>, which follows the links as far as the entries are out of date.\<close>

partial_function (option) expire :: "int \<Rightarrow> ('k, 'v) TimedMap \<Rightarrow> ('k, 'v) TimedMap option" where
  "expire now t =
     (case head t of None \<Rightarrow> Some t
      | Some h \<Rightarrow>
         if expiresAt (entry t h) \<le> now then
           (let t = excl (key (entry t h)) t;
                t = modify h (\<lambda>e. e\<lparr>prv := None\<rparr>) t;
                t = t\<lparr>head := nxt (entry t h)\<rparr>;
                t = (if head t = None then t\<lparr>tail := None\<rparr> else t)
            in expire now t)
         else Some t)"

text \<open>Taking an entry out of the links of its neighbours.\<close>

definition unlink :: "ref \<Rightarrow> ('k, 'v) TimedMap \<Rightarrow> ('k, 'v) TimedMap" where
  "unlink i t =
     (let t = (case nxt (entry t i) of None \<Rightarrow> t
               | Some n \<Rightarrow> modify n (\<lambda>e. e\<lparr>prv := prv (entry t i)\<rparr>) t)
      in case prv (entry t i) of None \<Rightarrow> t
         | Some p \<Rightarrow> modify p (\<lambda>e. e\<lparr>nxt := nxt (entry t i)\<rparr>) t)"

definition del :: "'k \<Rightarrow> ('k, 'v) TimedMap \<Rightarrow> ref option \<times> ('k, 'v) TimedMap" where
  "del k t =
     (case entries t k of None \<Rightarrow> (None, t)
      | Some item \<Rightarrow>
         let t = excl (key (entry t item)) t;
             t = t\<lparr>head := (if same_entry t (head t) (Some item) then nxt (entry t item) else head t)\<rparr>;
             t = t\<lparr>tail := (if same_entry t (tail t) (Some item) then prv (entry t item) else tail t)\<rparr>
         in (Some item, unlink item t))"

definition remove :: "'k \<Rightarrow> ('k, 'v) TimedMap \<Rightarrow> 'v option \<times> ('k, 'v) TimedMap" where
  "remove k t = (case del k t of (d, t') \<Rightarrow> (map_option (\<lambda>p. val (entry t' p)) d, t'))"

text \<open>The search for the place of a new entry, from the tail.\<close>

partial_function (option) place ::
  "('k, 'v) TimedMap \<Rightarrow> int \<Rightarrow> ref option \<Rightarrow> ref option option" where
  "place t expires cur =
     (case cur of None \<Rightarrow> Some None
      | Some p \<Rightarrow>
         if expires < expiresAt (entry t p) then place t expires (prv (entry t p)) else Some cur)"

text \<open>Linking the new entry \<open>node\<close> at the place found.\<close>

definition link_at :: "ref \<Rightarrow> ref option \<Rightarrow> ('k, 'v) TimedMap \<Rightarrow> ('k, 'v) TimedMap" where
  "link_at node cur t =
     (case cur of
        None \<Rightarrow>
          let t = modify node (\<lambda>e. e\<lparr>nxt := head t\<rparr>) t;
              t = (case head t of None \<Rightarrow> t | Some h \<Rightarrow> modify h (\<lambda>e. e\<lparr>prv := Some node\<rparr>) t)
          in t\<lparr>head := Some node\<rparr>
      | Some c \<Rightarrow>
          let t = modify node (\<lambda>e. e\<lparr>prv := Some c\<rparr>) t;
              t = modify node (\<lambda>e. e\<lparr>nxt := nxt (entry t c)\<rparr>) t;
              t = modify c (\<lambda>e. e\<lparr>nxt := Some node\<rparr>) t
          in if same_entry t (Some c) (tail t) then t\<lparr>tail := Some node\<rparr> else t)"

text \<open>The result is the reference of the entry, through which the caller may change the value.\<close>

definition mgetOrPut ::
  "'k \<Rightarrow> 'v \<Rightarrow> int \<Rightarrow> ('k, 'v) TimedMap \<Rightarrow> (ref \<times> ('k, 'v) TimedMap) option" where
  "mgetOrPut k v now t =
     Option.bind (expire now t) (\<lambda>t.
       case del k t of (previous, t) \<Rightarrow>
         let added = (case previous of Some p \<Rightarrow> addedAt (entry t p) | None \<Rightarrow> now);
             value = (case previous of Some p \<Rightarrow> val (entry t p) | None \<Rightarrow> v);
             node = length (store t);
             t = t\<lparr>store := store t @ [\<lparr>key = k, val = value, addedAt = added,
                    expiresAt = now + timeout t, nxt = None, prv = None\<rparr>]\<rparr>
         in Option.bind
              (if head t = None then Some (t\<lparr>tail := Some node, head := Some node\<rparr>)
               else Option.bind (place t (expiresAt (entry t node)) (tail t)) (\<lambda>cur.
                 Some (link_at node cur t)))
              (\<lambda>t. Some (node, incl node t)))"

definition contains :: "('k, 'v) TimedMap \<Rightarrow> 'k \<Rightarrow> bool" where
  "contains t k \<longleftrightarrow> entries t k \<noteq> None"

text \<open>\<open>default(Moment)\<close> is the moment zero.\<close>

definition added_at :: "('k, 'v) TimedMap \<Rightarrow> 'k \<Rightarrow> int" where
  "added_at t k = (case entries t k of Some p \<Rightarrow> addedAt (entry t p) | None \<Rightarrow> 0)"

section \<open>The specification: a list ordered by age\<close>

type_synonym ('k, 'v) item = "'k \<times> 'v \<times> int \<times> int"

definition item_key :: "('k, 'v) item \<Rightarrow> 'k" where "item_key x = fst x"
definition item_val :: "('k, 'v) item \<Rightarrow> 'v" where "item_val x = fst (snd x)"
definition item_added :: "('k, 'v) item \<Rightarrow> int" where "item_added x = fst (snd (snd x))"
definition item_expires :: "('k, 'v) item \<Rightarrow> int" where "item_expires x = snd (snd (snd x))"

definition live :: "int \<Rightarrow> ('k, 'v) item list \<Rightarrow> ('k, 'v) item list" where
  "live now xs = dropWhile (\<lambda>x. item_expires x \<le> now) xs"

definition without :: "'k \<Rightarrow> ('k, 'v) item list \<Rightarrow> ('k, 'v) item list" where
  "without k xs = filter (\<lambda>x. item_key x \<noteq> k) xs"

definition lookup :: "'k \<Rightarrow> ('k, 'v) item list \<Rightarrow> ('k, 'v) item option" where
  "lookup k xs = List.find (\<lambda>x. item_key x = k) xs"

definition touch :: "'k \<Rightarrow> 'v \<Rightarrow> int \<Rightarrow> int \<Rightarrow> ('k, 'v) item list \<Rightarrow> ('k, 'v) item list" where
  "touch k v now dur xs =
     (let ys = live now xs in without k ys @
        [case lookup k ys of Some x \<Rightarrow> (k, item_val x, item_added x, now + dur)
         | None \<Rightarrow> (k, v, now, now + dur)])"


section \<open>The links of a list of references\<close>

text \<open>Forward from each reference to the next, the last to \<open>e\<close>; backward from each to the one before.\<close>

fun forward :: "('k, 'v) TimedEntry list \<Rightarrow> ref list \<Rightarrow> ref option \<Rightarrow> bool" where
  "forward h [] e = True"
| "forward h [p] e = (nxt (h ! p) = e)"
| "forward h (p # q # ps) e = (nxt (h ! p) = Some q \<and> forward h (q # ps) e)"

fun backward :: "('k, 'v) TimedEntry list \<Rightarrow> ref list \<Rightarrow> bool" where
  "backward h (p # q # ps) = (prv (h ! q) = Some p \<and> backward h (q # ps))"
| "backward h _ = True"

lemma forward_append:
  "as \<noteq> [] \<Longrightarrow> bs \<noteq> [] \<Longrightarrow>
    forward h (as @ bs) e \<longleftrightarrow> forward h as (Some (hd bs)) \<and> forward h bs e"
proof (induction h as e rule: forward.induct)
  case (2 h p e)
  then show ?case by (cases bs) auto
qed auto

lemma backward_append:
  "as \<noteq> [] \<Longrightarrow> bs \<noteq> [] \<Longrightarrow>
    backward h (as @ bs) \<longleftrightarrow> backward h as \<and> prv (h ! hd bs) = Some (last as) \<and> backward h bs"
proof (induction as)
  case (Cons a as)
  then show ?case by (cases as; cases bs) auto
qed simp

lemma forward_cong: "\<forall>p \<in> set ps. nxt (h ! p) = nxt (h' ! p) \<Longrightarrow> forward h ps e = forward h' ps e"
  by (induction h ps e rule: forward.induct) auto

lemma backward_cong:
  "\<forall>p \<in> set (List.tl ps). prv (h ! p) = prv (h' ! p) \<Longrightarrow> backward h ps = backward h' ps"
  by (induction h ps rule: backward.induct) auto

lemma forward_last: "ps \<noteq> [] \<Longrightarrow> forward h ps e \<Longrightarrow> nxt (h ! last ps) = e"
  by (induction h ps e rule: forward.induct) auto

lemma forward_change_last:
  "forward h ps e \<Longrightarrow> \<forall>p \<in> set (butlast ps). nxt (h' ! p) = nxt (h ! p) \<Longrightarrow>
    (ps \<noteq> [] \<Longrightarrow> nxt (h' ! last ps) = e') \<Longrightarrow> forward h' ps e'"
  by (induction h ps e rule: forward.induct) auto

section \<open>The representation\<close>

definition item_of :: "('k, 'v) TimedEntry \<Rightarrow> ('k, 'v) item" where
  "item_of e = (key e, val e, addedAt e, expiresAt e)"

lemma item_of_links [simp]:
  "item_of (e\<lparr>nxt := n\<rparr>) = item_of e" "item_of (e\<lparr>prv := n\<rparr>) = item_of e"
  by (simp_all add: item_of_def)

lemma item_fields [simp]:
  "item_key (item_of e) = key e" "item_val (item_of e) = val e"
  "item_added (item_of e) = addedAt e" "item_expires (item_of e) = expiresAt e"
  by (simp_all add: item_of_def item_key_def item_val_def item_added_def item_expires_def)

lemma item_tuple [simp]:
  "item_key (k, v, a, x) = k" "item_val (k, v, a, x) = v"
  "item_added (k, v, a, x) = a" "item_expires (k, v, a, x) = x"
  by (simp_all add: item_key_def item_val_def item_added_def item_expires_def)

text \<open>
  What the first entry's backward link refers to is no entry of the list: \<open>expire\<close> leaves it at the
  entry it removed. The tail of an empty list is not determined either.
\<close>

definition rep_at :: "('k, 'v) TimedMap \<Rightarrow> ref list \<Rightarrow> bool" where
  "rep_at t ps \<longleftrightarrow>
     distinct ps \<and> set ps \<subseteq> {..<length (store t)}
   \<and> distinct (map (\<lambda>p. key (entry t p)) ps)
   \<and> head t = (if ps = [] then None else Some (hd ps))
   \<and> (ps \<noteq> [] \<longrightarrow> tail t = Some (last ps))
   \<and> forward (store t) ps None \<and> backward (store t) ps
   \<and> (ps \<noteq> [] \<longrightarrow> (\<forall>q. prv (entry t (hd ps)) = Some q \<longrightarrow> q \<notin> set ps \<and> q < length (store t)))
   \<and> entries t = map_of (map (\<lambda>p. (key (entry t p), p)) ps)"

definition rep :: "('k, 'v) TimedMap \<Rightarrow> ('k, 'v) item list \<Rightarrow> bool" where
  "rep t xs \<longleftrightarrow> (\<exists>ps. rep_at t ps \<and> xs = map (\<lambda>p. item_of (entry t p)) ps)"

lemma rep_init: "rep (tm_init d) []"
  by (auto simp: rep_def rep_at_def tm_init_def)

lemma map_of_keys_Some:
  "distinct (map f ps) \<Longrightarrow> map_of (map (\<lambda>p. (f p, p)) ps) k = Some p \<longleftrightarrow> p \<in> set ps \<and> f p = k"
proof (induction ps)
  case (Cons a ps)
  then show ?case by (cases "f a = k") (auto simp: image_iff)
qed simp

lemma map_of_keys_None: "map_of (map (\<lambda>p. (f p, p)) ps) k = None \<longleftrightarrow> k \<notin> f ` set ps"
  by (induction ps) auto

lemma map_of_keys_remove:
  "distinct (map f (as @ p # bs)) \<Longrightarrow>
    (map_of (map (\<lambda>p. (f p, p)) (as @ p # bs)))(f p := None)
      = map_of (map (\<lambda>p. (f p, p)) (as @ bs))"
proof (rule ext)
  fix k
  assume d: "distinct (map f (as @ p # bs))"
  show "((map_of (map (\<lambda>p. (f p, p)) (as @ p # bs)))(f p := None)) k
      = map_of (map (\<lambda>p. (f p, p)) (as @ bs)) k"
  proof (cases "k = f p")
    case True
    have "map_of (map (\<lambda>p. (f p, p)) (as @ bs)) (f p) = None"
      unfolding map_of_keys_None using d by auto
    with True show ?thesis by (simp add: map_add_def)
  qed (auto simp: map_add_def split: option.split)
qed


section \<open>The operations on the representation\<close>

lemma entry_modify:
  "p < length (store t) \<Longrightarrow> entry (modify p f t) q = (if q = p then f (entry t p) else entry t q)"
  by (simp add: entry_def modify_def nth_list_update)

lemma modify_fields [simp]:
  "head (modify p f t) = head t" "tail (modify p f t) = tail t"
  "entries (modify p f t) = entries t" "timeout (modify p f t) = timeout t"
  "length (store (modify p f t)) = length (store t)"
  by (simp_all add: modify_def)

lemma entry_updates [simp]:
  "entry (t\<lparr>head := h\<rparr>) p = entry t p" "entry (t\<lparr>tail := h\<rparr>) p = entry t p"
  "entry (t\<lparr>entries := e\<rparr>) p = entry t p" "entry (excl k t) p = entry t p"
  by (simp_all add: entry_def excl_def)

lemma excl_fields [simp]:
  "head (excl k t) = head t" "tail (excl k t) = tail t" "store (excl k t) = store t"
  "timeout (excl k t) = timeout t" "entries (excl k t) = (entries t)(k := None)"
  by (simp_all add: excl_def)

text \<open>The links and the stored items of a list of references, through \<open>entry\<close>.\<close>

lemma rep_at_cases:
  "rep_at t (p # ps) \<Longrightarrow> p < length (store t) \<and> p \<notin> set ps \<and> key (entry t p) \<notin> (\<lambda>p. key (entry t p)) ` set ps
    \<and> nxt (entry t p) = (if ps = [] then None else Some (hd ps))"
  by (cases ps) (auto simp: rep_at_def entry_def)

lemma rep_at_entries:
  assumes "rep_at t ps"
  shows "entries t k = Some p \<longleftrightarrow> p \<in> set ps \<and> key (entry t p) = k"
    and "entries t k = None \<longleftrightarrow> k \<notin> (\<lambda>p. key (entry t p)) ` set ps"
  using assms map_of_keys_Some [of "\<lambda>p. key (entry t p)" ps k p]
    map_of_keys_None [of "\<lambda>p. key (entry t p)" ps k]
  by (simp_all add: rep_at_def)

text \<open>A step of \<open>expire\<close> drops the first reference.\<close>

definition drop_head :: "ref \<Rightarrow> ('k, 'v) TimedMap \<Rightarrow> ('k, 'v) TimedMap" where
  "drop_head h t =
     (let t = excl (key (entry t h)) t;
          t = modify h (\<lambda>e. e\<lparr>prv := None\<rparr>) t;
          t = t\<lparr>head := nxt (entry t h)\<rparr>
      in if head t = None then t\<lparr>tail := None\<rparr> else t)"

lemma entry_drop_head:
  "h < length (store t) \<Longrightarrow> entry (drop_head h t) q = (if q = h then (entry t h)\<lparr>prv := None\<rparr> else entry t q)"
  by (simp add: drop_head_def Let_def entry_modify)

lemma drop_head_store:
  "store (drop_head h t) = (store t)[h := (entry t h)\<lparr>prv := None\<rparr>]"
  by (simp add: drop_head_def Let_def modify_def entry_def)

lemma drop_head_rep:
  assumes r: "rep_at t (p # ps)"
  shows "rep_at (drop_head p t) ps"
    and "map (\<lambda>q. item_of (entry (drop_head p t) q)) ps = map (\<lambda>q. item_of (entry t q)) ps"
    and "timeout (drop_head p t) = timeout t"
proof -
  note c = rep_at_cases [OF r]
  have e: "\<And>q. q \<in> set ps \<Longrightarrow> entry (drop_head p t) q = entry t q"
    using c by (auto simp: entry_drop_head)
  then show "map (\<lambda>q. item_of (entry (drop_head p t) q)) ps = map (\<lambda>q. item_of (entry t q)) ps"
    by simp
  show "timeout (drop_head p t) = timeout t" by (simp add: drop_head_def Let_def)
  have keys: "map (\<lambda>q. key (entry (drop_head p t) q)) ps = map (\<lambda>q. key (entry t q)) ps"
    using e by simp
  have st: "\<And>q. q \<in> set ps \<Longrightarrow> store (drop_head p t) ! q = store t ! q"
    using e by (simp add: entry_def)
  have f: "forward (store (drop_head p t)) ps None" and b: "backward (store (drop_head p t)) ps"
    using r st forward_cong [of ps "store (drop_head p t)" "store t" None]
      backward_cong [of ps "store (drop_head p t)" "store t"]
    by (cases ps; auto simp: rep_at_def)+
  have "entries (drop_head p t) = (entries t)(key (entry t p) := None)"
    by (simp add: drop_head_def Let_def)
  also have "\<dots> = map_of (map (\<lambda>q. (key (entry t q), q)) ps)"
    using r map_of_keys_remove [of "\<lambda>q. key (entry t q)" "[]" p ps] by (simp add: rep_at_def)
  also have "\<dots> = map_of (map (\<lambda>q. (key (entry (drop_head p t) q), q)) ps)"
    using e by (metis (mono_tags, lifting) map_eq_conv)
  finally have en: "entries (drop_head p t) = map_of (map (\<lambda>q. (key (entry (drop_head p t) q), q)) ps)" .
  have h: "head (drop_head p t) = (if ps = [] then None else Some (hd ps))"
    using c by (auto simp: drop_head_def Let_def entry_modify)
  have tl: "ps \<noteq> [] \<Longrightarrow> tail (drop_head p t) = Some (last ps)"
    using r h by (auto simp: drop_head_def Let_def rep_at_def split: if_splits)
  have pv: "ps \<noteq> [] \<Longrightarrow> prv (entry (drop_head p t) (hd ps)) = Some p"
    using r e by (cases ps) (auto simp: rep_at_def entry_def)
  show "rep_at (drop_head p t) ps"
    using r f b en h tl pv c unfolding rep_at_def keys by (auto simp: drop_head_store)
qed


lemma expire_unfold:
  "head t = Some h \<Longrightarrow> expiresAt (entry t h) \<le> now \<Longrightarrow> expire now t = expire now (drop_head h t)"
  by (subst expire.simps) (simp add: drop_head_def Let_def)

lemma expire_rep_at:
  assumes "rep_at t ps"
  shows "\<exists>t' qs. expire now t = Some t' \<and> rep_at t' qs \<and> timeout t' = timeout t
    \<and> map (\<lambda>p. item_of (entry t' p)) qs = live now (map (\<lambda>p. item_of (entry t p)) ps)"
  using assms
proof (induction ps arbitrary: t)
  case Nil
  then show ?case by (subst expire.simps) (auto simp: rep_at_def live_def)
next
  case (Cons p ps)
  have h: "head t = Some p" using Cons.prems by (simp add: rep_at_def)
  show ?case
  proof (cases "expiresAt (entry t p) \<le> now")
    case True
    note d = drop_head_rep [OF Cons.prems]
    from Cons.IH [OF d(1)] show ?thesis
      unfolding expire_unfold [OF h True] d(2) d(3) using True by (simp add: live_def)
  next
    case False
    then have "expire now t = Some t" using h by (subst expire.simps) simp
    with Cons.prems False show ?thesis
      by (intro exI [of _ t] exI [of _ "p # ps"]) (simp add: live_def)
  qed
qed

lemma expire_rep:
  assumes "rep t xs"
  shows "\<exists>t'. expire now t = Some t' \<and> rep t' (live now xs) \<and> timeout t' = timeout t"
  using assms expire_rep_at [of t _ now] unfolding rep_def by metis

lemma unlink_fields [simp]:
  "head (unlink i t) = head t" "tail (unlink i t) = tail t" "entries (unlink i t) = entries t"
  "timeout (unlink i t) = timeout t" "length (store (unlink i t)) = length (store t)"
  by (simp_all add: unlink_def Let_def split: option.split)

lemma same_entry_updates [simp]:
  "same_entry (excl k t) a b = same_entry t a b"
  "same_entry (t\<lparr>head := x\<rparr>) a b = same_entry t a b"
  by (simp_all add: same_entry_def split: option.split)

lemma del_unlink:
  assumes "entries t k = Some i" "key (entry t i) = k"
  shows "del k t = (Some i, unlink i ((excl k t)\<lparr>
    head := (if same_entry t (head t) (Some i) then nxt (entry t i) else head t),
    tail := (if same_entry t (tail t) (Some i) then prv (entry t i) else tail t)\<rparr>))"
  using assms by (simp add: del_def Let_def)


lemma entry_modify_range:
  "q < length (store t) \<Longrightarrow> entry (modify p f t) q = (if q = p then f (entry t p) else entry t q)"
  by (auto simp: entry_def modify_def nth_list_update)

lemma entry_unlink:
  assumes "i < length (store t)" "q < length (store t)"
    and "nxt (entry t i) \<noteq> Some i" "prv (entry t i) \<noteq> Some i"
  shows "entry (unlink i t) q = (entry t q)
    \<lparr>prv := (if nxt (entry t i) = Some q then prv (entry t i) else prv (entry t q)),
     nxt := (if prv (entry t i) = Some q then nxt (entry t i) else nxt (entry t q))\<rparr>"
  using assms
  by (cases "nxt (entry t i)"; cases "prv (entry t i)")
    (auto simp: unlink_def Let_def entry_modify_range)

lemma rep_at_split:
  assumes r: "rep_at t (as @ i # bs)"
  shows "i < length (store t)" "i \<notin> set as" "i \<notin> set bs"
    and "nxt (entry t i) = (if bs = [] then None else Some (hd bs))"
    and "as \<noteq> [] \<Longrightarrow> prv (entry t i) = Some (last as)"
    and "as = [] \<Longrightarrow> prv (entry t i) = Some q \<Longrightarrow> q \<notin> set (i # bs) \<and> q < length (store t)"
    and "forward (store t) as (if as = [] then None else Some i)" "forward (store t) bs None"
    and "backward (store t) as" "backward (store t) bs"
    and "as \<noteq> [] \<Longrightarrow> prv (entry t (hd as)) = Some q \<Longrightarrow> q \<notin> set (as @ i # bs) \<and> q < length (store t)"
proof -
  have f: "forward (store t) (as @ i # bs) None" and b: "backward (store t) (as @ i # bs)"
    using r by (auto simp: rep_at_def)
  then have fi: "forward (store t) (i # bs) None" and bi: "backward (store t) (i # bs)"
    using forward_append [of as "i # bs" "store t" None] backward_append [of as "i # bs" "store t"]
    by (cases "as = []"; simp)+
  show "forward (store t) as (if as = [] then None else Some i)" "backward (store t) as"
    "as \<noteq> [] \<Longrightarrow> prv (entry t i) = Some (last as)"
    using f b forward_append [of as "i # bs" "store t" None] backward_append [of as "i # bs" "store t"]
    by (cases "as = []"; simp add: entry_def)+
  show "nxt (entry t i) = (if bs = [] then None else Some (hd bs))" "forward (store t) bs None"
    "backward (store t) bs"
    using fi bi by (cases bs; simp add: entry_def)+
qed (use r in \<open>auto simp: rep_at_def\<close>)

lemma unlink_rep_at:
  assumes r: "rep_at t (as @ i # bs)"
    and t': "t' = unlink i ((excl (key (entry t i)) t)\<lparr>
      head := (if as = [] then nxt (entry t i) else head t),
      tail := (if bs = [] then prv (entry t i) else tail t)\<rparr>)"
  shows "rep_at t' (as @ bs)"
    and "map (\<lambda>p. item_of (entry t' p)) (as @ bs) = map (\<lambda>p. item_of (entry t p)) (as @ bs)"
    and "item_of (entry t' i) = item_of (entry t i)" and "timeout t' = timeout t"
proof -
  note s = rep_at_split [OF r]
  have len: "\<And>q. q \<in> set (as @ i # bs) \<Longrightarrow> q < length (store t)" using r by (auto simp: rep_at_def)
  have d: "distinct (as @ i # bs)" "distinct (map (\<lambda>p. key (entry t p)) (as @ i # bs))"
    using r by (auto simp: rep_at_def)
  have ni: "nxt (entry t i) \<noteq> Some i" using s(3,4) by (auto split: if_splits)
  have pi: "prv (entry t i) \<noteq> Some i"
    using s(2,5) s(6) [of i] by (cases "as = []") auto
  have e: "entry t' q = (entry t q)
      \<lparr>prv := (if nxt (entry t i) = Some q then prv (entry t i) else prv (entry t q)),
       nxt := (if prv (entry t i) = Some q then nxt (entry t i) else nxt (entry t q))\<rparr>"
    if "q \<in> set (as @ i # bs)" for q
    using entry_unlink [of i "(excl (key (entry t i)) t)\<lparr>
      head := (if as = [] then nxt (entry t i) else head t),
      tail := (if bs = [] then prv (entry t i) else tail t)\<rparr>" q] len [OF that] s(1) ni pi
    unfolding t' by simp
  have it: "\<And>q. q \<in> set (as @ i # bs) \<Longrightarrow> item_of (entry t' q) = item_of (entry t q)"
    using e by simp
  then show "map (\<lambda>p. item_of (entry t' p)) (as @ bs) = map (\<lambda>p. item_of (entry t p)) (as @ bs)"
    "item_of (entry t' i) = item_of (entry t i)" by simp_all
  show "timeout t' = timeout t" by (simp add: t')
  have k: "\<And>q. q \<in> set (as @ i # bs) \<Longrightarrow> key (entry t' q) = key (entry t q)"
    using it by (metis item_fields(1))
  have st: "\<And>q. q \<in> set (as @ i # bs) \<Longrightarrow> store t' ! q = entry t' q" "\<And>q. store t ! q = entry t q"
    by (simp_all add: entry_def)
  have nb: "nxt (entry t i) = Some q \<longleftrightarrow> bs \<noteq> [] \<and> q = hd bs" for q
    using s(4) by (auto split: if_splits)
  have pa: "prv (entry t i) = Some q \<longleftrightarrow> q = last as" if "as \<noteq> []" for q
    using s(5) [OF that] by auto
  have pn: "prv (entry t i) \<noteq> Some q" if "q \<in> set bs" for q
  proof (cases "as = []")
    case False
    have "set as \<inter> set bs = {}" using d(1) by auto
    then have "last as \<notin> set bs" using False last_in_set by blast
    with False that show ?thesis using s(5) by auto
  qed (use s(6) [of q] that in auto)
  have fa: "forward (store t') as (nxt (entry t i))"
  proof (rule forward_change_last [OF s(7)])
    show "\<forall>p \<in> set (butlast as). nxt (store t' ! p) = nxt (store t ! p)"
    proof
      fix p assume p: "p \<in> set (butlast as)"
      then have "as \<noteq> []" by auto
      moreover from this have "p \<noteq> last as"
        using p d by (metis append_butlast_last_id distinct_append distinct_append not_distinct_conv_prefix)
      ultimately have "prv (entry t i) \<noteq> Some p" using pa by blast
      with p show "nxt (store t' ! p) = nxt (store t ! p)" using e st by (auto dest: in_set_butlastD)
    qed
    show "as \<noteq> [] \<Longrightarrow> nxt (store t' ! last as) = nxt (entry t i)" using e st pa by simp
  qed
  have fb: "forward (store t') bs None"
    using s(8) forward_cong [of bs "store t'" "store t" None] e st pn by simp
  have keep: "prv (store t' ! q) = prv (store t ! q)"
    if "q \<in> set (as @ bs)" "bs \<noteq> [] \<Longrightarrow> q \<noteq> hd bs" for q
    using that e st nb by auto
  have "prv (store t' ! q) = prv (store t ! q)" if "q \<in> set (List.tl as)" for q
  proof (rule keep)
    have "q \<in> set as" using that by (cases as) auto
    then show "q \<in> set (as @ bs)" "bs \<noteq> [] \<Longrightarrow> q \<noteq> hd bs" using d(1) by (cases bs; auto)+
  qed
  then have ba: "backward (store t') as" using s(9) backward_cong by metis
  have "prv (store t' ! q) = prv (store t ! q)" if "q \<in> set (List.tl bs)" for q
    by (rule keep) (use that d(1) in \<open>cases bs; auto\<close>)+
  then have bb: "backward (store t') bs" using s(10) backward_cong by metis
  have join: "prv (store t' ! hd bs) = Some (last as)" if "as \<noteq> []" "bs \<noteq> []"
    using that e st nb pa by simp
  have f: "forward (store t') (as @ bs) None" and b: "backward (store t') (as @ bs)"
    using fa fb ba bb join s(4) forward_append [of as bs "store t'" None] backward_append [of as bs "store t'"]
    by (cases "as = []"; cases "bs = []"; simp)+
  have "entries t' = (entries t)(key (entry t i) := None)" by (simp add: t')
  also have "\<dots> = map_of (map (\<lambda>q. (key (entry t q), q)) (as @ bs))"
    using r d(2) map_of_keys_remove [of "\<lambda>q. key (entry t q)" as i bs] by (simp add: rep_at_def)
  also have "\<dots> = map_of (map (\<lambda>q. (key (entry t' q), q)) (as @ bs))"
    using k by (intro arg_cong [where f = map_of] map_cong) auto
  finally have en: "entries t' = map_of (map (\<lambda>q. (key (entry t' q), q)) (as @ bs))" .
  have hd: "head t' = (if as @ bs = [] then None else Some (hd (as @ bs)))"
    using r s(4) by (simp add: t' rep_at_def hd_append)
  have tl: "as @ bs \<noteq> [] \<Longrightarrow> tail t' = Some (last (as @ bs))"
    using r s(5) by (auto simp: t' rep_at_def)
  have pv: "q \<notin> set (as @ bs) \<and> q < length (store t)" if "as @ bs \<noteq> []" "prv (entry t' (hd (as @ bs))) = Some q" for q
  proof (cases "as = []")
    case True
    with that have "prv (entry t i) = Some q" using e nb by simp
    with True show ?thesis using s(6) by simp
  next
    case False
    then have "hd as \<noteq> hd bs \<or> bs = []" using d by (cases as; cases bs) auto
    with False that have "prv (entry t (hd as)) = Some q" using e nb by auto
    with False show ?thesis using s(11) by simp
  qed
  have keys: "map (\<lambda>q. key (entry t' q)) (as @ bs) = map (\<lambda>q. key (entry t q)) (as @ bs)"
    using k by simp
  have ls: "length (store t') = length (store t)" by (simp add: t')
  show "rep_at t' (as @ bs)"
    unfolding rep_at_def keys using d len f b en hd tl pv ls by auto
qed


lemma lookup_None: "k \<notin> item_key ` set xs \<Longrightarrow> lookup k xs = None"
  by (induction xs) (auto simp: lookup_def)

lemma lookup_split: "k \<notin> item_key ` set xs \<Longrightarrow> item_key y = k \<Longrightarrow> lookup k (xs @ y # ys) = Some y"
  by (induction xs) (auto simp: lookup_def)

lemma without_id: "k \<notin> item_key ` set xs \<Longrightarrow> without k xs = xs"
  by (induction xs) (auto simp: without_def)

lemma without_split:
  "k \<notin> item_key ` set (xs @ ys) \<Longrightarrow> item_key y = k \<Longrightarrow> without k (xs @ y # ys) = xs @ ys"
  using without_id [of k xs] without_id [of k ys] by (auto simp: without_def image_Un)

lemma same_entry_ends:
  assumes r: "rep_at t (as @ i # bs)"
  shows "same_entry t (head t) (Some i) \<longleftrightarrow> as = []" "same_entry t (tail t) (Some i) \<longleftrightarrow> bs = []"
proof -
  have d: "distinct (map (\<lambda>p. key (entry t p)) (as @ i # bs))" using r by (simp add: rep_at_def)
  show "same_entry t (head t) (Some i) \<longleftrightarrow> as = []"
    using r d by (cases as) (auto simp: rep_at_def same_entry_def)
  have "bs \<noteq> [] \<Longrightarrow> key (entry t (last bs)) \<noteq> key (entry t i)"
  proof -
    have "key (entry t i) \<notin> (\<lambda>p. key (entry t p)) ` set bs" using d by auto
    moreover assume "bs \<noteq> []"
    ultimately show ?thesis by (metis imageI last_in_set)
  qed
  then show "same_entry t (tail t) (Some i) \<longleftrightarrow> bs = []"
    using r by (auto simp: rep_at_def same_entry_def)
qed

lemma del_rep_at:
  assumes r: "rep_at t ps" and "del k t = (d, t')"
  shows "\<exists>qs. rep_at t' qs \<and> timeout t' = timeout t
    \<and> map (\<lambda>p. item_of (entry t' p)) qs = without k (map (\<lambda>p. item_of (entry t p)) ps)
    \<and> lookup k (map (\<lambda>p. item_of (entry t p)) ps) = map_option (\<lambda>p. item_of (entry t' p)) d"
proof (cases "entries t k")
  case None
  then have "k \<notin> item_key ` set (map (\<lambda>p. item_of (entry t p)) ps)"
    using rep_at_entries(2) [OF r] by (auto simp: image_image)
  then show ?thesis
    using None assms by (intro exI [of _ ps]) (simp add: del_def lookup_None without_id)
next
  case (Some i)
  then have i: "i \<in> set ps" "key (entry t i) = k" using rep_at_entries(1) [OF r] by auto
  then obtain as bs where ps: "ps = as @ i # bs" by (metis split_list)
  have "k \<notin> item_key ` set (map (\<lambda>p. item_of (entry t p)) (as @ bs))"
    using r i(2) by (auto simp: rep_at_def ps image_image)
  then have w: "without k (map (\<lambda>p. item_of (entry t p)) ps) = map (\<lambda>p. item_of (entry t p)) (as @ bs)"
    "lookup k (map (\<lambda>p. item_of (entry t p)) ps) = Some (item_of (entry t i))"
    using i(2) without_split [of k "map (\<lambda>p. item_of (entry t p)) as" "map (\<lambda>p. item_of (entry t p)) bs"]
      lookup_split [of k "map (\<lambda>p. item_of (entry t p)) as"]
    by (simp_all add: ps image_Un)
  have "t' = unlink i ((excl (key (entry t i)) t)\<lparr>
      head := (if as = [] then nxt (entry t i) else head t),
      tail := (if bs = [] then prv (entry t i) else tail t)\<rparr>)" "d = Some i"
    using assms(2) del_unlink [OF Some i(2)] same_entry_ends [OF r [unfolded ps]] i(2) by simp_all
  then show ?thesis
    using unlink_rep_at [OF r [unfolded ps]] w by (intro exI [of _ "as @ bs"]) simp
qed

lemma remove_rep:
  assumes "rep t xs"
  shows "fst (remove k t) = map_option item_val (lookup k xs) \<and> rep (snd (remove k t)) (without k xs)
    \<and> timeout (snd (remove k t)) = timeout t"
proof -
  obtain ps where r: "rep_at t ps" "xs = map (\<lambda>p. item_of (entry t p)) ps"
    using assms by (auto simp: rep_def)
  obtain d t' where d: "del k t = (d, t')" by fastforce
  from del_rep_at [OF r(1) d] show ?thesis
    by (auto simp: remove_def d rep_def r(2) option.map_comp comp_def)
qed

text \<open>Allocation of a node and its link behind the last entry.\<close>

definition alloc :: "('k, 'v) TimedEntry \<Rightarrow> ('k, 'v) TimedMap \<Rightarrow> ('k, 'v) TimedMap" where
  "alloc e t = t\<lparr>store := store t @ [e]\<rparr>"

lemma alloc_fields [simp]:
  "head (alloc e t) = head t" "tail (alloc e t) = tail t" "entries (alloc e t) = entries t"
  "timeout (alloc e t) = timeout t" "store (alloc e t) = store t @ [e]"
  by (simp_all add: alloc_def)

lemma entry_alloc:
  "entry (alloc e t) (length (store t)) = e" "p < length (store t) \<Longrightarrow> entry (alloc e t) p = entry t p"
  by (simp_all add: entry_def nth_append)


lemma map_of_snoc: "map_of xs k = None \<Longrightarrow> map_of (xs @ [(k, v)]) = (map_of xs)(k \<mapsto> v)"
  by (auto simp: fun_eq_iff map_add_def split: option.split)

lemma place_last: "tail t = Some l \<Longrightarrow> expiresAt (entry t l) \<le> x \<Longrightarrow> place t x (tail t) = Some (Some l)"
  by (subst place.simps) simp

lemma link_last_entry:
  assumes "tail t = Some l" "l < length (store t)" "n < length (store t)" "l \<noteq> n"
    and t': "t' = incl n (link_at n (Some l) t)"
  shows "q < length (store t) \<Longrightarrow> entry t' q = (if q = n then (entry t n)\<lparr>prv := Some l, nxt := nxt (entry t l)\<rparr>
      else if q = l then (entry t l)\<lparr>nxt := Some n\<rparr> else entry t q)"
    and "head t' = head t" "tail t' = Some n" "timeout t' = timeout t"
    and "length (store t') = length (store t)"
proof -
  have i: "entry (incl n u) p = entry u p" "head (incl n u) = head u" "tail (incl n u) = tail u"
    "timeout (incl n u) = timeout u" "store (incl n u) = store u" for u :: "('a, 'b) TimedMap" and p
    by (simp_all add: incl_def entry_def)
  have s: "same_entry u (Some l) (Some l)" for u :: "('a, 'b) TimedMap" by (simp add: same_entry_def)
  show "entry t' q = (if q = n then (entry t n)\<lparr>prv := Some l, nxt := nxt (entry t l)\<rparr>
      else if q = l then (entry t l)\<lparr>nxt := Some n\<rparr> else entry t q)" if "q < length (store t)"
    using assms that by (auto simp: t' i link_at_def Let_def s entry_modify_range)
  show "head t' = head t" "tail t' = Some n" "timeout t' = timeout t"
    "length (store t') = length (store t)"
    using assms(1) by (simp_all add: t' i link_at_def Let_def s)
qed

lemma append_rep_at:
  assumes r: "rep_at t ps" and ps: "ps \<noteq> []" and k: "key e \<notin> (\<lambda>p. key (entry t p)) ` set ps"
    and e: "nxt e = None" "prv e = None"
    and t': "t' = incl (length (store t)) (link_at (length (store t)) (tail t) (alloc e t))"
  shows "rep_at t' (ps @ [length (store t)]) \<and> timeout t' = timeout t
    \<and> map (\<lambda>p. item_of (entry t' p)) (ps @ [length (store t)])
      = map (\<lambda>p. item_of (entry t p)) ps @ [item_of e]"
proof -
  let ?n = "length (store t)" and ?l = "last ps" and ?u = "alloc e t"
  have len: "\<And>p. p \<in> set ps \<Longrightarrow> p < ?n" using r by (auto simp: rep_at_def)
  have l: "?l \<in> set ps" "?l < ?n" "tail t = Some ?l" using ps r len by (auto simp: rep_at_def)
  have a: "entry ?u ?n = e" "\<And>p. p \<in> set ps \<Longrightarrow> entry ?u p = entry t p"
    by (rule entry_alloc(1), rule entry_alloc(2) [OF len])
  have nl: "nxt (entry t ?l) = None"
    using r ps forward_last [of ps "store t" None] by (simp add: rep_at_def entry_def)
  have st: "\<And>q. store t' ! q = entry t' q" "\<And>q. store t ! q = entry t q" by (simp_all add: entry_def)
  have u: "tail ?u = Some ?l" "?l < length (store ?u)" "?n < length (store ?u)" "?l \<noteq> ?n"
    using l by simp_all
  note link = link_last_entry [OF u t' [unfolded l(3)]]
  have en: "entry t' ?n = e\<lparr>prv := Some ?l, nxt := None\<rparr>"
    "entry t' ?l = (entry t ?l)\<lparr>nxt := Some ?n\<rparr>"
    using link(1) [of ?n] link(1) [of ?l] l a nl u(4) by simp_all
  have rest: "entry t' p = entry t p" if "p \<in> set ps" "p \<noteq> ?l" for p
    using link(1) [of p] len [OF that(1)] a(2) [OF that(1)] that(2) by simp
  then have it: "\<And>p. p \<in> set ps \<Longrightarrow> item_of (entry t' p) = item_of (entry t p)"
    by (metis en(2) rest item_of_links(1))
  then have key: "\<And>p. p \<in> set ps \<Longrightarrow> key (entry t' p) = key (entry t p)" by (metis item_fields(1))
  have pv: "\<And>p. p \<in> set ps \<Longrightarrow> prv (entry t' p) = prv (entry t p)" using en rest by (case_tac "p = ?l") auto
  have d: "distinct ps" using r by (simp add: rep_at_def)
  have bl: "p \<noteq> ?l" if "p \<in> set (butlast ps)" for p
    using that d ps by (metis append_butlast_last_id distinct_append disjoint_iff list.set_intros(1))
  have f: "forward (store t') ps (Some ?n)"
  proof (rule forward_change_last)
    show "forward (store t) ps None" using r by (simp add: rep_at_def)
    show "\<forall>p \<in> set (butlast ps). nxt (store t' ! p) = nxt (store t ! p)"
      using rest [OF in_set_butlastD] bl by (auto simp: st)
  qed (simp add: st en)
  have "prv (store t' ! q) = prv (store t ! q)" if "q \<in> set (List.tl ps)" for q
    using that pv by (cases ps) (auto simp: st)
  then have b: "backward (store t') ps" using r backward_cong unfolding rep_at_def by metis
  have "entries t' = (entries t)(key e := Some ?n)"
    using rep_at_entries(2) [OF r, of "key e"] k l(3) a(1) l(2) nl
    by (auto simp: t' incl_def link_at_def Let_def same_entry_def entry_modify_range e)
  also have "\<dots> = (map_of (map (\<lambda>q. (key (entry t q), q)) ps))(key e \<mapsto> ?n)"
    using r by (simp add: rep_at_def)
  also have "\<dots> = map_of (map (\<lambda>q. (key (entry t' q), q)) (ps @ [?n]))"
  proof -
    have "map (\<lambda>q. (key (entry t' q), q)) (ps @ [?n]) = map (\<lambda>q. (key (entry t q), q)) ps @ [(key e, ?n)]"
      using key en(1) by simp
    moreover have "map_of (map (\<lambda>q. (key (entry t q), q)) ps) (key e) = None"
      unfolding map_of_keys_None by (rule k)
    ultimately show ?thesis by (simp only: map_of_snoc)
  qed
  finally have ent: "entries t' = map_of (map (\<lambda>q. (key (entry t' q), q)) (ps @ [?n]))" .
  have keys: "map (\<lambda>q. key (entry t' q)) (ps @ [?n]) = map (\<lambda>q. key (entry t q)) ps @ [key e]"
    using key en(1) by simp
  have nx: "nxt (entry t' ?n) = None" using e en by simp
  have ff: "forward (store t') (ps @ [?n]) None"
    using forward_append [of ps "[?n]" "store t'" None] f ps nx by (simp add: st)
  have bb: "backward (store t') (ps @ [?n])"
    using backward_append [of ps "[?n]" "store t'"] b ps en(1) by (simp add: st)
  have hp: "prv (entry t' (hd ps)) = Some q \<Longrightarrow> q \<notin> set (ps @ [?n]) \<and> q < ?n" for q
    using r ps pv [of "hd ps"] by (auto simp: rep_at_def)
  have "rep_at t' (ps @ [?n])"
    unfolding rep_at_def keys using r link(2-5) ps len ff bb ent hp k
    by (auto simp: rep_at_def less_SucI)
  then show ?thesis using link(4) it en(1) by simp
qed


lemma first_rep_at:
  assumes r: "rep_at t []" and e: "nxt e = None" "prv e = None"
    and t': "t' = incl (length (store t)) ((alloc e t)
      \<lparr>tail := Some (length (store t)), head := Some (length (store t))\<rparr>)"
  shows "rep_at t' [length (store t)] \<and> timeout t' = timeout t
    \<and> map (\<lambda>p. item_of (entry t' p)) [length (store t)] = [item_of e]"
proof -
  have en: "entry t' (length (store t)) = e" using entry_alloc(1) [of e t] by (simp add: t' incl_def)
  have "entries t = (\<lambda>_. None)" using r by (simp add: rep_at_def)
  then have "entries t' = (\<lambda>_. None)(key e := Some (length (store t)))"
    using entry_alloc(1) [of e t] by (simp add: t' incl_def)
  then have "entries t' = map_of (map (\<lambda>q. (key (entry t' q), q)) [length (store t)])"
    by (simp add: en)
  moreover have "head t' = Some (length (store t))" "tail t' = Some (length (store t))"
    "timeout t' = timeout t" "length (store t') = Suc (length (store t))"
    by (simp_all add: t' incl_def)
  moreover have "nxt (store t' ! length (store t)) = None" using en e by (simp add: entry_def)
  ultimately show ?thesis using en e by (simp add: rep_at_def)
qed

lemma item_of_new: "item_of \<lparr>key = k, val = v, addedAt = a, expiresAt = x, nxt = n, prv = p\<rparr> = (k, v, a, x)"
  by (simp add: item_of_def)

lemma expires_live: "\<forall>x \<in> set xs. item_expires x \<le> d \<Longrightarrow> \<forall>x \<in> set (without k (live now xs)). item_expires x \<le> d"
  unfolding without_def live_def by (meson filter_is_subset in_mono set_dropWhileD)

lemma key_without: "k \<notin> item_key ` set (without k xs)"
  by (auto simp: without_def)

lemma mgetOrPut_rep_at:
  assumes r: "rep_at t ps" and mono: "\<forall>x \<in> set (map (\<lambda>p. item_of (entry t p)) ps). item_expires x \<le> now + timeout t"
  shows "\<exists>n t' qs. mgetOrPut k v now t = Some (n, t') \<and> rep_at t' (qs @ [n]) \<and> timeout t' = timeout t
    \<and> map (\<lambda>p. item_of (entry t' p)) (qs @ [n]) = touch k v now (timeout t) (map (\<lambda>p. item_of (entry t p)) ps)"
proof -
  let ?items = "\<lambda>t ps. map (\<lambda>p. item_of (entry t p)) ps"
  obtain t1 ps1 where 1: "expire now t = Some t1" "rep_at t1 ps1" "timeout t1 = timeout t"
    "?items t1 ps1 = live now (?items t ps)"
    using expire_rep_at [OF r] by blast
  obtain d t2 where d: "del k t1 = (d, t2)" by fastforce
  then obtain qs where 2: "rep_at t2 qs" "timeout t2 = timeout t"
    "?items t2 qs = without k (live now (?items t ps))"
    "lookup k (live now (?items t ps)) = map_option (\<lambda>p. item_of (entry t2 p)) d"
    using del_rep_at [OF 1(2) d] 1(3,4) by auto
  define e where "e = \<lparr>key = k, val = (case d of Some p \<Rightarrow> val (entry t2 p) | None \<Rightarrow> v),
    addedAt = (case d of Some p \<Rightarrow> addedAt (entry t2 p) | None \<Rightarrow> now),
    expiresAt = now + timeout t2, nxt = None, prv = None\<rparr>"
  have e: "nxt e = None" "prv e = None" "key e = k" "expiresAt e = now + timeout t"
    by (simp_all add: e_def 2(2))
  have touch: "touch k v now (timeout t) (?items t ps) = ?items t2 qs @ [item_of e]"
    by (simp add: touch_def Let_def 2(2-4) e_def item_of_new split: option.split)
  have k: "key e \<notin> (\<lambda>p. key (entry t2 p)) ` set qs"
    using key_without [of k "live now (?items t ps)"] unfolding 2(3) [symmetric] e(3)
    by (auto simp: image_image)
  have run: "mgetOrPut k v now t = Option.bind
      (if head t2 = None then Some ((alloc e t2)\<lparr>tail := Some (length (store t2)), head := Some (length (store t2))\<rparr>)
       else Option.bind (place (alloc e t2) (now + timeout t) (tail t2)) (\<lambda>cur.
         Some (link_at (length (store t2)) cur (alloc e t2))))
      (\<lambda>t. Some (length (store t2), incl (length (store t2)) t))"
    using entry_alloc(1) [of e t2] e(4)
    by (simp add: mgetOrPut_def 1(1) d Let_def alloc_def e_def [symmetric])
  show ?thesis
  proof (cases "qs = []")
    case True
    with 2(1) have h: "head t2 = None" by (simp add: rep_at_def)
    define t' where "t' = incl (length (store t2))
      ((alloc e t2)\<lparr>tail := Some (length (store t2)), head := Some (length (store t2))\<rparr>)"
    have "mgetOrPut k v now t = Some (length (store t2), t')" using run h by (simp add: t'_def)
    then show ?thesis
      using first_rep_at [OF 2(1) [unfolded True] e(1,2) t'_def] touch 2(2) True
      by (intro exI [of _ "length (store t2)"] exI [of _ t'] exI [of _ "[]"]) simp
  next
    case False
    with 2(1) have h: "head t2 \<noteq> None" "tail t2 = Some (last qs)" "set qs \<subseteq> {..<length (store t2)}"
      by (simp_all add: rep_at_def)
    have lq: "last qs < length (store t2)" using h(3) last_in_set [OF False] by auto
    have "item_of (entry t2 (last qs)) \<in> set (without k (live now (?items t ps)))"
      using False unfolding 2(3) [symmetric] by simp
    then have "expiresAt (entry t2 (last qs)) \<le> now + timeout t"
      using expires_live [OF mono] by (metis item_fields(4))
    then have "expiresAt (entry (alloc e t2) (last qs)) \<le> now + timeout t"
      using entry_alloc(2) [OF lq] by simp
    then have "place (alloc e t2) (now + timeout t) (tail t2) = Some (tail t2)"
      using place_last [of "alloc e t2" "last qs"] h(2) by simp
    moreover define t' where
      "t' = incl (length (store t2)) (link_at (length (store t2)) (tail t2) (alloc e t2))"
    ultimately have "mgetOrPut k v now t = Some (length (store t2), t')"
      using run h(1) by simp
    then show ?thesis
      using append_rep_at [OF 2(1) False k e(1,2) t'_def] touch 2(2)
      by (intro exI [of _ "length (store t2)"] exI [of _ t'] exI [of _ qs]) auto
  qed
qed

section \<open>Runs\<close>

text \<open>Operations with the clock reading they use, run in order on the structure and on the list.\<close>

datatype ('k, 'v) tm_op = Put 'k 'v int | Remove 'k | Expire int

fun op_time :: "('k, 'v) tm_op \<Rightarrow> int option" where
  "op_time (Put k v now) = Some now"
| "op_time (Remove k) = None"
| "op_time (Expire now) = Some now"

fun tm_step :: "('k, 'v) tm_op \<Rightarrow> ('k, 'v) TimedMap \<Rightarrow> ('k, 'v) TimedMap option" where
  "tm_step (Put k v now) t = map_option snd (mgetOrPut k v now t)"
| "tm_step (Remove k) t = Some (snd (remove k t))"
| "tm_step (Expire now) t = expire now t"

fun tm_run :: "('k, 'v) tm_op list \<Rightarrow> ('k, 'v) TimedMap \<Rightarrow> ('k, 'v) TimedMap option" where
  "tm_run [] t = Some t"
| "tm_run (a # as) t = Option.bind (tm_step a t) (tm_run as)"

fun list_step :: "int \<Rightarrow> ('k, 'v) tm_op \<Rightarrow> ('k, 'v) item list \<Rightarrow> ('k, 'v) item list" where
  "list_step d (Put k v now) xs = touch k v now d xs"
| "list_step d (Remove k) xs = without k xs"
| "list_step d (Expire now) xs = live now xs"

text \<open>The readings of a clock that does not go back, from \<open>c\<close> on.\<close>

fun monotone :: "int \<Rightarrow> ('k, 'v) tm_op list \<Rightarrow> bool" where
  "monotone c [] = True"
| "monotone c (a # as) = (case op_time a of None \<Rightarrow> monotone c as | Some now \<Rightarrow> c \<le> now \<and> monotone now as)"

text \<open>
  When a key was touched last, unless it has been removed since or an operation has found it out
  of date.
\<close>

definition still :: "int \<Rightarrow> int \<Rightarrow> int option \<Rightarrow> int option" where
  "still d now r = (case r of None \<Rightarrow> None | Some s \<Rightarrow> if s + d \<le> now then None else Some s)"

fun touched :: "int \<Rightarrow> ('k, 'v) tm_op \<Rightarrow> ('k \<Rightarrow> int option) \<Rightarrow> 'k \<Rightarrow> int option" where
  "touched d (Put j v now) m k = (if k = j then Some now else still d now (m k))"
| "touched d (Remove j) m k = (if k = j then None else m k)"
| "touched d (Expire now) m k = still d now (m k)"

definition list_inv :: "int \<Rightarrow> int \<Rightarrow> ('k, 'v) item list \<Rightarrow> ('k \<Rightarrow> int option) \<Rightarrow> bool" where
  "list_inv d c xs m \<longleftrightarrow>
     distinct (map item_key xs) \<and> sorted (map item_expires xs)
   \<and> (\<forall>x \<in> set xs. item_expires x \<le> c + d)
   \<and> (\<forall>k. map_option item_expires (lookup k xs) = map_option (\<lambda>s. s + d) (m k))"

lemma lookup_Cons: "lookup k (x # xs) = (if item_key x = k then Some x else lookup k xs)"
  by (simp add: lookup_def)

lemma lookup_Nil [simp]: "lookup k [] = None"
  by (simp add: lookup_def)

lemma lookup_append: "lookup k (xs @ ys) = (case lookup k xs of None \<Rightarrow> lookup k ys | Some x \<Rightarrow> Some x)"
  by (induction xs) (simp_all add: lookup_Cons)

lemma lookup_without: "lookup k (without j xs) = (if k = j then None else lookup k xs)"
  by (induction xs) (auto simp: lookup_Cons without_def)

lemma live_filter:
  "sorted (map item_expires xs) \<Longrightarrow> live now xs = filter (\<lambda>x. now < item_expires x) xs"
proof (induction xs)
  case (Cons x xs)
  show ?case
  proof (cases "item_expires x \<le> now")
    case True
    with Cons show ?thesis by (simp add: live_def)
  next
    case False
    then have "\<forall>y \<in> set (x # xs). now < item_expires y" using Cons.prems by fastforce
    then have "filter (\<lambda>x. now < item_expires x) (x # xs) = x # xs" by (simp only: filter_id_conv)
    with False show ?thesis by (simp add: live_def)
  qed
qed (simp add: live_def)

lemma lookup_live:
  assumes "sorted (map item_expires xs)" "distinct (map item_key xs)"
  shows "lookup k (live now xs)
    = (case lookup k xs of None \<Rightarrow> None | Some x \<Rightarrow> if item_expires x \<le> now then None else Some x)"
  unfolding live_filter [OF assms(1)] using assms(2)
proof (induction xs)
  case (Cons x xs)
  have "item_key x \<notin> item_key ` set (filter (\<lambda>x. now < item_expires x) xs)"
    using Cons.prems by auto
  from lookup_None [OF this] Cons show ?case by (auto simp: lookup_Cons)
qed simp


lemma list_inv_live:
  assumes "list_inv d c xs m"
  shows "list_inv d c (live now xs) (\<lambda>k. still d now (m k))"
proof -
  have s: "sorted (map item_expires xs)" "distinct (map item_key xs)"
    and x: "\<forall>x \<in> set xs. item_expires x \<le> c + d"
    and m: "\<And>k. map_option item_expires (lookup k xs) = map_option (\<lambda>s. s + d) (m k)"
    using assms by (auto simp: list_inv_def)
  have "map_option item_expires (lookup k (live now xs)) = map_option (\<lambda>s. s + d) (still d now (m k))" for k
    using m [of k] by (cases "lookup k xs"; cases "m k") (auto simp: lookup_live [OF s] still_def)
  moreover have "distinct (map item_key (live now xs))" "sorted (map item_expires (live now xs))"
    using s by (simp_all add: live_filter distinct_map_filter sorted_filter)
  moreover have "\<forall>x \<in> set (live now xs). item_expires x \<le> c + d"
    using x s(1) by (simp add: live_filter)
  ultimately show ?thesis by (simp add: list_inv_def)
qed

lemma list_inv_without:
  assumes "list_inv d c xs m"
  shows "list_inv d c (without j xs) (\<lambda>k. if k = j then None else m k)"
  using assms unfolding list_inv_def lookup_without
  by (auto simp: without_def distinct_map_filter sorted_filter)

lemma list_inv_snoc:
  assumes "list_inv d c xs m" "k \<notin> item_key ` set xs" "item_key x = k" "item_expires x = now + d" "c \<le> now"
  shows "list_inv d now (xs @ [x]) (\<lambda>j. if j = k then Some now else m j)"
proof -
  have l: "lookup j (xs @ [x]) = (if j = k then Some x else lookup j xs)" for j
    using lookup_None [OF assms(2)] assms(3) by (auto simp: lookup_append lookup_Cons split: option.split)
  have b: "item_expires y \<le> now + d" if "y \<in> set xs" for y
    using assms(1,5) that by (fastforce simp: list_inv_def)
  show ?thesis
    using assms b unfolding list_inv_def l by (auto simp: sorted_append)
qed

lemma list_step_inv:
  assumes "list_inv d c xs m" "case op_time a of None \<Rightarrow> True | Some now \<Rightarrow> c \<le> now"
  shows "list_inv d (case op_time a of None \<Rightarrow> c | Some now \<Rightarrow> now) (list_step d a xs) (touched d a m)"
proof (cases a)
  case (Put k v now)
  let ?w = "without k (live now xs)"
  have w: "list_inv d c ?w (\<lambda>j. if j = k then None else still d now (m j))"
    using list_inv_without [OF list_inv_live [OF assms(1)]] .
  obtain x where x: "list_step d a xs = ?w @ [x]" "item_key x = k" "item_expires x = now + d"
    by (auto simp: Put touch_def Let_def split: option.split)
  have "list_inv d now (?w @ [x]) (\<lambda>j. if j = k then Some now else (if j = k then None else still d now (m j)))"
    using list_inv_snoc [OF w key_without x(2,3)] assms(2) Put by simp
  moreover have "(\<lambda>j. if j = k then Some now else (if j = k then None else still d now (m j))) = touched d a m"
    by (simp add: Put fun_eq_iff)
  ultimately show ?thesis using x(1) Put by simp
next
  case (Remove k)
  have "touched d a m = (\<lambda>j. if j = k then None else m j)" by (simp add: Remove fun_eq_iff)
  then show ?thesis using list_inv_without [OF assms(1)] Remove by simp
next
  case (Expire now)
  have "touched d a m = (\<lambda>j. still d now (m j))" by (simp add: Expire fun_eq_iff)
  moreover have "list_inv d now (live now xs) (\<lambda>j. still d now (m j))"
    using list_inv_live [OF assms(1)] assms(2) Expire by (fastforce simp: list_inv_def)
  ultimately show ?thesis using Expire by simp
qed

lemma tm_step_rep:
  assumes "rep t xs" "list_inv (timeout t) c xs m" "case op_time a of None \<Rightarrow> True | Some now \<Rightarrow> c \<le> now"
  shows "\<exists>t'. tm_step a t = Some t' \<and> rep t' (list_step (timeout t) a xs) \<and> timeout t' = timeout t"
proof (cases a)
  case (Put k v now)
  obtain ps where ps: "rep_at t ps" "xs = map (\<lambda>p. item_of (entry t p)) ps"
    using assms(1) by (auto simp: rep_def)
  have "\<forall>x \<in> set xs. item_expires x \<le> now + timeout t"
    using assms(2,3) Put by (fastforce simp: list_inv_def)
  from mgetOrPut_rep_at [OF ps(1) this [unfolded ps(2)], of k v] show ?thesis
    unfolding Put list_step.simps tm_step.simps ps(2) rep_def by fastforce
next
  case (Remove k)
  then show ?thesis using remove_rep [OF assms(1), of k] by simp
next
  case (Expire now)
  then show ?thesis using expire_rep [OF assms(1), of now] by simp
qed

lemma tm_run_rep:
  assumes "rep t xs" "list_inv (timeout t) c xs m" "monotone c ops"
  shows "\<exists>t'. tm_run ops t = Some t' \<and> rep t' (fold (list_step (timeout t)) ops xs)
    \<and> list_inv (timeout t) (fold (\<lambda>a c. case op_time a of None \<Rightarrow> c | Some now \<Rightarrow> now) ops c)
        (fold (list_step (timeout t)) ops xs) (fold (touched (timeout t)) ops m)"
  using assms
proof (induction ops arbitrary: t xs c m)
  case (Cons a ops)
  have m: "case op_time a of None \<Rightarrow> True | Some now \<Rightarrow> c \<le> now"
    and m': "monotone (case op_time a of None \<Rightarrow> c | Some now \<Rightarrow> now) ops"
    using Cons.prems(3) by (auto split: option.splits)
  obtain t' where t': "tm_step a t = Some t'" "rep t' (list_step (timeout t) a xs)" "timeout t' = timeout t"
    using tm_step_rep [OF Cons.prems(1,2) m] by blast
  have "list_inv (timeout t') (case op_time a of None \<Rightarrow> c | Some now \<Rightarrow> now)
      (list_step (timeout t) a xs) (touched (timeout t) a m)"
    unfolding t'(3) by (rule list_step_inv [OF Cons.prems(2) m])
  from Cons.IH [OF t'(2) this m'] t' show ?case by simp
qed auto


lemma rep_contains: "rep t xs \<Longrightarrow> contains t k \<longleftrightarrow> lookup k xs \<noteq> None"
proof -
  assume "rep t xs"
  then obtain ps where r: "rep_at t ps" and xs: "xs = map (\<lambda>p. item_of (entry t p)) ps"
    by (auto simp: rep_def)
  have "lookup k xs = None \<longleftrightarrow> k \<notin> item_key ` set xs"
    by (induction xs) (auto simp: lookup_Cons)
  then show "contains t k \<longleftrightarrow> lookup k xs \<noteq> None"
    using rep_at_entries(2) [OF r, of k] by (simp add: contains_def xs image_image)
qed

lemma rep_added_at: "rep t xs \<Longrightarrow> added_at t k = (case lookup k xs of None \<Rightarrow> 0 | Some x \<Rightarrow> item_added x)"
proof -
  assume r: "rep t xs"
  then obtain ps where p: "rep_at t ps" and xs: "xs = map (\<lambda>p. item_of (entry t p)) ps"
    by (auto simp: rep_def)
  show ?thesis
  proof (cases "entries t k")
    case None
    then have "lookup k xs = None" using rep_contains [OF r, of k] unfolding contains_def by blast
    with None show ?thesis by (simp add: added_at_def)
  next
    case (Some i)
    then have i: "i \<in> set ps" "key (entry t i) = k" using rep_at_entries(1) [OF p] by auto
    then obtain as bs where ps: "ps = as @ i # bs" by (metis split_list)
    have "k \<notin> item_key ` set (map (\<lambda>p. item_of (entry t p)) as)"
      using p i(2) by (auto simp: rep_at_def ps image_image)
    from lookup_split [OF this, of "item_of (entry t i)"] i(2) Some show ?thesis
      by (simp add: xs ps added_at_def)
  qed
qed

section \<open>The contract of an expiring store\<close>

definition tm_represents ::
  "int \<Rightarrow> int \<Rightarrow> ('k, 'v) TimedMap \<Rightarrow> ('k \<Rightarrow> ('v \<times> int) option) \<Rightarrow> bool" where
  "tm_represents d c t m \<longleftrightarrow>
     (\<exists>xs. rep t xs \<and> timeout t = d \<and> (\<exists>seen. list_inv d c xs seen)
       \<and> m = (\<lambda>k. map_option (\<lambda>x. (item_val x, item_expires x)) (lookup k xs)))"

lemma tm_represents_init: "tm_represents d c (tm_init d) (\<lambda>_. None)"
proof -
  have "list_inv d c [] (\<lambda>_. None)" by (simp add: list_inv_def)
  moreover have "timeout (tm_init d) = d" by (simp add: tm_init_def)
  ultimately show ?thesis
    unfolding tm_represents_def by (intro exI [of _ "[]"]) (auto simp: rep_init)
qed

lemma alive_live:
  assumes "list_inv d c xs seen"
  shows "alive now (map_option (\<lambda>x. (item_val x, item_expires x)) (lookup k xs))
    = map_option (\<lambda>x. (item_val x, item_expires x)) (lookup k (live now xs))"
  using assms by (auto simp: list_inv_def lookup_live alive_Some split: option.split)

lemma lookup_touch:
  "lookup j (touch k v now d xs) = (if j = k
     then Some (case lookup k (live now xs) of Some x \<Rightarrow> (k, item_val x, item_added x, now + d)
       | None \<Rightarrow> (k, v, now, now + d))
     else lookup j (live now xs))"
  by (cases "lookup k (live now xs)")
    (auto simp: touch_def Let_def lookup_append lookup_without lookup_Cons split: option.split)

lemma touch_last: "touch k v now d xs = ys @ [y] \<Longrightarrow> lookup k (touch k v now d xs) = Some y"
  by (cases "lookup k (live now xs)")
    (auto simp: touch_def Let_def lookup_append lookup_without lookup_Cons)

lemma tm_put_law:
  assumes "tm_represents d c t m" "c \<le> now"
  shows "\<exists>r t'. mgetOrPut k v now t = Some (r, t')
    \<and> val (entry t' r) = value_or v (alive now (m k))
    \<and> tm_represents d now t' (renew k (value_or v (alive now (m k))) now d m)"
proof -
  obtain xs seen where xs: "rep t xs" "timeout t = d" "list_inv d c xs seen"
    and m: "m = (\<lambda>k. map_option (\<lambda>x. (item_val x, item_expires x)) (lookup k xs))"
    using assms(1) by (auto simp: tm_represents_def)
  obtain ps where ps: "rep_at t ps" "xs = map (\<lambda>p. item_of (entry t p)) ps"
    using xs(1) by (auto simp: rep_def)
  have "\<forall>x \<in> set xs. item_expires x \<le> now + timeout t"
    using xs assms(2) by (fastforce simp: list_inv_def)
  from mgetOrPut_rep_at [OF ps(1) this [unfolded ps(2)], of k v] obtain n t' qs
    where t': "mgetOrPut k v now t = Some (n, t')" "rep_at t' (qs @ [n])" "timeout t' = d"
      "touch k v now d xs = map (\<lambda>p. item_of (entry t' p)) qs @ [item_of (entry t' n)]"
    unfolding ps(2) [symmetric] xs(2) by auto
  have l: "lookup k (touch k v now d xs) = Some (item_of (entry t' n))"
    using touch_last [OF t'(4)] .
  have a: "alive now (m k) = map_option (\<lambda>x. (item_val x, item_expires x)) (lookup k (live now xs))" for k
    unfolding m by (rule alive_live [OF xs(3)])
  have n: "val (entry t' n) = value_or v (alive now (m k))"
  proof -
    have "val (entry t' n) = item_val (the (lookup k (touch k v now d xs)))" unfolding l by simp
    also have "\<dots> = value_or v (alive now (m k))"
      unfolding a by (simp add: lookup_touch value_or_def split: option.split)
    finally show ?thesis .
  qed
  have "rep t' (touch k v now d xs)" using t'(2,4) by (auto simp: rep_def)
  moreover have "list_inv d now (touch k v now d xs) (touched d (Put k v now) seen)"
    using list_step_inv [OF xs(3), of "Put k v now"] assms(2) by simp
  moreover have "renew k (value_or v (alive now (m k))) now d m
      = (\<lambda>j. map_option (\<lambda>x. (item_val x, item_expires x)) (lookup j (touch k v now d xs)))"
    unfolding renew_def a
    by (rule ext) (simp add: lookup_touch value_or_def split: option.split)
  ultimately have "tm_represents d now t' (renew k (value_or v (alive now (m k))) now d m)"
    unfolding tm_represents_def using t'(3) by blast
  with t'(1) n show ?thesis by blast
qed

interpretation tm_store: expiring_store mgetOrPut "\<lambda>t r. val (entry t r)" "tm_represents d" d for d
  by unfold_locales (rule tm_put_law)

interpretation tm: handle_store mgetOrPut "\<lambda>t r. val (entry t r)" "tm_represents d" d for d
  by unfold_locales (rule tm_put_law)

section \<open>Property\<close>

text \<open>
  C27. While the clock does not go back, the linked structure refines the list ordered by age: any
  run of operations ends, in a structure that represents the list the specification computes; a
  key is found exactly when it has been touched and neither removed since nor found out of date,
  and its first insertion is remembered.
\<close>

theorem timed_map_refines:
  assumes "monotone c ops"
  shows "\<exists>t. tm_run ops (tm_init d) = Some t
    \<and> rep t (fold (list_step d) ops [])
    \<and> sorted (map item_expires (fold (list_step d) ops []))
    \<and> (\<forall>k. contains t k \<longleftrightarrow> fold (touched d) ops (\<lambda>_. None) k \<noteq> None)
    \<and> (\<forall>k. added_at t k = (case lookup k (fold (list_step d) ops []) of None \<Rightarrow> 0 | Some x \<Rightarrow> item_added x))"
proof -
  have i: "list_inv (timeout (tm_init d)) c [] (\<lambda>_. None)" by (simp add: list_inv_def)
  have d: "timeout (tm_init d) = d" by (simp add: tm_init_def)
  from tm_run_rep [OF rep_init i assms] obtain t e where t: "tm_run ops (tm_init d) = Some t"
    "rep t (fold (list_step d) ops [])"
    "list_inv d e (fold (list_step d) ops []) (fold (touched d) ops (\<lambda>_. None))"
    unfolding d by blast
  have "lookup k (fold (list_step d) ops []) = None \<longleftrightarrow> fold (touched d) ops (\<lambda>_. None) k = None" for k
    using t(3) unfolding list_inv_def by (metis option.map_disc_iff)
  then show ?thesis
    using t rep_contains [OF t(2)] rep_added_at [OF t(2)] by (auto simp: list_inv_def)
qed

theorem timed_map_refines_witness:
  "\<exists>t. tm_run [Put ''a'' (1 :: int) 0, Put ''b'' 2 3, Put ''a'' 7 4, Expire 8] (tm_init 5) = Some t
    \<and> contains t ''a'' \<and> \<not> contains t ''b'' \<and> added_at t ''a'' = 0"
proof -
  have m: "monotone 0 [Put ''a'' (1 :: int) 0, Put ''b'' 2 3, Put ''a'' 7 4, Expire 8]" by simp
  show ?thesis
    using timed_map_refines [OF m, of 5]
    by (auto simp: still_def touch_def live_def without_def lookup_Cons Let_def)
qed

text \<open>
  Going back loses entries: an entry linked between two others is not noted in the backward link
  of the later one, so deleting that one bridges it, and no expiry reaches it again.
\<close>

lemma clock_back_loses_entry:
  "\<exists>t. tm_run [Put ''a'' () 10, Put ''b'' () 20, Put ''c'' () 15, Remove ''b'', Expire 1000] (tm_init 100) = Some t
    \<and> head t = None \<and> contains t ''c''"
  by (simp add: tm_init_def mgetOrPut_def remove_def del_def Let_def expire.simps place.simps
      entry_def link_at_def modify_def incl_def excl_def same_entry_def unlink_def contains_def)

end
