(* ===== verification/RequestLimiter.thy ===== *)
theory RequestLimiter
  imports RateSetting TimedMap
begin

text \<open>
  The request limiter of the services, \<open>waku/common/rate_limit/request_limiter.nim\<close> with the
  construction of buckets in \<open>single_token_limiter.nim\<close>: a bucket for the service and one per peer,
  kept in a timed map that forgets idle peers. The token bucket is an external library and a
  parameter. The peers' buckets are objects the map refers to by handles, positions in the list
  of all buckets made.
\<close>

section \<open>Buckets\<close>

datatype ReplenishMode = Discrete | Continuous

text \<open>\<open>new_bucket\<close> takes capacity, fill duration, start and mode; \<open>try_consume\<close> tokens and time.\<close>

record 'b bucket_ops =
  new_bucket :: "int \<Rightarrow> int \<Rightarrow> int \<Rightarrow> ReplenishMode \<Rightarrow> 'b"
  try_consume :: "int \<Rightarrow> int \<Rightarrow> 'b \<Rightarrow> bool \<times> 'b"

definition newTokenBucket ::
  "'b bucket_ops \<Rightarrow> RateLimitSetting option \<Rightarrow> ReplenishMode \<Rightarrow> int \<Rightarrow> 'b option" where
  "newTokenBucket ops setting replenishMode startTime =
     (case setting of None \<Rightarrow> None
      | Some s \<Rightarrow> if isUnlimited s then None
                  else Some (new_bucket ops (volume s) (period s) startTime replenishMode))"

section \<open>The limiter\<close>

record ('p, 'b) RequestRateLimiter =
  tokenBucket :: "'b option"
  setting :: "RateLimitSetting option"
  mainBucketSetting :: RateLimitSetting
  ratio :: int
  peerBucketSetting :: RateLimitSetting
  peerUsage :: "('p, nat) TimedMap"
  buckets :: "'b list"
  limited :: bool

definition newMainTokenBucket :: "'b bucket_ops \<Rightarrow> RateLimitSetting \<Rightarrow> int \<Rightarrow> int \<Rightarrow> 'b" where
  "newMainTokenBucket ops s rt startTime =
     (let burstCapacity = volume s * rt;
          bucket = new_bucket ops burstCapacity (period s * rt) startTime Continuous;
          excess = burstCapacity - volume s
      in if 0 < excess then snd (try_consume ops excess startTime bucket) else bucket)"

definition calcPeriodRatio :: "RateLimitSetting option \<Rightarrow> int" where
  "calcPeriodRatio settingOpt =
     (case settingOpt of None \<Rightarrow> 0
      | Some s \<Rightarrow>
         if isUnlimited s then 0
         else if period s \<le> 10 ^ 9 then 10
         else if period s \<le> 60 * 10 ^ 9 then 3
         else 2)"

definition calcCacheTimeout :: "RateLimitSetting option \<Rightarrow> int \<Rightarrow> int" where
  "calcCacheTimeout settingOpt rt =
     (case settingOpt of None \<Rightarrow> 0 | Some s \<Rightarrow> if isUnlimited s then 0 else period s * rt * 2)"

text \<open>
  The product is checked for overflow. Three quarters of it are truncated towards zero; the product
  is never negative where a limiter is made, since the ratio of an unlimited setting is zero. The
  source takes them in floating point, which is exact below \<open>2 ^ 53\<close> tokens.
\<close>

definition calcPeerTokenSetting :: "RateLimitSetting option \<Rightarrow> int \<Rightarrow> defect + RateLimitSetting" where
  "calcPeerTokenSetting settingOpt rt =
     (case settingOpt of None \<Rightarrow> Inr (0, 0)
      | Some s \<Rightarrow> rbind (int64 (volume s * rt)) (\<lambda>v. Inr (v * 3 div 4, period s * rt)))"

definition newRequestRateLimiter ::
  "RateLimitSetting option \<Rightarrow> defect + ('p, 'b) RequestRateLimiter" where
  "newRequestRateLimiter settingOpt =
     (let rt = calcPeriodRatio settingOpt;
          isLimited = (case settingOpt of None \<Rightarrow> False | Some s \<Rightarrow> \<not> isUnlimited s);
          mainSetting = (case settingOpt of Some s \<Rightarrow> if isLimited then s else (0, 0) | None \<Rightarrow> (0, 0))
      in rbind (calcPeerTokenSetting settingOpt rt) (\<lambda>peerSetting.
           Inr \<lparr>tokenBucket = None, setting = settingOpt, mainBucketSetting = mainSetting,
             ratio = rt, peerBucketSetting = peerSetting,
             peerUsage = tm_init (calcCacheTimeout settingOpt rt), buckets = [], limited = isLimited\<rparr>))"

datatype limiter_fault = RaisedAssert

text \<open>
  The bucket of a peer. The timed map reads the clock itself, later than \<open>now\<close> was read: \<open>tm_now\<close>.
  \<open>None\<close> stands for a map operation that does not return.
\<close>

definition peer_bucket ::
  "'b bucket_ops \<Rightarrow> 'p \<Rightarrow> int \<Rightarrow> int \<Rightarrow> ('p, 'b) RequestRateLimiter
    \<Rightarrow> (limiter_fault + (nat \<times> ('p, 'b) RequestRateLimiter)) option" where
  "peer_bucket ops peerId now tm_now t =
     (case newTokenBucket ops (Some (peerBucketSetting t)) Discrete now of
        None \<Rightarrow> Some (Inl RaisedAssert)
      | Some bucketForNew \<Rightarrow>
          map_option (\<lambda>(r, u). Inr (val (entry u r),
              t\<lparr>peerUsage := u, buckets := buckets t @ [bucketForNew]\<rparr>))
            (mgetOrPut peerId (length (buckets t)) tm_now (peerUsage t)))"

definition consume_peer ::
  "'b bucket_ops \<Rightarrow> int \<Rightarrow> nat \<Rightarrow> ('p, 'b) RequestRateLimiter \<Rightarrow> bool \<times> ('p, 'b) RequestRateLimiter" where
  "consume_peer ops now i t =
     (case try_consume ops 1 now (buckets t ! i) of (ok, b) \<Rightarrow> (ok, t\<lparr>buckets := (buckets t)[i := b]\<rparr>))"

definition consume_main ::
  "'b bucket_ops \<Rightarrow> int \<Rightarrow> 'b \<Rightarrow> ('p, 'b) RequestRateLimiter \<Rightarrow> bool \<times> ('p, 'b) RequestRateLimiter" where
  "consume_main ops now main t =
     (case try_consume ops 1 now main of (ok, b) \<Rightarrow> (ok, t\<lparr>tokenBucket := Some b\<rparr>))"

definition main_bucket :: "'b bucket_ops \<Rightarrow> int \<Rightarrow> ('p, 'b) RequestRateLimiter \<Rightarrow> 'b" where
  "main_bucket ops now t =
     (case tokenBucket t of None \<Rightarrow> newMainTokenBucket ops (mainBucketSetting t) (ratio t) now
      | Some b \<Rightarrow> b)"

definition checkUsageLimited ::
  "'b bucket_ops \<Rightarrow> 'p \<Rightarrow> int \<Rightarrow> int \<Rightarrow> ('p, 'b) RequestRateLimiter
    \<Rightarrow> (limiter_fault + (bool \<times> ('p, 'b) RequestRateLimiter)) option" where
  "checkUsageLimited ops peerId now tm_now t =
     (let main = main_bucket ops now t; t = t\<lparr>tokenBucket := Some main\<rparr>
      in map_option (\<lambda>r. rbind r (\<lambda>(i, t).
           case consume_peer ops now i t of (ok, t) \<Rightarrow>
             if \<not> ok then Inr (False, t) else Inr (consume_main ops now main t)))
           (peer_bucket ops peerId now tm_now t))"

definition checkUsage ::
  "'b bucket_ops \<Rightarrow> 'p \<Rightarrow> int \<Rightarrow> int \<Rightarrow> ('p, 'b) RequestRateLimiter
    \<Rightarrow> (limiter_fault + (bool \<times> ('p, 'b) RequestRateLimiter)) option" where
  "checkUsage ops peerId now tm_now t =
     (if limited t then checkUsageLimited ops peerId now tm_now t else Some (Inr (True, t)))"

text \<open>Requests in order: the peer and the two readings of the clock.\<close>

type_synonym 'p request = "'p \<times> int \<times> int"

fun limiter_run ::
  "'b bucket_ops \<Rightarrow> 'p request list \<Rightarrow> ('p, 'b) RequestRateLimiter \<Rightarrow> (limiter_fault + bool list) option" where
  "limiter_run ops [] t = Some (Inr [])"
| "limiter_run ops ((p, now, tm_now) # rs) t =
     Option.bind (checkUsage ops p now tm_now t) (\<lambda>r.
       case r of Inl f \<Rightarrow> Some (Inl f)
       | Inr (ok, t) \<Rightarrow> map_option (\<lambda>s. rbind s (\<lambda>oks. Inr (ok # oks))) (limiter_run ops rs t))"

section \<open>The specification\<close>

text \<open>
  A bucket per peer that is forgotten when the peer is idle for \<open>d\<close>, and the bucket of the service,
  which only requests their own peer's bucket let through consume from.
\<close>

fun peer_state ::
  "'b bucket_ops \<Rightarrow> RateLimitSetting \<Rightarrow> int \<Rightarrow> 'p request \<Rightarrow> ('p \<Rightarrow> ('b \<times> int) option)
    \<Rightarrow> bool \<times> ('p \<Rightarrow> ('b \<times> int) option)" where
  "peer_state ops ps d (p, now, tm_now) m =
     (case try_consume ops 1 now (value_or (new_bucket ops (volume ps) (period ps) now Discrete) (alive tm_now (m p)))
      of (ok, b) \<Rightarrow> (ok, renew p b tm_now d m))"

fun spec_run ::
  "'b bucket_ops \<Rightarrow> RateLimitSetting \<Rightarrow> int \<Rightarrow> 'p request list \<Rightarrow> 'b \<Rightarrow> ('p \<Rightarrow> ('b \<times> int) option) \<Rightarrow> bool list" where
  "spec_run ops ps d [] main m = []"
| "spec_run ops ps d (r # rs) main m =
     (case peer_state ops ps d r m of (ok, m') \<Rightarrow>
        if \<not> ok then False # spec_run ops ps d rs main m'
        else (case try_consume ops 1 (fst (snd r)) main of (ok', main') \<Rightarrow>
          ok' # spec_run ops ps d rs main' m'))"

text \<open>The decisions of the peers' buckets alone.\<close>

fun peer_run ::
  "'b bucket_ops \<Rightarrow> RateLimitSetting \<Rightarrow> int \<Rightarrow> 'p request list \<Rightarrow> ('p \<Rightarrow> ('b \<times> int) option) \<Rightarrow> ('p \<times> bool) list" where
  "peer_run ops ps d [] m = []"
| "peer_run ops ps d (r # rs) m =
     (case peer_state ops ps d r m of (ok, m') \<Rightarrow> (fst r, ok) # peer_run ops ps d rs m')"

fun main_run :: "'b bucket_ops \<Rightarrow> int list \<Rightarrow> 'b \<Rightarrow> bool list" where
  "main_run ops [] b = []"
| "main_run ops (now # ts) b = (case try_consume ops 1 now b of (ok, b') \<Rightarrow> ok # main_run ops ts b')"


fun combine :: "bool list \<Rightarrow> bool list \<Rightarrow> bool list" where
  "combine [] ys = []"
| "combine (False # xs) ys = False # combine xs ys"
| "combine (True # xs) ys = hd ys # combine xs (List.tl ys)"

definition passed_times :: "'p request list \<Rightarrow> ('p \<times> bool) list \<Rightarrow> int list" where
  "passed_times rs ds = map (fst \<circ> snd \<circ> fst) (filter (snd \<circ> snd) (zip rs ds))"

lemma spec_run_combine:
  "spec_run ops ps d rs main m =
    combine (map snd (peer_run ops ps d rs m)) (main_run ops (passed_times rs (peer_run ops ps d rs m)) main)"
proof (induction rs arbitrary: main m)
  case (Cons r rs)
  obtain ok m' where p: "peer_state ops ps d r m = (ok, m')" by fastforce
  obtain ok' main' where c: "try_consume ops 1 (fst (snd r)) main = (ok', main')" by fastforce
  show ?case by (cases ok) (simp_all add: p c Cons passed_times_def)
qed (simp add: passed_times_def)

text \<open>A peer's decisions depend on its own requests only.\<close>

lemma peer_run_isolated:
  assumes "sorted (map (snd \<circ> snd) rs)" "\<forall>r \<in> set rs. c \<le> snd (snd r)"
    and "\<forall>now \<ge> c. alive now (m p) = alive now (m' p)"
  shows "filter (\<lambda>x. fst x = p) (peer_run ops ps d rs m) = peer_run ops ps d (filter (\<lambda>r. fst r = p) rs) m'"
  using assms
proof (induction rs arbitrary: c m m')
  case (Cons r rs)
  obtain q now tm_now where r: "r = (q, now, tm_now)" by (cases r)
  have c: "c \<le> tm_now" "sorted (map (snd \<circ> snd) rs)" "\<forall>r \<in> set rs. tm_now \<le> snd (snd r)"
    using Cons.prems(1,2) r by (auto simp: o_def)
  have a: "alive tm_now (m p) = alive tm_now (m' p)" using Cons.prems(3) c(1) by blast
  show ?case
  proof (cases "q = p")
    case True
    obtain ok b where b: "try_consume ops 1 now
        (value_or (new_bucket ops (volume ps) (period ps) now Discrete) (alive tm_now (m p))) = (ok, b)"
      by fastforce
    have "filter (\<lambda>x. fst x = p) (peer_run ops ps d rs (renew p b tm_now d m))
        = peer_run ops ps d (filter (\<lambda>r. fst r = p) rs) (renew p b tm_now d m')"
      using Cons.IH [OF c(2,3), of "renew p b tm_now d m" "renew p b tm_now d m'"] by (simp add: renew_def)
    with True b a show ?thesis by (simp add: r)
  next
    case False
    obtain ok m1 where "peer_state ops ps d r m = (ok, m1)" by fastforce
    then obtain b where b: "peer_state ops ps d r m = (ok, renew q b tm_now d m)"
      by (auto simp: r split: prod.splits)
    have "\<forall>t \<ge> tm_now. alive t (renew q b tm_now d m p) = alive t (m' p)"
      using False Cons.prems(3) c(1) by (simp add: renew_def)
    from Cons.IH [OF c(2,3), of "renew q b tm_now d m" m', OF this] False b show ?thesis by (simp add: r del: peer_state.simps)
  qed
qed simp

section \<open>The limiter computes the specification\<close>

definition limiter_rel ::
  "int \<Rightarrow> RateLimitSetting \<Rightarrow> int \<Rightarrow> ('p, 'b) RequestRateLimiter \<Rightarrow> ('p \<Rightarrow> ('b \<times> int) option) \<Rightarrow> bool" where
  "limiter_rel d ps c t m \<longleftrightarrow>
     limited t \<and> peerBucketSetting t = ps \<and> \<not> isUnlimited ps
   \<and> tm.objects d c (peerUsage t) (buckets t) m"

lemma checkUsage_spec:
  assumes t: "limiter_rel d ps c t m" and c: "c \<le> tm_now"
    and p: "peer_state ops ps d (p, now, tm_now) m = (ok, m')"
    and k: "try_consume ops 1 now (main_bucket ops now t) = (ok', main')"
  shows "\<exists>t'. checkUsage ops p now tm_now t = Some (Inr (ok \<and> ok', t')) \<and> limiter_rel d ps tm_now t' m'
    \<and> tokenBucket t' = Some (if ok then main' else main_bucket ops now t)"
proof -
  let ?b = "new_bucket ops (volume ps) (period ps) now Discrete"
  have o: "tm.objects d c (peerUsage t) (buckets t) m" and l: "limited t" "peerBucketSetting t = ps" "\<not> isUnlimited ps"
    using t by (auto simp: limiter_rel_def)
  obtain r u where u: "mgetOrPut p (length (buckets t)) tm_now (peerUsage t) = Some (r, u)"
      "(buckets t @ [?b]) ! val (entry u r) = value_or ?b (alive tm_now (m p))"
      "\<And>b'. tm.objects d tm_now u ((buckets t @ [?b])[val (entry u r) := b']) (renew p b' tm_now d m)"
    using tm.access [OF o c, of p ?b] by blast
  obtain b' where b': "try_consume ops 1 now (value_or ?b (alive tm_now (m p))) = (ok, b')" "m' = renew p b' tm_now d m"
    using p by (auto split: prod.splits)
  show ?thesis
    using l u b' k
    by (cases ok) (auto simp: checkUsage_def checkUsageLimited_def peer_bucket_def newTokenBucket_def
      consume_peer_def consume_main_def Let_def limiter_rel_def)
qed

definition first_time :: "'p request list \<Rightarrow> int" where
  "first_time rs = (case rs of [] \<Rightarrow> 0 | r # _ \<Rightarrow> fst (snd r))"

lemma limiter_run_spec:
  assumes "limiter_rel d ps c t m" "sorted (map (snd \<circ> snd) rs)" "\<forall>r \<in> set rs. c \<le> snd (snd r)"
  shows "limiter_run ops rs t = Some (Inr (spec_run ops ps d rs (main_bucket ops (first_time rs) t) m))"
  using assms
proof (induction rs arbitrary: c t m)
  case (Cons r rs)
  obtain p now tm_now where r: "r = (p, now, tm_now)" by (cases r)
  obtain ok m' where p: "peer_state ops ps d (p, now, tm_now) m = (ok, m')" by fastforce
  obtain ok' main' where k: "try_consume ops 1 now (main_bucket ops now t) = (ok', main')" by fastforce
  have "c \<le> tm_now" using Cons.prems(3) r by simp
  from checkUsage_spec [OF Cons.prems(1) this p k] obtain t' where
    t': "checkUsage ops p now tm_now t = Some (Inr (ok \<and> ok', t'))" "limiter_rel d ps tm_now t' m'"
      "tokenBucket t' = Some (if ok then main' else main_bucket ops now t)"
    by blast
  have "limiter_run ops rs t' = Some (Inr (spec_run ops ps d rs (main_bucket ops (first_time rs) t') m'))"
    using Cons.prems(2) r by (intro Cons.IH [OF t'(2)]) (auto simp: o_def)
  moreover have "main_bucket ops x t' = (if ok then main' else main_bucket ops now t)" for x
    using t'(3) by (simp add: main_bucket_def)
  ultimately show ?case
    using t'(1) p k by (cases ok) (simp_all add: r first_time_def del: peer_state.simps)
qed simp

lemma objects_init: "tm.objects d c (tm_init d) [] (\<lambda>_. None)"
  unfolding tm.objects_def using tm_represents_init handles_for_start by blast

lemma new_limiter:
  assumes "\<not> isUnlimited s" "is_int64 (volume s * calcPeriodRatio (Some s))"
  shows "\<exists>t. newRequestRateLimiter (Some s) = Inr t \<and> tokenBucket t = None \<and> mainBucketSetting t = s
    \<and> ratio t = calcPeriodRatio (Some s)
    \<and> limiter_rel (period s * calcPeriodRatio (Some s) * 2)
        (volume s * calcPeriodRatio (Some s) * 3 div 4, period s * calcPeriodRatio (Some s)) c t (\<lambda>_. None)"
proof -
  have "2 \<le> calcPeriodRatio (Some s)" "0 < volume s" "0 < period s"
    using assms(1) by (auto simp: calcPeriodRatio_def isUnlimited_def)
  moreover from this have "2 \<le> volume s * calcPeriodRatio (Some s)"
    using mult_mono [of 1 "volume s" 2 "calcPeriodRatio (Some s)"] by simp
  moreover from this have "0 < volume s * calcPeriodRatio (Some s) * 3 div 4" by presburger
  ultimately show ?thesis
    using assms by (simp add: newRequestRateLimiter_def Let_def calcPeerTokenSetting_def limiter_rel_def
      calcCacheTimeout_def isUnlimited_def objects_init not_le)
qed

section \<open>The limiter per peer\<close>

text \<open>
  \<open>per_peer_limiter.nim\<close> and the check of a single bucket in \<open>single_token_limiter.nim\<close>: a table of
  buckets, one per peer from its first request until it is unregistered. An unlimited setting gives
  a peer no bucket, and every request passes.
\<close>

record ('p, 'b) PerPeerRateLimiter =
  pp_setting :: "RateLimitSetting option"
  peerBucket :: "'p \<Rightarrow> 'b option option"

definition checkUsage_single :: "'b bucket_ops \<Rightarrow> int \<Rightarrow> 'b option \<Rightarrow> bool \<times> 'b option" where
  "checkUsage_single ops now t =
     (case t of None \<Rightarrow> (True, None)
      | Some b \<Rightarrow> (case try_consume ops 1 now b of (ok, b') \<Rightarrow> (ok, Some b')))"

definition pp_mgetOrPut ::
  "'b bucket_ops \<Rightarrow> 'p \<Rightarrow> int \<Rightarrow> ('p, 'b) PerPeerRateLimiter \<Rightarrow> 'b option \<times> ('p, 'b) PerPeerRateLimiter" where
  "pp_mgetOrPut ops peerId now t =
     (case peerBucket t peerId of Some b \<Rightarrow> (b, t)
      | None \<Rightarrow> let b = newTokenBucket ops (pp_setting t) Continuous now
                in (b, t\<lparr>peerBucket := (peerBucket t)(peerId \<mapsto> b)\<rparr>))"

definition checkUsage_peer ::
  "'b bucket_ops \<Rightarrow> 'p \<Rightarrow> int \<Rightarrow> int \<Rightarrow> ('p, 'b) PerPeerRateLimiter \<Rightarrow> bool \<times> ('p, 'b) PerPeerRateLimiter" where
  "checkUsage_peer ops peerId start now t =
     (case pp_mgetOrPut ops peerId start t of (b, t) \<Rightarrow>
        case checkUsage_single ops now b of (ok, b') \<Rightarrow>
          (ok, t\<lparr>peerBucket := (peerBucket t)(peerId \<mapsto> b')\<rparr>))"

definition unregister :: "'p \<Rightarrow> ('p, 'b) PerPeerRateLimiter \<Rightarrow> ('p, 'b) PerPeerRateLimiter" where
  "unregister peerId t = t\<lparr>peerBucket := (peerBucket t)(peerId := None)\<rparr>"

definition unregister_all :: "'p list \<Rightarrow> ('p, 'b) PerPeerRateLimiter \<Rightarrow> ('p, 'b) PerPeerRateLimiter" where
  "unregister_all peerIds t =
     t\<lparr>peerBucket := (\<lambda>k. if k \<in> set peerIds then None else peerBucket t k)\<rparr>"

lemma checkUsage_peer_others:
  "q \<noteq> p \<Longrightarrow> peerBucket (snd (checkUsage_peer ops p start now t)) q = peerBucket t q"
  by (auto simp: checkUsage_peer_def pp_mgetOrPut_def Let_def split: prod.split option.split)

text \<open>A peer that is unregistered starts with a full bucket again.\<close>

lemma unregister_refills:
  assumes "pp_setting t = Some s" "\<not> isUnlimited s"
  shows "fst (checkUsage_peer ops p start now (unregister p t))
    = fst (try_consume ops 1 now (new_bucket ops (volume s) (period s) start Continuous))"
  using assms
  by (simp add: checkUsage_peer_def pp_mgetOrPut_def unregister_def newTokenBucket_def
    checkUsage_single_def Let_def split: prod.split)

lemma unregister_all_fold: "unregister_all ps t = fold unregister ps t"
proof (induction ps arbitrary: t)
  case Nil
  then show ?case by (simp add: unregister_all_def)
next
  case (Cons p ps)
  have "unregister_all (p # ps) t = unregister_all ps (unregister p t)"
    by (auto simp: unregister_all_def unregister_def fun_eq_iff)
  with Cons show ?case by simp
qed

section \<open>Property\<close>

text \<open>
  C28. A limiter made for a limited setting decides as the specification does, and raises nothing,
  while the clock of the timed map does not go back: each peer has a bucket of its own, three
  quarters of the service's and forgotten after twice its period without a request, whose decisions
  depend on the peer's own requests only; a request it refuses consumes nothing from the bucket of
  the service, which decides the others.
\<close>

theorem limiter_refines:
  fixes ops :: "'b bucket_ops" and rs :: "'p request list"
  assumes "\<not> isUnlimited s" and "is_int64 (volume s * calcPeriodRatio (Some s))"
    and "sorted (map (snd \<circ> snd) rs)"
    and "rt = calcPeriodRatio (Some s)" and "ps = (volume s * rt * 3 div 4, period s * rt)"
    and "decisions = peer_run ops ps (2 * period ps) rs (\<lambda>_. None)"
  shows "\<exists>t :: ('p, 'b) RequestRateLimiter. newRequestRateLimiter (Some s) = Inr t
    \<and> limiter_run ops rs t = Some (Inr (combine (map snd decisions)
        (main_run ops (passed_times rs decisions) (newMainTokenBucket ops s rt (first_time rs)))))
    \<and> filter (\<lambda>x. fst x = p) decisions
      = peer_run ops ps (2 * period ps) (filter (\<lambda>r. fst r = p) rs) (\<lambda>_. None)"
proof -
  define c where "c = (case rs of [] \<Rightarrow> 0 | r # _ \<Rightarrow> snd (snd r))"
  have c: "\<forall>r \<in> set rs. c \<le> snd (snd r)" using assms(3) by (cases rs) (auto simp: c_def)
  obtain t :: "('p, 'b) RequestRateLimiter" where t: "newRequestRateLimiter (Some s) = Inr t" "tokenBucket t = None" "mainBucketSetting t = s"
    "ratio t = rt" "limiter_rel (2 * period ps) ps c t (\<lambda>_. None)"
    using new_limiter [OF assms(1,2), of c] assms(4,5) by (auto simp: mult.commute mult.left_commute)
  have "main_bucket ops x t = newMainTokenBucket ops s rt x" for x
    using t(2-4) by (simp add: main_bucket_def)
  then show ?thesis
    using t(1) limiter_run_spec [OF t(5) assms(3) c, of ops]
      peer_run_isolated [OF assms(3) c, of "\<lambda>_. None" p "\<lambda>_. None"] assms(6)
    by (simp add: spec_run_combine)
qed


text \<open>A bucket for examples: it holds its capacity and is never filled again.\<close>

definition sample_bucket :: "int bucket_ops" where
  "sample_bucket = \<lparr>new_bucket = (\<lambda>c d s m. c),
     try_consume = (\<lambda>n t b. if n \<le> b then (True, b - n) else (False, b))\<rparr>"

theorem limiter_refines_witness:
  "\<exists>t :: (string, int) RequestRateLimiter. newRequestRateLimiter (Some (1, 61 * 10 ^ 9)) = Inr t
    \<and> limiter_run sample_bucket [(''a'', 1, 1), (''a'', 2, 2), (''b'', 3, 3)] t = Some (Inr [True, False, False])"
proof -
  have s: "calcPeriodRatio (Some (1, 61 * 10 ^ 9)) = 2" "\<not> isUnlimited (1, 61 * 10 ^ 9)"
    by (simp_all add: calcPeriodRatio_def isUnlimited_def)
  show ?thesis
    using limiter_refines [of "(1, 61 * 10 ^ 9)" "[(''a'', 1, 1), (''a'', 2, 2), (''b'', 3, 3)]" 2
        "(1, 122 * 10 ^ 9)" _ sample_bucket "''a''"] s
    by (auto simp: is_int64_def sample_bucket_def renew_def alive_def newMainTokenBucket_def Let_def
      first_time_def passed_times_def)
qed

end
