(* ===== verification/StoreService.thy ===== *)
theory StoreService
  imports QueueDriver RequestLimiter
begin

text \<open>
  The store service over the archive: \<open>waku/waku_store/common.nim\<close>, \<open>protocol.nim\<close>, \<open>client.nim\<close>,
  \<open>resume.nim\<close> and \<open>self_req_handler.nim\<close>, and the request handler of
  \<open>waku/node/kernel_api/store.nim\<close>. The encoding of requests and responses, connections and the
  clock are parameters; metrics, logging and the database of the last time online are left out.
\<close>

section \<open>Requests, responses and errors\<close>

record StoreQueryRequest =
  s_requestId :: string
  s_includeData :: bool
  s_pubsubTopic :: "string option"
  s_contentTopics :: "string list"
  s_startTime :: "Timestamp option"
  s_endTime :: "Timestamp option"
  s_messageHashes :: "WakuMessageHash list"
  s_paginationCursor :: "WakuMessageHash option"
  s_paginationForward :: PagingDirection
  s_paginationLimit :: "nat option"

record WakuMessageKeyValue =
  kv_messageHash :: WakuMessageHash
  kv_message :: "WakuMessage option"
  kv_pubsubTopic :: "string option"

record StoreQueryResponse =
  p_requestId :: string
  p_statusCode :: nat
  p_statusDesc :: string
  p_messages :: "WakuMessageKeyValue list"
  p_paginationCursor :: "WakuMessageHash option"

definition default_request :: StoreQueryRequest where
  "default_request = \<lparr>s_requestId = '''', s_includeData = False, s_pubsubTopic = None,
     s_contentTopics = [], s_startTime = None, s_endTime = None, s_messageHashes = [],
     s_paginationCursor = None, s_paginationForward = BACKWARD, s_paginationLimit = None\<rparr>"

definition default_response :: StoreQueryResponse where
  "default_response = \<lparr>p_requestId = '''', p_statusCode = 0, p_statusDesc = '''', p_messages = [],
     p_paginationCursor = None\<rparr>"

datatype StoreError =
  UNKNOWN_ERROR | BAD_RESPONSE string | BAD_REQUEST string | TOO_MANY_REQUESTS | SERVICE_UNAVAILABLE
| PEER_DIAL_FAILURE string

fun error_kind :: "StoreError \<Rightarrow> nat" where
  "error_kind UNKNOWN_ERROR = 0"
| "error_kind (BAD_RESPONSE cause) = 300"
| "error_kind (BAD_REQUEST cause) = 400"
| "error_kind TOO_MANY_REQUESTS = 429"
| "error_kind SERVICE_UNAVAILABLE = 503"
| "error_kind (PEER_DIAL_FAILURE address) = 504"

fun show_store_error :: "StoreError \<Rightarrow> string" where
  "show_store_error (PEER_DIAL_FAILURE address) = ''PEER_DIAL_FAILURE: '' @ address"
| "show_store_error (BAD_RESPONSE cause) = ''BAD_RESPONSE: '' @ cause"
| "show_store_error (BAD_REQUEST cause) = ''BAD_REQUEST: '' @ cause"
| "show_store_error TOO_MANY_REQUESTS = ''TOO_MANY_REQUESTS''"
| "show_store_error SERVICE_UNAVAILABLE = ''SERVICE_UNAVAILABLE''"
| "show_store_error UNKNOWN_ERROR = ''UNKNOWN''"

text \<open>\<open>StoreError.new\<close>, with the parsing of the code.\<close>

definition store_error_new :: "nat \<Rightarrow> string \<Rightarrow> StoreError" where
  "store_error_new code desc =
     (if code = 300 then BAD_RESPONSE desc
      else if code = 400 then BAD_REQUEST desc
      else if code = 429 then TOO_MANY_REQUESTS
      else if code = 503 then SERVICE_UNAVAILABLE
      else if code = 504 then PEER_DIAL_FAILURE desc
      else UNKNOWN_ERROR)"

section \<open>The handler of the node\<close>

definition toArchiveQuery :: "StoreQueryRequest \<Rightarrow> ArchiveQuery" where
  "toArchiveQuery request =
     (let query = default_query\<lparr>q_includeData := s_includeData request,
            q_pubsubTopic := s_pubsubTopic request, q_contentTopics := s_contentTopics request,
            q_startTime := s_startTime request, q_endTime := s_endTime request,
            q_hashes := s_messageHashes request, q_cursor := s_paginationCursor request,
            q_direction := s_paginationForward request, q_requestId := s_requestId request\<rparr>
      in case s_paginationLimit request of None \<Rightarrow> query | Some n \<Rightarrow> query\<lparr>q_pageSize := n\<rparr>)"

text \<open>The second loop of \<open>toStoreResult\<close>: message and topic are set in the entry of the same index.\<close>

fun fill_messages ::
  "WakuMessageKeyValue list \<Rightarrow> WakuMessage list \<Rightarrow> string list \<Rightarrow> defect + WakuMessageKeyValue list" where
  "fill_messages kvs [] topics = Inr kvs"
| "fill_messages (kv # kvs) (m # ms) (t # ts) =
     rbind (fill_messages kvs ms ts) (\<lambda>kvs.
       Inr (kv\<lparr>kv_message := Some m, kv_pubsubTopic := Some t\<rparr> # kvs))"
| "fill_messages kvs (m # ms) ts = Inl IndexDefect"

definition toStoreResult ::
  "ArchiveError + ArchiveResponse \<Rightarrow> defect + (StoreError + StoreQueryResponse)" where
  "toStoreResult res =
     (case res of
        Inl e \<Rightarrow> Inr (Inl (store_error_new 300 (''archive error: '' @ show_archive_error e)))
      | Inr response \<Rightarrow>
          rbind (fill_messages
                   (map (\<lambda>h. \<lparr>kv_messageHash = h, kv_message = None, kv_pubsubTopic = None\<rparr>)
                     (r_hashes response))
                   (r_messages response) (r_topics response)) (\<lambda>kvs.
            Inr (Inr (default_response\<lparr>p_statusCode := 200, p_statusDesc := ''OK'',
              p_messages := kvs, p_paginationCursor := r_cursor response\<rparr>))))"

text \<open>The request handler \<open>mountStore\<close> installs; \<open>None\<close> where the archive does not answer.\<close>

type_synonym request_handler =
  "StoreQueryRequest \<Rightarrow> (defect + (StoreError + StoreQueryResponse)) option"

definition store_request_handler :: "'d getMessages_method \<Rightarrow> 'd \<Rightarrow> request_handler" where
  "store_request_handler getMessages d request =
     map_option toStoreResult (findMessages getMessages (toArchiveQuery request) d)"

definition handleSelfStoreRequest ::
  "request_handler \<Rightarrow> StoreQueryRequest \<Rightarrow> (defect + (string + StoreQueryResponse)) option" where
  "handleSelfStoreRequest requestHandler req =
     map_option
       (\<lambda>r. rbind r (\<lambda>res. case res of
          Inl e \<Rightarrow> Inr (Inl (''error in handleSelfStoreRequest: '' @ show_store_error e))
        | Inr res \<Rightarrow> Inr (Inr res)))
       (requestHandler req)"

section \<open>The protocol\<close>

record 'm rpc_codec =
  enc_request :: "StoreQueryRequest \<Rightarrow> 'm"
  dec_request :: "'m \<Rightarrow> string + StoreQueryRequest"
  enc_response :: "StoreQueryResponse \<Rightarrow> 'm"
  dec_response :: "'m \<Rightarrow> string + StoreQueryResponse"

text \<open>A failed query is answered with the response as it was: without the identifier of the request.\<close>

definition handleQueryRequest ::
  "'m rpc_codec \<Rightarrow> request_handler \<Rightarrow> 'm \<Rightarrow> (defect + ('m \<times> string)) option" where
  "handleQueryRequest codec requestHandler raw_request =
     (case dec_request codec raw_request of
        Inl e \<Rightarrow>
          Some (Inr (enc_response codec (default_response\<lparr>p_statusCode := 400,
                       p_statusDesc := ''decoding rpc failed: '' @ e\<rparr>), ''not_parsed_requestId''))
      | Inr req \<Rightarrow>
          map_option
            (\<lambda>r. rbind r (\<lambda>queryResult. case queryResult of
               Inl e \<Rightarrow>
                 Inr (enc_response codec (default_response\<lparr>p_statusCode := error_kind e,
                        p_statusDesc := show_store_error e\<rparr>), ''not_parsed_requestId'')
             | Inr res \<Rightarrow>
                 Inr (enc_response codec (res\<lparr>p_requestId := s_requestId req, p_statusCode := 200,
                        p_statusDesc := ''OK''\<rparr>), s_requestId req)))
            (requestHandler req))"

definition rejectResponse :: StoreQueryResponse where
  "rejectResponse = default_response\<lparr>p_requestId := ''N/A'', p_statusCode := 429,
     p_statusDesc := ''TOO_MANY_REQUESTS''\<rparr>"

text \<open>
  The handler of a connection behind the limiter: what is written back, if anything. \<open>read\<close> is what
  the connection gives. An assertion of the limiter ends the program.
\<close>

definition store_handler ::
  "'m rpc_codec \<Rightarrow> request_handler \<Rightarrow> 'b bucket_ops \<Rightarrow> 'p \<Rightarrow> int \<Rightarrow> int \<Rightarrow> string + 'm
     \<Rightarrow> ('p, 'b) RequestRateLimiter
     \<Rightarrow> (defect + ('m option \<times> ('p, 'b) RequestRateLimiter)) option" where
  "store_handler codec requestHandler ops peerId now tm_now read limiter =
     Option.bind (checkUsage ops peerId now tm_now limiter) (\<lambda>r.
       case r of
         Inl f \<Rightarrow> Some (Inl AssertionDefect)
       | Inr (ok, limiter) \<Rightarrow>
           if ok then
             (case read of
                Inl e \<Rightarrow> Some (Inr (None, limiter))
              | Inr reqBuf \<Rightarrow>
                  map_option (\<lambda>r. rbind r (\<lambda>(resp, requestId). Inr (Some resp, limiter)))
                    (handleQueryRequest codec requestHandler reqBuf))
           else Some (Inr (Some (enc_response codec rejectResponse), limiter)))"

section \<open>The client\<close>

text \<open>
  A peer as the client sees it, with a state of its own: opening a connection, writing a request,
  reading the response, the clock and the generator of identifiers.
\<close>

record ('e, 'm) network =
  net_dial :: "'e \<Rightarrow> bool \<times> 'e"
  net_write :: "'m \<Rightarrow> 'e \<Rightarrow> string option \<times> 'e"
  net_read :: "'e \<Rightarrow> (string + 'm) \<times> 'e"
  net_now :: "'e \<Rightarrow> Timestamp \<times> 'e"
  net_id :: "'e \<Rightarrow> string \<times> 'e"

definition DecodeRpcFailure :: string where "DecodeRpcFailure = ''decode_rpc_failure''"

definition sendStoreRequest ::
  "'m rpc_codec \<Rightarrow> ('e, 'm) network \<Rightarrow> StoreQueryRequest \<Rightarrow> 'e \<Rightarrow> (StoreError + StoreQueryResponse) \<times> 'e" where
  "sendStoreRequest codec net request e =
     (let (req, e) =
        (if s_requestId request = '''' then
           (let (i, e) = net_id net e in (request\<lparr>s_requestId := i\<rparr>, e))
         else (request, e))
      in case net_write net (enc_request codec req) e of
           (Some msg, e) \<Rightarrow> (Inl (BAD_REQUEST msg), e)
         | (None, e) \<Rightarrow>
             (case net_read net e of
                (Inl msg, e) \<Rightarrow> (Inl (BAD_RESPONSE msg), e)
              | (Inr buf, e) \<Rightarrow>
                  (case dec_response codec buf of
                     Inl msg \<Rightarrow> (Inl (BAD_RESPONSE DecodeRpcFailure), e)
                   | Inr res \<Rightarrow>
                       if p_statusCode res \<noteq> 200 then
                         (Inl (store_error_new (p_statusCode res) (p_statusDesc res)), e)
                       else (Inr res, e))))"

definition client_query ::
  "'m rpc_codec \<Rightarrow> ('e, 'm) network \<Rightarrow> string \<Rightarrow> StoreQueryRequest \<Rightarrow> 'e
     \<Rightarrow> (StoreError + StoreQueryResponse) \<times> 'e" where
  "client_query codec net peer request e =
     (if s_paginationCursor request = Some EmptyWakuMessageHash then
        (Inl (BAD_REQUEST ''invalid cursor''), e)
      else
        (case net_dial net e of
           (False, e) \<Rightarrow> (Inl (PEER_DIAL_FAILURE peer), e)
         | (True, e) \<Rightarrow> sendStoreRequest codec net request e))"

text \<open>\<open>queryToAny\<close>: the peers of the store protocol in the order given, at most five of them.\<close>

definition MaxQueryRetries :: nat where "MaxQueryRetries = 5"

fun try_peers ::
  "'m rpc_codec \<Rightarrow> (string \<Rightarrow> ('e, 'm) network) \<Rightarrow> string list \<Rightarrow> StoreQueryRequest \<Rightarrow> StoreError \<Rightarrow> 'e
     \<Rightarrow> (StoreError + StoreQueryResponse) \<times> 'e" where
  "try_peers codec net [] request lastError e = (Inl lastError, e)"
| "try_peers codec net (peer # peers) request lastError e =
     (case net_dial (net peer) e of
        (False, e) \<Rightarrow> try_peers codec net peers request (PEER_DIAL_FAILURE peer) e
      | (True, e) \<Rightarrow>
          (case sendStoreRequest codec (net peer) request e of
             (Inl err, e) \<Rightarrow> try_peers codec net peers request err e
           | (Inr response, e) \<Rightarrow> (Inr response, e)))"

definition queryToAny ::
  "'m rpc_codec \<Rightarrow> (string \<Rightarrow> ('e, 'm) network) \<Rightarrow> string list \<Rightarrow> StoreQueryRequest \<Rightarrow> 'e
     \<Rightarrow> (StoreError + StoreQueryResponse) \<times> 'e" where
  "queryToAny codec net peers request e =
     (if s_paginationCursor request = Some EmptyWakuMessageHash then
        (Inl (BAD_REQUEST ''invalid cursor''), e)
      else if peers = [] then (Inl (BAD_RESPONSE ''no service store peer connected''), e)
      else try_peers codec net (take MaxQueryRetries peers) request UNKNOWN_ERROR e)"

section \<open>Resuming\<close>

text \<open>
  The transfer callback of \<open>resume.nim\<close>. The messages of a response go through \<open>handleMessage\<close> of the
  archive, whose validator reads the clock each time. Taking the value of a missing topic or message
  is a defect, which the \<open>catch\<close> around it does not catch.
\<close>

fun store_page ::
  "(string \<Rightarrow> WakuMessage \<Rightarrow> WakuMessageHash) \<Rightarrow> 'd put_method \<Rightarrow> ('e, 'm) network
     \<Rightarrow> WakuMessageKeyValue list \<Rightarrow> 'd \<Rightarrow> 'e \<Rightarrow> defect + ('d \<times> 'e)" where
  "store_page hash_of put_row net [] d e = Inr (d, e)"
| "store_page hash_of put_row net (kv # kvs) d e =
     (case (kv_pubsubTopic kv, kv_message kv) of
        (Some topic, Some msg) \<Rightarrow>
          (let (now, e) = net_now net e
           in rbind (archive_handleMessage hash_of (validate now) put_row topic msg d) (\<lambda>d.
                store_page hash_of put_row net kvs d e))
      | _ \<Rightarrow> Inl UnpackDefect)"

partial_function (option) transfer_loop ::
  "(string \<Rightarrow> WakuMessage \<Rightarrow> WakuMessageHash) \<Rightarrow> 'd put_method \<Rightarrow> 'm rpc_codec \<Rightarrow> ('e, 'm) network \<Rightarrow> string
     \<Rightarrow> StoreQueryRequest \<Rightarrow> 'd \<Rightarrow> 'e \<Rightarrow> (defect + (string + unit) \<times> 'd \<times> 'e) option" where
  "transfer_loop hash_of put_row codec net peer req d e =
     (case client_query codec net peer req e of
        (Inl err, e) \<Rightarrow> Some (Inr (Inl (''store client error: '' @ show_store_error err), d, e))
      | (Inr response, e) \<Rightarrow>
          (case store_page hash_of put_row net (p_messages response) d e of
             Inl f \<Rightarrow> Some (Inl f)
           | Inr (d, e) \<Rightarrow>
               (case p_paginationCursor response of
                  None \<Rightarrow> Some (Inr (Inr (), d, e))
                | Some c \<Rightarrow>
                    transfer_loop hash_of put_row codec net peer
                      (req\<lparr>s_paginationCursor := Some c\<rparr>) d e)))"

definition transfer_request :: "Timestamp \<Rightarrow> Timestamp \<Rightarrow> StoreQueryRequest" where
  "transfer_request time now = default_request\<lparr>s_includeData := True, s_startTime := Some time,
     s_endTime := Some now, s_paginationLimit := Some 100\<rparr>"

definition transfer_callback ::
  "(string \<Rightarrow> WakuMessage \<Rightarrow> WakuMessageHash) \<Rightarrow> 'd put_method \<Rightarrow> 'm rpc_codec \<Rightarrow> ('e, 'm) network \<Rightarrow> Timestamp
     \<Rightarrow> string \<Rightarrow> 'd \<Rightarrow> 'e \<Rightarrow> (defect + (string + unit) \<times> 'd \<times> 'e) option" where
  "transfer_callback hash_of put_row codec net time peer d e =
     (let (now, e) = net_now net e
      in transfer_loop hash_of put_row codec net peer (transfer_request time now) d e)"

text \<open>\<open>autoStoreResume\<close> from the time last online, at most six hours back; \<open>None\<close> for no peer.\<close>

definition ResumeRangeLimit :: int where "ResumeRangeLimit = 6"

definition autoStoreResume ::
  "(string \<Rightarrow> WakuMessage \<Rightarrow> WakuMessageHash) \<Rightarrow> 'd put_method \<Rightarrow> 'm rpc_codec \<Rightarrow> ('e, 'm) network
     \<Rightarrow> string option \<Rightarrow> string + Timestamp \<Rightarrow> 'd \<Rightarrow> 'e
     \<Rightarrow> (defect + (string + unit) \<times> 'd \<times> 'e) option" where
  "autoStoreResume hash_of put_row codec net selected lastOnline d e =
     (case selected of
        None \<Rightarrow> Some (Inr (Inl ''no suitable peer found for store resume'', d, e))
      | Some peer \<Rightarrow>
          (case lastOnline of
             Inl err \<Rightarrow> Some (Inr (Inl (''failed to get last online timestamp: '' @ err), d, e))
           | Inr lastOnlineTs \<Rightarrow>
               (let (now, e) = net_now net e in
                case int64 (now - ResumeRangeLimit * 3600 * 1000000000) of
                  Inl f \<Rightarrow> Some (Inl f)
                | Inr maxTime \<Rightarrow>
                    map_option (\<lambda>r. rbind r (\<lambda>(res, d, e).
                        case res of
                          Inl err \<Rightarrow> Inr (Inl (''transfer callback failed: '' @ err), d, e)
                        | Inr _ \<Rightarrow> Inr (Inr (), d, e)))
                      (transfer_callback hash_of put_row codec net (max lastOnlineTs maxTime) peer d e))))"

text \<open>The attempts of \<open>start\<close>: \<open>sources\<close> gives the peer selected and the time last online each time.\<close>

fun resume_attempts ::
  "(string \<Rightarrow> WakuMessage \<Rightarrow> WakuMessageHash) \<Rightarrow> 'd put_method \<Rightarrow> 'm rpc_codec \<Rightarrow> ('e, 'm) network
     \<Rightarrow> ('e \<Rightarrow> (string option \<times> (string + Timestamp)) \<times> 'e) \<Rightarrow> nat \<Rightarrow> 'd \<Rightarrow> 'e
     \<Rightarrow> (defect + 'd \<times> 'e) option" where
  "resume_attempts hash_of put_row codec net sources 0 d e = Some (Inr (d, e))"
| "resume_attempts hash_of put_row codec net sources (Suc tries) d e =
     (let ((selected, lastOnline), e) = sources e
      in Option.bind (autoStoreResume hash_of put_row codec net selected lastOnline d e) (\<lambda>r.
           case r of
             Inl f \<Rightarrow> Some (Inl f)
           | Inr (Inl err, d, e) \<Rightarrow> resume_attempts hash_of put_row codec net sources tries d e
           | Inr (Inr _, d, e) \<Rightarrow> Some (Inr (d, e))))"

definition resume_start ::
  "(string \<Rightarrow> WakuMessage \<Rightarrow> WakuMessageHash) \<Rightarrow> 'd put_method \<Rightarrow> 'm rpc_codec \<Rightarrow> ('e, 'm) network
     \<Rightarrow> ('e \<Rightarrow> (string option \<times> (string + Timestamp)) \<times> 'e) \<Rightarrow> 'd \<Rightarrow> 'e \<Rightarrow> (defect + 'd \<times> 'e) option" where
  "resume_start hash_of put_row codec net sources = resume_attempts hash_of put_row codec net sources 3"

section \<open>What resuming stores\<close>

definition only_recent ::
  "('s \<Rightarrow> queue_entry list) \<Rightarrow> Timestamp \<Rightarrow> 's QueueDriver \<Rightarrow> 's QueueDriver \<Rightarrow> bool" where
  "only_recent ents t0 d d' \<longleftrightarrow>
     ordered (ents (items d'))
     \<and> set (queue_contents ents d')
         \<subseteq> set (queue_contents ents d) \<union> {r. t0 - MaxMessageTimestampVariance \<le> timestamp (snd (snd r))}"

lemma handled_recent:
  assumes "sorted_set_sound ops ents" "only_recent ents t0 d0 d" "t0 \<le> now"
    and "archive_handleMessage hash_of (validate now) (queue_put ops) topic msg d = Inr d'"
  shows "only_recent ents t0 d0 d'"
proof (cases "d' = d")
  case True
  with assms(2) show ?thesis by simp
next
  case False
  from assms(4) obtain v where v: "validate now msg = Inr v"
    "(case v of Inl e \<Rightarrow> Inr d
       | Inr _ \<Rightarrow> rbind (queue_put ops (hash_of topic msg) topic msg d) (\<lambda>(r, d). Inr d)) = Inr d'"
    unfolding archive_handleMessage_def Let_def rbind_eq_Inr by blast
  with False obtain u r where r: "v = Inr u" "queue_put ops (hash_of topic msg) topic msg d = Inr (r, d')"
    by (cases v) (auto simp: rbind_eq_Inr)
  from v(1) r(1) have "t0 - MaxMessageTimestampVariance \<le> timestamp msg"
    using assms(3) by (auto simp: validate_def rbind_eq_Inr int64_def split: if_splits)
  with queue_put_rows [OF assms(1) _ r(2)] assms(2) show ?thesis by (fastforce simp: only_recent_def)
qed

lemma store_page_recent:
  assumes "sorted_set_sound ops ents" "\<And>e. t0 \<le> fst (net_now net e)"
    and "only_recent ents t0 d0 d" "store_page hash_of (queue_put ops) net kvs d e = Inr (d', e')"
  shows "only_recent ents t0 d0 d'"
  using assms(3,4)
proof (induction kvs arbitrary: d e)
  case (Cons kv kvs)
  obtain now e1 where now: "net_now net e = (now, e1)" by force
  then have t: "t0 \<le> now" using assms(2) [of e] by simp
  from Cons.prems(2) obtain topic msg d1 where
    "archive_handleMessage hash_of (validate now) (queue_put ops) topic msg d = Inr d1"
    "store_page hash_of (queue_put ops) net kvs d1 e1 = Inr (d', e')"
    by (auto simp: now rbind_eq_Inr split: option.splits)
  with Cons.IH handled_recent [OF assms(1) Cons.prems(1) t] show ?case by blast
qed simp

text \<open>
  The archives a transfer goes through, message by message and page by page: those of a transfer that
  never returns, or ends in a defect, as well.
\<close>

inductive transfer_visits ::
  "(string \<Rightarrow> WakuMessage \<Rightarrow> WakuMessageHash) \<Rightarrow> 'd put_method \<Rightarrow> 'm rpc_codec \<Rightarrow> ('e, 'm) network \<Rightarrow> string
     \<Rightarrow> StoreQueryRequest \<Rightarrow> 'd \<Rightarrow> 'e \<Rightarrow> 'd \<Rightarrow> bool"
  for hash_of put_row codec net peer where
  visit_start: "transfer_visits hash_of put_row codec net peer req d e d"
| visit_page: "client_query codec net peer req e = (Inr response, e1) \<Longrightarrow>
    store_page hash_of put_row net (take k (p_messages response)) d e1 = Inr (d', e') \<Longrightarrow>
    transfer_visits hash_of put_row codec net peer req d e d'"
| visit_next: "client_query codec net peer req e = (Inr response, e1) \<Longrightarrow>
    store_page hash_of put_row net (p_messages response) d e1 = Inr (d1, e2) \<Longrightarrow>
    p_paginationCursor response = Some c \<Longrightarrow>
    transfer_visits hash_of put_row codec net peer (req\<lparr>s_paginationCursor := Some c\<rparr>) d1 e2 d' \<Longrightarrow>
    transfer_visits hash_of put_row codec net peer req d e d'"

definition resume_visits ::
  "(string \<Rightarrow> WakuMessage \<Rightarrow> WakuMessageHash) \<Rightarrow> 'd put_method \<Rightarrow> 'm rpc_codec \<Rightarrow> ('e, 'm) network
     \<Rightarrow> string option \<Rightarrow> string + Timestamp \<Rightarrow> 'd \<Rightarrow> 'e \<Rightarrow> 'd \<Rightarrow> bool" where
  "resume_visits hash_of put_row codec net selected lastOnline d e d' \<longleftrightarrow> d' = d \<or>
     (case (selected, lastOnline) of
        (Some peer, Inr ts) \<Rightarrow>
          (case net_now net e of (now, e) \<Rightarrow>
             (case int64 (now - ResumeRangeLimit * 3600 * 1000000000) of
                Inl f \<Rightarrow> False
              | Inr maxTime \<Rightarrow>
                  (case net_now net e of (now, e) \<Rightarrow>
                     transfer_visits hash_of put_row codec net peer (transfer_request (max ts maxTime) now) d e d')))
      | _ \<Rightarrow> False)"

lemma transfer_visits_recent:
  assumes "sorted_set_sound ops ents" "\<And>e. t0 \<le> fst (net_now net e)"
    and "transfer_visits hash_of (queue_put ops) codec net peer req d e d'" "only_recent ents t0 d0 d"
  shows "only_recent ents t0 d0 d'"
  using assms(3,4)
proof induction
  case (visit_page req e response e1 k d d' e')
  from store_page_recent [OF assms(1,2) this(3,2)] show ?case .
next
  case (visit_next req e response e1 d d1 e2 c d')
  from visit_next.IH [OF store_page_recent [OF assms(1,2) visit_next.prems visit_next.hyps(2)]] show ?case .
qed

text \<open>Where the transfer returns, its archive is one of them.\<close>

lemma transfer_loop_visits:
  fixes net :: "('e, 'm) network" and d :: 'd
  assumes ret: "transfer_loop hash_of put_row codec net peer req d e = Some (Inr (res, d', e'))"
  shows "transfer_visits hash_of put_row codec net peer req d e d'"
proof -
  define P where "P h p c (n :: ('e, 'm) network) pr req d e r \<longleftrightarrow>
      (\<forall>res d' e'. r = Inr (res, d', e') \<longrightarrow> transfer_visits h p c n pr req d e d')"
    for h and p :: "'d put_method" and c :: "'m rpc_codec" and n and pr :: string and req :: StoreQueryRequest
      and d :: 'd and e :: 'e and r :: "defect + (string + unit) \<times> 'd \<times> 'e"
  have "P hash_of put_row codec net peer req d e (Inr (res, d', e'))"
  proof (rule transfer_loop.raw_induct [where P = P, OF _ ret])
    show "P h p c n pr rq dd ee rr"
      if IH: "\<And>h p c n pr rq dd ee rr. f h p c n pr rq dd ee = Some rr \<Longrightarrow> P h p c n pr rq dd ee rr"
        and eq: "(case client_query c n pr rq ee of
        (Inl err, e) \<Rightarrow> Some (Inr (Inl (''store client error: '' @ show_store_error err), dd, e))
      | (Inr response, e) \<Rightarrow>
          (case store_page h p n (p_messages response) dd e of
             Inl f \<Rightarrow> Some (Inl f)
           | Inr (d, e) \<Rightarrow>
               (case p_paginationCursor response of
                  None \<Rightarrow> Some (Inr (Inr (), d, e))
                | Some cu \<Rightarrow> f h p c n pr (rq\<lparr>s_paginationCursor := Some cu\<rparr>) d e))) = Some rr"
      for f h p c n pr rq dd ee rr
    proof -
      obtain q e1 where q: "client_query c n pr rq ee = (q, e1)" by force
      show ?thesis
      proof (cases q)
        case (Inl err)
        with eq q show ?thesis by (auto simp: P_def intro: visit_start)
      next
        case (Inr response)
        note eq = eq [unfolded q Inr, simplified]
        show ?thesis
        proof (cases "store_page h p n (p_messages response) dd e1")
          case (Inl x)
          with eq show ?thesis by (auto simp: P_def)
        next
          case page: (Inr de)
          obtain d2 e2 where de: "de = (d2, e2)" by force
          note q = q [unfolded Inr] and page = page [unfolded de]
          show ?thesis
          proof (cases "p_paginationCursor response")
            case None
            with eq page have "rr = Inr (Inr (), d2, e2)" by simp
            with visit_page [OF q, where k = "length (p_messages response)"] page show ?thesis by (simp add: P_def)
          next
            case (Some cu)
            with eq page have "f h p c n pr (rq\<lparr>s_paginationCursor := Some cu\<rparr>) d2 e2 = Some rr" by simp
            from IH [OF this] visit_next [OF q page Some] show ?thesis unfolding P_def by blast
          qed
        qed
      qed
    qed
  qed
  then show ?thesis by (simp add: P_def)
qed

lemma resume_visits_transfer:
  "resume_visits hash_of put_row codec net selected lastOnline d e d' \<Longrightarrow>
    d' = d \<or> (\<exists>peer req e1. transfer_visits hash_of put_row codec net peer req d e1 d')"
  unfolding resume_visits_def
  by (cases selected; cases lastOnline; cases "net_now net e";
      cases "int64 (fst (net_now net e) - ResumeRangeLimit * 3600 * 1000000000)")
    (auto split: prod.split_asm)

lemma resume_returns_visited:
  assumes "autoStoreResume hash_of put_row codec net selected lastOnline d e = Some (Inr (res, d', e'))"
  shows "resume_visits hash_of put_row codec net selected lastOnline d e d'"
proof (cases "\<exists>peer ts. selected = Some peer \<and> lastOnline = Inr ts")
  case False
  with assms show ?thesis
    by (cases selected; cases lastOnline) (simp_all add: autoStoreResume_def resume_visits_def)
next
  case True
  then obtain peer ts where s: "selected = Some peer" "lastOnline = Inr ts" by blast
  obtain now e1 where now: "net_now net e = (now, e1)" by force
  obtain now2 e2 where now2: "net_now net e1 = (now2, e2)" by force
  show ?thesis
  proof (cases "int64 (now - ResumeRangeLimit * 3600 * 1000000000)")
    case (Inl f)
    with assms show ?thesis by (simp add: autoStoreResume_def s now)
  next
    case (Inr m)
    from assms obtain r where r: "transfer_callback hash_of put_row codec net (max ts m) peer d e1 = Some r"
      "rbind r (\<lambda>(res, d, e). case res of
          Inl err \<Rightarrow> Inr (Inl (''transfer callback failed: '' @ err), d, e)
        | Inr _ \<Rightarrow> Inr (Inr (), d, e)) = Inr (res, d', e')"
      by (auto simp: autoStoreResume_def s now Inr [simplified])
    then obtain a d2 e3 where a: "r = Inr (a, d2, e3)" by (auto simp: rbind_eq_Inr)
    with r(2) have "d2 = d'" by (cases a) auto
    with r(1) a have "transfer_loop hash_of put_row codec net peer (transfer_request (max ts m) now2) d e2
        = Some (Inr (a, d', e3))"
      by (simp add: transfer_callback_def now2)
    from transfer_loop_visits [OF this] show ?thesis by (simp add: resume_visits_def s now Inr [simplified] now2)
  qed
qed

text \<open>
  C9. Resuming stores nothing that is older than 20 seconds when it arrives: whatever a peer answers
  for the time the node was away, at every point of the run -- which may end in an error, in a
  defect or never -- every row of the archive was there before or has a timestamp within the variance
  of the validator; the archive of a run that returns is that of such a point. The messages missed are
  asked for and thrown away.
\<close>

theorem resume_stores_only_recent:
  assumes "sorted_set_sound ops ents" "\<forall>e. t0 \<le> fst (net_now net e)" "ordered (ents (items d))"
  shows "(resume_visits hash_of (queue_put ops) codec net selected lastOnline d e d' \<longrightarrow>
      set (queue_contents ents d') \<subseteq> set (queue_contents ents d)
        \<union> {r. t0 - MaxMessageTimestampVariance \<le> timestamp (snd (snd r))})
    \<and> (autoStoreResume hash_of (queue_put ops) codec net selected lastOnline d e = Some (Inr (res, d', e')) \<longrightarrow>
      resume_visits hash_of (queue_put ops) codec net selected lastOnline d e d')"
proof (intro conjI impI)
  assume v: "resume_visits hash_of (queue_put ops) codec net selected lastOnline d e d'"
  have start: "only_recent ents t0 d d" using assms(3) by (simp add: only_recent_def)
  have "only_recent ents t0 d d'"
    using resume_visits_transfer [OF v] transfer_visits_recent [OF assms(1) assms(2) [rule_format] _ start] start
    by blast
  then show "set (queue_contents ents d') \<subseteq> set (queue_contents ents d)
      \<union> {r. t0 - MaxMessageTimestampVariance \<le> timestamp (snd (snd r))}"
    by (simp add: only_recent_def)
qed (rule resume_returns_visited)

text \<open>A peer that answers with a message an hour old to any request.\<close>

definition example_hash :: "string \<Rightarrow> WakuMessage \<Rightarrow> WakuMessageHash" where
  "example_hash topic msg = replicate 31 0 @ [word_of_int (timestamp msg)]"

definition example_codec :: "unit rpc_codec" where
  "example_codec =
     \<lparr>enc_request = (\<lambda>r. ()), dec_request = (\<lambda>b. Inl ''''), enc_response = (\<lambda>r. ()),
      dec_response = (\<lambda>b. Inr (default_response\<lparr>p_statusCode := 200,
        p_messages := [\<lparr>kv_messageHash = replicate 31 0 @ [1],
          kv_message = Some (example_message ''/a/1/b/c'' (10000 * 1000000000)),
          kv_pubsubTopic = Some ''/waku/2/rs/1/0''\<rparr>]\<rparr>))\<rparr>"

definition example_net :: "(unit, unit) network" where
  "example_net = \<lparr>net_dial = (\<lambda>e. (True, e)), net_write = (\<lambda>b e. (None, e)),
     net_read = (\<lambda>e. (Inr (), e)), net_now = (\<lambda>e. (13600 * 1000000000, e)), net_id = (\<lambda>e. (''id'', e))\<rparr>"

theorem resume_stores_only_recent_witness:
  "\<exists>d'. autoStoreResume example_hash (queue_put list_set_ops) example_codec example_net (Some ''peer'')
       (Inr (9000 * 1000000000)) (queue_new list_set_ops 5) () = Some (Inr (Inr (), d', ()))
     \<and> items d' = []
     \<and> set (queue_contents (\<lambda>s. s) d') \<subseteq> {r. 13580 * 1000000000 \<le> timestamp (snd (snd r))}"
proof -
  have ran: "autoStoreResume example_hash (queue_put list_set_ops) example_codec example_net (Some ''peer'')
       (Inr (9000 * 1000000000)) (queue_new list_set_ops 5) ()
      = Some (Inr (Inr (), queue_new list_set_ops 5, ()))"
    by (simp add: autoStoreResume_def transfer_callback_def Let_def example_net_def ResumeRangeLimit_def transfer_request_def
        int64_def is_int64_def, subst transfer_loop.simps)
      (simp add: client_query_def sendStoreRequest_def example_codec_def default_request_def
        default_response_def archive_handleMessage_def validate_def example_message_def
        MaxMessageTimestampVariance_def int64_def is_int64_def)
  have "items (queue_new list_set_ops 5) = []" by (simp add: queue_new_def list_set_ops_def)
  moreover from this ran resume_stores_only_recent [OF list_set_sound, of "13600 * 1000000000" example_net
      "queue_new list_set_ops 5" example_hash example_codec "Some ''peer''" "Inr (9000 * 1000000000)" "()"
      "queue_new list_set_ops 5" "Inr ()" "()"]
  have "set (queue_contents (\<lambda>s. s) (queue_new list_set_ops 5))
      \<subseteq> {r. 13580 * 1000000000 \<le> timestamp (snd (snd r))}"
    by (simp add: example_net_def queue_contents_def)
  ultimately show ?thesis using ran by blast
qed

text \<open>A query to any peer asks at most five and succeeds exactly when one of them answers.\<close>

lemma try_peers_result:
  assumes "\<And>e. net_dial (net peer) e = (True, e)" "\<And>req e. sendStoreRequest codec (net peer) req e = (Inr resp, e)"
    and "\<forall>p \<in> set before. \<forall>e. net_dial (net p) e = (False, e)"
  shows "try_peers codec net (before @ peer # after) req err e = (Inr resp, e)"
  using assms(3) by (induction before arbitrary: err) (simp_all add: assms(1,2))

text \<open>A peer whose every response has a cursor keeps the transfer from ever returning.\<close>

lemma transfer_loop_endless:
  fixes net :: "('e, 'm) network" and d :: 'd
  assumes "\<And>req e. case fst (client_query codec net peer req e) of
      Inl _ \<Rightarrow> False
    | Inr r \<Rightarrow> p_messages r = [] \<and> p_paginationCursor r \<noteq> None"
  shows "transfer_loop hash_of put_row codec net peer req d e = None"
proof (rule ccontr)
  assume "transfer_loop hash_of put_row codec net peer req d e \<noteq> None"
  then obtain r where ret: "transfer_loop hash_of put_row codec net peer req d e = Some r" by auto
  define P where "P h p c (n :: ('e, 'm) network) pr rq d e r \<longleftrightarrow> \<not> (c = codec \<and> n = net \<and> pr = peer)"
    for h :: "string \<Rightarrow> WakuMessage \<Rightarrow> WakuMessageHash" and p :: "'d put_method"
      and c :: "'m rpc_codec" and n and pr :: string
      and rq :: StoreQueryRequest and d :: 'd and e :: 'e and r :: "defect + (string + unit) \<times> 'd \<times> 'e"
  have "P hash_of put_row codec net peer req d e r"
  proof (rule transfer_loop.raw_induct [where P = P, OF _ ret])
    show "P h p c n pr rq dd ee rr"
      if IH: "\<And>h p c n pr rq dd ee rr. f h p c n pr rq dd ee = Some rr \<Longrightarrow> P h p c n pr rq dd ee rr"
        and eq: "(case client_query c n pr rq ee of
        (Inl err, e) \<Rightarrow> Some (Inr (Inl (''store client error: '' @ show_store_error err), dd, e))
      | (Inr response, e) \<Rightarrow>
          (case store_page h p n (p_messages response) dd e of
             Inl f \<Rightarrow> Some (Inl f)
           | Inr (d, e) \<Rightarrow>
               (case p_paginationCursor response of
                  None \<Rightarrow> Some (Inr (Inr (), d, e))
                | Some cu \<Rightarrow> f h p c n pr (rq\<lparr>s_paginationCursor := Some cu\<rparr>) d e))) = Some rr"
      for f h p c n pr rq dd ee rr
    proof (cases "c = codec \<and> n = net \<and> pr = peer")
      case True
      obtain r0 e1 where "client_query codec net peer rq ee = (Inr r0, e1)" "p_messages r0 = []"
        "p_paginationCursor r0 \<noteq> None"
        using assms [of rq ee] by (cases "client_query codec net peer rq ee") (auto split: sum.splits)
      then obtain cu where "f h p c n pr (rq\<lparr>s_paginationCursor := Some cu\<rparr>) dd e1 = Some rr"
        using eq True by auto
      from IH [OF this] show ?thesis by (simp add: P_def)
    qed (simp add: P_def)
  qed
  then show False by (simp add: P_def)
qed

section \<open>From the client to the archive\<close>

text \<open>The values the encoding carries, and what is expected of it and of a connection to a server.\<close>

definition message_ok :: "WakuMessage \<Rightarrow> bool" where
  "message_ok m \<longleftrightarrow> length (meta m) \<le> 64 \<and> is_int64 (timestamp m)"

definition request_ok :: "StoreQueryRequest \<Rightarrow> bool" where
  "request_ok r \<longleftrightarrow>
     list_all (\<lambda>h. length h = 32) (s_messageHashes r)
     \<and> pred_option (\<lambda>h. length h = 32) (s_paginationCursor r)
     \<and> pred_option is_int64 (s_startTime r) \<and> pred_option is_int64 (s_endTime r)
     \<and> pred_option (\<lambda>n. n < 2 ^ 64) (s_paginationLimit r)"

definition kv_ok :: "WakuMessageKeyValue \<Rightarrow> bool" where
  "kv_ok kv \<longleftrightarrow>
     length (kv_messageHash kv) = 32 \<and> pred_option message_ok (kv_message kv)
     \<and> (kv_message kv = None \<longleftrightarrow> kv_pubsubTopic kv = None)"

definition response_ok :: "StoreQueryResponse \<Rightarrow> bool" where
  "response_ok p \<longleftrightarrow>
     p_statusCode p < 2 ^ 32 \<and> list_all kv_ok (p_messages p)
     \<and> pred_option (\<lambda>h. length h = 32) (p_paginationCursor p)"

definition codec_roundtrip :: "'m rpc_codec \<Rightarrow> bool" where
  "codec_roundtrip codec \<longleftrightarrow>
     (\<forall>r. request_ok r \<longrightarrow> dec_request codec (enc_request codec r) = Inr r)
     \<and> (\<forall>p. response_ok p \<longrightarrow> dec_response codec (enc_response codec p) = Inr p)"

definition serves :: "'m rpc_codec \<Rightarrow> request_handler \<Rightarrow> ('e, 'm) network \<Rightarrow> bool" where
  "serves codec handler net \<longleftrightarrow>
     (\<forall>e. fst (net_dial net e))
     \<and> (\<forall>buf e. fst (net_write net buf e) = None
          \<and> (\<forall>resp rid. handleQueryRequest codec handler buf = Some (Inr (resp, rid)) \<longrightarrow>
               fst (net_read net (snd (net_write net buf e))) = Inr resp))"

text \<open>The responses met when a client follows the cursors.\<close>

fun client_chain ::
  "(StoreQueryRequest \<Rightarrow> 'e \<Rightarrow> ('f + StoreQueryResponse) \<times> 'e) \<Rightarrow> StoreQueryRequest \<Rightarrow> 'e
     \<Rightarrow> StoreQueryResponse list \<Rightarrow> bool" where
  "client_chain ask req e [] = False"
| "client_chain ask req e (r # rs) =
     (fst (ask req e) = Inr r
       \<and> (case p_paginationCursor r of
            None \<Rightarrow> rs = []
          | Some c \<Rightarrow> client_chain ask (req\<lparr>s_paginationCursor := Some c\<rparr>) (snd (ask req e)) rs))"

definition row_kv :: "bool \<Rightarrow> ArchiveRow \<Rightarrow> WakuMessageKeyValue" where
  "row_kv includeData r =
     \<lparr>kv_messageHash = fst r,
      kv_message = (if includeData then Some (snd (snd r)) else None),
      kv_pubsubTopic = (if includeData then Some (fst (snd r)) else None)\<rparr>"

lemma fill_messages_rows:
  "fill_messages (map (\<lambda>h. \<lparr>kv_messageHash = h, kv_message = None, kv_pubsubTopic = None\<rparr>) (map fst c))
     (map (\<lambda>r. snd (snd r)) c) (map (\<lambda>r. fst (snd r)) c) = Inr (map (row_kv True) c)"
  by (induction c) (auto simp: row_kv_def)

lemma toStoreResult_chunk:
  "toStoreResult (Inr (chunk_response i a c further)) =
     Inr (Inr (default_response\<lparr>p_statusCode := 200, p_statusDesc := ''OK'',
       p_messages := in_order a (map (row_kv i) c),
       p_paginationCursor := (if further then Some (fst (last c)) else None)\<rparr>))"
  using fill_messages_rows [of "in_order a c"]
  by (simp add: toStoreResult_def chunk_response_def in_order_map row_kv_def comp_def)

lemma findMessages_requestId:
  "findMessages (queue_getMessages ops) (q\<lparr>q_requestId := i\<rparr>) d = findMessages (queue_getMessages ops) q d"
proof -
  have "check_cursor (q\<lparr>q_requestId := i\<rparr>) = check_cursor q"
    "query_page_size (q\<lparr>q_requestId := i\<rparr>) = query_page_size q"
    by (simp_all add: check_cursor_def query_page_size_def)
  moreover have "queue_getMessages ops inc cts pt c st et hs n asc rid d
      = queue_getMessages ops inc cts pt c st et hs n asc rid' d" for inc cts pt c st et hs n asc rid rid'
    by (simp add: queue_getMessages_def)
  ultimately show ?thesis
    unfolding findMessages_def Let_def by (cases "check_cursor q") (simp_all, metis)
qed

lemma toArchiveQuery_updates:
  "toArchiveQuery (req\<lparr>s_requestId := i\<rparr>) = (toArchiveQuery req)\<lparr>q_requestId := i\<rparr>"
  "toArchiveQuery (req\<lparr>s_paginationCursor := c\<rparr>) = (toArchiveQuery req)\<lparr>q_cursor := c\<rparr>"
  by (auto simp: toArchiveQuery_def Let_def split: option.splits)

lemma client_served:
  assumes codec: "codec_roundtrip codec"
    and net: "serves codec (store_request_handler (queue_getMessages ops) d) net"
    and ok: "request_ok req" "s_paginationCursor req \<noteq> Some EmptyWakuMessageHash"
    and answer: "findMessages (queue_getMessages ops) (toArchiveQuery req) d
      = Some (Inr (chunk_response i a c further))"
    and fit: "list_all kv_ok (map (row_kv i) c)" "further \<Longrightarrow> length (fst (last c)) = 32"
  shows "\<exists>rid. fst (client_query codec net peer req e) = Inr \<lparr>p_requestId = rid, p_statusCode = 200,
    p_statusDesc = ''OK'', p_messages = in_order a (map (row_kv i) c),
    p_paginationCursor = (if further then Some (fst (last c)) else None)\<rparr>"
proof -
  have "fst (net_dial net e)" using net by (simp add: serves_def)
  then obtain e1 where dial: "net_dial net e = (True, e1)" by (cases "net_dial net e") auto
  obtain req' e2 where req': "(if s_requestId req = '''' then
           (let (i, e) = net_id net e1 in (req\<lparr>s_requestId := i\<rparr>, e))
         else (req, e1)) = (req', e2)" by force
  have same: "\<exists>i. req' = req\<lparr>s_requestId := i\<rparr>"
  proof (cases "s_requestId req = ''''")
    case True
    with req' show ?thesis by (cases "net_id net e1") auto
  next
    case False
    with req' have "req' = req\<lparr>s_requestId := s_requestId req\<rparr>" by simp
    then show ?thesis by blast
  qed
  define resp where "resp = \<lparr>p_requestId = s_requestId req', p_statusCode = 200,
    p_statusDesc = ''OK'', p_messages = in_order a (map (row_kv i) c),
    p_paginationCursor = (if further then Some (fst (last c)) else None)\<rparr>"
  have "request_ok req'" using ok(1) same by (auto simp: request_ok_def)
  then have dec: "dec_request codec (enc_request codec req') = Inr req'"
    using codec by (simp add: codec_roundtrip_def)
  have find: "findMessages (queue_getMessages ops) (toArchiveQuery req') d
      = Some (Inr (chunk_response i a c further))"
    using same answer by (auto simp: toArchiveQuery_updates findMessages_requestId)
  have handled: "handleQueryRequest codec (store_request_handler (queue_getMessages ops) d)
      (enc_request codec req') = Some (Inr (enc_response codec resp, s_requestId req'))"
    by (simp add: handleQueryRequest_def dec store_request_handler_def find toStoreResult_chunk
        default_response_def resp_def)
  have "fst (net_write net (enc_request codec req') e2) = None" using net by (simp add: serves_def)
  then obtain e3 where wr: "net_write net (enc_request codec req') e2 = (None, e3)"
    by (cases "net_write net (enc_request codec req') e2") auto
  have "fst (net_read net (snd (net_write net (enc_request codec req') e2))) = Inr (enc_response codec resp)"
    using net handled unfolding serves_def by blast
  then obtain e4 where read: "net_read net e3 = (Inr (enc_response codec resp), e4)"
    using wr by (cases "net_read net e3") auto
  have "list_all kv_ok (in_order a (map (row_kv i) c))" using fit(1) by (simp add: list_all_iff)
  then have "response_ok resp" using fit(2) by (simp add: resp_def response_ok_def)
  then have "dec_response codec (enc_response codec resp) = Inr resp"
    using codec by (simp add: codec_roundtrip_def)
  then have "fst (client_query codec net peer req e) = Inr resp"
    using ok(2) dial req' wr read by (simp add: client_query_def sendStoreRequest_def resp_def)
  then show ?thesis unfolding resp_def by blast
qed

lemma responses_served:
  assumes codec: "codec_roundtrip codec"
    and net: "serves codec (store_request_handler (queue_getMessages ops) d) net"
    and ok: "request_ok req" "s_paginationCursor req \<noteq> Some EmptyWakuMessageHash"
    and rows: "\<forall>r \<in> set (concat cs). kv_ok (row_kv i r) \<and> length (fst r) = 32 \<and> fst r \<noteq> EmptyWakuMessageHash"
    and full: "\<forall>c \<in> set (butlast cs). c \<noteq> []"
    and chain: "page_chain (\<lambda>q. findMessages (queue_getMessages ops) q d) (toArchiveQuery req) (responses i a cs)"
  shows "\<exists>rs. client_chain (client_query codec net peer) req e rs
    \<and> map p_messages rs = map (\<lambda>c. in_order a (map (row_kv i) c)) cs"
  using ok rows full chain
proof (induction cs arbitrary: req e)
  case (Cons c cs)
  have answer: "findMessages (queue_getMessages ops) (toArchiveQuery req) d
      = Some (Inr (chunk_response i a c (cs \<noteq> [])))"
    using Cons.prems(5) by simp
  have last_in: "cs \<noteq> [] \<Longrightarrow> last c \<in> set c" using Cons.prems(4) by simp
  have fit: "list_all kv_ok (map (row_kv i) c)" "cs \<noteq> [] \<Longrightarrow> length (fst (last c)) = 32"
    using Cons.prems(3) last_in by (auto simp: list_all_iff)
  obtain rid where r: "fst (client_query codec net peer req e) = Inr \<lparr>p_requestId = rid,
      p_statusCode = 200, p_statusDesc = ''OK'', p_messages = in_order a (map (row_kv i) c),
      p_paginationCursor = (if cs \<noteq> [] then Some (fst (last c)) else None)\<rparr>"
    using client_served [OF codec net Cons.prems(1,2) answer fit] by blast
  show ?case
  proof (cases "cs = []")
    case True
    with r show ?thesis
      by (intro exI [of _ "[\<lparr>p_requestId = rid, p_statusCode = 200, p_statusDesc = ''OK'',
        p_messages = in_order a (map (row_kv i) c), p_paginationCursor = None\<rparr>]"]) simp
  next
    case False
    define req' where "req' = req\<lparr>s_paginationCursor := Some (fst (last c))\<rparr>"
    have "page_chain (\<lambda>q. findMessages (queue_getMessages ops) q d) (toArchiveQuery req') (responses i a cs)"
      using Cons.prems(5) False by (simp add: req'_def toArchiveQuery_updates chunk_response_def)
    moreover have "request_ok req'" "s_paginationCursor req' \<noteq> Some EmptyWakuMessageHash"
      using Cons.prems(1,3) last_in [OF False] by (auto simp: req'_def request_ok_def)
    ultimately obtain rs where "client_chain (client_query codec net peer) req' (snd (client_query codec net peer req e)) rs"
      "map p_messages rs = map (\<lambda>c. in_order a (map (row_kv i) c)) cs"
      using Cons.IH [of req' "snd (client_query codec net peer req e)"] Cons.prems(3,4) False by auto
    with r False show ?thesis
      by (intro exI [of _ "\<lparr>p_requestId = rid, p_statusCode = 200, p_statusDesc = ''OK'',
        p_messages = in_order a (map (row_kv i) c), p_paginationCursor = Some (fst (last c))\<rparr> # rs"])
        (simp add: req'_def)
  qed
qed simp

definition proper_messages :: "put_args list \<Rightarrow> bool" where
  "proper_messages ps \<longleftrightarrow> list_all (\<lambda>(h, t, m). message_ok m) ps"

lemma pages_full: "0 < n \<Longrightarrow> c \<in> set (butlast (pages n xs)) \<Longrightarrow> c \<noteq> []"
proof (induction n xs rule: pages.induct)
  case (1 n xs)
  from "1.prems" have "\<not> (length xs \<le> n \<or> n = 0)"
    by (subst (asm) pages.simps) (auto split: if_splits)
  moreover from this "1.prems"(2) have "c = take n xs \<or> c \<in> set (butlast (pages n (drop n xs)))"
    by (subst (asm) pages.simps) simp
  ultimately show ?case using "1.IH" by auto
qed

lemma store_pages_complete:
  assumes "sorted_set_sound ops ents" "0 < n"
    and "hashes_determine_times ps" "proper_hashes ps" "proper_messages ps"
    and "queue_run ops ps (queue_new ops (int n)) = Inr d"
    and "codec_roundtrip codec" "serves codec (store_request_handler (queue_getMessages ops) d) net"
    and "request_ok req" "s_paginationCursor req = None"
    and "length (s_contentTopics req) \<le> MaxContentTopicsPerQuery"
    and "asc = direction_into (s_paginationForward req)"
    and "rows = filter (query_matches (toArchiveQuery req))
      (in_order asc (map entry_row (newest n (store_all ps))))"
  shows "\<exists>rs. client_chain (client_query codec net peer) req e rs
    \<and> concat (map (\<lambda>r. in_order asc (p_messages r)) rs) = map (row_kv (s_includeData req)) rows"
proof -
  define q where "q = toArchiveQuery req"
  have q: "q_cursor q = None" "q_contentTopics q = s_contentTopics req" "q_direction q = s_paginationForward req"
    "q_includeData q = s_includeData req"
    using assms(10) by (auto simp: q_def toArchiveQuery_def Let_def split: option.splits)
  define cs where "cs = pages (query_page_size q) rows"
  note v = queue_run_valid [OF assms(1,2,3,6)]
  have chain: "page_chain (\<lambda>q. findMessages (queue_getMessages ops) q d) q
      (responses (s_includeData req) asc cs)"
    using queue.query_pages [OF v(1) q(1) _ proper_contents [of ps ents d, OF assms(4) v(2)]] assms(11)
    by (simp add: cs_def q assms(12,13) v(2) queue_contents_def q_def [symmetric])
  have pos: "0 < query_page_size q"
    by (auto simp: query_page_size_def DefaultPageSize_def MaxPageSize_def)
  have fit: "\<forall>r \<in> set (concat cs). kv_ok (row_kv (s_includeData req) r) \<and> length (fst r) = 32
      \<and> fst r \<noteq> EmptyWakuMessageHash"
  proof
    fix r assume "r \<in> set (concat cs)"
    then have "r \<in> set rows" by (simp add: cs_def del: set_concat)
    then obtain x where "x \<in> set (store_all ps)" "r = entry_row x"
      by (auto simp: assms(13) newest_def dest: in_set_dropD)
    then obtain p where "p \<in> set ps" "r = entry_row (put_entry p)" using store_all_puts by blast
    with assms(4,5) show "kv_ok (row_kv (s_includeData req) r) \<and> length (fst r) = 32
        \<and> fst r \<noteq> EmptyWakuMessageHash"
      by (cases p) (auto simp: proper_hashes_def proper_messages_def list_all_iff entry_row_def put_entry_def
          kv_ok_def row_kv_def)
  qed
  have "\<forall>c \<in> set (butlast cs). c \<noteq> []" using pages_full [OF pos] unfolding cs_def by blast
  from responses_served [OF assms(7,8,9) _ fit this chain [unfolded q_def]] assms(10) obtain rs where
    rs: "client_chain (client_query codec net peer) req e rs"
    "map p_messages rs = map (\<lambda>c. in_order asc (map (row_kv (s_includeData req)) c)) cs" by auto
  have "concat (map (\<lambda>r. in_order asc (p_messages r)) rs) = concat (map (in_order asc) (map p_messages rs))"
    by (simp add: comp_def)
  also have "\<dots> = map (row_kv (s_includeData req)) (concat cs)"
    unfolding rs(2) by (cases asc) (simp_all add: comp_def in_order_def map_concat)
  also have "concat cs = rows" by (simp add: cs_def)
  finally show ?thesis using rs(1) by blast
qed

text \<open>
  C6. A client that queries a serving node for page after page, naming at most ten content topics and
  over an encoding that carries its values, receives exactly the messages the archive of the node
  keeps that match the request, in the order asked for, each once, with their data and topics when it
  asks for them. With more content topics and more than one page the archive answers with a first
  page and its cursor, and refuses that cursor.
\<close>

theorem store_pages_end_to_end:
  assumes "sorted_set_sound ops ents" "0 < n"
    and "hashes_determine_times ps" "proper_hashes ps" "proper_messages ps"
    and "queue_run ops ps (queue_new ops (int n)) = Inr d"
    and "codec_roundtrip codec" "serves codec (store_request_handler (queue_getMessages ops) d) net"
    and "request_ok req" "s_paginationCursor req = None"
    and "asc = direction_into (s_paginationForward req)"
    and "rows = filter (query_matches (toArchiveQuery req))
      (in_order asc (map entry_row (newest n (store_all ps))))"
  shows "if length (s_contentTopics req) \<le> MaxContentTopicsPerQuery
    then \<exists>rs. client_chain (client_query codec net peer) req e rs
      \<and> concat (map (\<lambda>r. in_order asc (p_messages r)) rs) = map (row_kv (s_includeData req)) rows
    else query_page_size (toArchiveQuery req) < length rows \<longrightarrow>
      (\<exists>r c. findMessages (queue_getMessages ops) (toArchiveQuery req) d = Some (Inr r) \<and> r_cursor r = Some c
        \<and> findMessages (queue_getMessages ops) ((toArchiveQuery req)\<lparr>q_cursor := Some c\<rparr>) d
          = Some (Inl (INVALID_QUERY ''too many content topics'')))"
proof (cases "length (s_contentTopics req) \<le> MaxContentTopicsPerQuery")
  case True
  from store_pages_complete [OF assms(1-10) True assms(11,12)] True show ?thesis by simp
next
  case False
  note v = queue_run_valid [OF assms(1,2,3,6)]
  have q: "q_cursor (toArchiveQuery req) = None" "q_contentTopics (toArchiveQuery req) = s_contentTopics req"
    "q_direction (toArchiveQuery req) = s_paginationForward req"
    using assms(10) by (auto simp: toArchiveQuery_def Let_def split: option.splits)
  have h: "list_all (\<lambda>r. length (fst r) = 32 \<and> fst r \<noteq> EmptyWakuMessageHash) (queue_contents ents d)"
    using proper_contents [of ps ents d, OF assms(4) v(2)] by (simp add: list_all_iff)
  have m: "MaxContentTopicsPerQuery < length (q_contentTopics (toArchiveQuery req))" using False by (simp add: q)
  have rows: "rows = filter (query_matches (toArchiveQuery req))
      (in_order (direction_into (q_direction (toArchiveQuery req))) (queue_contents ents d))"
    by (simp add: assms(11,12) q v(2) queue_contents_def)
  from topics_limit_breaks_paging [OF v(1) q(1) m h rows] False show ?thesis by auto
qed

text \<open>An encoding by the values themselves, and a connection straight to a server.\<close>

type_synonym example_buffer = "StoreQueryRequest + StoreQueryResponse"

definition plain_codec :: "example_buffer rpc_codec" where
  "plain_codec =
     \<lparr>enc_request = Inl, dec_request = (\<lambda>b. case b of Inl r \<Rightarrow> Inr r | Inr _ \<Rightarrow> Inl ''not a request''),
      enc_response = Inr, dec_response = (\<lambda>b. case b of Inl _ \<Rightarrow> Inl ''not a response'' | Inr p \<Rightarrow> Inr p)\<rparr>"

definition direct_net :: "request_handler \<Rightarrow> (example_buffer, example_buffer) network" where
  "direct_net handler =
     \<lparr>net_dial = (\<lambda>e. (True, e)), net_write = (\<lambda>b e. (None, b)),
      net_read = (\<lambda>e. (case handleQueryRequest plain_codec handler e of
          Some (Inr (resp, rid)) \<Rightarrow> Inr resp | _ \<Rightarrow> Inl ''no response'', e)),
      net_now = (\<lambda>e. (0, e)), net_id = (\<lambda>e. (''id'', e))\<rparr>"

lemma plain_codec_roundtrip: "codec_roundtrip plain_codec"
  by (simp add: codec_roundtrip_def plain_codec_def)

lemma direct_net_serves: "serves plain_codec handler (direct_net handler)"
  by (simp add: serves_def direct_net_def)

definition example_request :: StoreQueryRequest where
  "example_request = default_request\<lparr>s_includeData := True, s_paginationLimit := Some 2\<rparr>"

theorem store_pages_end_to_end_witness:
  "\<exists>d rs. queue_run list_set_ops [example_put 5 1, example_put 3 2, example_put 4 3]
       (queue_new list_set_ops 10) = Inr d
     \<and> client_chain (client_query plain_codec
         (direct_net (store_request_handler (queue_getMessages list_set_ops) d)) ''peer'')
         example_request (Inl example_request) rs
     \<and> map (map_option timestamp \<circ> kv_message) (concat (map (\<lambda>r. rev (p_messages r)) rs)) = [Some 5, Some 4, Some 3]"
proof -
  define ps where "ps = [example_put 5 1, example_put 3 2, example_put 4 3]"
  define rows where "rows = filter (query_matches (toArchiveQuery example_request))
    (in_order False (map entry_row (newest 10 (store_all ps))))"
  obtain d where d: "queue_run list_set_ops ps (queue_new list_set_ops (int 10)) = Inr d"
    using queue_run_newest [OF list_set_sound, of 10 ps] by auto
  have r: "map (map_option timestamp \<circ> kv_message) (map (row_kv True) rows) = [Some 5, Some 4, Some 3]"
    by (simp add: rows_def ps_def store_all_def newest_def example_simps in_order_def entry_row_def row_kv_def
        query_matches_def row_matches_def example_request_def default_request_def toArchiveQuery_def
        default_query_def Let_def)
  have ps: "hashes_determine_times ps" "proper_hashes ps" "proper_messages ps"
    by (simp_all add: ps_def example_simps hashes_determine_times_def proper_hashes_def
        proper_messages_def message_ok_def is_int64_def zero_hash)
  have req: "request_ok example_request" "s_paginationCursor example_request = None"
    "length (s_contentTopics example_request) \<le> MaxContentTopicsPerQuery"
    "False = direction_into (s_paginationForward example_request)" "s_includeData example_request"
    by (simp_all add: example_request_def default_request_def request_ok_def
        MaxContentTopicsPerQuery_def direction_into_def)
  obtain rs where
    "client_chain (client_query plain_codec
       (direct_net (store_request_handler (queue_getMessages list_set_ops) d)) ''peer'')
       example_request (Inl example_request) rs"
    "concat (map (\<lambda>r. in_order False (p_messages r)) rs) = map (row_kv True) rows"
    using store_pages_end_to_end [OF list_set_sound _ ps d plain_codec_roundtrip direct_net_serves
        req(1,2,4) rows_def] req(3,5) by auto
  with d r show ?thesis
    by (intro exI [of _ d] exI [of _ rs]) (simp add: ps_def in_order_def)
qed

end
