(* ===== verification/Topics.thy ===== *)
theory Topics
  imports Prelude
begin

text \<open>
  Content topics, relay shards and automatic sharding, \<open>waku/waku_core/topics\<close>: the names, their
  rendering and parsing, and the shard of a content topic. SHA-256 and the decimal decoder of the
  byte library are parameters.
\<close>

section \<open>Parsing errors and splitting\<close>

datatype ParsingError = InvalidFormat string | MissingPart string

definition show_parsing_error :: "ParsingError \<Rightarrow> string" where
  "show_parsing_error e =
     (case e of InvalidFormat cause \<Rightarrow> ''invalid format: '' @ cause
      | MissingPart part \<Rightarrow> ''missing part: '' @ part)"

text \<open>\<open>split\<close> of \<open>std/strutils\<close> at a slash.\<close>

fun split_slash :: "string \<Rightarrow> string list" where
  "split_slash [] = [[]]"
| "split_slash (c # cs) =
     (if c = CHR ''/'' then [] # split_slash cs
      else (case split_slash cs of [] \<Rightarrow> [[c]] | p # ps \<Rightarrow> (c # p) # ps))"

lemma split_slash_part: "CHR ''/'' \<notin> set p \<Longrightarrow> split_slash (p @ CHR ''/'' # s) = p # split_slash s"
  by (induction p) auto

lemma split_slash_last: "CHR ''/'' \<notin> set p \<Longrightarrow> split_slash p = [p]"
  by (induction p) auto

section \<open>Content topics\<close>

record NsContentTopic =
  generation :: "int option"
  application :: string
  version :: string
  topic_name :: string
  encoding :: string

definition show_ns :: "NsContentTopic \<Rightarrow> string" where
  "show_ns t =
     (case generation t of None \<Rightarrow> [] | Some g \<Rightarrow> ''/'' @ show_int g)
     @ ''/'' @ application t @ ''/'' @ version t @ ''/'' @ topic_name t @ ''/'' @ encoding t"

definition part :: "string \<Rightarrow> string \<Rightarrow> ParsingError + string" where
  "part what s = (if s = [] then Inl (MissingPart what) else Inr s)"

definition ns_of_parts :: "int option \<Rightarrow> string \<Rightarrow> string \<Rightarrow> string \<Rightarrow> string \<Rightarrow> ParsingError + NsContentTopic" where
  "ns_of_parts gen a v n e =
     rbind (part ''application'' a) (\<lambda>app.
     rbind (part ''version'' v) (\<lambda>ver.
     rbind (part ''topic-name'' n) (\<lambda>name.
     rbind (part ''encoding'' e) (\<lambda>enc.
       Inr \<lparr>generation = gen, application = app, version = ver, topic_name = name, encoding = enc\<rparr>))))"

definition parse_ns :: "string \<Rightarrow> ParsingError + NsContentTopic" where
  "parse_ns topic =
     (if \<not> starts_with ''/'' topic then
        Inl (InvalidFormat (''content-topic '' @ [CHR 0x27] @ topic @ [CHR 0x27] @ '' must start with slash''))
      else
        (case split_slash (drop 1 topic) of
           [a, v, n, e] \<Rightarrow> ns_of_parts None a v n e
         | [g, a, v, n, e] \<Rightarrow>
             if g = [] then Inl (MissingPart ''generation'')
             else (case parseInt g of
                 None \<Rightarrow> Inl (InvalidFormat ''generation should be a numeric value'')
               | Some gen \<Rightarrow> ns_of_parts (Some gen) a v n e)
         | _ \<Rightarrow> Inl (InvalidFormat ''Invalid content topic structure. Expected either /<application>/<version>/<topic-name>/<encoding> or /<gen>/<application>/<version>/<topic-name>/<encoding>'')))"

fun parse_all :: "string list \<Rightarrow> ParsingError + NsContentTopic list" where
  "parse_all [] = Inr []"
| "parse_all (t # ts) = rbind (parse_ns t) (\<lambda>x. rbind (parse_all ts) (\<lambda>xs. Inr (x # xs)))"

section \<open>Relay shards\<close>

record RelayShard =
  clusterId :: "16 word"
  shardId :: "16 word"

definition show_shard :: "RelayShard \<Rightarrow> string" where
  "show_shard t = ''/waku/2/rs/'' @ decimal (unat (clusterId t)) @ ''/'' @ decimal (unat (shardId t))"

text \<open>
  \<open>base10\<close> decodes a number of sixteen bits or gives an error text. The prefix that is tested has
  ten characters, the slice begins after eleven: of a topic of ten characters it would have a
  negative length.
\<close>

definition parseStaticSharding ::
  "(string \<Rightarrow> string + 16 word) \<Rightarrow> string \<Rightarrow> defect + (ParsingError + RelayShard)" where
  "parseStaticSharding base10 topic =
     (if \<not> starts_with ''/waku/2/rs'' topic then Inr (Inl (InvalidFormat ''must start with /waku/2/rs''))
      else if length topic < 11 then Inl RangeDefect
      else Inr (case split_slash (drop 11 topic) of
          [c, s] \<Rightarrow>
            rbind (part ''cluster_id'' c) (\<lambda>clusterPart.
              case base10 clusterPart of Inl e \<Rightarrow> Inl (InvalidFormat e)
              | Inr cluster \<Rightarrow>
                  rbind (part ''shard_number'' s) (\<lambda>shardPart.
                    case base10 shardPart of Inl e \<Rightarrow> Inl (InvalidFormat e)
                    | Inr shard \<Rightarrow> Inr \<lparr>clusterId = cluster, shardId = shard\<rparr>))
        | _ \<Rightarrow> Inl (InvalidFormat ''invalid topic structure'')))"

section \<open>Automatic sharding\<close>

record Sharding =
  cluster :: "16 word"
  shardCountGenZero :: "32 word"

definition be_value :: "byte list \<Rightarrow> nat" where
  "be_value bs = foldl (\<lambda>v b. 256 * v + unat b) 0 bs"

text \<open>The last eight of the 32 bytes of the digest, as a big-endian number.\<close>

definition getGenZeroShard ::
  "(string \<Rightarrow> byte list) \<Rightarrow> Sharding \<Rightarrow> NsContentTopic \<Rightarrow> u64 \<Rightarrow> defect + RelayShard" where
  "getGenZeroShard sha256 s topic count =
     (let hash = sha256 (application topic @ version topic);
          hashValue = word_of_nat (be_value (take 8 (drop 24 hash))) :: u64
      in if count = 0 then Inl DivByZeroDefect
         else Inr \<lparr>clusterId = cluster s, shardId = ucast (hashValue mod count)\<rparr>)"

definition getShard ::
  "(string \<Rightarrow> byte list) \<Rightarrow> Sharding \<Rightarrow> NsContentTopic \<Rightarrow> defect + (string + RelayShard)" where
  "getShard sha256 s topic =
     (if generation topic = None \<or> generation topic = Some 0
      then rbind (getGenZeroShard sha256 s topic (ucast (shardCountGenZero s))) (\<lambda>sh. Inr (Inr sh))
      else Inr (Inl ''Generation > 0 are not supported yet''))"

definition getShard_of ::
  "(string \<Rightarrow> byte list) \<Rightarrow> Sharding \<Rightarrow> string \<Rightarrow> defect + (string + RelayShard)" where
  "getShard_of sha256 s topic =
     (case parse_ns topic of Inl e \<Rightarrow> Inr (Inl (show_parsing_error e))
      | Inr t \<Rightarrow> getShard sha256 s t)"

type_synonym shard_table = "RelayShard \<Rightarrow> NsContentTopic list option"

fun shards_loop ::
  "(string \<Rightarrow> byte list) \<Rightarrow> Sharding \<Rightarrow> NsContentTopic list \<Rightarrow> shard_table \<Rightarrow> defect + (string + shard_table)" where
  "shards_loop sha256 s [] m = Inr (Inr m)"
| "shards_loop sha256 s (t # ts) m =
     rbind (getShard sha256 s t) (\<lambda>r.
       case r of Inl e \<Rightarrow> Inr (Inl (''Cannot deduce shard from content topic: '' @ e))
       | Inr sh \<Rightarrow> shards_loop sha256 s ts
           (m(sh \<mapsto> (case m sh of None \<Rightarrow> [] | Some xs \<Rightarrow> xs) @ [t])))"

definition getShardsFromContentTopics ::
  "(string \<Rightarrow> byte list) \<Rightarrow> Sharding \<Rightarrow> string list \<Rightarrow> defect + (string + shard_table)" where
  "getShardsFromContentTopics sha256 s topics =
     (case parse_all topics of
        Inl e \<Rightarrow> Inr (Inl (''Cannot parse content topic: '' @ show_parsing_error e))
      | Inr ts \<Rightarrow> shards_loop sha256 s ts (\<lambda>_. None))"

section \<open>Round trips\<close>

text \<open>The topics that can be rendered without ambiguity: no part is empty or contains a slash.\<close>

definition well_formed :: "NsContentTopic \<Rightarrow> bool" where
  "well_formed t \<longleftrightarrow>
     list_all (\<lambda>p. p \<noteq> [] \<and> CHR ''/'' \<notin> set p) [application t, version t, topic_name t, encoding t]
   \<and> (case generation t of None \<Rightarrow> True | Some g \<Rightarrow> is_int64 g)"

lemma decimal_no_slash: "CHR ''/'' \<notin> set (decimal n)"
proof (induction n rule: decimal.induct)
  case (1 n)
  have d: "char_of (48 + m) \<noteq> CHR ''/''" if "m < 10" for m :: nat
  proof
    assume "char_of (48 + m) = CHR ''/''"
    then have "is_digit (CHR ''/'')" using is_digit_char [OF that] by simp
    then show False by (simp add: is_digit_def)
  qed
  show ?case
  proof (cases "n < 10")
    case True
    then show ?thesis using d [of n] by (subst decimal.simps) (auto dest: sym)
  next
    case False
    then show ?thesis using 1 d [of "n mod 10"] by (subst decimal.simps) (auto dest: sym)
  qed
qed

lemma show_int_no_slash: "CHR ''/'' \<notin> set (show_int g)"
  by (simp add: show_int_def decimal_no_slash)

lemma show_int_nonempty: "show_int g \<noteq> []"
  by (simp add: show_int_def decimal_digits(2))

lemma split_slash_topic:
  assumes "well_formed t"
  shows "split_slash (application t @ CHR ''/'' # version t @ CHR ''/'' # topic_name t @ CHR ''/'' # encoding t)
    = [application t, version t, topic_name t, encoding t]"
  using assms by (simp add: well_formed_def split_slash_part split_slash_last)

lemma parse_show_ns:
  assumes "well_formed t"
  shows "parse_ns (show_ns t) = Inr t"
proof (cases "generation t")
  case None
  then show ?thesis
    using assms split_slash_topic [OF assms]
    by (simp add: parse_ns_def show_ns_def ns_of_parts_def part_def well_formed_def)
next
  case (Some g)
  then have "parseInt (show_int g) = Some g" using assms by (simp add: well_formed_def parseInt_show_int)
  then show ?thesis
    using assms split_slash_topic [OF assms] Some
    by (simp add: parse_ns_def show_ns_def ns_of_parts_def part_def well_formed_def split_slash_part
      show_int_no_slash show_int_nonempty)
qed

lemma parse_show_shard:
  assumes "\<forall>w. base10 (decimal (unat w)) = Inr w"
  shows "parseStaticSharding base10 (show_shard sh) = Inr (Inr sh)"
  using assms
  by (simp add: decimal_digits(2) parseStaticSharding_def show_shard_def split_slash_part split_slash_last decimal_no_slash part_def)

text \<open>A topic that ends with the prefix ends the program; the character after the prefix is ignored.\<close>

lemma parse_shard_prefix: "parseStaticSharding base10 ''/waku/2/rs'' = Inl RangeDefect"
  by (simp add: parseStaticSharding_def)

lemma parse_shard_alias:
  "parseStaticSharding base10 (''/waku/2/rs'' @ c # s) = parseStaticSharding base10 (''/waku/2/rs/'' @ s)"
  by (simp add: parseStaticSharding_def)

section \<open>Property\<close>

lemma unat_ucast_16: "unat (w :: u64) < 2 ^ 16 \<Longrightarrow> unat (ucast w :: 16 word) = unat w"
  by (simp add: unsigned_ucast_eq take_bit_nat_eq_self)

text \<open>
  C31. A content topic whose parts are neither empty nor contain a slash is parsed from its
  rendering. One of the first generation gets a shard of the node's cluster, below the number of
  shards, that depends on the application and the version only; and the shard is parsed from the
  pubsub topic it renders as.
\<close>

theorem content_topic_shard:
  assumes "well_formed t" and "generation t = None \<or> generation t = Some 0"
    and "\<forall>w. base10 (decimal (unat w)) = Inr w"
    and "0 < unat (shardCountGenZero s)" and "unat (shardCountGenZero s) \<le> 2 ^ 16"
  shows "parse_ns (show_ns t) = Inr t
    \<and> (\<exists>sh. getShard_of sha256 s (show_ns t) = Inr (Inr sh)
      \<and> clusterId sh = cluster s \<and> unat (shardId sh) < unat (shardCountGenZero s)
      \<and> getShard sha256 s (t\<lparr>generation := None, topic_name := n, encoding := e\<rparr>) = Inr (Inr sh)
      \<and> parseStaticSharding base10 (show_shard sh) = Inr (Inr sh))"
proof -
  let ?c = "ucast (shardCountGenZero s) :: u64"
  let ?h = "word_of_nat (be_value (take 8 (drop 24 (sha256 (application t @ version t))))) :: u64"
  let ?sh = "\<lparr>clusterId = cluster s, shardId = ucast (?h mod ?c)\<rparr>"
  have c: "unat ?c = unat (shardCountGenZero s)" by (rule unat_ucast_32)
  then have "?c \<noteq> 0" using assms(4) by (metis unat_0 less_irrefl)
  moreover have m: "unat (?h mod ?c) < unat (shardCountGenZero s)"
    using assms(4) c by (simp add: unat_mod)
  moreover have "unat (ucast (?h mod ?c) :: 16 word) = unat (?h mod ?c)"
    using m assms(5) by (intro unat_ucast_16) linarith
  ultimately show ?thesis
    using parse_show_ns [OF assms(1)] parse_show_shard [OF assms(3), of ?sh] assms(2)
    by (simp add: getShard_of_def getShard_def getGenZeroShard_def Let_def)
qed


text \<open>A decimal decoder for examples.\<close>

definition sample_base10 :: "string \<Rightarrow> string + 16 word" where
  "sample_base10 s = (case parseInt s of None \<Rightarrow> Inl ''not a number''
    | Some i \<Rightarrow> if 0 \<le> i \<and> i < 2 ^ 16 then Inr (word_of_int i) else Inl ''out of range'')"

lemma sample_base10_decimal: "sample_base10 (decimal (unat w)) = Inr w"
proof -
  have "unat w < 2 ^ 16" using unsigned_less [of w, where 'a = nat] by simp
  moreover from this have "parseInt (show_int (int (unat w))) = Some (int (unat w))"
    using unsigned_less [of w, where 'a = int]
    by (intro parseInt_show_int) (auto simp: is_int64_def intro: order_trans [OF _ unsigned_greater_eq])
  moreover have "show_int (int (unat w)) = decimal (unat w)" by (simp add: show_int_def)
  moreover have "uint w < 2 ^ 16" using unsigned_less [of w, where 'a = int] by simp
  ultimately show ?thesis by (simp add: sample_base10_def)
qed

theorem content_topic_shard_witness:
  "\<exists>sh. getShard_of (\<lambda>x. replicate 31 0 @ [13]) \<lparr>cluster = 1, shardCountGenZero = 8\<rparr> ''/0/app/1/name/proto''
      = Inr (Inr sh) \<and> clusterId sh = 1 \<and> unat (shardId sh) < 8"
proof -
  let ?t = "\<lparr>generation = Some 0, application = ''app'', version = ''1'', topic_name = ''name'', encoding = ''proto''\<rparr>"
  have s: "show_ns ?t = ''/0/app/1/name/proto''"
    by (simp add: show_ns_def show_int_def decimal.simps) code_simp
  show ?thesis
    using content_topic_shard [of ?t sample_base10 "\<lparr>cluster = 1, shardCountGenZero = 8\<rparr>"
        "\<lambda>x. replicate 31 0 @ [13]"]
    unfolding s by (auto simp: well_formed_def is_int64_def sample_base10_decimal)
qed

end
