(* ===== verification/EnrSharding.thy ===== *)
theory EnrSharding
  imports Topics
begin

unbundle bit_operations_syntax

text \<open>
  Shards and capabilities in node records, \<open>waku/waku_enr/sharding.nim\<close> and \<open>capabilities.nim\<close>, and
  their update by the discovery service, \<open>updateENRShards\<close> of \<open>waku/discovery/waku_discv5.nim\<close>. The
  records are those of an external library: \<open>record_ops\<close> are the calls made, \<open>record_sound\<close> what is
  documented of them. \<open>base10\<close> decodes numbers of sixteen bits, as in \<open>Topics\<close>.
\<close>

section \<open>Shards of a node\<close>

definition MaxShardIndex :: "16 word" where "MaxShardIndex = 1023"
definition ShardingIndicesListEnrField :: string where "ShardingIndicesListEnrField = ''rs''"
definition ShardingIndicesListMaxLength :: nat where "ShardingIndicesListMaxLength = 64"
definition ShardingBitVectorEnrField :: string where "ShardingBitVectorEnrField = ''rsv''"

record RelayShards =
  rs_clusterId :: "16 word"
  rs_shardIds :: "16 word list"

definition shard_topics :: "RelayShards \<Rightarrow> RelayShard list" where
  "shard_topics rs = map (\<lambda>s. \<lparr>clusterId = rs_clusterId rs, shardId = s\<rparr>) (rs_shardIds rs)"

text \<open>\<open>deduplicate\<close> keeps the first of equal elements.\<close>

fun deduplicate :: "'a list \<Rightarrow> 'a list \<Rightarrow> 'a list" where
  "deduplicate seen [] = []"
| "deduplicate seen (x # xs) =
     (if x \<in> set seen then deduplicate seen xs else x # deduplicate (x # seen) xs)"

definition init_one :: "16 word \<Rightarrow> 16 word \<Rightarrow> string + RelayShards" where
  "init_one cid shard =
     (if MaxShardIndex < shard then Inl ''invalid shard Id''
      else Inr \<lparr>rs_clusterId = cid, rs_shardIds = [shard]\<rparr>)"

definition init_shards :: "16 word \<Rightarrow> 16 word list \<Rightarrow> string + RelayShards" where
  "init_shards cid shardIds =
     (if list_ex (\<lambda>s. MaxShardIndex < s) shardIds then Inl ''invalid shard''
      else if length shardIds < 1 then Inl ''invalid shard count''
      else Inr \<lparr>rs_clusterId = cid, rs_shardIds = deduplicate [] shardIds\<rparr>)"

text \<open>All topics are parsed before the first error is looked for.\<close>

fun parse_topics ::
  "(string \<Rightarrow> string + 16 word) \<Rightarrow> string list \<Rightarrow> defect + (ParsingError + RelayShard) list" where
  "parse_topics base10 [] = Inr []"
| "parse_topics base10 (t # ts) =
     rbind (parseStaticSharding base10 t) (\<lambda>r.
     rbind (parse_topics base10 ts) (\<lambda>rs. Inr (r # rs)))"

fun first_error :: "('e + 'a) list \<Rightarrow> 'e + 'a list" where
  "first_error [] = Inr []"
| "first_error (r # rs) = rbind r (\<lambda>x. rbind (first_error rs) (\<lambda>xs. Inr (x # xs)))"

definition topicsToRelayShards ::
  "(string \<Rightarrow> string + 16 word) \<Rightarrow> string list \<Rightarrow> defect + (string + RelayShards option)" where
  "topicsToRelayShards base10 topics =
     (if topics = [] then Inr (Inr None)
      else
        rbind (parse_topics base10 topics) (\<lambda>parsed. Inr
          (case first_error parsed of
             Inl e \<Rightarrow> Inl (''failed to parse topic: '' @ show_parsing_error e)
           | Inr shards \<Rightarrow>
               (if list_ex (\<lambda>s. clusterId s \<noteq> clusterId (shards ! 0)) shards then
                  Inl ''use shards with the same cluster Id.''
                else
                  rbind (init_shards (clusterId (shards ! 0)) (map shardId shards))
                    (\<lambda>rs. Inr (Some rs))))))"

definition shards_contain :: "RelayShards \<Rightarrow> 16 word \<Rightarrow> 16 word \<Rightarrow> bool" where
  "shards_contain rs cid shard \<longleftrightarrow> rs_clusterId rs = cid \<and> shard \<in> set (rs_shardIds rs)"

definition shards_contain_topic ::
  "(string \<Rightarrow> string + 16 word) \<Rightarrow> RelayShards \<Rightarrow> string \<Rightarrow> defect + bool" where
  "shards_contain_topic base10 rs topic =
     rbind (parseStaticSharding base10 topic) (\<lambda>r. Inr
       (case r of Inl e \<Rightarrow> False | Inr s \<Rightarrow> shards_contain rs (clusterId s) (shardId s)))"

section \<open>The two encodings\<close>

text \<open>Two bytes in network order.\<close>

definition be16 :: "16 word \<Rightarrow> byte list" where
  "be16 w = [ucast (drop_bit 8 w), ucast w]"

definition from_be16 :: "byte list \<Rightarrow> 16 word" where
  "from_be16 bs = push_bit 8 (ucast (bs ! 0)) OR ucast (bs ! 1)"

definition toIndicesList :: "RelayShards \<Rightarrow> string + byte list" where
  "toIndicesList rs =
     (if 255 < length (rs_shardIds rs) then Inl ''shards list too long''
      else Inr (be16 (rs_clusterId rs) @ [word_of_nat (length (rs_shardIds rs))]
             @ concat (map be16 (rs_shardIds rs))))"

text \<open>The loop runs over the pairs of bytes after the first three.\<close>

definition fromIndicesList :: "byte list \<Rightarrow> string + RelayShards" where
  "fromIndicesList buf =
     (if length buf < 3 then
        Inl (''insufficient data: expected at least 3 bytes, got ''
               @ show_int (int (length buf)) @ '' bytes'')
      else
        (let n = unat (buf ! 2) in
         if length buf \<noteq> 3 + 2 * n then
           Inl (''invalid data: `length` field is '' @ show_int (int n) @ '' but ''
                  @ show_int (int (length buf)) @ '' bytes were provided'')
         else Inr \<lparr>rs_clusterId = from_be16 (take 2 buf),
           rs_shardIds = map (\<lambda>i. from_be16 (take 2 (drop (3 + 2 * i) buf))) [0..<n]\<rparr>))"

text \<open>A shard above 1023 indexes beyond the vector.\<close>

definition set_shard :: "byte list \<Rightarrow> 16 word \<Rightarrow> defect + byte list" where
  "set_shard vec s =
     (if unat s div 8 < length vec then
        Inr (vec[unat s div 8 := set_bit (unat s mod 8) (vec ! (unat s div 8))])
      else Inl IndexDefect)"

fun set_shards :: "byte list \<Rightarrow> 16 word list \<Rightarrow> defect + byte list" where
  "set_shards vec [] = Inr vec"
| "set_shards vec (s # ss) = rbind (set_shard vec s) (\<lambda>vec. set_shards vec ss)"

definition toBitVector :: "RelayShards \<Rightarrow> defect + byte list" where
  "toBitVector rs =
     rbind (set_shards (replicate 128 0) (rs_shardIds rs)) (\<lambda>vec. Inr (be16 (rs_clusterId rs) @ vec))"

definition fromBitVector :: "byte list \<Rightarrow> string + RelayShards" where
  "fromBitVector buf =
     (if length buf \<noteq> 130 then Inl ''invalid data: expected 130 bytes''
      else Inr \<lparr>rs_clusterId = from_be16 (take 2 buf),
        rs_shardIds =
          concat (map (\<lambda>i. map (\<lambda>j. word_of_nat (j + 8 * i))
            (filter (\<lambda>j. bit (buf ! (2 + i)) j) [0..<8])) [0..<128])\<rparr>)"

section \<open>Records\<close>

type_synonym field_pair = "string \<times> byte list"

text \<open>
  \<open>rec_typed\<close> checks the identity scheme, \<open>rec_tryGet\<close> reads a field, \<open>rec_update\<close> sets a field and
  signs the record anew, which can fail.
\<close>

record 'r record_ops =
  rec_typed :: "'r \<Rightarrow> string option"
  rec_tryGet :: "'r \<Rightarrow> string \<Rightarrow> byte list option"
  rec_update :: "'r \<Rightarrow> field_pair \<Rightarrow> string + 'r"

text \<open>The field a builder or an update writes for a set of shards.\<close>

definition sharding_field :: "RelayShards \<Rightarrow> defect + (string + field_pair)" where
  "sharding_field rs =
     (if ShardingIndicesListMaxLength \<le> length (rs_shardIds rs) then
        rbind (toBitVector rs) (\<lambda>v. Inr (Inr (ShardingBitVectorEnrField, v)))
      else Inr (rbind (toIndicesList rs) (\<lambda>v. Inr (ShardingIndicesListEnrField, v))))"

definition withWakuRelaySharding ::
  "field_pair list \<Rightarrow> RelayShards \<Rightarrow> defect + (string + field_pair list)" where
  "withWakuRelaySharding builder rs =
     rbind (sharding_field rs) (\<lambda>r. Inr (rbind r (\<lambda>f. Inr (builder @ [f]))))"

definition withShardedTopics ::
  "(string \<Rightarrow> string + 16 word) \<Rightarrow> field_pair list \<Rightarrow> string list \<Rightarrow> defect + (string + field_pair list)"
where
  "withShardedTopics base10 builder topics =
     rbind (topicsToRelayShards base10 topics) (\<lambda>r.
       case r of
         Inl e \<Rightarrow> Inr (Inl (''building ENR with relay sharding failed: '' @ e))
       | Inr None \<Rightarrow> Inr (Inr builder)
       | Inr (Some rs) \<Rightarrow> withWakuRelaySharding builder rs)"

definition sum_option :: "'e + 'a \<Rightarrow> 'a option" where
  "sum_option r = (case r of Inl _ \<Rightarrow> None | Inr x \<Rightarrow> Some x)"

definition relayShardingIndicesList :: "'r record_ops \<Rightarrow> 'r \<Rightarrow> RelayShards option" where
  "relayShardingIndicesList ops r =
     Option.bind (rec_tryGet ops r ShardingIndicesListEnrField) (\<lambda>f. sum_option (fromIndicesList f))"

definition relayShardingBitVector :: "'r record_ops \<Rightarrow> 'r \<Rightarrow> RelayShards option" where
  "relayShardingBitVector ops r =
     Option.bind (rec_tryGet ops r ShardingBitVectorEnrField) (\<lambda>f. sum_option (fromBitVector f))"

definition relaySharding :: "'r record_ops \<Rightarrow> 'r \<Rightarrow> RelayShards option" where
  "relaySharding ops r =
     (case relayShardingIndicesList ops r of
        None \<Rightarrow> relayShardingBitVector ops r
      | Some rs \<Rightarrow> Some rs)"

definition containsShard :: "'r record_ops \<Rightarrow> 'r \<Rightarrow> 16 word \<Rightarrow> 16 word \<Rightarrow> bool" where
  "containsShard ops r cid shard =
     (if MaxShardIndex < shard then False
      else if rec_typed ops r \<noteq> None then False
      else (case relaySharding ops r of None \<Rightarrow> False | Some rs \<Rightarrow> shards_contain rs cid shard))"

definition isClusterMismatched :: "'r record_ops \<Rightarrow> 'r \<Rightarrow> 16 word \<Rightarrow> bool" where
  "isClusterMismatched ops r cid =
     (if rec_typed ops r = None then
        (case relaySharding ops r of None \<Rightarrow> False | Some rs \<Rightarrow> rs_clusterId rs \<noteq> cid)
      else False)"

section \<open>Updating the record of the node\<close>

text \<open>
  The shards after adding or removing some; \<open>seq_of\<close> is the order in which a hash set is listed.
  \<open>None\<close> is the early return that leaves the record alone.
\<close>

definition result_shards ::
  "(16 word set \<Rightarrow> 16 word list) \<Rightarrow> bool \<Rightarrow> RelayShards option \<Rightarrow> RelayShards
     \<Rightarrow> string + RelayShards option" where
  "result_shards seq_of add current new =
     (case current of
        Some cur \<Rightarrow>
          if add then
            (if rs_clusterId cur \<noteq> rs_clusterId new then
               Inl ''ENR update failed: clusterId id mismatch in add''
             else
               (case init_shards (rs_clusterId cur) (rs_shardIds cur @ rs_shardIds new) of
                  Inl e \<Rightarrow> Inl (''ENR update failed RelayShards.init in add: '' @ e)
                | Inr rs \<Rightarrow> Inr (Some rs)))
          else
            (if rs_clusterId cur \<noteq> rs_clusterId new then
               Inl ''ENR update failed: clusterId id mismatch in not add''
             else
               (let indices = seq_of (set (rs_shardIds cur) - set (rs_shardIds new)) in
                if length indices = 0 then Inl ''ENR update failed: cannot remove all shards''
                else
                  (case init_shards (rs_clusterId cur) indices of
                     Inl e \<Rightarrow> Inl (''ENR update failed RelayShards.init in not add: '' @ e)
                   | Inr rs \<Rightarrow> Inr (Some rs))))
      | None \<Rightarrow> Inr (if add then Some new else None))"

definition updateENRShards ::
  "(string \<Rightarrow> string + 16 word) \<Rightarrow> (16 word set \<Rightarrow> 16 word list) \<Rightarrow> 'r record_ops \<Rightarrow> string list \<Rightarrow> bool
     \<Rightarrow> 'r \<Rightarrow> defect + (string + 'r)" where
  "updateENRShards base10 seq_of ops newTopics add r =
     rbind (topicsToRelayShards base10 newTopics) (\<lambda>newShardOp.
       case newShardOp of
         Inl e \<Rightarrow> Inr (Inl (''ENR update failed topicsToRelayShards: '' @ e))
       | Inr None \<Rightarrow> Inr (Inr r)
       | Inr (Some newShard) \<Rightarrow>
           (case rec_typed ops r of
              Some e \<Rightarrow> Inr (Inl (''ENR update failed toTyped: '' @ e))
            | None \<Rightarrow>
                (case result_shards seq_of add (relaySharding ops r) newShard of
                   Inl e \<Rightarrow> Inr (Inl e)
                 | Inr None \<Rightarrow> Inr (Inr r)
                 | Inr (Some resultShard) \<Rightarrow>
                     rbind (sharding_field resultShard) (\<lambda>fld. Inr
                       (case fld of
                          Inl e \<Rightarrow> Inl (''ENR update failed toIndicesList: '' @ e)
                        | Inr f \<Rightarrow>
                            (case rec_update ops r f of
                               Inl e \<Rightarrow> Inl (''ENR update failed updateRecord: '' @ e)
                             | Inr r \<Rightarrow> Inr r))))))"

section \<open>Capabilities\<close>

datatype Capabilities = Relay | Store | Filter | Lightpush | Sync | Mix

definition all_capabilities :: "Capabilities list" where
  "all_capabilities = [Relay, Store, Filter, Lightpush, Sync, Mix]"

fun cap_ord :: "Capabilities \<Rightarrow> nat" where
  "cap_ord Relay = 0" | "cap_ord Store = 1" | "cap_ord Filter = 2"
| "cap_ord Lightpush = 3" | "cap_ord Sync = 4" | "cap_ord Mix = 5"

type_synonym CapabilitiesBitfield = byte

definition bitfield_flags ::
  "bool \<Rightarrow> bool \<Rightarrow> bool \<Rightarrow> bool \<Rightarrow> bool \<Rightarrow> bool \<Rightarrow> CapabilitiesBitfield" where
  "bitfield_flags lightpush filtr store relay sync mix =
     (let b = 0;
          b = (if relay then set_bit 0 b else b);
          b = (if store then set_bit 1 b else b);
          b = (if filtr then set_bit 2 b else b);
          b = (if lightpush then set_bit 3 b else b);
          b = (if sync then set_bit 4 b else b);
          b = (if mix then set_bit 5 b else b)
      in b)"

definition bitfield_caps :: "Capabilities list \<Rightarrow> CapabilitiesBitfield" where
  "bitfield_caps caps = foldl (\<lambda>b c. set_bit (cap_ord c) b) 0 caps"

definition supportsCapability :: "CapabilitiesBitfield \<Rightarrow> Capabilities \<Rightarrow> bool" where
  "supportsCapability b cap = bit b (cap_ord cap)"

definition toCapabilities :: "CapabilitiesBitfield \<Rightarrow> Capabilities list" where
  "toCapabilities b = filter (supportsCapability b) all_capabilities"

definition CapabilitiesEnrField :: string where "CapabilitiesEnrField = ''waku2''"

definition withWakuCapabilities :: "field_pair list \<Rightarrow> CapabilitiesBitfield \<Rightarrow> field_pair list" where
  "withWakuCapabilities builder caps = builder @ [(CapabilitiesEnrField, [caps])]"

definition waku2 :: "'r record_ops \<Rightarrow> 'r \<Rightarrow> CapabilitiesBitfield option" where
  "waku2 ops r =
     (case rec_tryGet ops r CapabilitiesEnrField of
        None \<Rightarrow> None
      | Some f \<Rightarrow> if length f \<noteq> 1 then None else Some (f ! 0))"

definition record_supports :: "'r record_ops \<Rightarrow> 'r \<Rightarrow> Capabilities \<Rightarrow> bool" where
  "record_supports ops r cap =
     (if rec_typed ops r \<noteq> None then False
      else (case waku2 ops r of None \<Rightarrow> False | Some b \<Rightarrow> supportsCapability b cap))"

definition getCapabilities :: "'r record_ops \<Rightarrow> 'r \<Rightarrow> Capabilities list" where
  "getCapabilities ops r =
     (if rec_typed ops r \<noteq> None then []
      else (case waku2 ops r of None \<Rightarrow> [] | Some b \<Rightarrow> toCapabilities b))"

text \<open>The filter of discovered peers: bootstrap nodes, or peers with capabilities and a shard in common.\<close>

definition shardingPredicate ::
  "'r record_ops \<Rightarrow> 'r \<Rightarrow> 'r list \<Rightarrow> ('r \<Rightarrow> bool) option" where
  "shardingPredicate ops own bootnodes =
     (if rec_typed ops own \<noteq> None then None
      else (case relaySharding ops own of
          None \<Rightarrow> None
        | Some nodeShard \<Rightarrow>
            Some (\<lambda>r. r \<in> set bootnodes
              \<or> 0 < length (getCapabilities ops r)
                \<and> list_ex (\<lambda>s. containsShard ops r (rs_clusterId nodeShard) s) (rs_shardIds nodeShard))))"

section \<open>Round trips of the encodings\<close>

lemma length_be16 [simp]: "length (be16 w) = 2"
  by (simp add: be16_def)

lemma from_be16 [simp]: "from_be16 (be16 w) = w"
  by (rule bit_word_eqI) (auto simp: from_be16_def be16_def bit_simps)

lemma length_concat_be16: "length (concat (map be16 ws)) = 2 * length ws"
  by (induction ws) auto

lemma chunk_be16: "i < length ws \<Longrightarrow> take 2 (drop (2 * i) (concat (map be16 ws))) = be16 (ws ! i)"
proof (induction ws arbitrary: i)
  case (Cons w ws)
  show ?case
  proof (cases i)
    case (Suc k)
    have "drop (2 * i) (be16 w @ concat (map be16 ws)) = drop (2 * k) (concat (map be16 ws))"
      by (simp add: Suc)
    with Cons Suc show ?thesis by simp
  qed simp
qed simp

lemma indices_roundtrip:
  assumes "length (rs_shardIds rs) \<le> 255"
  shows "\<exists>v. toIndicesList rs = Inr v \<and> fromIndicesList v = Inr (rs\<lparr>rs_shardIds := rs_shardIds rs\<rparr>)"
proof -
  let ?n = "length (rs_shardIds rs)"
  let ?c = "concat (map be16 (rs_shardIds rs))"
  define v where "v = be16 (rs_clusterId rs) @ [word_of_nat ?n] @ ?c"
  have n: "unat (word_of_nat ?n :: byte) = ?n" using assms by (simp add: unat_byte_of_nat)
  have l: "length v = 3 + 2 * ?n" by (simp add: v_def length_concat_be16)
  have n2: "v ! 2 = word_of_nat ?n" by (simp add: v_def nth_append)
  have d: "drop (3 + 2 * i) v = drop (2 * i) ?c" for i
    by (simp add: v_def)
  have "map (\<lambda>i. from_be16 (take 2 (drop (3 + 2 * i) v))) [0..<?n] = map (\<lambda>i. rs_shardIds rs ! i) [0..<?n]"
    unfolding d by (rule map_cong) (simp_all add: chunk_be16)
  also have "\<dots> = rs_shardIds rs" by (rule map_nth)
  finally have ids: "map (\<lambda>i. from_be16 (take 2 (drop (3 + 2 * i) v))) [0..<?n] = rs_shardIds rs" .
  have "take 2 v = be16 (rs_clusterId rs)" by (simp add: v_def)
  then have "fromIndicesList v = Inr \<lparr>rs_clusterId = rs_clusterId rs, rs_shardIds = rs_shardIds rs\<rparr>"
    unfolding fromIndicesList_def l n2 n Let_def using ids by (simp add: l)
  moreover have "toIndicesList rs = Inr v" using assms by (simp add: toIndicesList_def v_def)
  ultimately show ?thesis by (cases rs) simp
qed

lemma set_shards_bits:
  assumes "\<forall>s \<in> set ss. unat s div 8 < length vec"
  shows "\<exists>vec'. set_shards vec ss = Inr vec' \<and> length vec' = length vec
    \<and> (\<forall>i < length vec. \<forall>j < 8. bit (vec' ! i) j \<longleftrightarrow>
        bit (vec ! i) j \<or> (\<exists>s \<in> set ss. unat s div 8 = i \<and> unat s mod 8 = j))"
  using assms
proof (induction ss arbitrary: vec)
  case (Cons s ss)
  define vec1 where "vec1 = vec[unat s div 8 := set_bit (unat s mod 8) (vec ! (unat s div 8))]"
  have one: "set_shard vec s = Inr vec1" using Cons.prems by (simp add: set_shard_def vec1_def)
  have b: "bit (vec1 ! i) j \<longleftrightarrow> bit (vec ! i) j \<or> unat s div 8 = i \<and> unat s mod 8 = j"
    if "i < length vec" "j < 8" for i j
    using that by (cases "unat s div 8 = i") (auto simp: vec1_def bit_set_bit_iff)
  have "\<forall>s \<in> set ss. unat s div 8 < length vec1" using Cons.prems by (simp add: vec1_def)
  from Cons.IH [OF this] obtain vec' where v: "set_shards vec1 ss = Inr vec'" "length vec' = length vec"
    "\<forall>i < length vec. \<forall>j < 8. bit (vec' ! i) j \<longleftrightarrow>
        bit (vec1 ! i) j \<or> (\<exists>s \<in> set ss. unat s div 8 = i \<and> unat s mod 8 = j)"
    by (auto simp: vec1_def)
  then show ?case using one b by auto
qed simp

lemma shard_index: "s \<le> MaxShardIndex \<longleftrightarrow> unat s < 1024"
  by (simp add: MaxShardIndex_def word_le_nat_alt) linarith

lemma bit_vector_members:
  assumes "length vec = 128"
  shows "set (concat (map (\<lambda>i. map (\<lambda>j. word_of_nat (j + 8 * i) :: 16 word)
      (filter (\<lambda>j. bit (vec ! i) j) [0..<8])) [0..<128]))
    = {s. unat s < 1024 \<and> bit (vec ! (unat s div 8)) (unat s mod 8)}"
proof -
  let ?S = "set (concat (map (\<lambda>i. map (\<lambda>j. word_of_nat (j + 8 * i) :: 16 word)
      (filter (\<lambda>j. bit (vec ! i) j) [0..<8])) [0..<128]))"
  have S: "s \<in> ?S \<longleftrightarrow> (\<exists>i j. i < 128 \<and> j < 8 \<and> bit (vec ! i) j \<and> s = word_of_nat (j + 8 * i))" for s
    by (auto simp del: of_nat_add of_nat_mult)
  have u: "unat (word_of_nat (j + 8 * i) :: 16 word) = j + 8 * i" if "i < 128" "j < 8" for i j
    using that by (simp only: unat_of_nat) (simp add: mod_less del: of_nat_add of_nat_mult)
  show ?thesis
  proof (intro set_eqI iffI)
    fix s assume "s \<in> ?S"
    then show "s \<in> {s. unat s < 1024 \<and> bit (vec ! (unat s div 8)) (unat s mod 8)}"
      unfolding S by (auto simp: u simp del: of_nat_add of_nat_mult)
  next
    fix s :: "16 word"
    assume "s \<in> {s. unat s < 1024 \<and> bit (vec ! (unat s div 8)) (unat s mod 8)}"
    then have "unat s div 8 < 128" "unat s mod 8 < 8" "bit (vec ! (unat s div 8)) (unat s mod 8)"
      "s = word_of_nat (unat s mod 8 + 8 * (unat s div 8))" by auto
    then show "s \<in> ?S" unfolding S by blast
  qed
qed

lemma bit_vector_roundtrip:
  assumes "\<forall>s \<in> set (rs_shardIds rs). s \<le> MaxShardIndex"
  shows "\<exists>v rs'. toBitVector rs = Inr v \<and> fromBitVector v = Inr rs'
    \<and> rs_clusterId rs' = rs_clusterId rs \<and> set (rs_shardIds rs') = set (rs_shardIds rs)"
proof -
  have "\<forall>s \<in> set (rs_shardIds rs). unat s div 8 < length (replicate 128 (0 :: byte))"
    using assms by (auto simp: shard_index)
  from set_shards_bits [OF this] obtain vec where vec: "set_shards (replicate 128 0) (rs_shardIds rs) = Inr vec"
    "length vec = 128" "\<forall>i < 128. \<forall>j < 8. bit (vec ! i) j \<longleftrightarrow>
        (\<exists>s \<in> set (rs_shardIds rs). unat s div 8 = i \<and> unat s mod 8 = j)" by auto
  define v where "v = be16 (rs_clusterId rs) @ vec"
  have nth: "v ! (2 + i) = vec ! i" for i by (simp add: v_def nth_append)
  have "{s. unat s < 1024 \<and> bit (vec ! (unat s div 8)) (unat s mod 8)} = set (rs_shardIds rs)"
  proof (intro set_eqI iffI)
    fix s :: "16 word" assume "s \<in> {s. unat s < 1024 \<and> bit (vec ! (unat s div 8)) (unat s mod 8)}"
    then obtain t where t: "t \<in> set (rs_shardIds rs)" "unat t div 8 = unat s div 8" "unat t mod 8 = unat s mod 8"
      using vec(3) by auto
    then have "unat t = unat s" by (metis div_mult_mod_eq)
    then have "t = s" by (simp add: word_unat_eq_iff)
    then show "s \<in> set (rs_shardIds rs)" using t(1) by simp
  next
    fix s :: "16 word" assume "s \<in> set (rs_shardIds rs)"
    then show "s \<in> {s. unat s < 1024 \<and> bit (vec ! (unat s div 8)) (unat s mod 8)}"
      using assms vec(3) by (auto simp: shard_index less_mult_imp_div_less)
  qed
  then have "set (concat (map (\<lambda>i. map (\<lambda>j. word_of_nat (j + 8 * i) :: 16 word)
      (filter (\<lambda>j. bit (v ! (2 + i)) j) [0..<8])) [0..<128])) = set (rs_shardIds rs)"
    unfolding nth using bit_vector_members [OF vec(2)] by simp
  moreover have "length v = 130" "take 2 v = be16 (rs_clusterId rs)" by (simp_all add: v_def vec(2))
  moreover have "toBitVector rs = Inr v" by (simp add: toBitVector_def vec(1) v_def)
  ultimately show ?thesis unfolding fromBitVector_def by simp
qed

section \<open>Records\<close>

lemma set_deduplicate: "set (deduplicate seen xs) = set xs - set seen"
  by (induction seen xs rule: deduplicate.induct) auto

lemma distinct_deduplicate: "distinct (deduplicate seen xs)"
  by (induction seen xs rule: deduplicate.induct) (auto simp: set_deduplicate)

definition shards_ok :: "RelayShards \<Rightarrow> bool" where
  "shards_ok rs \<longleftrightarrow> (\<forall>s \<in> set (rs_shardIds rs). s \<le> MaxShardIndex) \<and> distinct (rs_shardIds rs)"

lemma init_shards_ok:
  assumes "init_shards c ids = Inr rs"
  shows "shards_ok rs" "rs_clusterId rs = c" "set (rs_shardIds rs) = set ids" "rs_shardIds rs \<noteq> []"
proof -
  have rs: "rs = \<lparr>rs_clusterId = c, rs_shardIds = deduplicate [] ids\<rparr>" "ids \<noteq> []"
    "\<forall>s \<in> set ids. \<not> MaxShardIndex < s"
    using assms by (auto simp: init_shards_def list_ex_iff split: if_splits)
  then show "shards_ok rs" "rs_clusterId rs = c" "set (rs_shardIds rs) = set ids"
    by (auto simp: shards_ok_def set_deduplicate distinct_deduplicate)
  then show "rs_shardIds rs \<noteq> []" using rs(2) by (metis set_empty)
qed

text \<open>What the field of a set of shards is read as.\<close>

lemma sharding_field_read:
  assumes "shards_ok rs"
  shows "\<exists>f rs'. sharding_field rs = Inr (Inr f) \<and> rs_clusterId rs' = rs_clusterId rs
    \<and> set (rs_shardIds rs') = set (rs_shardIds rs)
    \<and> (if length (rs_shardIds rs) < ShardingIndicesListMaxLength
       then fst f = ShardingIndicesListEnrField \<and> fromIndicesList (snd f) = Inr rs'
       else fst f = ShardingBitVectorEnrField \<and> fromBitVector (snd f) = Inr rs')"
proof (cases "length (rs_shardIds rs) < ShardingIndicesListMaxLength")
  case True
  then have "length (rs_shardIds rs) \<le> 255" by (simp add: ShardingIndicesListMaxLength_def)
  from indices_roundtrip [OF this] True show ?thesis by (fastforce simp: sharding_field_def)
next
  case False
  have "\<forall>s \<in> set (rs_shardIds rs). s \<le> MaxShardIndex" using assms by (simp add: shards_ok_def)
  from bit_vector_roundtrip [OF this] False show ?thesis by (fastforce simp: sharding_field_def)
qed

definition record_sound :: "'r record_ops \<Rightarrow> bool" where
  "record_sound ops \<longleftrightarrow>
     (\<forall>r f r'. rec_update ops r f = Inr r' \<longrightarrow>
        rec_typed ops r' = rec_typed ops r \<and> rec_tryGet ops r' (fst f) = Some (snd f)
        \<and> (\<forall>k. k \<noteq> fst f \<longrightarrow> rec_tryGet ops r' k = rec_tryGet ops r k))"

lemma field_names [simp]:
  "ShardingIndicesListEnrField \<noteq> ShardingBitVectorEnrField" "ShardingBitVectorEnrField \<noteq> ShardingIndicesListEnrField"
  by (simp_all add: ShardingIndicesListEnrField_def ShardingBitVectorEnrField_def)

text \<open>
  C10. The shards a node is given for its record are the shards read from the record, in either of the
  two encodings: a record built from valid shards contains exactly those shards of exactly that
  cluster.
\<close>

theorem enr_sharding_roundtrip:
  assumes "init_shards c ids = Inr rs"
  shows "\<exists>pairs. withWakuRelaySharding [] rs = Inr (Inr pairs)
    \<and> (rec_typed ops r = None \<and> rec_tryGet ops r = map_of pairs \<longrightarrow>
        (containsShard ops r c' s \<longleftrightarrow> c' = c \<and> s \<in> set ids)
        \<and> (isClusterMismatched ops r c' \<longleftrightarrow> c' \<noteq> c))"
proof -
  note rs = init_shards_ok [OF assms(1)]
  obtain f rs' where f: "sharding_field rs = Inr (Inr f)" "rs_clusterId rs' = rs_clusterId rs"
    "set (rs_shardIds rs') = set (rs_shardIds rs)"
    "if length (rs_shardIds rs) < ShardingIndicesListMaxLength
       then fst f = ShardingIndicesListEnrField \<and> fromIndicesList (snd f) = Inr rs'
       else fst f = ShardingBitVectorEnrField \<and> fromBitVector (snd f) = Inr rs'"
    using sharding_field_read [OF rs(1)] by blast
  have built: "withWakuRelaySharding [] rs = Inr (Inr [f])"
    using f(1) by (simp add: withWakuRelaySharding_def)
  have "containsShard ops r c' s \<longleftrightarrow> c' = c \<and> s \<in> set ids" "isClusterMismatched ops r c' \<longleftrightarrow> c' \<noteq> c"
    if "rec_typed ops r = None" "rec_tryGet ops r = map_of [f]"
  proof -
    have "relaySharding ops r = Some rs'"
      using f(4) that(2)
      by (cases f) (auto simp: relaySharding_def relayShardingIndicesList_def relayShardingBitVector_def
          sum_option_def split: if_splits)
    moreover have "s \<in> set ids \<Longrightarrow> s \<le> MaxShardIndex"
      using rs(1,3) by (auto simp: shards_ok_def)
    ultimately show "containsShard ops r c' s \<longleftrightarrow> c' = c \<and> s \<in> set ids"
      "isClusterMismatched ops r c' \<longleftrightarrow> c' \<noteq> c"
      using f(2,3) rs(2,3) that(1)
      by (auto simp: containsShard_def isClusterMismatched_def shards_contain_def)
  qed
  with built show ?thesis by (intro exI [of _ "[f]"]) simp
qed

definition map_ops :: "(string \<Rightarrow> byte list option) record_ops" where
  "map_ops = \<lparr>rec_typed = (\<lambda>r. None), rec_tryGet = (\<lambda>r. r),
     rec_update = (\<lambda>r f. Inr (r(fst f \<mapsto> snd f)))\<rparr>"

lemma map_ops_sound: "record_sound map_ops"
  by (simp add: record_sound_def map_ops_def)

theorem enr_sharding_roundtrip_witness:
  "\<exists>rs pairs. init_shards 7 [1, 5, 1] = Inr rs \<and> withWakuRelaySharding [] rs = Inr (Inr pairs)
    \<and> containsShard map_ops (map_of pairs) 7 5 \<and> \<not> containsShard map_ops (map_of pairs) 7 2"
proof -
  have i: "init_shards 7 [1, 5, 1] = Inr \<lparr>rs_clusterId = 7, rs_shardIds = [1, 5]\<rparr>"
    by (simp add: init_shards_def MaxShardIndex_def)
  obtain pairs where p: "withWakuRelaySharding [] \<lparr>rs_clusterId = 7, rs_shardIds = [1, 5]\<rparr> = Inr (Inr pairs)"
    using enr_sharding_roundtrip [OF i, of map_ops Map.empty] by auto
  have "rec_typed map_ops (map_of pairs) = None" "rec_tryGet map_ops (map_of pairs) = map_of pairs"
    by (simp_all add: map_ops_def)
  then have "containsShard map_ops (map_of pairs) 7 5" "\<not> containsShard map_ops (map_of pairs) 7 2"
    using enr_sharding_roundtrip [OF i, of map_ops "map_of pairs" 7 5]
      enr_sharding_roundtrip [OF i, of map_ops "map_of pairs" 7 2] p by auto
  with i p show ?thesis by blast
qed

text \<open>
  Adding shards to the record of the node: while all its shards are fewer than 64 the record
  then has the old and the new ones, but from 64 on the update writes the bit vector beside the list
  of before, which is read first, so the record still has the old shards only.
\<close>

lemma enr_add_shards:
  assumes "record_sound ops" "relayShardingIndicesList ops r = Some cur"
    and "topicsToRelayShards base10 topics = Inr (Inr (Some new))"
    and "updateENRShards base10 seq_of ops topics True r = Inr (Inr r')"
  shows "\<exists>rs'. relaySharding ops r' = Some rs' \<and> rs_clusterId rs' = rs_clusterId cur
    \<and> set (rs_shardIds rs') =
      (if card (set (rs_shardIds cur) \<union> set (rs_shardIds new)) < 64
       then set (rs_shardIds cur) \<union> set (rs_shardIds new) else set (rs_shardIds cur))"
proof -
  have cur: "relaySharding ops r = Some cur" using assms(2) by (simp add: relaySharding_def)
  have typed: "rec_typed ops r = None"
    using assms(3,4) by (auto simp: updateENRShards_def split: option.splits)
  obtain rs where rs: "init_shards (rs_clusterId cur) (rs_shardIds cur @ rs_shardIds new) = Inr rs"
    and upd: "rbind (sharding_field rs) (\<lambda>fld. Inr
        (case fld of Inl e \<Rightarrow> Inl (''ENR update failed toIndicesList: '' @ e)
         | Inr f \<Rightarrow> (case rec_update ops r f of
              Inl e \<Rightarrow> Inl (''ENR update failed updateRecord: '' @ e) | Inr r \<Rightarrow> Inr r))) = Inr (Inr r')"
    using assms(3,4) typed cur
    by (auto simp: updateENRShards_def result_shards_def split: if_splits sum.splits)
  note ok = init_shards_ok [OF rs]
  obtain f rs' where f: "sharding_field rs = Inr (Inr f)" "rs_clusterId rs' = rs_clusterId rs"
    "set (rs_shardIds rs') = set (rs_shardIds rs)"
    "if length (rs_shardIds rs) < ShardingIndicesListMaxLength
       then fst f = ShardingIndicesListEnrField \<and> fromIndicesList (snd f) = Inr rs'
       else fst f = ShardingBitVectorEnrField \<and> fromBitVector (snd f) = Inr rs'"
    using sharding_field_read [OF ok(1)] by blast
  have "rec_update ops r f = Inr r'"
    using upd f(1) by (auto split: sum.splits)
  then have get: "rec_tryGet ops r' (fst f) = Some (snd f)"
    "\<And>k. k \<noteq> fst f \<Longrightarrow> rec_tryGet ops r' k = rec_tryGet ops r k"
    using assms(1) unfolding record_sound_def by blast+
  have len: "length (rs_shardIds rs) = card (set (rs_shardIds cur) \<union> set (rs_shardIds new))"
    using ok(1,3) distinct_card unfolding shards_ok_def by (metis set_append)
  show ?thesis
  proof (cases "length (rs_shardIds rs) < ShardingIndicesListMaxLength")
    case True
    then have "relaySharding ops r' = Some rs'"
      using f(4) get(1) by (simp add: relaySharding_def relayShardingIndicesList_def sum_option_def)
    with True f(2,3) ok(2,3) len show ?thesis by (auto simp: ShardingIndicesListMaxLength_def)
  next
    case False
    then have "relayShardingIndicesList ops r' = Some cur"
      using f(4) get(2) assms(2) by (simp add: relayShardingIndicesList_def)
    with False len show ?thesis
      by (auto simp: relaySharding_def ShardingIndicesListMaxLength_def)
  qed
qed

definition example_base10 :: "string \<Rightarrow> string + 16 word" where
  "example_base10 s = (if s = ''0'' then Inr 0 else if s = ''100'' then Inr 100 else Inl ''not a number'')"

lemma example_topics:
  "topicsToRelayShards example_base10 [''/waku/2/rs/0/100'']
    = Inr (Inr (Some \<lparr>rs_clusterId = 0, rs_shardIds = [100]\<rparr>))"
  by (simp add: topicsToRelayShards_def parseStaticSharding_def part_def example_base10_def
      init_shards_def MaxShardIndex_def)

lemma enr_add_shards_example:
  "\<exists>r r' rs. updateENRShards example_base10 (\<lambda>A. []) map_ops [''/waku/2/rs/0/100''] True r = Inr (Inr r')
     \<and> relaySharding map_ops r' = Some rs \<and> set (rs_shardIds rs) = word_of_nat ` {..<63}"
proof -
  define cur where "cur = \<lparr>rs_clusterId = 0, rs_shardIds = map word_of_nat [0..<63]\<rparr>"
  have "length (rs_shardIds cur) \<le> 255" by (simp add: cur_def)
  from indices_roundtrip [OF this] obtain v where v: "fromIndicesList v = Inr cur" by auto
  define r where "r = [ShardingIndicesListEnrField \<mapsto> v]"
  have cur: "relayShardingIndicesList map_ops r = Some cur"
    by (simp add: relayShardingIndicesList_def map_ops_def r_def sum_option_def v)
  have u: "unat (word_of_nat k :: 16 word) = k" if "k < 1024" for k
    using that by (simp only: unat_of_nat) (simp add: mod_less)
  have ids: "set (rs_shardIds cur) = word_of_nat ` {..<63}"
    by (simp add: cur_def atLeast0LessThan)
  have "inj_on (word_of_nat :: nat \<Rightarrow> 16 word) {..<63}"
  proof (rule inj_onI)
    fix x y assume a: "x \<in> {..<63}" "y \<in> {..<63}" "(word_of_nat x :: 16 word) = word_of_nat y"
    have "unat (word_of_nat x :: 16 word) = x" using a(1) by (intro u) simp
    moreover have "unat (word_of_nat y :: 16 word) = y" using a(2) by (intro u) simp
    ultimately show "x = y" unfolding a(3) by (simp only:)
  qed
  then have "card (set (rs_shardIds cur)) = 63" by (simp add: ids card_image)
  moreover have new: "(100 :: 16 word) \<notin> set (rs_shardIds cur)"
  proof
    assume "(100 :: 16 word) \<in> set (rs_shardIds cur)"
    then obtain k where k: "k < 63" "(100 :: 16 word) = word_of_nat k" by (auto simp: ids)
    have "unat (word_of_nat k :: 16 word) = k" using k(1) by (intro u) simp
    then have "unat (100 :: 16 word) = k" unfolding k(2) .
    with \<open>k < 63\<close> show False by simp
  qed
  ultimately have card: "card (set (rs_shardIds cur) \<union> {100}) = 64" by simp
  have "s \<le> MaxShardIndex" if "s \<in> set (rs_shardIds cur @ [100])" for s
    using that u by (auto simp: ids shard_index)
  then have "\<not> list_ex (\<lambda>s. MaxShardIndex < s) (rs_shardIds cur @ [100])"
    unfolding list_ex_iff by (meson linorder_not_less)
  then obtain rs where rs: "init_shards 0 (rs_shardIds cur @ [100]) = Inr rs"
    by (simp add: init_shards_def del: list_ex_append)
  from sharding_field_read [OF init_shards_ok(1) [OF rs]] obtain f where f: "sharding_field rs = Inr (Inr f)"
    by blast
  have "rs_clusterId cur = 0" by (simp add: cur_def)
  moreover have "relaySharding map_ops r = Some cur" using cur by (simp add: relaySharding_def)
  moreover have "rec_typed map_ops r = None" "rec_update map_ops r f = Inr (r(fst f \<mapsto> snd f))"
    by (simp_all add: map_ops_def)
  ultimately have upd: "updateENRShards example_base10 (\<lambda>A. []) map_ops [''/waku/2/rs/0/100''] True r
      = Inr (Inr (r(fst f \<mapsto> snd f)))"
    using rs f by (simp add: updateENRShards_def example_topics result_shards_def)
  from enr_add_shards [OF map_ops_sound cur example_topics upd] card ids upd show ?thesis
    by auto
qed

section \<open>Capabilities of a record\<close>

lemma cap_ord_inj: "cap_ord c = cap_ord d \<longleftrightarrow> c = d"
  by (cases c; cases d) simp_all

lemma bit_bitfield_caps: "bit (bitfield_caps caps) (cap_ord c) \<longleftrightarrow> c \<in> set caps"
proof -
  have lt: "cap_ord d < 8" for d by (cases d) simp_all
  have "bit (foldl (\<lambda>b c. set_bit (cap_ord c) b) (b :: byte) caps) (cap_ord c) \<longleftrightarrow>
      bit b (cap_ord c) \<or> c \<in> set caps" for b
    by (induction caps arbitrary: b) (auto simp: bit_set_bit_iff cap_ord_inj lt)
  from this [of 0] show ?thesis by (simp add: bitfield_caps_def)
qed

lemma capabilities_roundtrip: "set (toCapabilities (bitfield_caps caps)) = set caps"
proof -
  have "set all_capabilities = UNIV"
    using Capabilities.exhaust by (auto simp: all_capabilities_def)
  then show ?thesis by (auto simp: toCapabilities_def supportsCapability_def bit_bitfield_caps)
qed

lemma record_capabilities:
  assumes "rec_typed ops r = None" "rec_tryGet ops r = map_of (withWakuCapabilities [] (bitfield_caps caps))"
  shows "set (getCapabilities ops r) = set caps" "record_supports ops r c \<longleftrightarrow> c \<in> set caps"
  using assms capabilities_roundtrip
  by (simp_all add: getCapabilities_def record_supports_def waku2_def withWakuCapabilities_def
      supportsCapability_def bit_bitfield_caps)

end
