(* ===== verification/FilterSubscriptions.thy ===== *)
theory FilterSubscriptions
  imports RequestLimiter "HOL-Library.AList"
begin

text \<open>
  The service side of the filter protocol: the table of subscriptions of
  \<open>waku/waku_filter_v2/subscriptions.nim\<close> and the requests of \<open>protocol.nim\<close>, behind the limiter per
  peer. Tables are association lists with distinct keys, sets of peers are sets. The times at which
  an operation reads the clock are arguments.
\<close>

section \<open>Tables\<close>

type_synonym FilterCriterion = "string \<times> string"

text \<open>When the peer was seen last, and its number of criteria.\<close>

type_synonym PeerData = "int \<times> u64"

record 'p FilterSubscriptions =
  peersSubscribed :: "('p \<times> PeerData) list"
  subscriptions :: "(FilterCriterion \<times> 'p set) list"
  subscriptionTimeout :: int
  maxPeers :: u64
  maxCriteriaPerPeer :: u64

definition new_subscriptions :: "int \<Rightarrow> 32 word \<Rightarrow> 32 word \<Rightarrow> 'p FilterSubscriptions" where
  "new_subscriptions t peers criteria =
     \<lparr>peersSubscribed = [], subscriptions = [], subscriptionTimeout = t,
      maxPeers = ucast peers, maxCriteriaPerPeer = ucast criteria\<rparr>"

text \<open>The peer data is held through a pointer, which is dangling once the entry has been deleted.\<close>

datatype filter_fault = DanglingPeerData

definition isSubscribed :: "int \<Rightarrow> 'p FilterSubscriptions \<Rightarrow> 'p \<Rightarrow> bool" where
  "isSubscribed now s p =
     (case map_of (peersSubscribed s) p of None \<Rightarrow> False
      | Some (lastSeen, n) \<Rightarrow> now - lastSeen \<le> subscriptionTimeout s)"

definition peers_of :: "'p FilterSubscriptions \<Rightarrow> FilterCriterion \<Rightarrow> 'p set" where
  "peers_of s c = (case map_of (subscriptions s) c of None \<Rightarrow> {} | Some ps \<Rightarrow> ps)"

definition getPeerSubscriptions :: "'p FilterSubscriptions \<Rightarrow> 'p \<Rightarrow> FilterCriterion list" where
  "getPeerSubscriptions s p =
     (case map_of (peersSubscribed s) p of None \<Rightarrow> []
      | Some (lastSeen, n) \<Rightarrow> if n = 0 then [] else map fst (filter (\<lambda>(c, ps). p \<in> ps) (subscriptions s)))"

definition findSubscribedPeers :: "('p \<Rightarrow> int) \<Rightarrow> 'p FilterSubscriptions \<Rightarrow> string \<Rightarrow> string \<Rightarrow> 'p set" where
  "findSubscribedPeers clock s pubsubTopic contentTopic =
     Set.filter (\<lambda>p. isSubscribed (clock p) s p) (peers_of s (pubsubTopic, contentTopic))"

definition removePeer :: "'p \<Rightarrow> 'p FilterSubscriptions \<Rightarrow> 'p FilterSubscriptions" where
  "removePeer p s = s\<lparr>peersSubscribed := AList.delete p (peersSubscribed s)\<rparr>"

definition removePeers :: "'p list \<Rightarrow> 'p FilterSubscriptions \<Rightarrow> 'p FilterSubscriptions" where
  "removePeers ps s = fold removePeer ps s"

text \<open>The second loop reads the clock for each criterion and peer.\<close>

definition cleanUp ::
  "int \<Rightarrow> (FilterCriterion \<Rightarrow> 'p \<Rightarrow> int) \<Rightarrow> 'p FilterSubscriptions \<Rightarrow> 'p FilterSubscriptions" where
  "cleanUp now clock s =
     (let s = s\<lparr>peersSubscribed := filter (\<lambda>(p, lastSeen, n). now - lastSeen \<le> subscriptionTimeout s)
            (peersSubscribed s)\<rparr>;
          s = s\<lparr>subscriptions := map (\<lambda>(c, ps). (c, Set.filter (\<lambda>p. isSubscribed (clock c p) s p) ps))
            (subscriptions s)\<rparr>
      in s\<lparr>subscriptions := filter (\<lambda>(c, ps). ps \<noteq> {}) (subscriptions s)\<rparr>)"

definition refreshSubscription :: "int \<Rightarrow> 'p \<Rightarrow> 'p FilterSubscriptions \<Rightarrow> 'p FilterSubscriptions" where
  "refreshSubscription now p s =
     s\<lparr>peersSubscribed := AList.map_entry p (\<lambda>(lastSeen, n). (now, n)) (peersSubscribed s)\<rparr>"

definition count_criterion :: "(u64 \<Rightarrow> u64) \<Rightarrow> 'p \<Rightarrow> 'p FilterSubscriptions \<Rightarrow> 'p FilterSubscriptions" where
  "count_criterion f p s =
     s\<lparr>peersSubscribed := AList.map_entry p (\<lambda>(lastSeen, n). (lastSeen, f n)) (peersSubscribed s)\<rparr>"

definition add_criterion :: "'p \<Rightarrow> FilterCriterion \<Rightarrow> 'p FilterSubscriptions \<Rightarrow> 'p FilterSubscriptions" where
  "add_criterion p c s =
     (let ps = peers_of s c
      in if p \<in> ps then s
         else count_criterion (\<lambda>n. n + 1) p
           (s\<lparr>subscriptions := AList.update c (insert p ps) (subscriptions s)\<rparr>))"

definition addSubscription ::
  "int \<Rightarrow> 'p \<Rightarrow> FilterCriterion list \<Rightarrow> 'p FilterSubscriptions \<Rightarrow> (string + unit) \<times> 'p FilterSubscriptions" where
  "addSubscription now p criteria s =
     (case map_of (peersSubscribed s) p of
        Some (lastSeen, n) \<Rightarrow>
          if n + of_nat (length criteria) > maxCriteriaPerPeer s
          then (Inl ''peer has reached maximum number of filter criteria'', s)
          else (Inr (), fold (add_criterion p) criteria (refreshSubscription now p s))
      | None \<Rightarrow>
          if of_nat (length (peersSubscribed s)) \<ge> maxPeers s
          then (Inl (''node has reached maximum number of subscriptions: '' @ show_int (uint (maxPeers s))), s)
          else (Inr (), fold (add_criterion p) criteria
                 (s\<lparr>peersSubscribed := AList.update p (now, 0) (peersSubscribed s)\<rparr>)))"

text \<open>Removing the peer from the set of one criterion it is in.\<close>

definition drop_criterion ::
  "'p \<Rightarrow> FilterCriterion \<Rightarrow> 'p set \<Rightarrow> 'p FilterSubscriptions \<Rightarrow> filter_fault + 'p FilterSubscriptions" where
  "drop_criterion p c ps s =
     (case map_of (peersSubscribed s) p of None \<Rightarrow> Inl DanglingPeerData
      | Some (lastSeen, n) \<Rightarrow>
         let s = count_criterion (\<lambda>n. n - 1) p s;
             ps = ps - {p};
             s = s\<lparr>subscriptions := (if ps = {} then AList.delete c (subscriptions s)
                    else AList.update c ps (subscriptions s))\<rparr>
         in Inr (if n - 1 = 0 then s\<lparr>peersSubscribed := AList.delete p (peersSubscribed s)\<rparr> else s))"

fun drop_criteria ::
  "'p \<Rightarrow> FilterCriterion list \<Rightarrow> 'p FilterSubscriptions
    \<Rightarrow> filter_fault + ((string + unit) \<times> 'p FilterSubscriptions)" where
  "drop_criteria p [] s = Inr (Inr (), s)"
| "drop_criteria p (c # cs) s =
     (case map_of (subscriptions s) c of
        None \<Rightarrow> Inr (Inl ''Peer was not subscribed to criterion'', s)
      | Some ps \<Rightarrow>
          if p \<in> ps then rbind (drop_criterion p c ps s) (drop_criteria p cs)
          else drop_criteria p cs s)"

definition removeSubscription ::
  "int \<Rightarrow> 'p \<Rightarrow> FilterCriterion list \<Rightarrow> 'p FilterSubscriptions
    \<Rightarrow> filter_fault + ((string + unit) \<times> 'p FilterSubscriptions)" where
  "removeSubscription now p criteria s =
     (if map_of (peersSubscribed s) p = None then Inr (Inl ''Peer has no subscriptions'', s)
      else drop_criteria p criteria (refreshSubscription now p s))"

definition setSubscriptionTimeout :: "int \<Rightarrow> 'p FilterSubscriptions \<Rightarrow> 'p FilterSubscriptions" where
  "setSubscriptionTimeout newTimeout s = s\<lparr>subscriptionTimeout := newTimeout\<rparr>"

definition subscribedPeerCount :: "'p FilterSubscriptions \<Rightarrow> u64" where
  "subscribedPeerCount s = of_nat (length (peersSubscribed s))"

section \<open>Requests\<close>

datatype FilterSubscribeType = SUBSCRIBER_PING | SUBSCRIBE | UNSUBSCRIBE | UNSUBSCRIBE_ALL

record FilterSubscribeRequest =
  requestId :: string
  filterSubscribeType :: FilterSubscribeType
  pubsubTopic :: "string option"
  contentTopics :: "string list"

datatype FilterSubscribeErrorKind =
  UNKNOWN | BAD_RESPONSE | BAD_REQUEST | NOT_FOUND | TOO_MANY_REQUESTS | SERVICE_UNAVAILABLE | PEER_DIAL_FAILURE

type_synonym FilterSubscribeResult = "(FilterSubscribeErrorKind \<times> string) + unit"

definition MaxContentTopicsPerRequest :: nat where
  "MaxContentTopicsPerRequest = 100"

definition pingSubscriber ::
  "int \<Rightarrow> int \<Rightarrow> 'p \<Rightarrow> 'p FilterSubscriptions \<Rightarrow> FilterSubscribeResult \<times> 'p FilterSubscriptions" where
  "pingSubscriber now now2 p s =
     (if \<not> isSubscribed now s p then (Inl (NOT_FOUND, ''peer has no subscriptions''), s)
      else (Inr (), refreshSubscription now2 p s))"

text \<open>What both \<open>subscribe\<close> and \<open>unsubscribe\<close> check and build.\<close>

definition request_criteria ::
  "string option \<Rightarrow> string list \<Rightarrow> (FilterSubscribeErrorKind \<times> string) + FilterCriterion list" where
  "request_criteria topic contents =
     (case topic of None \<Rightarrow> Inl (BAD_REQUEST, ''pubsubTopic and contentTopics must be specified'')
      | Some t \<Rightarrow>
         if contents = [] then Inl (BAD_REQUEST, ''pubsubTopic and contentTopics must be specified'')
         else if MaxContentTopicsPerRequest < length contents
         then Inl (BAD_REQUEST, ''exceeds maximum content topics: '' @ show_int (int MaxContentTopicsPerRequest))
         else Inr (remdups (map (Pair t) contents)))"

definition filter_subscribe ::
  "int \<Rightarrow> 'p \<Rightarrow> string option \<Rightarrow> string list \<Rightarrow> 'p FilterSubscriptions
    \<Rightarrow> FilterSubscribeResult \<times> 'p FilterSubscriptions" where
  "filter_subscribe now p topic contents s =
     (case request_criteria topic contents of Inl e \<Rightarrow> (Inl e, s)
      | Inr criteria \<Rightarrow> (case addSubscription now p criteria s of
           (Inl e, s') \<Rightarrow> (Inl (SERVICE_UNAVAILABLE, e), s') | (Inr u, s') \<Rightarrow> (Inr (), s')))"

definition filter_unsubscribe ::
  "int \<Rightarrow> 'p \<Rightarrow> string option \<Rightarrow> string list \<Rightarrow> 'p FilterSubscriptions
    \<Rightarrow> filter_fault + (FilterSubscribeResult \<times> 'p FilterSubscriptions)" where
  "filter_unsubscribe now p topic contents s =
     (case request_criteria topic contents of Inl e \<Rightarrow> Inr (Inl e, s)
      | Inr criteria \<Rightarrow> rbind (removeSubscription now p criteria s) (\<lambda>r. Inr (case r of
           (Inl e, s') \<Rightarrow> (Inl (NOT_FOUND, ''peer has no subscriptions''), s') | (Inr u, s') \<Rightarrow> (Inr (), s'))))"

definition unsubscribeAll ::
  "int \<Rightarrow> int \<Rightarrow> (FilterCriterion \<Rightarrow> 'p \<Rightarrow> int) \<Rightarrow> 'p \<Rightarrow> 'p FilterSubscriptions
    \<Rightarrow> FilterSubscribeResult \<times> 'p FilterSubscriptions" where
  "unsubscribeAll now now2 clock p s =
     (if \<not> isSubscribed now s p then (Inl (NOT_FOUND, ''peer has no subscriptions''), s)
      else (Inr (), cleanUp now2 clock (removePeer p s)))"

text \<open>The readings of the clock a request may take.\<close>

record 'p clock_readings =
  first_reading :: int
  second_reading :: int
  loop_reading :: "FilterCriterion \<Rightarrow> 'p \<Rightarrow> int"

definition handleSubscribeRequest ::
  "'p clock_readings \<Rightarrow> 'p \<Rightarrow> FilterSubscribeRequest \<Rightarrow> 'p FilterSubscriptions
    \<Rightarrow> filter_fault + (FilterSubscribeResult \<times> 'p FilterSubscriptions)" where
  "handleSubscribeRequest t p request s =
     (case filterSubscribeType request of
        SUBSCRIBER_PING \<Rightarrow> Inr (pingSubscriber (first_reading t) (second_reading t) p s)
      | SUBSCRIBE \<Rightarrow> Inr (filter_subscribe (first_reading t) p (pubsubTopic request) (contentTopics request) s)
      | UNSUBSCRIBE \<Rightarrow> filter_unsubscribe (first_reading t) p (pubsubTopic request) (contentTopics request) s
      | UNSUBSCRIBE_ALL \<Rightarrow> Inr (unsubscribeAll (first_reading t) (second_reading t) (loop_reading t) p s))"

section \<open>The protocol\<close>

record ('p, 'b) WakuFilter =
  filter_subs :: "'p FilterSubscriptions"
  peerRequestRateLimiter :: "('p, 'b) PerPeerRateLimiter"

definition WakuFilter_new ::
  "int \<Rightarrow> 32 word \<Rightarrow> 32 word \<Rightarrow> RateLimitSetting option \<Rightarrow> ('p, 'b) WakuFilter" where
  "WakuFilter_new t peers criteria rate =
     \<lparr>filter_subs = new_subscriptions t peers criteria,
      peerRequestRateLimiter = \<lparr>pp_setting = rate, peerBucket = (\<lambda>_. None)\<rparr>\<rparr>"

text \<open>
  The handler of a connection: a peer over its limit is refused, and what cannot be read or decoded
  is dropped.
\<close>

definition filter_handler ::
  "'b bucket_ops \<Rightarrow> int \<Rightarrow> int \<Rightarrow> 'p clock_readings \<Rightarrow> 'p \<Rightarrow> FilterSubscribeRequest option
    \<Rightarrow> ('p, 'b) WakuFilter \<Rightarrow> filter_fault + (FilterSubscribeResult option \<times> ('p, 'b) WakuFilter)" where
  "filter_handler ops start now t p request wk =
     (case checkUsage_peer ops p start now (peerRequestRateLimiter wk) of (ok, l) \<Rightarrow>
        let wk = wk\<lparr>peerRequestRateLimiter := l\<rparr>
        in if ok then
             (case request of None \<Rightarrow> Inr (None, wk)
              | Some req \<Rightarrow> rbind (handleSubscribeRequest t p req (filter_subs wk)) (\<lambda>(r, s).
                  Inr (Some r, wk\<lparr>filter_subs := s\<rparr>)))
           else Inr (Some (Inl (TOO_MANY_REQUESTS, ''filter request rejected due rate limit exceeded'')), wk))"

definition maintainSubscriptions ::
  "('p \<Rightarrow> bool) \<Rightarrow> int \<Rightarrow> (FilterCriterion \<Rightarrow> 'p \<Rightarrow> int) \<Rightarrow> ('p, 'b) WakuFilter \<Rightarrow> ('p, 'b) WakuFilter" where
  "maintainSubscriptions hasPeer now clock wk =
     (let peersToRemove = filter (\<lambda>p. \<not> hasPeer p) (map fst (peersSubscribed (filter_subs wk)));
          wk = (if peersToRemove \<noteq> [] then
              wk\<lparr>filter_subs := removePeers peersToRemove (filter_subs wk),
                 peerRequestRateLimiter := unregister_all peersToRemove (peerRequestRateLimiter wk)\<rparr>
            else wk)
      in wk\<lparr>filter_subs := cleanUp now clock (filter_subs wk)\<rparr>)"

datatype 'p filter_event =
    Handle int int "'p clock_readings" 'p "FilterSubscribeRequest option"
  | Maintain "'p \<Rightarrow> bool" int "FilterCriterion \<Rightarrow> 'p \<Rightarrow> int"

fun filter_step ::
  "'b bucket_ops \<Rightarrow> 'p filter_event \<Rightarrow> ('p, 'b) WakuFilter \<Rightarrow> filter_fault + ('p, 'b) WakuFilter" where
  "filter_step ops (Handle start now t p request) wk =
     rbind (filter_handler ops start now t p request wk) (\<lambda>(r, wk). Inr wk)"
| "filter_step ops (Maintain hasPeer now clock) wk = Inr (maintainSubscriptions hasPeer now clock wk)"

fun filter_run ::
  "'b bucket_ops \<Rightarrow> 'p filter_event list \<Rightarrow> ('p, 'b) WakuFilter \<Rightarrow> filter_fault + ('p, 'b) WakuFilter" where
  "filter_run ops [] wk = Inr wk"
| "filter_run ops (e # es) wk = rbind (filter_step ops e wk) (filter_run ops es)"


section \<open>The invariant\<close>

text \<open>
  \<open>held s p\<close> are the criteria whose set has \<open>p\<close>. The count of a peer is never below their number; it
  can be above it, when the peer's time runs out between the two loops of a clean up.
\<close>

definition held :: "'p FilterSubscriptions \<Rightarrow> 'p \<Rightarrow> FilterCriterion set" where
  "held s p = {c. p \<in> peers_of s c}"

definition known :: "'p FilterSubscriptions \<Rightarrow> 'p \<Rightarrow> bool" where
  "known s p \<longleftrightarrow> map_of (peersSubscribed s) p \<noteq> None"

definition count_of :: "'p FilterSubscriptions \<Rightarrow> 'p \<Rightarrow> u64" where
  "count_of s p = (case map_of (peersSubscribed s) p of None \<Rightarrow> 0 | Some d \<Rightarrow> snd d)"

definition filter_inv :: "('p \<Rightarrow> nat) \<Rightarrow> 'p FilterSubscriptions \<Rightarrow> bool" where
  "filter_inv b s \<longleftrightarrow>
     distinct (map fst (peersSubscribed s)) \<and> distinct (map fst (subscriptions s))
   \<and> {} \<notin> snd ` set (subscriptions s)
   \<and> (\<forall>p. card (held s p) \<le> unat (count_of s p) \<and> unat (count_of s p) \<le> b p)
   \<and> length (peersSubscribed s) \<le> unat (maxPeers s)"

text \<open>The limits never change.\<close>

definition same_limits :: "'p FilterSubscriptions \<Rightarrow> 'p FilterSubscriptions \<Rightarrow> bool" where
  "same_limits s s' \<longleftrightarrow> maxPeers s' = maxPeers s \<and> maxCriteriaPerPeer s' = maxCriteriaPerPeer s
     \<and> subscriptionTimeout s' = subscriptionTimeout s"

lemma same_limits_refl [simp]: "same_limits s s"
  by (simp add: same_limits_def)

lemma same_limits_trans: "same_limits s t \<Longrightarrow> same_limits t u \<Longrightarrow> same_limits s u"
  by (simp add: same_limits_def)

lemma filter_invD:
  assumes "filter_inv b s"
  shows "distinct (map fst (peersSubscribed s))" "distinct (map fst (subscriptions s))"
    "{} \<notin> snd ` set (subscriptions s)"
    "\<And>p. card (held s p) \<le> unat (count_of s p)" "\<And>p. unat (count_of s p) \<le> b p"
    "length (peersSubscribed s) \<le> unat (maxPeers s)"
  using assms unfolding filter_inv_def by blast+

lemma filter_inv_mono: "filter_inv b s \<Longrightarrow> (\<And>p. b p \<le> b' p) \<Longrightarrow> filter_inv b' s"
  unfolding filter_inv_def by (meson order_trans)

lemma finite_held: "finite (held s p)"
proof (rule finite_subset)
  show "held s p \<subseteq> dom (map_of (subscriptions s))"
    by (auto simp: held_def peers_of_def split: option.splits)
qed (simp add: finite_dom_map_of)

text \<open>A peer in a set is in the table.\<close>

lemma filter_inv_known:
  assumes "filter_inv b s" "p \<in> peers_of s c"
  shows "known s p" "0 < unat (count_of s p)"
proof -
  have "c \<in> held s p" using assms(2) by (simp add: held_def)
  then have "held s p \<noteq> {}" by blast
  then have "0 < card (held s p)" using finite_held [of s p] by (simp add: card_gt_0_iff)
  then show "0 < unat (count_of s p)" using filter_invD(4) [OF assms(1), of p] by simp
  then show "known s p" by (cases "map_of (peersSubscribed s) p") (auto simp: count_of_def known_def)
qed

lemma peers_of_update [simp]:
  "peers_of (s\<lparr>subscriptions := AList.update c ps (subscriptions s)\<rparr>) c' = (if c' = c then ps else peers_of s c')"
  by (simp add: peers_of_def update_conv')

lemma peers_of_delete [simp]:
  "peers_of (s\<lparr>subscriptions := AList.delete c (subscriptions s)\<rparr>) c' = (if c' = c then {} else peers_of s c')"
  by (simp add: peers_of_def delete_conv')

lemma table_updates [simp]:
  "peers_of (s\<lparr>peersSubscribed := x\<rparr>) = peers_of s" "held (s\<lparr>peersSubscribed := x\<rparr>) = held s"
  "count_of (s\<lparr>subscriptions := y\<rparr>) = count_of s" "known (s\<lparr>subscriptions := y\<rparr>) = known s"
  by (simp_all add: peers_of_def held_def count_of_def known_def fun_eq_iff)

lemma length_map_entry: "length (AList.map_entry k f xs) = length xs"
  by (induction xs) auto

lemma keys_map_entry: "map fst (AList.map_entry k f xs) = map fst xs"
  by (induction xs) auto

lemma map_of_map_entry:
  "map_of (AList.map_entry k f xs) q = (if q = k then map_option f (map_of xs k) else map_of xs q)"
  by (induction xs) auto

lemma values_update: "snd ` set (AList.update k v xs) \<subseteq> insert v (snd ` set xs)"
  by (induction xs) auto

lemma values_delete: "snd ` set (AList.delete k xs) \<subseteq> snd ` set xs"
  by (induction xs) auto

lemma update_new: "k \<notin> fst ` set xs \<Longrightarrow> AList.update k v xs = xs @ [(k, v)]"
  by (induction xs) auto

lemma count_criterion_fields [simp]:
  "subscriptions (count_criterion f p s) = subscriptions s"
  "same_limits t (count_criterion f p s) = same_limits t s"
  "maxPeers (count_criterion f p s) = maxPeers s"
  "length (peersSubscribed (count_criterion f p s)) = length (peersSubscribed s)"
  "peers_of (count_criterion f p s) = peers_of s" "held (count_criterion f p s) = held s"
  "known (count_criterion f p s) = known s"
  "map fst (peersSubscribed (count_criterion f p s)) = map fst (peersSubscribed s)"
  by (simp_all add: count_criterion_def length_map_entry keys_map_entry same_limits_def known_def
      map_of_map_entry fun_eq_iff)

lemma count_of_count [simp]:
  "count_of (count_criterion f p s) q = (if q = p \<and> known s p then f (count_of s p) else count_of s q)"
  by (cases "map_of (peersSubscribed s) p") (auto simp: count_criterion_def count_of_def known_def map_of_map_entry)

lemma refresh_fields [simp]:
  "subscriptions (refreshSubscription now p s) = subscriptions s"
  "same_limits t (refreshSubscription now p s) = same_limits t s"
  "maxPeers (refreshSubscription now p s) = maxPeers s"
  "length (peersSubscribed (refreshSubscription now p s)) = length (peersSubscribed s)"
  "held (refreshSubscription now p s) = held s" "known (refreshSubscription now p s) = known s"
  "count_of (refreshSubscription now p s) = count_of s"
  by (auto simp: refreshSubscription_def length_map_entry same_limits_def known_def count_of_def
      map_of_map_entry fun_eq_iff split: option.split)

lemma refresh_inv: "filter_inv b s \<Longrightarrow> filter_inv b (refreshSubscription now p s)"
  by (simp add: filter_inv_def) (simp add: refreshSubscription_def AList.distinct_map_entry)

section \<open>Adding criteria\<close>

lemma held_insert:
  "p \<notin> peers_of s c \<Longrightarrow>
    held (s\<lparr>subscriptions := AList.update c (insert p (peers_of s c)) (subscriptions s)\<rparr>) q
      = (if q = p then insert c (held s p) else held s q)"
  by (auto simp: held_def split: if_splits)

lemma add_criterion_limits: "same_limits s (add_criterion p c s) \<and> known (add_criterion p c s) = known s"
  by (simp add: add_criterion_def Let_def) (simp add: same_limits_def)

lemma add_criterion_inv:
  assumes i: "filter_inv b s" and p: "known s p" and b: "b p + 1 < 2 ^ 64"
  shows "filter_inv (b(p := b p + 1)) (add_criterion p c s)"
proof (cases "p \<in> peers_of s c")
  case True
  then show ?thesis using filter_inv_mono [OF i, of "b(p := b p + 1)"] by (simp add: add_criterion_def)
next
  case False
  let ?s = "s\<lparr>subscriptions := AList.update c (insert p (peers_of s c)) (subscriptions s)\<rparr>"
  note d = filter_invD [OF i]
  have a: "add_criterion p c s = count_criterion (\<lambda>n. n + 1) p ?s" using False by (simp add: add_criterion_def)
  have card: "card (held ?s q) = (if q = p then card (held s p) + 1 else card (held s q))" for q
  proof -
    have "c \<notin> held s p" using False by (simp add: held_def)
    then show ?thesis using False finite_held [of s p] by (simp add: held_insert)
  qed
  have u: "unat (count_of s p + 1) = unat (count_of s p) + 1"
    using d(5) [of p] b by (intro unat_Suc) linarith
  have "{} \<notin> snd ` set (AList.update c (insert p (peers_of s c)) (subscriptions s))"
    using d(3) values_update [of c "insert p (peers_of s c)" "subscriptions s"] by blast
  moreover have "distinct (map fst (AList.update c (insert p (peers_of s c)) (subscriptions s)))"
    using d(2) by (rule distinct_update)
  moreover have "card (held ?s q) \<le> unat (count_of (count_criterion (\<lambda>n. n + 1) p ?s) q)
      \<and> unat (count_of (count_criterion (\<lambda>n. n + 1) p ?s) q) \<le> (b(p := b p + 1)) q" for q
    using card [of q] u p d(4,5) [of q] by auto
  ultimately show ?thesis
    unfolding a filter_inv_def using d(1,6) by simp
qed

lemma add_criteria_inv:
  assumes "filter_inv b s" "known s p" "b p + length cs < 2 ^ 64"
  shows "filter_inv (b(p := b p + length cs)) (fold (add_criterion p) cs s)
    \<and> same_limits s (fold (add_criterion p) cs s)"
  using assms
proof (induction cs arbitrary: b s)
  case (Cons c cs)
  have "filter_inv ((b(p := b p + 1))(p := (b(p := b p + 1)) p + length cs))
        (fold (add_criterion p) cs (add_criterion p c s))
      \<and> same_limits (add_criterion p c s) (fold (add_criterion p) cs (add_criterion p c s))"
  proof (rule Cons.IH)
    show "filter_inv (b(p := b p + 1)) (add_criterion p c s)"
      using add_criterion_inv [OF Cons.prems(1,2), of c] Cons.prems(3) by simp
    show "known (add_criterion p c s) p" using add_criterion_limits [of s p c] Cons.prems(2) by simp
    show "(b(p := b p + 1)) p + length cs < 2 ^ 64" using Cons.prems(3) by simp
  qed
  moreover have "(b(p := b p + 1))(p := (b(p := b p + 1)) p + length cs) = b(p := b p + length (c # cs))"
    by (rule ext) simp
  ultimately show ?case
    using same_limits_trans [of s "add_criterion p c s"] add_criterion_limits [of s p c]
    by (simp only: fold_simps o_apply)
qed simp

text \<open>The bound on the criteria of a peer: the limit, or what one request may ask for.\<close>

definition criteria_bound :: "'p FilterSubscriptions \<Rightarrow> nat" where
  "criteria_bound s = max (unat (maxCriteriaPerPeer s)) MaxContentTopicsPerRequest"

definition filter_ok :: "'p FilterSubscriptions \<Rightarrow> bool" where
  "filter_ok s \<longleftrightarrow> filter_inv (\<lambda>_. criteria_bound s) s \<and> maxCriteriaPerPeer s < 2 ^ 32"

lemma same_limits_ok: "same_limits s s' \<Longrightarrow> filter_ok s \<Longrightarrow> filter_inv (\<lambda>_. criteria_bound s) s' \<Longrightarrow> filter_ok s'"
  by (simp add: same_limits_def filter_ok_def criteria_bound_def)

lemma addSubscription_ok:
  assumes s: "filter_ok s" and l: "length cs \<le> MaxContentTopicsPerRequest"
    and a: "addSubscription now p cs s = (r, s')"
  shows "filter_ok s' \<and> same_limits s s'"
proof -
  have i: "filter_inv (\<lambda>_. criteria_bound s) s" and m: "unat (maxCriteriaPerPeer s) < 2 ^ 32"
    using s by (simp_all add: filter_ok_def word_less_nat_alt)
  have l': "length cs \<le> 100" "length cs \<le> criteria_bound s" "criteria_bound s < 2 ^ 33"
    using l m by (simp_all add: MaxContentTopicsPerRequest_def criteria_bound_def)
  have *: "filter_ok (fold (add_criterion p) cs t) \<and> same_limits s (fold (add_criterion p) cs t)"
    if t: "filter_inv ((\<lambda>_. criteria_bound s)(p := k)) t" "known t p" "same_limits s t"
      and k: "k + length cs \<le> criteria_bound s" for t k
  proof -
    have "filter_inv (\<lambda>_. criteria_bound s) (fold (add_criterion p) cs t)"
      using add_criteria_inv [OF t(1,2), of cs] k l'(3)
      by (auto intro: filter_inv_mono)
    then show ?thesis
      using add_criteria_inv [OF t(1,2), of cs] k l'(3) same_limits_trans [OF t(3)] same_limits_ok [OF _ s]
      by auto
  qed
  show ?thesis
  proof (cases "map_of (peersSubscribed s) p")
    case None
    show ?thesis
    proof (cases "of_nat (length (peersSubscribed s)) \<ge> maxPeers s")
      case True
      then show ?thesis using None a s by (simp add: addSubscription_def)
    next
      case False
      let ?t = "s\<lparr>peersSubscribed := AList.update p (now, 0) (peersSubscribed s)\<rparr>"
      note d = filter_invD [OF i]
      have n: "p \<notin> fst ` set (peersSubscribed s)" using None by (simp add: map_of_eq_None_iff)
      have lt: "length (peersSubscribed s) < unat (maxPeers s)"
        using False d(6) unat_u64_less [of "maxPeers s"]
        by (simp add: word_le_nat_alt not_le unat_of_nat)
      have c: "count_of ?t q = (if q = p then 0 else count_of s q)" for q
        by (simp add: count_of_def update_conv')
      have z: "count_of s p = 0" using None by (simp add: count_of_def)
      have "filter_inv ((\<lambda>_. criteria_bound s)(p := 0)) ?t"
        unfolding filter_inv_def using d lt z n c
          d(4) [of p] by (auto simp: update_new)
      moreover have "known ?t p" by (simp add: known_def update_conv')
      ultimately show ?thesis
        using *[of 0 ?t] l'(2) None False a by (simp add: addSubscription_def same_limits_def)
    qed
  next
    case (Some d)
    obtain seen n where d: "d = (seen, n)" by (cases d)
    show ?thesis
    proof (cases "n + of_nat (length cs) > maxCriteriaPerPeer s")
      case True
      then show ?thesis using Some d a s by (simp add: addSubscription_def)
    next
      case False
      have n: "count_of s p = n" using Some d by (simp add: count_of_def)
      have nb: "unat n \<le> criteria_bound s" using filter_invD(5) [OF i, of p] n by simp
      have "unat (n + of_nat (length cs)) = unat n + length cs"
        using nb l' by (simp add: unat_word_ariths unat_of_nat)
      then have "unat n + length cs \<le> criteria_bound s"
        using False by (simp add: word_le_nat_alt not_less criteria_bound_def)
      moreover have "filter_inv ((\<lambda>_. criteria_bound s)(p := unat n)) (refreshSubscription now p s)"
        using refresh_inv [OF i, of now p] n by (auto simp: filter_inv_def)
      ultimately show ?thesis
        using *[of "unat n" "refreshSubscription now p s"] False Some d a
        by (simp add: addSubscription_def known_def)
    qed
  qed
qed

section \<open>Removing criteria\<close>

lemma drop_criterion_ok:
  assumes s: "filter_ok s" and c: "map_of (subscriptions s) c = Some ps" "p \<in> ps"
  shows "\<exists>s'. drop_criterion p c ps s = Inr s' \<and> filter_ok s' \<and> same_limits s s'"
proof -
  have i: "filter_inv (\<lambda>_. criteria_bound s) s" using s by (simp add: filter_ok_def)
  note d = filter_invD [OF i]
  have p: "p \<in> peers_of s c" using c by (simp add: peers_of_def)
  note kn = filter_inv_known [OF i p]
  obtain seen n where n: "map_of (peersSubscribed s) p = Some (seen, n)"
    using kn(1) by (auto simp: known_def)
  have cn: "count_of s p = n" using n by (simp add: count_of_def)
  have un: "unat (n - 1) = unat n - 1" using kn(2) cn by (simp add: unat_minus_one word_neq_0_conv unat_gt_0)
  let ?ps = "ps - {p}"
  let ?subs = "if ?ps = {} then AList.delete c (subscriptions s) else AList.update c ?ps (subscriptions s)"
  let ?t = "(count_criterion (\<lambda>n. n - 1) p s)\<lparr>subscriptions := ?subs\<rparr>"
  have peers: "peers_of ?t c' = (if c' = c then ?ps else peers_of s c')" for c'
    by (auto simp: peers_of_def update_conv' delete_conv')
  have held: "held ?t q = (if q = p then held s p - {c} else held s q)" for q
    unfolding held_def peers using c by (auto simp: peers_of_def)
  have card: "card (held ?t p) = card (held s p) - 1"
  proof -
    have "c \<in> held s p" using p by (simp add: held_def)
    then show ?thesis unfolding held by simp
  qed
  have cnt: "count_of ?t q = (if q = p then n - 1 else count_of s q)" for q
    using kn(1) cn by simp
  have subs: "distinct (map fst ?subs)" using d(2) by (simp add: distinct_delete distinct_update)
  have nonempty: "{} \<notin> snd ` set ?subs"
  proof (cases "?ps = {}")
    case True
    have "{} \<notin> snd ` set (AList.delete c (subscriptions s))"
      using d(3) values_delete [of c "subscriptions s"] by blast
    then show ?thesis unfolding if_P [OF True] .
  next
    case False
    then have "{} \<notin> snd ` set (AList.update c ?ps (subscriptions s))"
      using d(3) values_update [of c ?ps "subscriptions s"] by blast
    then show ?thesis unfolding if_not_P [OF False] .
  qed
  have b: "card (held ?t q) \<le> unat (count_of ?t q) \<and> unat (count_of ?t q) \<le> criteria_bound s" for q
  proof (cases "q = p")
    case True
    have "card (held s p) \<le> unat n" "unat n \<le> criteria_bound s" using d(4,5) [of p] cn by simp_all
    then show ?thesis unfolding True card cnt using un by auto
  next
    case False
    then show ?thesis using d(4,5) [of q] unfolding held cnt by simp
  qed
  have t: "filter_inv (\<lambda>_. criteria_bound s) ?t"
    unfolding filter_inv_def using d(1,6) subs nonempty b by simp
  let ?u = "?t\<lparr>peersSubscribed := AList.delete p (peersSubscribed ?t)\<rparr>"
  have "filter_inv (\<lambda>_. criteria_bound s) ?u" if "n - 1 = 0"
  proof -
    have cu: "count_of ?u q = count_of ?t q" for q
      using cnt [of p] that by (auto simp: count_of_def delete_conv' split: option.splits)
    show ?thesis
      using filter_invD [OF t] length_delete_le [of p "peersSubscribed ?t"] b cu unfolding filter_inv_def
      by (simp add: distinct_delete)
  qed
  moreover have "same_limits s ?t" "same_limits s ?u" by (simp_all add: same_limits_def count_criterion_def)
  moreover have "drop_criterion p c ps s = Inr (if n - 1 = 0 then ?u else ?t)"
    using n by (simp add: drop_criterion_def Let_def)
  ultimately show ?thesis using t same_limits_ok [OF _ s] by auto
qed

lemma drop_criteria_ok:
  "filter_ok s \<Longrightarrow> \<exists>r s'. drop_criteria p cs s = Inr (r, s') \<and> filter_ok s' \<and> same_limits s s'"
proof (induction cs arbitrary: s)
  case (Cons c cs)
  show ?case
  proof (cases "map_of (subscriptions s) c")
    case None
    then show ?thesis using Cons.prems by simp
  next
    case (Some ps)
    show ?thesis
    proof (cases "p \<in> ps")
      case True
      from drop_criterion_ok [OF Cons.prems Some True] obtain t where
        t: "drop_criterion p c ps s = Inr t" "filter_ok t" "same_limits s t" by blast
      from Cons.IH [OF t(2)] t Some True show ?thesis using same_limits_trans by fastforce
    next
      case False
      then show ?thesis using Cons Some by simp
    qed
  qed
qed simp

lemma refresh_ok: "filter_ok s \<Longrightarrow> filter_ok (refreshSubscription now p s) \<and> same_limits s (refreshSubscription now p s)"
  using refresh_inv [of _ s now p] same_limits_ok [of s "refreshSubscription now p s"]
  by (simp add: filter_ok_def)

lemma removeSubscription_ok:
  assumes "filter_ok s"
  shows "\<exists>r s'. removeSubscription now p cs s = Inr (r, s') \<and> filter_ok s' \<and> same_limits s s'"
  using assms drop_criteria_ok [of "refreshSubscription now p s" p cs] refresh_ok [OF assms, of now p]
    same_limits_trans [of s "refreshSubscription now p s"]
  by (auto simp: removeSubscription_def)

section \<open>Removing peers and cleaning up\<close>

text \<open>The two together: what is left in the sets is in the table.\<close>

definition cleaned :: "int \<Rightarrow> (FilterCriterion \<Rightarrow> 'p \<Rightarrow> int) \<Rightarrow> 'p list \<Rightarrow> 'p FilterSubscriptions \<Rightarrow> 'p FilterSubscriptions" where
  "cleaned now clock ps s = cleanUp now clock (removePeers ps s)"

lemma removePeers_eq: "removePeers ps s = s\<lparr>peersSubscribed := fold AList.delete ps (peersSubscribed s)\<rparr>"
  unfolding removePeers_def by (induction ps arbitrary: s) (simp_all add: removePeer_def)

lemma removePeers_fields [simp]:
  "subscriptions (removePeers ps s) = subscriptions s" "same_limits t (removePeers ps s) = same_limits t s"
  "maxPeers (removePeers ps s) = maxPeers s"
  by (simp_all add: removePeers_eq same_limits_def)

lemma fold_delete:
  "distinct (map fst xs) \<Longrightarrow> distinct (map fst (fold AList.delete ps xs))
    \<and> set (fold AList.delete ps xs) \<subseteq> set xs \<and> length (fold AList.delete ps xs) \<le> length xs"
proof (induction ps arbitrary: xs)
  case (Cons p ps)
  have "set (AList.delete p xs) \<subseteq> set xs" by (induction xs) auto
  then show ?case
    using Cons.IH [OF distinct_delete [OF Cons.prems], of p] length_delete_le [of p xs]
    by (auto intro: order_trans)
qed simp

lemma removePeers_table:
  "distinct (map fst (peersSubscribed s)) \<Longrightarrow>
    distinct (map fst (peersSubscribed (removePeers ps s)))
    \<and> set (peersSubscribed (removePeers ps s)) \<subseteq> set (peersSubscribed s)
    \<and> length (peersSubscribed (removePeers ps s)) \<le> length (peersSubscribed s)"
  using fold_delete by (simp add: removePeers_eq)

lemma distinct_filter_keys: "distinct (map fst xs) \<Longrightarrow> distinct (map fst (filter P xs))"
  by (simp add: distinct_map_filter)

lemma map_of_filter_values:
  "distinct (map fst xs) \<Longrightarrow> map_of (filter (\<lambda>(c, v). P v) (map (\<lambda>(c, v). (c, f c v)) xs)) c
    = (case map_of xs c of None \<Rightarrow> None | Some v \<Rightarrow> if P (f c v) then Some (f c v) else None)"
proof (induction xs)
  case (Cons x xs)
  obtain c' v where x: "x = (c', v)" by (cases x)
  show ?case
  proof (cases "c = c'")
    case True
    have "map_of xs c = None" using Cons.prems x True by (simp add: map_of_eq_None_iff)
    then show ?thesis using Cons x True by simp
  qed (use Cons x in simp)
qed simp

lemma isSubscribed_known: "isSubscribed t s p \<Longrightarrow> known s p"
  by (cases "map_of (peersSubscribed s) p") (auto simp: isSubscribed_def known_def)

lemma cleaned_ok:
  assumes s: "filter_ok s"
  shows "filter_ok (cleaned now clock ps s) \<and> same_limits s (cleaned now clock ps s)"
proof -
  have i: "filter_inv (\<lambda>_. criteria_bound s) s" using s by (simp add: filter_ok_def)
  note d = filter_invD [OF i]
  let ?r = "removePeers ps s"
  let ?t = "?r\<lparr>peersSubscribed := filter (\<lambda>(p, lastSeen, n). now - lastSeen \<le> subscriptionTimeout ?r) (peersSubscribed ?r)\<rparr>"
  let ?subs = "filter (\<lambda>(c, ps). ps \<noteq> {})
    (map (\<lambda>(c, ps). (c, Set.filter (\<lambda>p. isSubscribed (clock c p) ?t p) ps)) (subscriptions s))"
  let ?u = "?t\<lparr>subscriptions := ?subs\<rparr>"
  have u: "cleaned now clock ps s = ?u" by (simp add: cleaned_def cleanUp_def Let_def)
  have l: "same_limits s ?u" using removePeers_fields(2) [of s ps s] by (simp add: same_limits_def)
  note r = removePeers_table [OF d(1), of ps]
  have tab: "distinct (map fst (peersSubscribed ?t))" "length (peersSubscribed ?t) \<le> length (peersSubscribed s)"
    "set (peersSubscribed ?t) \<subseteq> set (peersSubscribed s)"
    using r order_trans [OF length_filter_le] by (auto intro: distinct_filter_keys)
  have cnt: "count_of ?t q = (if known ?t q then count_of s q else 0)" for q
  proof (cases "map_of (peersSubscribed ?t) q")
    case (Some x)
    have "(q, x) \<in> set (peersSubscribed s)" using tab(3) map_of_SomeD [OF Some] by blast
    then have "map_of (peersSubscribed s) q = Some x" using d(1) by (simp add: map_of_is_SomeI)
    then show ?thesis using Some by (simp add: count_of_def known_def)
  qed (simp add: count_of_def known_def)
  have peers: "peers_of ?u c = {p \<in> peers_of s c. isSubscribed (clock c p) ?t p}" for c
    by (auto simp: peers_of_def map_of_filter_values [OF d(2)] split: option.splits if_splits)
  have held: "held ?u q \<subseteq> held s q" for q unfolding held_def peers by blast
  have unknown: "held ?u q = {}" if "\<not> known ?t q" for q
  proof -
    have "\<not> isSubscribed x ?t q" for x using that by (rule contrapos_nn) (rule isSubscribed_known)
    then show ?thesis unfolding held_def peers by simp
  qed
  have "card (held ?u q) \<le> unat (count_of ?u q) \<and> unat (count_of ?u q) \<le> criteria_bound s" for q
    using card_mono [OF finite_held held, of q] d(4,5) [of q] unknown [of q] cnt [of q] by auto
  moreover have "distinct (map fst ?subs)"
    using d(2) by (intro distinct_filter_keys) (simp add: o_def case_prod_beta)
  moreover have "{} \<notin> snd ` set ?subs" by auto
  moreover have "length (peersSubscribed ?t) \<le> unat (maxPeers s)" using tab(2) d(6) by simp
  ultimately have "filter_inv (\<lambda>_. criteria_bound s) ?u"
    unfolding filter_inv_def using tab(1) by simp
  then show ?thesis using same_limits_ok [OF l s] l unfolding u by blast
qed

lemma cleanUp_ok: "filter_ok s \<Longrightarrow> filter_ok (cleanUp now clock s) \<and> same_limits s (cleanUp now clock s)"
  using cleaned_ok [of s now clock "[]"] by (simp add: cleaned_def removePeers_def)

section \<open>Requests keep the invariant\<close>

lemma request_criteria_length:
  "request_criteria t cs = Inr xs \<Longrightarrow> length xs \<le> MaxContentTopicsPerRequest"
  using length_remdups_leq [of "map (Pair (the t)) cs"]
  by (auto simp: request_criteria_def split: option.splits if_splits)

lemma handle_ok:
  assumes s: "filter_ok s"
  shows "\<exists>r s'. handleSubscribeRequest t p req s = Inr (r, s') \<and> filter_ok s' \<and> same_limits s s'"
proof (cases "filterSubscribeType req")
  case SUBSCRIBER_PING
  then show ?thesis using s refresh_ok [OF s] by (auto simp: handleSubscribeRequest_def pingSubscriber_def)
next
  case SUBSCRIBE
  show ?thesis
  proof (cases "request_criteria (pubsubTopic req) (contentTopics req)")
    case (Inl e)
    then show ?thesis using SUBSCRIBE s by (simp add: handleSubscribeRequest_def filter_subscribe_def)
  next
    case (Inr xs)
    obtain r s' where a: "addSubscription (first_reading t) p xs s = (r, s')" by fastforce
    from addSubscription_ok [OF s request_criteria_length [OF Inr] a] SUBSCRIBE Inr a show ?thesis
      by (cases r) (simp_all add: handleSubscribeRequest_def filter_subscribe_def)
  qed
next
  case UNSUBSCRIBE
  show ?thesis
  proof (cases "request_criteria (pubsubTopic req) (contentTopics req)")
    case (Inl e)
    then show ?thesis using UNSUBSCRIBE s by (simp add: handleSubscribeRequest_def filter_unsubscribe_def)
  next
    case (Inr xs)
    obtain r s' where a: "removeSubscription (first_reading t) p xs s = Inr (r, s')" "filter_ok s'" "same_limits s s'"
      using removeSubscription_ok [OF s] by blast
    with UNSUBSCRIBE Inr show ?thesis
      by (cases r) (simp_all add: handleSubscribeRequest_def filter_unsubscribe_def)
  qed
next
  case UNSUBSCRIBE_ALL
  have "removePeer p s = removePeers [p] s" by (simp add: removePeers_def)
  then have "filter_ok (cleanUp n f (removePeer p s)) \<and> same_limits s (cleanUp n f (removePeer p s))" for n f
    using cleaned_ok [OF s, of n f "[p]"] by (simp add: cleaned_def)
  then show ?thesis using UNSUBSCRIBE_ALL s by (simp add: handleSubscribeRequest_def unsubscribeAll_def)
qed

lemma maintain_ok:
  assumes "filter_ok (filter_subs w)"
  shows "filter_ok (filter_subs (maintainSubscriptions hasPeer now clock w))
    \<and> same_limits (filter_subs w) (filter_subs (maintainSubscriptions hasPeer now clock w))"
  using cleaned_ok [OF assms] cleanUp_ok [OF assms]
  by (simp add: maintainSubscriptions_def Let_def cleaned_def)

lemma same_limits_criteria:
  "same_limits s s' \<Longrightarrow> criteria_bound s' = criteria_bound s \<and> maxPeers s' = maxPeers s"
  by (simp add: same_limits_def criteria_bound_def)

lemma filter_step_ok:
  assumes "filter_ok (filter_subs w)"
  shows "\<exists>w'. filter_step ops e w = Inr w' \<and> filter_ok (filter_subs w') \<and> same_limits (filter_subs w) (filter_subs w')"
proof (cases e)
  case (Handle start now t p request)
  obtain ok l where l: "checkUsage_peer ops p start now (peerRequestRateLimiter w) = (ok, l)" by fastforce
  show ?thesis
  proof (cases request)
    case None
    then show ?thesis using Handle l assms by (simp add: filter_handler_def Let_def)
  next
    case (Some req)
    obtain r s' where "handleSubscribeRequest t p req (filter_subs w) = Inr (r, s')" "filter_ok s'" "same_limits (filter_subs w) s'"
      using handle_ok [OF assms] by blast
    then show ?thesis using Handle l Some assms by (simp add: filter_handler_def Let_def)
  qed
next
  case (Maintain hasPeer now clock)
  then show ?thesis using maintain_ok [OF assms] by simp
qed

lemma filter_run_ok:
  "filter_ok (filter_subs w) \<Longrightarrow>
    \<exists>w'. filter_run ops es w = Inr w' \<and> filter_ok (filter_subs w') \<and> same_limits (filter_subs w) (filter_subs w')"
proof (induction es arbitrary: w)
  case (Cons e es)
  from filter_step_ok [OF Cons.prems, of ops e] obtain w1 where w1: "filter_step ops e w = Inr w1"
    "filter_ok (filter_subs w1)" "same_limits (filter_subs w) (filter_subs w1)"
    by blast
  from Cons.IH [OF w1(2)] w1 same_limits_trans [OF w1(3)] show ?case by auto
qed simp

lemma new_ok:
  fixes s :: "'p FilterSubscriptions"
  assumes "s = new_subscriptions t peers criteria"
  shows "filter_ok s"
proof -
  have "held s p = {}" for p
    by (simp add: held_def peers_of_def assms new_subscriptions_def)
  moreover have "count_of s p = 0" for p
    by (simp add: count_of_def assms new_subscriptions_def)
  moreover have "unat criteria < 2 ^ 32" using unsigned_less [of criteria, where 'a = nat] by simp
  moreover have "unat (maxCriteriaPerPeer s) = unat criteria"
    by (simp add: assms new_subscriptions_def unat_ucast_32)
  moreover have "peersSubscribed s = []"
    "subscriptions s = []"
    by (simp_all add: assms new_subscriptions_def)
  ultimately show ?thesis by (simp add: filter_ok_def filter_inv_def word_less_nat_alt)
qed

text \<open>A peer's first request is not held to the limit of criteria.\<close>

lemma first_request_over_limit:
  "snd (addSubscription 0 ''p'' [(''t'', ''a''), (''t'', ''b'')] (new_subscriptions 300 100 1))
    = snd (addSubscription 0 ''p'' [(''t'', ''a''), (''t'', ''b'')] (new_subscriptions 300 100 2))
        \<lparr>maxCriteriaPerPeer := 1\<rparr>
    \<and> count_of (snd (addSubscription 0 ''p'' [(''t'', ''a''), (''t'', ''b'')] (new_subscriptions 300 100 1))) ''p'' = 2"
  by (simp add: addSubscription_def new_subscriptions_def add_criterion_def Let_def peers_of_def
      count_criterion_def count_of_def)

section \<open>Property\<close>

text \<open>
  C29. Whatever requests come in and whenever the subscriptions are maintained, at whatever times,
  the handler never follows the pointer to deleted peer data; the peers in the sets of the criteria
  are in the table, which is within its limit; no set is empty; and the count of a peer is at least
  the number of its criteria and at most the limit, or the hundred one request may name where the
  limit is lower.
\<close>

theorem filter_run_invariant:
  fixes rate :: "RateLimitSetting option" and ops :: "'b bucket_ops" and es :: "'p filter_event list"
  shows "\<exists>w. filter_run ops es (WakuFilter_new t peers criteria rate) = Inr w
    \<and> length (peersSubscribed (filter_subs w)) \<le> unat peers
    \<and> (\<forall>c. peers_of (filter_subs w) c \<subseteq> {p. known (filter_subs w) p})
    \<and> {} \<notin> snd ` set (subscriptions (filter_subs w))
    \<and> (\<forall>p. card (held (filter_subs w) p) \<le> unat (count_of (filter_subs w) p)
        \<and> unat (count_of (filter_subs w) p) \<le> max (unat criteria) MaxContentTopicsPerRequest)"
proof -
  let ?w = "WakuFilter_new t peers criteria rate :: ('p, 'b) WakuFilter"
  have s: "filter_subs ?w = new_subscriptions t peers criteria" by (simp add: WakuFilter_new_def)
  obtain w where w: "filter_run ops es ?w = Inr w" "filter_ok (filter_subs w)"
    "same_limits (filter_subs ?w) (filter_subs w)"
    using filter_run_ok [OF new_ok [OF s]] by blast
  have "maxPeers (filter_subs ?w) = ucast peers" "maxCriteriaPerPeer (filter_subs ?w) = ucast criteria"
    unfolding s by (simp_all add: new_subscriptions_def)
  then have "unat (maxPeers (filter_subs w)) = unat peers"
    "criteria_bound (filter_subs w) = max (unat criteria) MaxContentTopicsPerRequest"
    using w(3) by (simp_all add: same_limits_def criteria_bound_def unat_ucast_32)
  moreover have i: "filter_inv (\<lambda>_. criteria_bound (filter_subs w)) (filter_subs w)"
    using w(2) by (simp add: filter_ok_def)
  moreover have "peers_of (filter_subs w) c \<subseteq> {p. known (filter_subs w) p}" for c
    using filter_inv_known(1) [OF i] by blast
  ultimately show ?thesis using w(1) filter_invD [OF i] by auto
qed


section \<open>Whom a message is pushed to\<close>

lemma isSubscribed_update [simp]:
  "isSubscribed x (s\<lparr>subscriptions := y\<rparr>) q = isSubscribed x s q"
  by (simp add: isSubscribed_def split: option.split)

lemma isSubscribed_insert:
  "isSubscribed x (s\<lparr>peersSubscribed := AList.update p (now, n) (peersSubscribed s)\<rparr>) q =
    (if q = p then x - now \<le> subscriptionTimeout s else isSubscribed x s q)"
  by (simp add: isSubscribed_def update_conv' split: option.split)

lemma isSubscribed_count [simp]: "isSubscribed x (count_criterion f p s) q = isSubscribed x s q"
  by (auto simp: isSubscribed_def count_criterion_def map_of_map_entry split: option.split)

lemma add_criterion_effect:
  "peers_of (add_criterion p c s) c' = (if c' = c then insert p (peers_of s c') else peers_of s c')"
  "isSubscribed x (add_criterion p c s) q = isSubscribed x s q"
  by (auto simp: add_criterion_def Let_def insert_absorb)

lemma add_criteria_effect:
  "peers_of (fold (add_criterion p) cs s) c' = (if c' \<in> set cs then insert p (peers_of s c') else peers_of s c')"
  "isSubscribed x (fold (add_criterion p) cs s) q = isSubscribed x s q"
  by (induction cs arbitrary: s) (simp_all add: add_criterion_effect)

lemma isSubscribed_refresh:
  "isSubscribed x (refreshSubscription now p s) q =
    (if q = p \<and> known s p then x - now \<le> subscriptionTimeout s else isSubscribed x s q)"
  by (auto simp: isSubscribed_def refreshSubscription_def map_of_map_entry known_def split: option.split)

lemma addSubscription_effect:
  assumes "addSubscription now p cs s = (Inr (), s')"
  shows "peers_of s' c = (if c \<in> set cs then insert p (peers_of s c) else peers_of s c)"
    and "isSubscribed x s' q = (if q = p then x - now \<le> subscriptionTimeout s else isSubscribed x s q)"
proof -
  define t where "t = (if map_of (peersSubscribed s) p = None
    then s\<lparr>peersSubscribed := AList.update p (now, 0) (peersSubscribed s)\<rparr> else refreshSubscription now p s)"
  have "s' = fold (add_criterion p) cs t"
    using assms by (auto simp: addSubscription_def t_def split: option.splits if_splits)
  moreover have "peers_of t = peers_of s" by (simp add: t_def peers_of_def fun_eq_iff)
  moreover have "isSubscribed x t q = (if q = p then x - now \<le> subscriptionTimeout s else isSubscribed x s q)"
    by (simp add: t_def isSubscribed_refresh isSubscribed_insert known_def)
  ultimately show "peers_of s' c = (if c \<in> set cs then insert p (peers_of s c) else peers_of s c)"
    "isSubscribed x s' q = (if q = p then x - now \<le> subscriptionTimeout s else isSubscribed x s q)"
    by (simp_all add: add_criteria_effect)
qed

lemma drop_criterion_effect:
  "drop_criterion p c ps s = Inr s' \<Longrightarrow> peers_of s' c' = (if c' = c then ps - {p} else peers_of s c')"
  by (auto simp: drop_criterion_def Let_def peers_of_def update_conv' delete_conv' split: option.splits if_splits)

lemma drop_criteria_effect:
  assumes "drop_criteria p cs s = Inr (Inr (), s')"
  shows "peers_of s' c = (if c \<in> set cs then peers_of s c - {p} else peers_of s c)"
  using assms
proof (induction cs arbitrary: s)
  case (Cons c1 cs)
  obtain ps where ps: "map_of (subscriptions s) c1 = Some ps" using Cons.prems by (auto split: option.splits)
  have c1: "peers_of s c1 = ps" using ps by (simp add: peers_of_def)
  show ?case
  proof (cases "p \<in> ps")
    case True
    obtain s1 where s1: "drop_criterion p c1 ps s = Inr s1" "drop_criteria p cs s1 = Inr (Inr (), s')"
      using Cons.prems ps True by (auto simp: rbind_eq_Inr)
    show ?thesis using Cons.IH [OF s1(2)] drop_criterion_effect [OF s1(1)] c1 by auto
  next
    case False
    then show ?thesis using Cons ps c1 by auto
  qed
qed simp

lemma request_criteria_set: "request_criteria (Some t) cts = Inr cs \<Longrightarrow> set cs = Pair t ` set cts"
  by (auto simp: request_criteria_def split: if_splits)

text \<open>
  C30. After a subscription that succeeds, a message of a topic it names is pushed to the peer as
  long as the clock has not gone beyond the time of the request by more than the time-out, besides
  the peers it was pushed to before; after an unsubscription that succeeds, messages of the topics
  it names are not pushed to the peer.
\<close>

theorem filter_delivery:
  assumes "filter_subscribe now p (Some t) cts s = (Inr (), s1)"
    and "filter_unsubscribe now' p (Some t) cts' s1 = Inr (Inr (), s2)"
    and "c \<in> set cts"
  shows "findSubscribedPeers clock s1 t c =
      findSubscribedPeers clock s t c - {p} \<union> (if clock p - now \<le> subscriptionTimeout s then {p} else {})
    \<and> (c \<in> set cts' \<longrightarrow> p \<notin> findSubscribedPeers clock s2 t c)"
proof -
  obtain cs where cs: "request_criteria (Some t) cts = Inr cs" "addSubscription now p cs s = (Inr (), s1)"
    using assms(1) by (auto simp: filter_subscribe_def split: sum.splits prod.splits)
  obtain cs' where cs': "request_criteria (Some t) cts' = Inr cs'"
      "removeSubscription now' p cs' s1 = Inr (Inr (), s2)"
  proof (cases "request_criteria (Some t) cts'")
    case (Inr cs')
    then obtain r s' where r: "removeSubscription now' p cs' s1 = Inr (r, s')"
      "(case r of Inl e \<Rightarrow> (Inl (NOT_FOUND, ''peer has no subscriptions''), s') | Inr u \<Rightarrow> (Inr (), s')) = (Inr (), s2)"
      using assms(2) by (auto simp: filter_unsubscribe_def rbind_eq_Inr)
    then show ?thesis using that Inr by (cases r) auto
  qed (use assms(2) in \<open>simp add: filter_unsubscribe_def\<close>)
  have d: "drop_criteria p cs' (refreshSubscription now' p s1) = Inr (Inr (), s2)"
    using cs'(2) by (auto simp: removeSubscription_def split: if_splits)
  have "(t, c) \<in> set cs" using request_criteria_set [OF cs(1)] assms(3) by auto
  then have 1: "findSubscribedPeers clock s1 t c =
      findSubscribedPeers clock s t c - {p} \<union> (if clock p - now \<le> subscriptionTimeout s then {p} else {})"
    using addSubscription_effect [OF cs(2)] by (auto simp: findSubscribedPeers_def)
  have "p \<notin> peers_of s2 (t, c)" if "c \<in> set cts'"
    using drop_criteria_effect [OF d, of "(t, c)"] request_criteria_set [OF cs'(1)] that by auto
  with 1 show ?thesis by (simp add: findSubscribedPeers_def)
qed

theorem filter_delivery_witness:
  "findSubscribedPeers (\<lambda>_. 250)
     (snd (filter_subscribe 0 ''p'' (Some ''t'') [''a'', ''b''] (new_subscriptions 300 100 1000))) ''t'' ''a'' = {''p''}"
proof -
  let ?s1 = "snd (filter_subscribe 0 ''p'' (Some ''t'') [''a'', ''b''] (new_subscriptions 300 100 1000))"
  have 1: "filter_subscribe 0 ''p'' (Some ''t'') [''a'', ''b''] (new_subscriptions 300 100 1000) = (Inr (), ?s1)"
    by (simp add: filter_subscribe_def request_criteria_def MaxContentTopicsPerRequest_def
      addSubscription_def new_subscriptions_def)
  obtain s2 where 2: "filter_unsubscribe 1 ''p'' (Some ''t'') [''a''] ?s1 = Inr (Inr (), s2)"
    by (simp add: filter_unsubscribe_def filter_subscribe_def request_criteria_def MaxContentTopicsPerRequest_def
      addSubscription_def new_subscriptions_def add_criterion_def Let_def peers_of_def count_criterion_def
      removeSubscription_def refreshSubscription_def drop_criterion_def)
  show ?thesis
    using filter_delivery [OF 1 2, of "''a''" "\<lambda>_. 250"]
    by (simp add: findSubscribedPeers_def peers_of_def new_subscriptions_def)
qed

end
