(* ===== verification/RlnNonce.thy ===== *)
theory RlnNonce
  imports Complex_Main Prelude
begin

text \<open>
  The nonce manager of the rate limiting nullifier, \<open>waku/waku_rln_relay/nonce_manager.nim\<close>: a
  counter of message ids that starts again once an epoch has passed since it last did, and the
  numbering of epochs in \<open>rln_relay.nim\<close>, which is aligned to the clock. Times are rational
  seconds where the source has floating point.
\<close>

section \<open>The manager\<close>

record NonceManager =
  epoch_size :: rat
  nextNonce :: u64
  lastNonceTime :: rat
  nonceLimit :: u64

definition nonce_init :: "u64 \<Rightarrow> rat \<Rightarrow> NonceManager" where
  "nonce_init limit epoch =
     \<lparr>epoch_size = epoch, nextNonce = 0, lastNonceTime = 0, nonceLimit = limit\<rparr>"

datatype nonce_error = NonceLimitReached

definition getNonce :: "rat \<Rightarrow> NonceManager \<Rightarrow> (nonce_error + u64) \<times> NonceManager" where
  "getNonce now n =
     (let retNonce = nextNonce n;
          (retNonce, n) = (if epoch_size n \<le> now - lastNonceTime n
            then (0, n\<lparr>lastNonceTime := now\<rparr>) else (retNonce, n));
          n = n\<lparr>nextNonce := retNonce + 1\<rparr>
      in (if nonceLimit n \<le> retNonce then Inl NonceLimitReached else Inr retNonce, n))"

fun getNonces :: "rat list \<Rightarrow> NonceManager \<Rightarrow> (nonce_error + u64) list" where
  "getNonces [] n = []"
| "getNonces (t # ts) n = (case getNonce t n of (r, n') \<Rightarrow> r # getNonces ts n')"

section \<open>The numbering of epochs\<close>

definition u64_of_float :: "rat \<Rightarrow> u64" where
  "u64_of_float x = word_of_int \<lfloor>x\<rfloor>"

definition epoch_number :: "u64 \<Rightarrow> rat \<Rightarrow> u64" where
  "epoch_number sz t = u64_of_float (t / of_nat (unat sz))"

lemma floor_quotient:
  fixes s t :: rat
  assumes "0 < s" "of_int n * s \<le> t" "t < (of_int n + 1) * s"
  shows "\<lfloor>t / s\<rfloor> = n"
  using assms by (intro floor_unique) (simp_all add: pos_le_divide_eq pos_divide_less_eq)

lemma epoch_number_eq:
  assumes "s = of_nat (unat sz)" "0 < s" "of_int n * s \<le> t" "t < (of_int n + 1) * s"
  shows "epoch_number sz t = word_of_int n"
  using floor_quotient [OF assms(2-4)] unfolding epoch_number_def u64_of_float_def assms(1) [symmetric]
  by simp

section \<open>How many nonces\<close>

definition granted :: "(nonce_error + u64) list \<Rightarrow> nat" where
  "granted rs = length (filter (\<lambda>r. case r of Inr _ \<Rightarrow> True | Inl _ \<Rightarrow> False) rs)"

lemma granted_simps [simp]:
  "granted [] = 0" "granted (Inr x # rs) = Suc (granted rs)" "granted (Inl e # rs) = granted rs"
  by (simp_all add: granted_def)

lemma getNonce_cases:
  "getNonce now n =
     (if epoch_size n \<le> now - lastNonceTime n
      then (if nonceLimit n = 0 then Inl NonceLimitReached else Inr 0,
            n\<lparr>lastNonceTime := now, nextNonce := 1\<rparr>)
      else (if nonceLimit n \<le> nextNonce n then Inl NonceLimitReached else Inr (nextNonce n),
            n\<lparr>nextNonce := nextNonce n + 1\<rparr>))"
  by (auto simp: getNonce_def Let_def word_le_0_iff)

text \<open>Without a restart the nonces count on.\<close>

lemma granted_no_restart:
  assumes "\<forall>t \<in> set ts. t - lastNonceTime n < epoch_size n"
    and "unat (nextNonce n) + length ts < 2 ^ 64"
  shows "granted (getNonces ts n) \<le> unat (nonceLimit n) - unat (nextNonce n)"
  using assms
proof (induction ts arbitrary: n)
  case (Cons t ts)
  have r: "\<not> epoch_size n \<le> t - lastNonceTime n" using Cons.prems(1) by simp
  let ?m = "n\<lparr>nextNonce := nextNonce n + 1\<rparr>"
  have u: "unat (nextNonce n + 1) = unat (nextNonce n) + 1" using Cons.prems(2) by (intro unat_Suc) simp
  have "granted (getNonces ts ?m) \<le> unat (nonceLimit ?m) - unat (nextNonce ?m)"
    using Cons.prems u by (intro Cons.IH) auto
  then show ?case
    using r u by (auto simp: getNonce_cases word_le_nat_alt)
qed simp

lemma getNonce_time: "getNonce t n = (r, m) \<Longrightarrow> epoch_size m = epoch_size n \<and> nonceLimit m = nonceLimit n"
  by (auto simp: getNonce_cases split: if_splits)

text \<open>Within less than an epoch there is at most one restart.\<close>

lemma granted_window:
  assumes "\<forall>t \<in> set ts. a \<le> t \<and> t < a + epoch_size n" and "unat (nextNonce n) + length ts < 2 ^ 64"
  shows "granted (getNonces ts n)
    \<le> (unat (nonceLimit n) - unat (nextNonce n)) + unat (nonceLimit n)"
  using assms
proof (induction ts arbitrary: n)
  case (Cons t ts)
  show ?case
  proof (cases "epoch_size n \<le> t - lastNonceTime n")
    case True
    let ?m = "n\<lparr>lastNonceTime := t, nextNonce := 1\<rparr>"
    have "\<forall>s \<in> set ts. s - lastNonceTime ?m < epoch_size ?m" using Cons.prems(1) by fastforce
    then have "granted (getNonces ts ?m) \<le> unat (nonceLimit ?m) - unat (nextNonce ?m)"
      using Cons.prems(2) by (intro granted_no_restart) auto
    then show ?thesis
      using True unat_gt_0 [of "nonceLimit n"] by (auto simp: getNonce_cases)
  next
    case False
    let ?m = "n\<lparr>nextNonce := nextNonce n + 1\<rparr>"
    have u: "unat (nextNonce n + 1) = unat (nextNonce n) + 1" using Cons.prems(2) by (intro unat_Suc) simp
    have "granted (getNonces ts ?m)
        \<le> (unat (nonceLimit ?m) - unat (nextNonce ?m)) + unat (nonceLimit ?m)"
      using Cons.prems u by (intro Cons.IH) auto
    then show ?thesis
      using False u by (auto simp: getNonce_cases word_le_nat_alt)
  qed
qed simp

lemma granted_below: "Inr x \<in> set (getNonces ts n) \<Longrightarrow> x < nonceLimit n"
proof (induction ts arbitrary: n)
  case (Cons t ts)
  then show ?case by (force simp: getNonce_cases word_neq_0_conv not_le split: if_splits)
qed simp

section \<open>Properties\<close>

text \<open>
  C26. Nonces stay below the limit, and within any time shorter than an epoch at most twice the
  limit is handed out, as long as the counter does not wrap around.
\<close>

theorem nonces_bounded:
  assumes "\<forall>t \<in> set ts. a \<le> t \<and> t < a + epoch_size n" and "unat (nextNonce n) + length ts < 2 ^ 64"
  shows "granted (getNonces ts n) \<le> 2 * unat (nonceLimit n)
    \<and> (\<forall>x. Inr x \<in> set (getNonces ts n) \<longrightarrow> x < nonceLimit n)"
  using granted_window [OF assms] granted_below [of _ ts n] by auto

theorem nonces_bounded_witness:
  "granted (getNonces [1, 3 / 2, 8 / 5] (nonce_init 2 1)) \<le> 4"
  using nonces_bounded [of "[1, 3 / 2, 8 / 5]" 1 "nonce_init 2 1"] by (simp add: nonce_init_def)

text \<open>
  The restart of the counter is not aligned with the epochs. Whatever the epoch size and any
  limit above one, a sender can be given the same nonce twice within one epoch: the second message
  of an epoch that began before the restart and the second one after it.
\<close>

lemma nonce_repeats_in_epoch:
  assumes "0 < sz" and "1 < limit"
  shows "\<exists>t1 t2 t3 t4. t1 \<le> t2 \<and> t2 \<le> t3 \<and> t3 \<le> t4 \<and> epoch_number sz t2 = epoch_number sz t4
    \<and> getNonces [t1, t2, t3, t4] (nonce_init limit (of_nat (unat sz))) = [Inr 0, Inr 1, Inr 0, Inr 1]"
proof -
  define s :: rat where "s = of_nat (unat sz)"
  have "0 < unat sz" using assms(1) by (simp add: unat_gt_0 word_neq_0_conv)
  then have s: "0 < s" unfolding s_def by (simp only: of_nat_0_less_iff)
  have n: "epoch_number sz (5 / 2 * s) = word_of_int 2" "epoch_number sz (59 / 20 * s) = word_of_int 2"
    using s by (intro epoch_number_eq [OF s_def]; simp)+
  have l: "limit \<noteq> 0" "\<not> limit \<le> 1" using assms(2) by (auto simp: not_le)
  have "getNonces [19 / 10 * s, 5 / 2 * s, 29 / 10 * s, 59 / 20 * s] (nonce_init limit s)
      = [Inr 0, Inr 1, Inr 0, Inr 1]"
    using s l by (simp add: getNonce_cases nonce_init_def)
  then show ?thesis
    using n s unfolding s_def [symmetric]
    by (intro exI [of _ "19 / 10 * s"] exI [of _ "5 / 2 * s"] exI [of _ "29 / 10 * s"]
        exI [of _ "59 / 20 * s"]) simp
qed

lemma nonce_repeats_in_epoch_example:
  "\<exists>t1 t2 t3 t4. t1 \<le> t2 \<and> t2 \<le> t3 \<and> t3 \<le> t4 \<and> epoch_number 600 t2 = epoch_number 600 t4
    \<and> getNonces [t1, t2, t3, t4] (nonce_init 20 600) = [Inr 0, Inr 1, Inr 0, Inr 1]"
  using nonce_repeats_in_epoch [of 600 20] by simp

end
