(* ===== verification/RlnRelay.thy ===== *)
theory RlnRelay
  imports RlnNonce MessageHash
begin

text \<open>
  The validator of the rate limiting nullifier, \<open>waku/waku_rln_relay/rln_relay.nim\<close>: epochs as byte
  arrays, the log of nullifiers per epoch and its clearing, the checks of a message, and the
  validator that relays or rejects. The zero-knowledge proofs and the hashes are a parameter of
  the model, as is the decoding of the attached proof.
\<close>

section \<open>Epochs\<close>

type_synonym bytes = "byte list"

primrec le_bytes :: "nat \<Rightarrow> nat \<Rightarrow> bytes" where
  "le_bytes 0 n = []"
| "le_bytes (Suc k) n = word_of_nat n # le_bytes k (n div 256)"

primrec le_value :: "bytes \<Rightarrow> nat" where
  "le_value [] = 0"
| "le_value (b # bs) = unat b + 256 * le_value bs"

definition toEpoch :: "u64 \<Rightarrow> bytes" where
  "toEpoch t = le_bytes 8 (unat t) @ replicate 24 0"

text \<open>\<open>fromBytesLE\<close> reads the first eight of the 32 bytes.\<close>

definition fromEpoch :: "bytes \<Rightarrow> u64" where
  "fromEpoch e = word_of_nat (le_value (take 8 e))"

lemma length_le_bytes [simp]: "length (le_bytes k n) = k"
  by (induction k arbitrary: n) auto

lemma le_value_bytes: "le_value (le_bytes k n) = n mod 256 ^ k"
proof (induction k arbitrary: n)
  case (Suc k)
  have "unat (word_of_nat n :: byte) = n mod 256" by (simp add: unat_of_nat)
  then show ?case using Suc by (simp add: mod_mult2_eq)
qed simp

lemma fromEpoch_toEpoch [simp]: "fromEpoch (toEpoch t) = t"
  using unat_u64_less [of t] by (simp add: fromEpoch_def toEpoch_def le_value_bytes)

lemma toEpoch_inject: "toEpoch s = toEpoch t \<longleftrightarrow> s = t"
  by (metis fromEpoch_toEpoch)

section \<open>Messages, proofs and the log\<close>

record RateLimitProof =
  rl_proof :: bytes
  merkleRoot :: bytes
  shareX :: bytes
  shareY :: bytes
  nullifier :: bytes
  epoch :: bytes
  rlnIdentifier :: bytes
  externalNullifier :: bytes

record ProofMetadata =
  md_nullifier :: bytes
  md_shareX :: bytes
  md_shareY :: bytes
  md_externalNullifier :: bytes

type_synonym nullifier_log = "bytes \<Rightarrow> (bytes \<Rightarrow> ProofMetadata option) option"

record WakuRLNRelay =
  nullifierLog :: nullifier_log
  rlnEpochSizeSec :: u64
  rlnMaxTimestampGap :: u64
  rlnMaxEpochGap :: u64
  validRoots :: "bytes list"

text \<open>
  What is not code of the repository: the protobuf decoding of a proof, the verification of a proof
  for a signal (\<open>None\<close> when the call into the library fails), and the hash of epoch and identifier.
\<close>

record rln_env =
  proof_init :: "bytes \<Rightarrow> RateLimitProof option"
  verify_proof :: "bytes \<Rightarrow> RateLimitProof \<Rightarrow> bool option"
  external_nullifier :: "bytes \<Rightarrow> bytes \<Rightarrow> bytes option"

definition extractMetadata :: "rln_env \<Rightarrow> RateLimitProof \<Rightarrow> ProofMetadata option" where
  "extractMetadata env p =
     map_option (\<lambda>x. \<lparr>md_nullifier = nullifier p, md_shareX = shareX p, md_shareY = shareY p,
       md_externalNullifier = x\<rparr>) (external_nullifier env (epoch p) (rlnIdentifier p))"

definition validateRoot :: "WakuRLNRelay \<Rightarrow> bytes \<Rightarrow> bool" where
  "validateRoot r node \<longleftrightarrow> node \<in> set (validRoots r)"

definition toRLNSignal :: "WakuMessage \<Rightarrow> bytes" where
  "toRLNSignal m = payload m @ string_bytes (contentTopic m) @ le_bytes 8 (unat (word_of_int (timestamp m) :: u64))"

definition calcEpoch :: "WakuRLNRelay \<Rightarrow> rat \<Rightarrow> bytes" where
  "calcEpoch r t = toEpoch (epoch_number (rlnEpochSizeSec r) t)"

definition hasDuplicate :: "WakuRLNRelay \<Rightarrow> bytes \<Rightarrow> ProofMetadata \<Rightarrow> bool" where
  "hasDuplicate r e md =
     (case nullifierLog r e of None \<Rightarrow> False | Some tbl \<Rightarrow> tbl (md_nullifier md) \<noteq> None)"

definition updateLog :: "bytes \<Rightarrow> ProofMetadata \<Rightarrow> WakuRLNRelay \<Rightarrow> WakuRLNRelay" where
  "updateLog e md r =
     (case nullifierLog r e of
        None \<Rightarrow> r\<lparr>nullifierLog := (nullifierLog r)(e := Some [md_nullifier md \<mapsto> md])\<rparr>
      | Some tbl \<Rightarrow>
          if tbl (md_nullifier md) \<noteq> None then r
          else r\<lparr>nullifierLog := (nullifierLog r)(e := Some (tbl(md_nullifier md \<mapsto> md)))\<rparr>)"

definition absDiff :: "bytes \<Rightarrow> bytes \<Rightarrow> u64" where
  "absDiff e1 e2 =
     (if fromEpoch e1 > fromEpoch e2 then fromEpoch e1 - fromEpoch e2 else fromEpoch e2 - fromEpoch e1)"

text \<open>The subtraction of \<open>uint64\<close> values wraps around.\<close>

definition stale_epoch :: "u64 \<Rightarrow> u64 \<Rightarrow> bytes \<Rightarrow> bool" where
  "stale_epoch current gap e \<longleftrightarrow> current + gap \<le> fromEpoch e \<or> fromEpoch e \<le> current - gap"

definition clearNullifierLog :: "rat \<Rightarrow> WakuRLNRelay \<Rightarrow> WakuRLNRelay" where
  "clearNullifierLog now r = r\<lparr>nullifierLog := (\<lambda>e.
     if stale_epoch (fromEpoch (calcEpoch r now)) (rlnMaxEpochGap r) e then None
     else nullifierLog r e)\<rparr>"

section \<open>Validation\<close>

datatype validation = Valid | Invalid | Spam

definition message_time :: "WakuMessage \<Rightarrow> rat" where
  "message_time m = of_int (timestamp m) / 10 ^ 9"

definition validateMessage :: "rln_env \<Rightarrow> rat \<Rightarrow> WakuRLNRelay \<Rightarrow> WakuMessage \<Rightarrow> validation" where
  "validateMessage env now r m =
     (case proof_init env (msg_proof m) of None \<Rightarrow> Invalid
      | Some p \<Rightarrow>
         let timeDiff = u64_of_float \<bar>now - message_time m\<bar> in
         if timeDiff > rlnMaxTimestampGap r then Invalid
         else if epoch p \<noteq> calcEpoch r (message_time m) then Invalid
         else if \<not> validateRoot r (merkleRoot p) then Invalid
         else (case verify_proof env (toRLNSignal m) p of
             None \<Rightarrow> Invalid
           | Some ok \<Rightarrow>
              if \<not> ok then Invalid
              else (case extractMetadata env p of None \<Rightarrow> Invalid
                | Some md \<Rightarrow> if hasDuplicate r (epoch p) md then Spam else Valid)))"

definition validateMessageAndUpdateLog ::
  "rln_env \<Rightarrow> rat \<Rightarrow> WakuMessage \<Rightarrow> WakuRLNRelay \<Rightarrow> validation \<times> WakuRLNRelay" where
  "validateMessageAndUpdateLog env now m r =
     (let isValid = validateMessage env now r m in
      case proof_init env (msg_proof m) of None \<Rightarrow> (Invalid, r)
      | Some p \<Rightarrow>
         (case extractMetadata env p of None \<Rightarrow> (Invalid, r)
          | Some md \<Rightarrow> (isValid, if isValid = Valid then updateLog (epoch p) md r else r)))"

datatype relay_decision = Accept | Reject

text \<open>
  The validator reads the clock twice, once to clear the log and once to validate. The flag says
  whether the handler for spam is called.
\<close>

definition rln_validator ::
  "rln_env \<Rightarrow> rat \<Rightarrow> rat \<Rightarrow> WakuMessage \<Rightarrow> WakuRLNRelay \<Rightarrow> relay_decision \<times> bool \<times> WakuRLNRelay" where
  "rln_validator env now1 now2 m r =
     (let r = clearNullifierLog now1 r in
      case proof_init env (msg_proof m) of None \<Rightarrow> (Reject, False, r)
      | Some p \<Rightarrow>
         (case validateMessageAndUpdateLog env now2 m r of
            (Valid, r) \<Rightarrow> (Accept, False, r)
          | (Invalid, r) \<Rightarrow> (Reject, False, r)
          | (Spam, r) \<Rightarrow> (Reject, True, r)))"

fun rln_run ::
  "rln_env \<Rightarrow> (rat \<times> rat \<times> WakuMessage) list \<Rightarrow> WakuRLNRelay \<Rightarrow> (relay_decision \<times> WakuMessage) list" where
  "rln_run env [] r = []"
| "rln_run env ((t1, t2, m) # xs) r =
     (case rln_validator env t1 t2 m r of (d, spam, r') \<Rightarrow> (d, m) # rln_run env xs r')"

text \<open>What \<open>mount\<close> computes from the size of an epoch; the greatest clock difference is 20 seconds.\<close>

definition mount_rln :: "u64 \<Rightarrow> bytes list \<Rightarrow> WakuRLNRelay" where
  "mount_rln sz roots =
     \<lparr>nullifierLog = (\<lambda>_. None), rlnEpochSizeSec = sz, rlnMaxTimestampGap = u64_of_float 20,
      rlnMaxEpochGap = max (u64_of_float (20 / of_nat (unat sz))) 1, validRoots = roots\<rparr>"

lemma mount_gap:
  assumes "20 < sz"
  shows "rlnMaxEpochGap (mount_rln sz roots) = 1"
proof -
  have "20 < unat sz" using assms by (simp add: word_less_nat_alt)
  then have "(20 :: rat) / of_nat (unat sz) < 1" "(0 :: rat) \<le> 20 / of_nat (unat sz)"
    by (simp_all add: divide_less_eq del: of_nat_unat)
  then have "\<lfloor>(20 :: rat) / of_nat (unat sz)\<rfloor> = 0" by (intro floor_unique) simp_all
  then have "u64_of_float (20 / of_nat (unat sz)) = 0" unfolding u64_of_float_def by simp
  then show ?thesis unfolding mount_rln_def by simp
qed

lemma mount_rln_fields [simp]:
  "nullifierLog (mount_rln sz roots) = (\<lambda>_. None)"
  "rlnEpochSizeSec (mount_rln sz roots) = sz"
  "rlnMaxTimestampGap (mount_rln sz roots) = 20"
  "validRoots (mount_rln sz roots) = roots"
  by (simp_all add: mount_rln_def u64_of_float_def)

section \<open>What is accepted\<close>

text \<open>The checks of a message apart from the one for duplicates.\<close>

definition message_ok ::
  "rln_env \<Rightarrow> rat \<Rightarrow> WakuRLNRelay \<Rightarrow> WakuMessage \<Rightarrow> RateLimitProof \<Rightarrow> ProofMetadata \<Rightarrow> bool" where
  "message_ok env now r m p md \<longleftrightarrow>
     proof_init env (msg_proof m) = Some p
   \<and> u64_of_float \<bar>now - message_time m\<bar> \<le> rlnMaxTimestampGap r
   \<and> epoch p = calcEpoch r (message_time m)
   \<and> validateRoot r (merkleRoot p)
   \<and> verify_proof env (toRLNSignal m) p = Some True
   \<and> extractMetadata env p = Some md"

lemma validateMessage_Valid:
  "validateMessage env now r m = Valid \<longleftrightarrow>
    (\<exists>p md. message_ok env now r m p md \<and> \<not> hasDuplicate r (epoch p) md)"
  by (auto simp: validateMessage_def message_ok_def Let_def not_less split: option.splits if_splits)

lemma config_of_log [simp]:
  "rlnEpochSizeSec (updateLog e md r) = rlnEpochSizeSec r"
  "rlnMaxTimestampGap (updateLog e md r) = rlnMaxTimestampGap r"
  "rlnMaxEpochGap (updateLog e md r) = rlnMaxEpochGap r"
  "validRoots (updateLog e md r) = validRoots r"
  "rlnEpochSizeSec (clearNullifierLog t r) = rlnEpochSizeSec r"
  "rlnMaxTimestampGap (clearNullifierLog t r) = rlnMaxTimestampGap r"
  "rlnMaxEpochGap (clearNullifierLog t r) = rlnMaxEpochGap r"
  "validRoots (clearNullifierLog t r) = validRoots r"
  by (simp_all add: updateLog_def clearNullifierLog_def split: option.split)

lemma message_ok_config:
  "message_ok env t (clearNullifierLog u r) m p md = message_ok env t r m p md"
  "message_ok env t (updateLog e md' r) m p md = message_ok env t r m p md"
  by (simp_all add: message_ok_def calcEpoch_def validateRoot_def)

lemma message_ok_unique:
  "message_ok env t r m p md \<Longrightarrow> message_ok env t' r m p' md' \<Longrightarrow> p' = p \<and> md' = md"
  by (auto simp: message_ok_def)

lemma rln_validator_accept:
  assumes "message_ok env t2 r m p md" "\<not> hasDuplicate (clearNullifierLog t1 r) (epoch p) md"
  shows "rln_validator env t1 t2 m r = (Accept, False, updateLog (epoch p) md (clearNullifierLog t1 r))"
proof -
  have "validateMessage env t2 (clearNullifierLog t1 r) m = Valid"
    using assms by (auto simp: validateMessage_Valid message_ok_config)
  then show ?thesis
    using assms(1) by (simp add: rln_validator_def validateMessageAndUpdateLog_def Let_def message_ok_def)
qed

lemma rln_validator_reject:
  assumes "\<nexists>p md. message_ok env t2 r m p md \<and> \<not> hasDuplicate (clearNullifierLog t1 r) (epoch p) md"
  shows "\<exists>spam. rln_validator env t1 t2 m r = (Reject, spam, clearNullifierLog t1 r)"
proof -
  have "validateMessage env t2 (clearNullifierLog t1 r) m \<noteq> Valid"
    using assms by (auto simp: validateMessage_Valid message_ok_config)
  then show ?thesis
    by (auto simp: rln_validator_def validateMessageAndUpdateLog_def Let_def
      split: option.split validation.split)
qed

definition logged :: "WakuRLNRelay \<Rightarrow> bytes \<Rightarrow> bytes \<Rightarrow> bool" where
  "logged r e n \<longleftrightarrow> (case nullifierLog r e of None \<Rightarrow> False | Some tbl \<Rightarrow> tbl n \<noteq> None)"

lemma hasDuplicate_logged: "hasDuplicate r e md = logged r e (md_nullifier md)"
  by (simp add: hasDuplicate_def logged_def)

lemma logged_update: "logged (updateLog e md r) e' n \<longleftrightarrow> logged r e' n \<or> e' = e \<and> n = md_nullifier md"
  by (auto simp: logged_def updateLog_def split: option.splits)

lemma logged_clear:
  "logged (clearNullifierLog t r) e n \<longleftrightarrow>
    logged r e n \<and> \<not> stale_epoch (fromEpoch (calcEpoch r t)) (rlnMaxEpochGap r) e"
  by (simp add: logged_def clearNullifierLog_def)

lemma message_ok_nullifier: "message_ok env t r m p md \<Longrightarrow> md_nullifier md = nullifier p"
  by (auto simp: message_ok_def extractMetadata_def)

text \<open>The accepted messages of an epoch and nullifier.\<close>

definition hits :: "rln_env \<Rightarrow> bytes \<Rightarrow> bytes \<Rightarrow> relay_decision \<times> WakuMessage \<Rightarrow> bool" where
  "hits env e n x \<longleftrightarrow> (case x of (d, m) \<Rightarrow> d = Accept
     \<and> (case proof_init env (msg_proof m) of None \<Rightarrow> False | Some p \<Rightarrow> epoch p = e \<and> nullifier p = n))"

lemma rln_run_hits:
  assumes "\<forall>x \<in> set xs. \<not> stale_epoch (epoch_number (rlnEpochSizeSec r) (fst x)) (rlnMaxEpochGap r) e"
  shows "length (filter (hits env e n) (rln_run env xs r)) \<le> (if logged r e n then 0 else 1)"
  using assms
proof (induction xs arbitrary: r)
  case (Cons x xs)
  obtain t1 t2 m where x: "x = (t1, t2, m)" by (cases x)
  let ?c = "clearNullifierLog t1 r"
  have c: "logged ?c e n = logged r e n"
    using Cons.prems x by (simp add: logged_clear calcEpoch_def)
  show ?case
  proof (cases "\<exists>p md. message_ok env t2 r m p md \<and> \<not> hasDuplicate ?c (epoch p) md")
    case True
    then obtain p md where ok: "message_ok env t2 r m p md" "\<not> hasDuplicate ?c (epoch p) md" by blast
    let ?u = "updateLog (epoch p) md ?c"
    have h: "hits env e n (Accept, m) \<longleftrightarrow> epoch p = e \<and> nullifier p = n"
      using ok(1) by (simp add: hits_def message_ok_def)
    have "length (filter (hits env e n) (rln_run env xs ?u)) \<le> (if logged ?u e n then 0 else 1)"
      using Cons.prems by (intro Cons.IH) simp
    then show ?thesis
      using rln_validator_accept [OF ok] ok(2) message_ok_nullifier [OF ok(1)] c
      by (auto simp: x h logged_update hasDuplicate_logged split: if_splits)
  next
    case False
    then obtain spam where v: "rln_validator env t1 t2 m r = (Reject, spam, ?c)"
      using rln_validator_reject by blast
    have "length (filter (hits env e n) (rln_run env xs ?c)) \<le> (if logged ?c e n then 0 else 1)"
      using Cons.prems by (intro Cons.IH) simp
    moreover have "\<not> hits env e n (Reject, m)" by (simp add: hits_def)
    ultimately show ?thesis using v c by (simp add: x)
  qed
qed simp

lemma length_filter_disj:
  "length (filter (\<lambda>x. P x \<or> Q x) xs) \<le> length (filter P xs) + length (filter Q xs)"
  by (induction xs) auto

lemma rln_run_rate:
  assumes "\<forall>x \<in> set xs. \<not> stale_epoch (epoch_number (rlnEpochSizeSec r) (fst x)) (rlnMaxEpochGap r) e"
  shows "length (filter (\<lambda>x. list_ex (\<lambda>n. hits env e n x) ns) (rln_run env xs r)) \<le> length ns"
proof (induction ns)
  case (Cons n ns)
  have "length (filter (\<lambda>x. list_ex (\<lambda>n. hits env e n x) (n # ns)) (rln_run env xs r))
      \<le> length (filter (hits env e n) (rln_run env xs r))
        + length (filter (\<lambda>x. list_ex (\<lambda>n. hits env e n x) ns) (rln_run env xs r))"
    using length_filter_disj [of "hits env e n" "\<lambda>x. list_ex (\<lambda>n. hits env e n x) ns"] by simp
  also have "\<dots> \<le> 1 + length ns"
    using rln_run_hits [OF assms, of env n] Cons by (intro add_mono) (auto split: if_splits)
  finally show ?case by simp
qed simp


lemma rln_run_stale:
  assumes "message_ok env t2 r m p md"
    and "stale_epoch (epoch_number (rlnEpochSizeSec r) t1) (rlnMaxEpochGap r) (epoch p)"
  shows "rln_run env (replicate k (t1, t2, m)) r = replicate k (Accept, m)"
  using assms
proof (induction k arbitrary: r)
  case (Suc k)
  have "\<not> hasDuplicate (clearNullifierLog t1 r) (epoch p) md"
    using Suc.prems(2) by (simp add: hasDuplicate_logged logged_clear calcEpoch_def)
  then have v: "rln_validator env t1 t2 m r = (Accept, False, updateLog (epoch p) md (clearNullifierLog t1 r))"
    using rln_validator_accept [OF Suc.prems(1)] by simp
  have "rln_run env (replicate k (t1, t2, m)) (updateLog (epoch p) md (clearNullifierLog t1 r))
      = replicate k (Accept, m)"
    using Suc.prems by (intro Suc.IH) (simp_all add: message_ok_config)
  then show ?case using v by simp
qed simp

text \<open>An environment for examples: every proof is the given one, and it verifies.\<close>

definition sample_env :: "u64 \<Rightarrow> rln_env" where
  "sample_env e = \<lparr>
     proof_init = (\<lambda>_. Some \<lparr>rl_proof = [], merkleRoot = [], shareX = [], shareY = [],
       nullifier = [7], epoch = toEpoch e, rlnIdentifier = [], externalNullifier = []\<rparr>),
     verify_proof = (\<lambda>_ _. Some True), external_nullifier = (\<lambda>_ _. Some [])\<rparr>"

definition message_at :: "int \<Rightarrow> WakuMessage" where
  "message_at t = \<lparr>payload = [], contentTopic = [], meta = [], msg_version = 0, timestamp = t * 10 ^ 9,
     ephemeral = False, msg_proof = []\<rparr>"

section \<open>Properties\<close>

text \<open>
  C25. The rate limit holds where the log is kept. In any sequence of messages during which the
  clock stays so near to an epoch that its log is not cleared, at most one message per nullifier
  of that epoch is relayed; a member whose valid proofs for the epoch carry one of \<open>ns\<close> nullifiers
  gets at most as many messages through.
\<close>

theorem rln_rate_limit:
  assumes "\<forall>x \<in> set xs. \<not> stale_epoch (epoch_number (rlnEpochSizeSec r) (fst x)) (rlnMaxEpochGap r) e"
  shows "length (filter (hits env e n) (rln_run env xs r)) \<le> 1
    \<and> length (filter (\<lambda>x. list_ex (\<lambda>n. hits env e n x) ns) (rln_run env xs r)) \<le> length ns"
  using rln_run_hits [OF assms, of env n] rln_run_rate [OF assms, of env ns]
  by (auto split: if_splits)

theorem rln_rate_limit_witness:
  "length (filter (hits (sample_env 1) (toEpoch 1) [7])
     (rln_run (sample_env 1) [(605, 605, message_at 604), (606, 607, message_at 604)] (mount_rln 600 [[]]))) \<le> 1"
proof -
  have e: "epoch_number 600 605 = 1" "epoch_number 600 606 = 1"
    using epoch_number_eq [of 600 600 1 605] epoch_number_eq [of 600 600 1 606] by simp_all
  have "\<forall>x \<in> set [(605, 605, message_at 604), (606, 607, message_at 604)].
      \<not> stale_epoch (epoch_number (rlnEpochSizeSec (mount_rln 600 [[]])) (fst x))
        (rlnMaxEpochGap (mount_rln 600 [[]])) (toEpoch 1)"
    by (simp add: stale_epoch_def e mount_gap word_le_nat_alt)
  then show ?thesis using rln_rate_limit by blast
qed

text \<open>
  Where epochs are longer than the accepted clock difference of 20 seconds, the log of every
  epoch but the current one is cleared before each message, while messages of the previous epoch
  are accepted for 20 seconds more: such a message, repeated any number of times, is relayed each
  time.
\<close>

lemma previous_epoch_unlimited:
  assumes "20 < sz" and "message_ok env t2 (mount_rln sz roots) m p md"
    and "epoch_number sz t1 = epoch_number sz (message_time m) + 1"
  shows "rln_run env (replicate k (t1, t2, m)) (mount_rln sz roots) = replicate k (Accept, m)"
proof (rule rln_run_stale [OF assms(2)])
  have "fromEpoch (epoch p) = epoch_number sz (message_time m)"
    using assms(2) by (simp add: message_ok_def calcEpoch_def)
  then show "stale_epoch (epoch_number (rlnEpochSizeSec (mount_rln sz roots)) t1)
      (rlnMaxEpochGap (mount_rln sz roots)) (epoch p)"
    using assms(3) by (simp add: stale_epoch_def mount_gap [OF assms(1)])
qed


lemma previous_epoch_unlimited_example:
  "rln_run (sample_env 0) (replicate 100 (605, 605, message_at 595)) (mount_rln 600 [[]])
    = replicate 100 (Accept, message_at 595)"
proof -
  have t: "message_time (message_at 595) = 595" by (simp add: message_time_def message_at_def)
  have e: "epoch_number 600 595 = 0" "epoch_number 600 605 = 1"
    using epoch_number_eq [of 600 600 0 595] epoch_number_eq [of 600 600 1 605] by simp_all
  have "message_ok (sample_env 0) 605 (mount_rln 600 [[]]) (message_at 595)
      (the (proof_init (sample_env 0) [])) (the (extractMetadata (sample_env 0) (the (proof_init (sample_env 0) []))))"
    by (simp add: message_ok_def t e calcEpoch_def)
      (simp add: sample_env_def validateRoot_def u64_of_float_def extractMetadata_def)
  then show ?thesis by (rule previous_epoch_unlimited [rotated]) (simp_all add: t e)
qed

end
