(* ===== verification/RlnPublish.thy ===== *)
theory RlnPublish
  imports RlnRelay
begin

text \<open>
  The sending side of the rate limiting nullifier: the proof attached to a message in
  \<open>waku/waku_rln_relay/rln_relay.nim\<close> and by the lightpush service in
  \<open>waku/waku_lightpush/callbacks.nim\<close>, and the layout of proofs towards the proof library in
  \<open>group_manager/on_chain/group_manager.nim\<close> and \<open>conversion_utils.nim\<close>.
\<close>

section \<open>The layout of a proof\<close>

text \<open>The bytes from \<open>i\<close> up to \<open>j\<close>.\<close>

definition byte_range :: "bytes \<Rightarrow> nat \<Rightarrow> nat \<Rightarrow> bytes" where
  "byte_range bs i j = take (j - i) (drop i bs)"

definition proof_of_bytes :: "bytes \<Rightarrow> bytes \<Rightarrow> bytes \<Rightarrow> RateLimitProof" where
  "proof_of_bytes bs e ident =
     (let proofOffset = 128;
          rootOffset = proofOffset + 32;
          externalNullifierOffset = rootOffset + 32;
          shareXOffset = externalNullifierOffset + 32;
          shareYOffset = shareXOffset + 32;
          nullifierOffset = shareYOffset + 32
      in \<lparr>rl_proof = byte_range bs 0 proofOffset,
          merkleRoot = byte_range bs proofOffset rootOffset,
          shareX = byte_range bs externalNullifierOffset shareXOffset,
          shareY = byte_range bs shareXOffset shareYOffset,
          nullifier = byte_range bs shareYOffset nullifierOffset,
          epoch = e, rlnIdentifier = ident,
          externalNullifier = byte_range bs rootOffset externalNullifierOffset\<rparr>)"

definition encodeLengthPrefix :: "bytes \<Rightarrow> bytes" where
  "encodeLengthPrefix input = le_bytes 8 (length input) @ input"

definition serialize_proof :: "RateLimitProof \<Rightarrow> bytes \<Rightarrow> bytes" where
  "serialize_proof p input =
     rl_proof p @ merkleRoot p @ externalNullifier p @ shareX p @ shareY p @ nullifier p
       @ encodeLengthPrefix input"

lemma byte_range_append: "i \<le> j \<Longrightarrow> j \<le> k \<Longrightarrow> byte_range bs i j @ byte_range bs j k = byte_range bs i k"
proof -
  assume "i \<le> j" "j \<le> k"
  then have "take (k - i) (drop i bs) = take (j - i) (drop i bs) @ take (k - j) (drop (j - i) (drop i bs))"
    using take_add [of "j - i" "k - j" "drop i bs"] by simp
  then show ?thesis using \<open>i \<le> j\<close> by (simp add: byte_range_def)
qed

text \<open>What the library produced is given back to it for verification byte for byte.\<close>

lemma serialize_proof_of_bytes:
  "serialize_proof (proof_of_bytes bs e ident) input = take 288 bs @ encodeLengthPrefix input"
proof -
  have "byte_range bs 0 128 @ byte_range bs 128 160 @ byte_range bs 160 192 @ byte_range bs 192 224
      @ byte_range bs 224 256 @ byte_range bs 256 288 = byte_range bs 0 288"
    by (simp add: byte_range_append)
  then show ?thesis by (simp add: serialize_proof_def proof_of_bytes_def Let_def byte_range_def)
qed

section \<open>Generating and verifying\<close>

text \<open>
  The proof library: the hash of epoch and identifier, a proof from the signal, the external
  nullifier and the message id, as bytes, and the verification of a serialized proof with a list
  of roots. \<open>None\<close> is a call that fails. The identity, the membership and the path in the tree that
  the group manager puts into the witness are part of the function that proves.
\<close>

record rln_library =
  lib_external_nullifier :: "bytes \<Rightarrow> bytes \<Rightarrow> bytes option"
  lib_prove :: "bytes \<Rightarrow> bytes \<Rightarrow> u64 \<Rightarrow> bytes option"
  lib_verify :: "bytes \<Rightarrow> bytes list \<Rightarrow> bool option"

definition generateProof :: "rln_library \<Rightarrow> bytes \<Rightarrow> bytes \<Rightarrow> bytes \<Rightarrow> u64 \<Rightarrow> RateLimitProof option" where
  "generateProof lib ident input e messageId =
     Option.bind (lib_external_nullifier lib e ident) (\<lambda>x.
       map_option (\<lambda>bs. proof_of_bytes bs e ident) (lib_prove lib input x messageId))"

definition verifyProof :: "rln_library \<Rightarrow> bytes list \<Rightarrow> bytes \<Rightarrow> RateLimitProof \<Rightarrow> bool option" where
  "verifyProof lib roots input p =
     Option.bind (lib_external_nullifier lib (epoch p) (rlnIdentifier p)) (\<lambda>x.
       lib_verify lib (serialize_proof (p\<lparr>externalNullifier := x\<rparr>) input) roots)"

section \<open>Publishing\<close>

datatype publish_error = NonceUnavailable nonce_error | ProofNotGenerated

definition createRlnProof ::
  "(bytes \<Rightarrow> bytes \<Rightarrow> u64 \<Rightarrow> RateLimitProof option) \<Rightarrow> (RateLimitProof \<Rightarrow> bytes) \<Rightarrow> WakuRLNRelay
    \<Rightarrow> rat \<Rightarrow> WakuMessage \<Rightarrow> rat \<Rightarrow> NonceManager \<Rightarrow> (publish_error + bytes) \<times> NonceManager" where
  "createRlnProof generate encode r now msg senderEpochTime nm =
     (let input = toRLNSignal msg; e = calcEpoch r senderEpochTime
      in case getNonce now nm of
           (Inl err, nm) \<Rightarrow> (Inl (NonceUnavailable err), nm)
         | (Inr nonce, nm) \<Rightarrow>
             (case generate input e nonce of None \<Rightarrow> (Inl ProofNotGenerated, nm)
              | Some p \<Rightarrow> (Inr (encode p), nm)))"

definition appendRLNProof ::
  "(bytes \<Rightarrow> bytes \<Rightarrow> u64 \<Rightarrow> RateLimitProof option) \<Rightarrow> (RateLimitProof \<Rightarrow> bytes) \<Rightarrow> WakuRLNRelay
    \<Rightarrow> rat \<Rightarrow> WakuMessage \<Rightarrow> rat \<Rightarrow> NonceManager \<Rightarrow> (publish_error + WakuMessage) \<times> NonceManager" where
  "appendRLNProof generate encode r now msg senderEpochTime nm =
     (case createRlnProof generate encode r now msg senderEpochTime nm of
        (Inl e, nm) \<Rightarrow> (Inl e, nm) | (Inr bs, nm) \<Rightarrow> (Inr (msg\<lparr>msg_proof := bs\<rparr>), nm))"

text \<open>
  The time of the sender is the time of the service node in whole seconds; the clock is read once
  for it and once for the nonce.
\<close>

definition checkAndGenerateRLNProof ::
  "(bytes \<Rightarrow> bytes \<Rightarrow> u64 \<Rightarrow> RateLimitProof option) \<Rightarrow> (RateLimitProof \<Rightarrow> bytes) \<Rightarrow> WakuRLNRelay option
    \<Rightarrow> rat \<Rightarrow> rat \<Rightarrow> WakuMessage \<Rightarrow> NonceManager \<Rightarrow> (publish_error + WakuMessage) \<times> NonceManager" where
  "checkAndGenerateRLNProof generate encode rlnPeer now now2 message nm =
     (if msg_proof message \<noteq> [] then (Inr message, nm)
      else (case rlnPeer of None \<Rightarrow> (Inr message, nm)
        | Some r \<Rightarrow> appendRLNProof generate encode r now2 message (of_int \<lfloor>now\<rfloor>) nm))"


section \<open>From the sender to the validator\<close>

text \<open>The environment of a validator that verifies with the library and its own roots.\<close>

definition env_of :: "rln_library \<Rightarrow> (bytes \<Rightarrow> RateLimitProof option) \<Rightarrow> bytes list \<Rightarrow> rln_env" where
  "env_of lib init roots =
     \<lparr>proof_init = init, verify_proof = verifyProof lib roots, external_nullifier = lib_external_nullifier lib\<rparr>"

text \<open>
  What is relied on: a proof the library makes states the external nullifier it was made for, and
  verifies for its signal with any roots that contain its own; and the encoding of a proof, which
  leaves the external nullifier out, is decoded.
\<close>

definition library_sound :: "rln_library \<Rightarrow> bool" where
  "library_sound lib \<longleftrightarrow> (\<forall>input x n bs. lib_prove lib input x n = Some bs \<longrightarrow>
     byte_range bs 160 192 = x
   \<and> (\<forall>roots. byte_range bs 128 160 \<in> set roots \<longrightarrow>
        lib_verify lib (take 288 bs @ encodeLengthPrefix input) roots = Some True))"

definition encoding_sound ::
  "rln_library \<Rightarrow> bytes \<Rightarrow> (RateLimitProof \<Rightarrow> bytes) \<Rightarrow> (bytes \<Rightarrow> RateLimitProof option) \<Rightarrow> bool" where
  "encoding_sound lib ident encode init \<longleftrightarrow> (\<forall>input x n bs e. lib_prove lib input x n = Some bs \<longrightarrow>
     init (encode (proof_of_bytes bs e ident))
       = Some ((proof_of_bytes bs e ident)\<lparr>externalNullifier := replicate 32 0\<rparr>))"

definition proves_with :: "rln_library \<Rightarrow> bytes list \<Rightarrow> bool" where
  "proves_with lib roots \<longleftrightarrow>
     (\<forall>input x n bs. lib_prove lib input x n = Some bs \<longrightarrow> byte_range bs 128 160 \<in> set roots)"

lemma generated_verifies:
  assumes "library_sound lib" "proves_with lib roots" "generateProof lib ident input e n = Some p"
  shows "verifyProof lib roots input (p\<lparr>externalNullifier := y\<rparr>) = Some True"
    and "\<exists>x. lib_external_nullifier lib e ident = Some x" "epoch p = e" "rlnIdentifier p = ident"
    and "merkleRoot p \<in> set roots"
    and "\<exists>bs x. lib_prove lib input x n = Some bs \<and> p = proof_of_bytes bs e ident"
proof -
  obtain x bs where x: "lib_external_nullifier lib e ident = Some x" "lib_prove lib input x n = Some bs"
    "p = proof_of_bytes bs e ident"
    using assms(3) by (auto simp: generateProof_def bind_eq_Some_conv)
  have b: "byte_range bs 160 192 = x" "byte_range bs 128 160 \<in> set roots"
    "lib_verify lib (take 288 bs @ encodeLengthPrefix input) roots = Some True"
    using assms(1,2) x(2) unfolding library_sound_def proves_with_def by blast+
  have f: "epoch p = e" "rlnIdentifier p = ident" "externalNullifier p = x"
    by (simp_all add: x(3) proof_of_bytes_def b(1))
  have "p\<lparr>externalNullifier := x\<rparr> = p" using f(3) by (metis RateLimitProof.surjective RateLimitProof.update_convs(8))
  then have "serialize_proof (p\<lparr>externalNullifier := y, externalNullifier := x\<rparr>) input
      = take 288 bs @ encodeLengthPrefix input"
    using serialize_proof_of_bytes [of bs e ident input] x(3) by simp
  then show "verifyProof lib roots input (p\<lparr>externalNullifier := y\<rparr>) = Some True"
    using x(1) b(3) f by (simp add: verifyProof_def)
  show "\<exists>x. lib_external_nullifier lib e ident = Some x" "epoch p = e" "rlnIdentifier p = ident"
    using x(1) f by simp_all
  show "merkleRoot p \<in> set roots" using b(2) by (simp add: x(3) proof_of_bytes_def)
  show "\<exists>bs x. lib_prove lib input x n = Some bs \<and> p = proof_of_bytes bs e ident" using x by blast
qed

lemma message_proof_fields [simp]:
  "toRLNSignal (m\<lparr>msg_proof := b\<rparr>) = toRLNSignal m" "message_time (m\<lparr>msg_proof := b\<rparr>) = message_time m"
  by (simp_all add: toRLNSignal_def message_time_def)

section \<open>Property\<close>

text \<open>
  C32. A message to which the lightpush service attaches a proof, with a current root and a correct
  proof library, is relayed by a validator with an empty log that gets it in time, exactly when the
  time of the service and the timestamp of the message are in the same epoch: the proof is made
  for the epoch of the former and checked against the epoch of the latter.
\<close>

theorem published_accepted:
  assumes "library_sound lib" and "encoding_sound lib ident encode init" and "proves_with lib (validRoots r)"
    and "checkAndGenerateRLNProof (generateProof lib ident) encode (Some q) now now2 m nm = (Inr m', nm')"
    and "msg_proof m = []" and "rlnEpochSizeSec q = rlnEpochSizeSec r"
    and "nullifierLog r = (\<lambda>_. None)"
    and "u64_of_float \<bar>t2 - message_time m\<bar> \<le> rlnMaxTimestampGap r"
  shows "fst (rln_validator (env_of lib init (validRoots r)) t1 t2 m' r) = Accept
    \<longleftrightarrow> epoch_number (rlnEpochSizeSec r) (of_int \<lfloor>now\<rfloor>) = epoch_number (rlnEpochSizeSec r) (message_time m)"
proof -
  let ?env = "env_of lib init (validRoots r)" and ?e = "calcEpoch r (of_int \<lfloor>now\<rfloor>)"
  have q: "calcEpoch q t = calcEpoch r t" for t using assms(6) by (simp add: calcEpoch_def)
  obtain nonce p where p: "generateProof lib ident (toRLNSignal m) ?e nonce = Some p"
    "m' = m\<lparr>msg_proof := encode p\<rparr>"
    using assms(4,5)
    by (auto simp: checkAndGenerateRLNProof_def appendRLNProof_def createRlnProof_def Let_def q
      split: prod.splits sum.splits option.splits)
  note g = generated_verifies [OF assms(1,3) p(1)]
  let ?p = "p\<lparr>externalNullifier := replicate 32 0\<rparr>"
  have init: "init (encode p) = Some ?p" using g(6) assms(2) by (auto simp: encoding_sound_def)
  obtain x where x: "lib_external_nullifier lib ?e ident = Some x" using g(2) by blast
  have ok: "(\<exists>p' md. message_ok ?env t2 r m' p' md) \<longleftrightarrow> ?e = calcEpoch r (message_time m)"
    using g(1,3-5) init x assms(8)
    by (auto simp: message_ok_def p(2) env_of_def validateRoot_def extractMetadata_def)
  have empty: "\<not> hasDuplicate (clearNullifierLog t1 r) e md" for e md
    by (simp add: hasDuplicate_def clearNullifierLog_def assms(7))
  have "fst (rln_validator ?env t1 t2 m' r) = Accept \<longleftrightarrow> (\<exists>p' md. message_ok ?env t2 r m' p' md)"
    using rln_validator_accept [of ?env t2 r m', OF _ empty] rln_validator_reject [of ?env t2 r m' t1]
    by (metis fst_conv relay_decision.distinct(1))
  then show ?thesis unfolding ok by (simp add: calcEpoch_def toEpoch_inject)
qed

text \<open>A library for examples, whose proofs consist of zeros but for the external nullifier.\<close>

definition sample_library :: rln_library where
  "sample_library = \<lparr>lib_external_nullifier = (\<lambda>e i. Some (replicate 32 1)),
     lib_prove = (\<lambda>s x n. if x = replicate 32 1 then Some (replicate 160 0 @ x @ replicate 96 0) else None),
     lib_verify = (\<lambda>s rs. Some True)\<rparr>"

definition sample_init :: "bytes \<Rightarrow> RateLimitProof option" where
  "sample_init e = Some ((proof_of_bytes (replicate 160 0 @ replicate 32 1 @ replicate 96 0) e [])
     \<lparr>externalNullifier := replicate 32 0\<rparr>)"

theorem published_accepted_witness:
  "\<exists>m' nm'. checkAndGenerateRLNProof (generateProof sample_library []) epoch (Some (mount_rln 600 []))
      (1201 / 2) 601 (message_at 599) (nonce_init 20 600) = (Inr m', nm')
    \<and> fst (rln_validator (env_of sample_library sample_init [replicate 32 0]) 602 602 m'
        (mount_rln 600 [replicate 32 0])) = Reject"
proof -
  let ?m = "message_at 599" and ?r = "mount_rln 600 [replicate 32 0]"
  have s: "library_sound sample_library" "encoding_sound sample_library [] epoch sample_init"
    "proves_with sample_library (validRoots ?r)"
    by (auto simp: library_sound_def encoding_sound_def proves_with_def sample_library_def sample_init_def
      byte_range_def proof_of_bytes_def Let_def)
  obtain m' nm' where m': "checkAndGenerateRLNProof (generateProof sample_library []) epoch
      (Some (mount_rln 600 [])) (1201 / 2) 601 ?m (nonce_init 20 600) = (Inr m', nm')"
    by (simp add: checkAndGenerateRLNProof_def appendRLNProof_def createRlnProof_def message_at_def
      getNonce_cases nonce_init_def generateProof_def sample_library_def)
  have t: "message_time ?m = 599" by (simp add: message_time_def message_at_def)
  have f: "\<lfloor>1201 / 2 :: rat\<rfloor> = 600" by (rule floor_unique) simp_all
  have e: "epoch_number 600 599 = 0" "epoch_number 600 600 = 1"
    using epoch_number_eq [of 600 600 0 599] epoch_number_eq [of 600 600 1 600] by simp_all
  let ?d = "fst (rln_validator (env_of sample_library sample_init (validRoots ?r)) 602 602 m' ?r)"
  have a: "msg_proof ?m = []" by (simp add: message_at_def)
  have g: "u64_of_float \<bar>602 - message_time ?m\<bar> \<le> rlnMaxTimestampGap ?r"
    by (simp add: t u64_of_float_def word_le_nat_alt)
  have "?d \<noteq> Accept"
    using published_accepted [OF s m' a _ _ g, of 602] by (simp add: t f e)
  then have "?d = Reject" by (cases ?d) simp_all
  with m' show ?thesis by auto
qed

end
