(* ===== verification/MessageCache.thy ===== *)
theory MessageCache
  imports MessageHash "HOL-Library.Multiset"
begin

text \<open>
  The cache behind the REST interface, \<open>waku/rest_api/message_cache.nim\<close>: messages in a sequence,
  topics in two sequences, and two indices that pair the position of a topic with that of a message.
  Removal is \<open>del\<close>, which moves the last element into the gap, so the indices are renumbered. The
  cache refines a set of messages with the topics each is kept under.
\<close>

section \<open>Sequences\<close>

text \<open>\<open>del\<close> for a position in range, and with the range checks of Nim.\<close>

definition list_del :: "nat \<Rightarrow> 'a list \<Rightarrow> 'a list" where
  "list_del i xs = butlast (xs[i := last xs])"

definition seq_del :: "int \<Rightarrow> 'a list \<Rightarrow> defect + 'a list" where
  "seq_del i xs =
     (if i < 0 then Inl RangeDefect
      else if int (length xs) \<le> i then Inl IndexDefect
      else Inr (list_del (nat i) xs))"

fun topic_search :: "string list \<Rightarrow> string \<Rightarrow> nat option" where
  "topic_search [] t = None"
| "topic_search (s # ts) t = (if s = t then Some 0 else map_option Suc (topic_search ts t))"

section \<open>State\<close>

type_synonym topic_index = "(nat \<times> nat) list"

record MessageCache =
  pubsubTopics :: "string list"
  contentTopics :: "string list"
  pubsubIndex :: topic_index
  contentIndex :: topic_index
  messages :: "WakuMessage list"
  capacity :: int

definition DefaultMessageCacheCapacity :: int where "DefaultMessageCacheCapacity = 50"

definition cache_init :: "int \<Rightarrow> MessageCache" where
  "cache_init cap =
     \<lparr>pubsubTopics = [], contentTopics = [], pubsubIndex = [], contentIndex = [], messages = [],
      capacity = cap\<rparr>"

definition pubsubSearch :: "MessageCache \<Rightarrow> string \<Rightarrow> nat option" where
  "pubsubSearch c t = topic_search (pubsubTopics c) t"

definition contentSearch :: "MessageCache \<Rightarrow> string \<Rightarrow> nat option" where
  "contentSearch c t = topic_search (contentTopics c) t"

definition isPubsubSubscribed :: "MessageCache \<Rightarrow> string \<Rightarrow> bool" where
  "isPubsubSubscribed c t \<longleftrightarrow> pubsubSearch c t \<noteq> None"

definition isContentSubscribed :: "MessageCache \<Rightarrow> string \<Rightarrow> bool" where
  "isContentSubscribed c t \<longleftrightarrow> contentSearch c t \<noteq> None"

definition pubsubSubscribe :: "string \<Rightarrow> MessageCache \<Rightarrow> MessageCache" where
  "pubsubSubscribe t c =
     (if pubsubSearch c t = None then c\<lparr>pubsubTopics := pubsubTopics c @ [t]\<rparr> else c)"

definition contentSubscribe :: "string \<Rightarrow> MessageCache \<Rightarrow> MessageCache" where
  "contentSubscribe t c =
     (if contentSearch c t = None then c\<lparr>contentTopics := contentTopics c @ [t]\<rparr> else c)"

section \<open>Removal\<close>

text \<open>
  The loops over an index go from its end: an entry is deleted, and its message noted, or replaced.
\<close>

fun index_loop ::
  "(nat \<times> nat \<Rightarrow> (nat \<times> nat) option) \<Rightarrow> nat \<Rightarrow> topic_index \<Rightarrow> nat list \<Rightarrow> topic_index \<times> nat list" where
  "index_loop f 0 ix acc = (ix, acc)"
| "index_loop f (Suc j) ix acc =
     (case f (ix ! j) of
        None \<Rightarrow> index_loop f j (list_del j ix) (acc @ [snd (ix ! j)])
      | Some e \<Rightarrow> index_loop f j (ix[j := e]) acc)"

fun drop_message :: "nat \<Rightarrow> nat \<Rightarrow> nat \<times> nat \<Rightarrow> (nat \<times> nat) option" where
  "drop_message idx lastIndex (p, m) =
     (if m = idx then None else if m = lastIndex then Some (p, idx) else Some (p, m))"

fun drop_topic :: "nat \<Rightarrow> nat \<Rightarrow> nat \<times> nat \<Rightarrow> (nat \<times> nat) option" where
  "drop_topic idx lastIndex (p, m) =
     (if p = idx then None else if p = lastIndex then Some (idx, m) else Some (p, m))"

definition removeMessage :: "int \<Rightarrow> MessageCache \<Rightarrow> defect + MessageCache" where
  "removeMessage idx c =
     rbind (seq_del idx (messages c)) (\<lambda>ms.
       let lastIndex = length (messages c) - 1; f = drop_message (nat idx) lastIndex in
       Inr (c\<lparr>messages := ms,
              pubsubIndex := fst (index_loop f (length (pubsubIndex c)) (pubsubIndex c) []),
              contentIndex := fst (index_loop f (length (contentIndex c)) (contentIndex c) [])\<rparr>))"

text \<open>Messages of a topic that goes are removed unless the other index still has them.\<close>

fun remove_unindexed ::
  "(MessageCache \<Rightarrow> topic_index) \<Rightarrow> nat list \<Rightarrow> MessageCache \<Rightarrow> defect + MessageCache" where
  "remove_unindexed other [] c = Inr c"
| "remove_unindexed other (m # ms) c =
     rbind (if list_ex (\<lambda>e. snd e = m) (other c) then Inr c else removeMessage (int m) c)
       (remove_unindexed other ms)"

definition pubsubUnsubscribe :: "string \<Rightarrow> MessageCache \<Rightarrow> defect + MessageCache" where
  "pubsubUnsubscribe t c =
     (case pubsubSearch c t of
        None \<Rightarrow> Inr c
      | Some i \<Rightarrow>
          let lastIndex = length (pubsubTopics c) - 1;
              r = index_loop (drop_topic i lastIndex) (length (pubsubIndex c)) (pubsubIndex c) []
          in remove_unindexed contentIndex (rev (sort (snd r)))
               (c\<lparr>pubsubTopics := list_del i (pubsubTopics c), pubsubIndex := fst r\<rparr>))"

definition contentUnsubscribe :: "string \<Rightarrow> MessageCache \<Rightarrow> defect + MessageCache" where
  "contentUnsubscribe t c =
     (case contentSearch c t of
        None \<Rightarrow> Inr c
      | Some i \<Rightarrow>
          let lastIndex = length (contentTopics c) - 1;
              r = index_loop (drop_topic i lastIndex) (length (contentIndex c)) (contentIndex c) []
          in remove_unindexed pubsubIndex (rev (sort (snd r)))
               (c\<lparr>contentTopics := list_del i (contentTopics c), contentIndex := fst r\<rparr>))"

definition cache_reset :: "MessageCache \<Rightarrow> MessageCache" where
  "cache_reset c =
     c\<lparr>messages := [], pubsubTopics := [], contentTopics := [], pubsubIndex := [],
       contentIndex := []\<rparr>"

section \<open>Adding a message\<close>

text \<open>
  The pass over the reversed messages ends the procedure at an equal one; else it gives the position,
  in the reversed sequence, of the latest with the least timestamp below the largest.
\<close>

fun oldest_loop :: "WakuMessage \<Rightarrow> WakuMessage list \<Rightarrow> int \<Rightarrow> int \<Rightarrow> int \<Rightarrow> int option" where
  "oldest_loop msg [] i oldestTime oldestMsg = Some oldestMsg"
| "oldest_loop msg (m # ms) i oldestTime oldestMsg =
     (if m = msg then None
      else if timestamp m < oldestTime then oldest_loop msg ms (i + 1) (timestamp m) i
      else oldest_loop msg ms (i + 1) oldestTime oldestMsg)"

definition int64_high :: int where "int64_high = 2 ^ 63 - 1"

text \<open>The position of a topic, which is added at the end where it is new.\<close>

definition topic_slot :: "string list \<Rightarrow> string \<Rightarrow> nat \<times> string list" where
  "topic_slot ts t =
     (case topic_search ts t of None \<Rightarrow> (length ts, ts @ [t]) | Some i \<Rightarrow> (i, ts))"

definition append_message :: "nat \<Rightarrow> nat \<Rightarrow> WakuMessage \<Rightarrow> MessageCache \<Rightarrow> MessageCache" where
  "append_message pubsubIdx contentIdx msg c =
     c\<lparr>messages := messages c @ [msg],
       pubsubIndex := pubsubIndex c @ [(pubsubIdx, length (messages c))],
       contentIndex := contentIndex c @ [(contentIdx, length (messages c))]\<rparr>"

definition addMessage :: "string \<Rightarrow> WakuMessage \<Rightarrow> MessageCache \<Rightarrow> defect + MessageCache" where
  "addMessage pubsubTopic msg c =
     (case oldest_loop msg (rev (messages c)) 0 int64_high int64_high of
        None \<Rightarrow> Inr c
      | Some oldest \<Rightarrow>
          let oldestMsg = int (length (messages c)) - 1 - oldest in
          if pubsubSearch c pubsubTopic = None \<and> contentSearch c (contentTopic msg) = None then Inr c
          else
            let (pubsubIdx, pts) = topic_slot (pubsubTopics c) pubsubTopic;
                (contentIdx, cts) = topic_slot (contentTopics c) (contentTopic msg);
                c1 = c\<lparr>pubsubTopics := pts, contentTopics := cts\<rparr>
            in rbind
                 (if capacity c \<le> int (length (messages c)) then removeMessage oldestMsg c1 else Inr c1)
                 (\<lambda>c2. Inr (append_message pubsubIdx contentIdx msg c2)))"

section \<open>Reading\<close>

fun messages_at :: "nat list \<Rightarrow> WakuMessage list \<Rightarrow> defect + WakuMessage list" where
  "messages_at [] ms = Inr []"
| "messages_at (i # is) ms =
     (if i < length ms then rbind (messages_at is ms) (\<lambda>r. Inr (ms ! i # r)) else Inl IndexDefect)"

definition indices_of :: "nat \<Rightarrow> topic_index \<Rightarrow> nat list" where
  "indices_of t ix = map snd (filter (\<lambda>e. fst e = t) ix)"

fun remove_all :: "nat list \<Rightarrow> MessageCache \<Rightarrow> defect + MessageCache" where
  "remove_all [] c = Inr c"
| "remove_all (i # is) c = rbind (removeMessage (int i) c) (remove_all is)"

definition getMessages ::
  "string \<Rightarrow> bool \<Rightarrow> MessageCache \<Rightarrow> defect + (string + WakuMessage list) \<times> MessageCache" where
  "getMessages pubsubTopic clear c =
     (if pubsubTopics c = [] then Inr (Inl ''not subscribed to any pubsub topics'', c)
      else
        case pubsubSearch c pubsubTopic of
          None \<Rightarrow> Inr (Inl ''not subscribed to this pubsub topic'', c)
        | Some p \<Rightarrow>
            let is = indices_of p (pubsubIndex c) in
            rbind (messages_at is (messages c)) (\<lambda>ms.
              rbind (if clear then remove_all (rev is) c else Inr c) (\<lambda>c'. Inr (Inr ms, c'))))"

definition getAutoMessages ::
  "string \<Rightarrow> bool \<Rightarrow> MessageCache \<Rightarrow> defect + (string + WakuMessage list) \<times> MessageCache" where
  "getAutoMessages content clear c =
     (if contentTopics c = [] then Inr (Inl ''not subscribed to any content topics'', c)
      else
        case contentSearch c content of
          None \<Rightarrow> Inr (Inl ''not subscribed to this content topic'', c)
        | Some p \<Rightarrow>
            let is = indices_of p (contentIndex c) in
            rbind (messages_at is (messages c)) (\<lambda>ms.
              rbind (if clear then remove_all (rev (sort is)) c else Inr c) (\<lambda>c'. Inr (Inr ms, c'))))"

section \<open>Sequences: lemmas\<close>

lemma length_list_del [simp]: "length (list_del i xs) = length xs - 1"
  by (simp add: list_del_def)

lemma nth_list_del:
  "k < length xs - 1 \<Longrightarrow> i < length xs \<Longrightarrow>
    list_del i xs ! k = xs ! (if k = i then length xs - 1 else k)"
  by (cases "xs = []") (simp_all add: list_del_def nth_butlast nth_list_update last_conv_nth)

lemma list_del_snoc:
  "i \<le> length xs \<Longrightarrow> list_del i (xs @ [x]) = (if i = length xs then xs else xs[i := x])"
  by (auto simp: list_del_def butlast_list_update list_update_append)

lemma mset_list_del: "i < length xs \<Longrightarrow> mset (list_del i xs) = mset xs - {#xs ! i#}"
proof (cases xs rule: rev_cases)
  case (snoc ys y)
  assume "i < length xs"
  then show ?thesis using snoc
    by (auto simp: list_del_snoc nth_append mset_update less_Suc_eq add_mset_commute)
qed simp

lemma take_list_del: "j \<le> i \<Longrightarrow> i < length xs \<Longrightarrow> take j (list_del i xs) = take j xs"
  by (auto simp: list_del_def take_butlast)

lemma mset_Cons_list_del: "i < length xs \<Longrightarrow> mset (xs ! i # list_del i xs) = mset xs"
  by (simp add: mset_list_del)

lemma distinct_list_del:
  "distinct xs \<Longrightarrow> i < length xs \<Longrightarrow> distinct (list_del i xs) \<and> xs ! i \<notin> set (list_del i xs)"
  by (metis distinct.simps(2) mset_Cons_list_del mset_eq_imp_distinct_iff)

lemma set_list_del:
  "distinct xs \<Longrightarrow> i < length xs \<Longrightarrow> set (list_del i xs) = set xs - {xs ! i}"
  using distinct_list_del [of xs i] mset_eq_setD [OF mset_Cons_list_del, of i xs] by auto

lemma topic_search_Some: "topic_search ts t = Some i \<Longrightarrow> i < length ts \<and> ts ! i = t"
  by (induction ts arbitrary: i) (auto split: if_splits)

lemma topic_search_None: "topic_search ts t = None \<longleftrightarrow> t \<notin> set ts"
  by (induction ts) auto

section \<open>The index loop\<close>

lemma index_loop_mset:
  "j \<le> length ix \<Longrightarrow>
    mset (fst (index_loop f j ix acc)) = mset (List.map_filter f (take j ix)) + mset (drop j ix) \<and>
    snd (index_loop f j ix acc) = acc @ rev (map snd (filter (\<lambda>e. f e = None) (take j ix)))"
proof (induction j arbitrary: ix acc)
  case (Suc j)
  then have j: "j < length ix" by simp
  have split: "take (Suc j) ix = take j ix @ [ix ! j]"
    "mset (drop j ix) = add_mset (ix ! j) (mset (drop (Suc j) ix))"
    using j by (simp_all add: take_Suc_conv_app_nth flip: Cons_nth_drop_Suc)
  show ?case
  proof (cases "f (ix ! j)")
    case None
    have "mset (take j ix) + mset (drop j (list_del j ix)) = mset (list_del j ix)"
      using j by (metis append_take_drop_id mset_append order_refl take_list_del)
    also have "\<dots> = mset (take j ix) + mset (drop j ix) - {#ix ! j#}"
      using j by (metis append_take_drop_id mset_append mset_list_del)
    finally have "mset (drop j (list_del j ix)) = mset (drop (Suc j) ix)"
      using j by (simp add: split(2))
    moreover have "j \<le> length (list_del j ix)" using j by simp
    ultimately show ?thesis
      using Suc.IH [of "list_del j ix" "acc @ [snd (ix ! j)]"] None j
      by (simp add: split(1) take_list_del map_filter_def)
  next
    case (Some e)
    have "j \<le> length (ix[j := e])" using j by simp
    moreover have "drop j (ix[j := e]) = e # drop (Suc j) ix"
      using j by (simp add: drop_update_swap flip: Cons_nth_drop_Suc)
    ultimately show ?thesis
      using Suc.IH [of "ix[j := e]" acc] Some j by (simp add: split(1) map_filter_def)
  qed
qed simp

lemma index_loop_all:
  "mset (fst (index_loop f (length ix) ix [])) = mset (List.map_filter f ix)"
  "snd (index_loop f (length ix) ix []) = rev (map snd (filter (\<lambda>e. f e = None) ix))"
  using index_loop_mset [of "length ix" ix f "[]"] by simp_all

lemma index_loop_set: "set (fst (index_loop f (length ix) ix [])) = {e'. \<exists>e \<in> set ix. f e = Some e'}"
  by (subst mset_eq_setD [OF index_loop_all(1)]) (force simp: map_filter_def)

lemma index_loop_distinct:
  "distinct (map snd (fst (index_loop f (length ix) ix []))) \<longleftrightarrow>
    distinct (map snd (List.map_filter f ix))"
  by (metis index_loop_all(1) mset_eq_imp_distinct_iff mset_map)

section \<open>Invariant and abstraction\<close>

definition index_ok :: "nat \<Rightarrow> nat \<Rightarrow> topic_index \<Rightarrow> bool" where
  "index_ok nt nm ix \<longleftrightarrow> (\<forall>e \<in> set ix. fst e < nt \<and> snd e < nm) \<and> distinct (map snd ix)"

text \<open>The messages an index keeps, each with its topic.\<close>

definition kept :: "topic_index \<Rightarrow> string list \<Rightarrow> WakuMessage list \<Rightarrow> (WakuMessage \<times> string) set" where
  "kept ix ts ms = (\<lambda>e. (ms ! snd e, ts ! fst e)) ` set ix"

definition by_pubsub :: "MessageCache \<Rightarrow> (WakuMessage \<times> string) set" where
  "by_pubsub c = kept (pubsubIndex c) (pubsubTopics c) (messages c)"

definition by_content :: "MessageCache \<Rightarrow> (WakuMessage \<times> string) set" where
  "by_content c = kept (contentIndex c) (contentTopics c) (messages c)"

definition cache_indexed :: "MessageCache \<Rightarrow> bool" where
  "cache_indexed c \<longleftrightarrow> distinct (messages c) \<and> distinct (pubsubTopics c) \<and> distinct (contentTopics c)
     \<and> index_ok (length (pubsubTopics c)) (length (messages c)) (pubsubIndex c)
     \<and> index_ok (length (contentTopics c)) (length (messages c)) (contentIndex c)"

definition cache_ok :: "MessageCache \<Rightarrow> bool" where
  "cache_ok c \<longleftrightarrow> cache_indexed c \<and> set (messages c) \<subseteq> fst ` (by_pubsub c \<union> by_content c)"

text \<open>Deleting a message or a topic renumbers an index without changing what it says of the rest.\<close>

lemma distinct_renumbered:
  assumes ix: "distinct (map snd ix)"
    and f: "\<And>e e' d d'. e \<in> set ix \<Longrightarrow> e' \<in> set ix \<Longrightarrow> f e = Some d \<Longrightarrow> f e' = Some d' \<Longrightarrow>
      snd d = snd d' \<Longrightarrow> snd e = snd e'"
  shows "distinct (map snd (fst (index_loop f (length ix) ix [])))"
proof -
  let ?ys = "filter (\<lambda>e. f e \<noteq> None) ix"
  have "distinct ix" and inj: "inj_on snd (set ix)" using ix by (simp_all add: distinct_map)
  have "inj_on (\<lambda>e. snd (the (f e))) (set ?ys)"
  proof (rule inj_onI)
    fix e e' assume e: "e \<in> set ?ys" "e' \<in> set ?ys" "snd (the (f e)) = snd (the (f e'))"
    then have "snd e = snd e'" using f [of e e'] by auto
    with inj e show "e = e'" by (simp add: inj_on_def)
  qed
  then have "distinct (map (\<lambda>e. snd (the (f e))) ?ys)"
    using \<open>distinct ix\<close> by (simp add: distinct_map)
  moreover have "map snd (List.map_filter f ix) = map (\<lambda>e. snd (the (f e))) ?ys"
    by (simp add: map_filter_def)
  ultimately show ?thesis by (simp add: index_loop_distinct)
qed

lemma kept_renumbered:
  assumes val: "\<And>e e'. e \<in> set ix \<Longrightarrow> f e = Some e' \<Longrightarrow>
      (ms' ! snd e', ts' ! fst e') = (ms ! snd e, ts ! fst e)"
    and ne: "\<And>e. e \<in> set ix \<Longrightarrow> P (ms ! snd e, ts ! fst e) \<longleftrightarrow> (\<exists>e'. f e = Some e')"
  shows "kept (fst (index_loop f (length ix) ix [])) ts' ms' = {x \<in> kept ix ts ms. P x}"
proof (intro set_eqI iffI)
  fix x assume "x \<in> kept (fst (index_loop f (length ix) ix [])) ts' ms'"
  then obtain e e' where e: "e \<in> set ix" "f e = Some e'" "x = (ms' ! snd e', ts' ! fst e')"
    unfolding kept_def index_loop_set by auto
  with val [OF e(1,2)] ne [OF e(1)] show "x \<in> {x \<in> kept ix ts ms. P x}"
    unfolding kept_def by auto
next
  fix x assume "x \<in> {x \<in> kept ix ts ms. P x}"
  then obtain e where e: "e \<in> set ix" "x = (ms ! snd e, ts ! fst e)" "P x"
    unfolding kept_def by auto
  then obtain e' where e': "f e = Some e'" using ne by blast
  then have "e' \<in> {e'. \<exists>e \<in> set ix. f e = Some e'}" using e(1) by auto
  then show "x \<in> kept (fst (index_loop f (length ix) ix [])) ts' ms'"
    unfolding kept_def index_loop_set e(2) val [OF e(1) e', symmetric] by (rule imageI)
qed

lemma index_without_message:
  assumes "index_ok nt (length ms) ix" "i < length ms" "distinct ms"
    and ix': "ix' = fst (index_loop (drop_message i (length ms - 1)) (length ix) ix [])"
  shows "index_ok nt (length ms - 1) ix'"
    and "kept ix' ts (list_del i ms) = {x \<in> kept ix ts ms. fst x \<noteq> ms ! i}"
proof -
  have rng: "\<forall>e \<in> set ix. fst e < nt \<and> snd e < length ms" and dis: "distinct (map snd ix)"
    using assms(1) by (simp_all add: index_ok_def)
  let ?f = "drop_message i (length ms - 1)"
  have "distinct (map snd ix')"
    unfolding ix' using dis by (rule distinct_renumbered) (auto split: if_splits)
  moreover have "fst e' < nt \<and> snd e' < length ms - 1" if "e' \<in> set ix'" for e'
    using that rng assms(2) unfolding ix' index_loop_set by (fastforce split: if_splits)
  ultimately show "index_ok nt (length ms - 1) ix'" by (simp add: index_ok_def)
  show "kept ix' ts (list_del i ms) = {x \<in> kept ix ts ms. fst x \<noteq> ms ! i}"
    unfolding ix'
  proof (rule kept_renumbered)
    fix e e' assume that: "e \<in> set ix" "?f e = Some e'"
    obtain p m where Pair: "e = (p, m)" by (cases e)
    with that rng have "m < length ms" "m \<noteq> i" by (auto split: if_splits)
    with that Pair assms(2) show "(list_del i ms ! snd e', ts ! fst e') = (ms ! snd e, ts ! fst e)"
      by (cases "m = length ms - 1") (auto simp: nth_list_del)
  next
    fix e assume e: "e \<in> set ix"
    obtain p m where Pair: "e = (p, m)" by fastforce
    show "fst (ms ! snd e, ts ! fst e) \<noteq> ms ! i \<longleftrightarrow> (\<exists>e'. ?f e = Some e')"
      using e rng assms(2,3) unfolding Pair by (auto simp: nth_eq_iff_index_eq)
  qed
qed

lemma index_without_topic:
  assumes "index_ok (length ts) nm ix" "i < length ts" "distinct ts"
    and ix': "ix' = fst (index_loop (drop_topic i (length ts - 1)) (length ix) ix [])"
  shows "index_ok (length ts - 1) nm ix'"
    and "kept ix' (list_del i ts) ms = {x \<in> kept ix ts ms. snd x \<noteq> ts ! i}"
proof -
  have rng: "\<forall>e \<in> set ix. fst e < length ts \<and> snd e < nm" and dis: "distinct (map snd ix)"
    using assms(1) by (simp_all add: index_ok_def)
  let ?f = "drop_topic i (length ts - 1)"
  have "distinct (map snd ix')"
    unfolding ix' using dis by (rule distinct_renumbered) (auto split: if_splits)
  moreover have "fst e' < length ts - 1 \<and> snd e' < nm" if "e' \<in> set ix'" for e'
    using that rng assms(2) unfolding ix' index_loop_set by (fastforce split: if_splits)
  ultimately show "index_ok (length ts - 1) nm ix'" by (simp add: index_ok_def)
  show "kept ix' (list_del i ts) ms = {x \<in> kept ix ts ms. snd x \<noteq> ts ! i}"
    unfolding ix'
  proof (rule kept_renumbered)
    fix e e' assume that: "e \<in> set ix" "?f e = Some e'"
    obtain p m where Pair: "e = (p, m)" by (cases e)
    with that rng have "p < length ts" "p \<noteq> i" by (auto split: if_splits)
    with that Pair assms(2) show "(ms ! snd e', list_del i ts ! fst e') = (ms ! snd e, ts ! fst e)"
      by (cases "p = length ts - 1") (auto simp: nth_list_del)
  next
    fix e assume e: "e \<in> set ix"
    obtain p m where Pair: "e = (p, m)" by fastforce
    show "snd (ms ! snd e, ts ! fst e) \<noteq> ts ! i \<longleftrightarrow> (\<exists>e'. ?f e = Some e')"
      using e rng assms(2,3) unfolding Pair by (auto simp: nth_eq_iff_index_eq)
  qed
qed

lemma kept_functional:
  assumes "index_ok nt (length ms) ix" "distinct ms" "(w, s) \<in> kept ix ts ms" "(w, t) \<in> kept ix ts ms"
  shows "s = t"
proof -
  obtain e e' where e: "e \<in> set ix" "w = ms ! snd e" "s = ts ! fst e"
    "e' \<in> set ix" "w = ms ! snd e'" "t = ts ! fst e'"
    using assms(3,4) unfolding kept_def by auto
  have "snd e = snd e'"
    using e assms(1,2) unfolding index_ok_def by (metis nth_eq_iff_index_eq)
  then have "e = e'" using e(1,4) assms(1) unfolding index_ok_def distinct_map inj_on_def by blast
  with e show ?thesis by simp
qed

lemma kept_range: "index_ok (length ts) (length ms) ix \<Longrightarrow> kept ix ts ms \<subseteq> set ms \<times> set ts"
  unfolding kept_def index_ok_def by auto

section \<open>Removing messages\<close>

lemma removeMessage_ok:
  assumes "cache_indexed c" "i < length (messages c)"
  shows "\<exists>c'. removeMessage (int i) c = Inr c' \<and> cache_indexed c'
    \<and> messages c' = list_del i (messages c) \<and> pubsubTopics c' = pubsubTopics c
    \<and> contentTopics c' = contentTopics c \<and> capacity c' = capacity c
    \<and> by_pubsub c' = {x \<in> by_pubsub c. fst x \<noteq> messages c ! i}
    \<and> by_content c' = {x \<in> by_content c. fst x \<noteq> messages c ! i}"
proof -
  let ?f = "drop_message i (length (messages c) - 1)"
  let ?p = "fst (index_loop ?f (length (pubsubIndex c)) (pubsubIndex c) [])"
  let ?q = "fst (index_loop ?f (length (contentIndex c)) (contentIndex c) [])"
  let ?c = "c\<lparr>messages := list_del i (messages c), pubsubIndex := ?p, contentIndex := ?q\<rparr>"
  have ms: "distinct (messages c)" using assms(1) by (simp add: cache_indexed_def)
  have p: "index_ok (length (pubsubTopics c)) (length (messages c)) (pubsubIndex c)"
    and q: "index_ok (length (contentTopics c)) (length (messages c)) (contentIndex c)"
    using assms(1) by (simp_all add: cache_indexed_def)
  have "removeMessage (int i) c = Inr ?c"
    using assms(2) by (simp add: removeMessage_def seq_del_def Let_def)
  moreover have "cache_indexed ?c"
    using assms index_without_message(1) [OF p assms(2) ms refl]
      index_without_message(1) [OF q assms(2) ms refl]
    by (simp add: cache_indexed_def distinct_list_del)
  moreover have "by_pubsub ?c = {x \<in> by_pubsub c. fst x \<noteq> messages c ! i}"
    "by_content ?c = {x \<in> by_content c. fst x \<noteq> messages c ! i}"
    using index_without_message(2) [OF p assms(2) ms refl]
      index_without_message(2) [OF q assms(2) ms refl]
    by (simp_all add: by_pubsub_def by_content_def)
  ultimately show ?thesis by (intro exI [of _ ?c]) simp
qed

lemma removeMessage_Inr:
  "removeMessage (int i) c = Inr c' \<Longrightarrow> i < length (messages c)"
  by (simp add: removeMessage_def seq_del_def rbind_eq_Inr split: if_splits)

text \<open>Removals, in whatever order, that all succeed remove just the messages that were meant.\<close>

definition without :: "WakuMessage set \<Rightarrow> MessageCache \<Rightarrow> MessageCache \<Rightarrow> bool" where
  "without W c c' \<longleftrightarrow> cache_indexed c' \<and> pubsubTopics c' = pubsubTopics c
     \<and> contentTopics c' = contentTopics c \<and> capacity c' = capacity c
     \<and> set (messages c') = set (messages c) - W
     \<and> by_pubsub c' = {x \<in> by_pubsub c. fst x \<notin> W} \<and> by_content c' = {x \<in> by_content c. fst x \<notin> W}"

lemma removeMessage_without:
  assumes "cache_indexed c" "removeMessage (int i) c = Inr c'"
  shows "without {messages c ! i} c c'" and "messages c' = list_del i (messages c)"
proof -
  have "i < length (messages c)" using assms(2) by (rule removeMessage_Inr)
  with assms removeMessage_ok [of c i] set_list_del [of "messages c" i]
  show "without {messages c ! i} c c'" "messages c' = list_del i (messages c)"
    by (auto simp: without_def cache_indexed_def)
qed

lemma remove_all_in_range:
  "cache_indexed c \<Longrightarrow> remove_all is c = Inr c' \<Longrightarrow> \<forall>i \<in> set is. i < length (messages c)"
proof (induction "is" arbitrary: c)
  case (Cons i "is")
  from Cons.prems(2) obtain c1 where c1: "removeMessage (int i) c = Inr c1" "remove_all is c1 = Inr c'"
    by (auto simp: rbind_eq_Inr)
  note w = removeMessage_without [OF Cons.prems(1) c1(1)]
  have "\<forall>i \<in> set is. i < length (messages c1)"
    using Cons.IH [OF _ c1(2)] w(1) by (simp add: without_def)
  with w(2) removeMessage_Inr [OF c1(1)] show ?case by auto
qed simp

lemma remove_all_without:
  "cache_indexed c \<Longrightarrow> distinct is \<Longrightarrow> remove_all is c = Inr c' \<Longrightarrow>
    without ((!) (messages c) ` set is) c c'"
proof (induction "is" arbitrary: c)
  case Nil
  then show ?case by (simp add: without_def)
next
  case (Cons i "is")
  from Cons.prems(3) obtain c1 where c1: "removeMessage (int i) c = Inr c1" "remove_all is c1 = Inr c'"
    by (auto simp: rbind_eq_Inr)
  note w = removeMessage_without [OF Cons.prems(1) c1(1)]
  have i: "i < length (messages c)" using c1(1) by (rule removeMessage_Inr)
  have ind: "cache_indexed c1" using w(1) by (simp add: without_def)
  have "messages c1 ! k = messages c ! k" if "k \<in> set is" for k
  proof -
    have "k < length (messages c) - 1" using remove_all_in_range [OF ind c1(2)] that w(2) by auto
    moreover have "k \<noteq> i" using that Cons.prems(2) by auto
    ultimately show ?thesis using i by (simp add: w(2) nth_list_del)
  qed
  then have "(!) (messages c1) ` set is = (!) (messages c) ` set is" by (rule image_cong [OF refl])
  moreover have "without ((!) (messages c1) ` set is) c1 c'"
    using Cons.IH [OF ind _ c1(2)] Cons.prems(2) by simp
  ultimately show ?case using w(1) unfolding without_def by auto
qed

lemma remove_all_descending:
  "cache_indexed c \<Longrightarrow> sorted_wrt (>) is \<Longrightarrow> \<forall>i \<in> set is. i < length (messages c) \<Longrightarrow>
    \<exists>c'. remove_all is c = Inr c'"
proof (induction "is" arbitrary: c)
  case (Cons i "is")
  then obtain c1 where c1: "removeMessage (int i) c = Inr c1" using removeMessage_ok [of c i] by auto
  note w = removeMessage_without [OF Cons.prems(1) c1]
  have "\<forall>k \<in> set is. k < length (messages c1)" using Cons.prems w(2) by fastforce
  with Cons.IH [of c1] Cons.prems(2) w(1) obtain c' where "remove_all is c1 = Inr c'"
    by (auto simp: without_def)
  with c1 show ?case by auto
qed simp

section \<open>Unsubscribing\<close>

lemma content_index_below:
  assumes "removeMessage (int i) c = Inr c'" "k < i"
  shows "(\<exists>e \<in> set (contentIndex c'). snd e = k) \<longleftrightarrow> (\<exists>e \<in> set (contentIndex c). snd e = k)"
proof -
  let ?l = "length (messages c) - 1"
  have "i \<le> ?l" using removeMessage_Inr [OF assms(1)] by simp
  have "contentIndex c' = fst (index_loop (drop_message i ?l) (length (contentIndex c)) (contentIndex c) [])"
    using assms(1) by (auto simp: removeMessage_def rbind_eq_Inr Let_def)
  then have set: "set (contentIndex c') = {e'. \<exists>e \<in> set (contentIndex c). drop_message i ?l e = Some e'}"
    by (simp add: index_loop_set)
  have "(\<exists>e'. drop_message i ?l e = Some e' \<and> snd e' = k) \<longleftrightarrow> snd e = k" for e
    using assms(2) \<open>i \<le> ?l\<close> by (cases e) auto
  then show ?thesis unfolding set by blast
qed

lemma remove_unindexed_filter:
  "cache_indexed c \<Longrightarrow> sorted_wrt (>) is \<Longrightarrow> \<forall>i \<in> set is. i < length (messages c) \<Longrightarrow>
    remove_unindexed contentIndex is c =
      remove_all (filter (\<lambda>m. \<forall>e \<in> set (contentIndex c). snd e \<noteq> m) is) c"
proof (induction "is" arbitrary: c)
  case (Cons i "is")
  show ?case
  proof (cases "\<exists>e \<in> set (contentIndex c). snd e = i")
    case True
    with Cons show ?thesis by (auto simp: list_ex_iff)
  next
    case False
    from Cons.prems obtain c1 where c1: "removeMessage (int i) c = Inr c1"
      using removeMessage_ok [of c i] by auto
    note w = removeMessage_without [OF Cons.prems(1) c1]
    have "\<forall>k \<in> set is. k < length (messages c1)" using Cons.prems w(2) by fastforce
    then have "remove_unindexed contentIndex is c1 =
        remove_all (filter (\<lambda>m. \<forall>e \<in> set (contentIndex c1). snd e \<noteq> m) is) c1"
      using Cons.IH [of c1] Cons.prems(2) w(1) by (simp add: without_def)
    moreover have "filter (\<lambda>m. \<forall>e \<in> set (contentIndex c1). snd e \<noteq> m) is =
        filter (\<lambda>m. \<forall>e \<in> set (contentIndex c). snd e \<noteq> m) is"
      using content_index_below [OF c1] Cons.prems(2) by (intro filter_cong) auto
    ultimately show ?thesis using False c1 by (simp add: list_ex_iff)
  qed
qed simp

lemma sorted_wrt_greater_rev_sort: "distinct is \<Longrightarrow> sorted_wrt (>) (rev (sort (is :: nat list)))"
  by (simp add: sorted_wrt_rev strict_sorted_iff)

lemma fst_kept: "fst ` kept ix ts ms = (!) ms ` snd ` set ix"
  by (simp add: kept_def image_image)

lemma unindexed_messages:
  assumes p: "index_ok (length ts) (length ms) ix" and q: "index_ok (length us) (length ms) jx"
    and "distinct ts" "distinct ms" "i < length ts"
  shows "(!) ms ` {m. (i, m) \<in> set ix \<and> (\<forall>e \<in> set jx. snd e \<noteq> m)} =
    {w. (w, ts ! i) \<in> kept ix ts ms \<and> w \<notin> fst ` kept jx us ms}"
proof (intro set_eqI iffI)
  fix w assume "w \<in> (!) ms ` {m. (i, m) \<in> set ix \<and> (\<forall>e \<in> set jx. snd e \<noteq> m)}"
  then obtain m where m: "w = ms ! m" "(i, m) \<in> set ix" "\<forall>e \<in> set jx. snd e \<noteq> m" by auto
  have "(w, ts ! i) \<in> kept ix ts ms"
    unfolding kept_def by (rule image_eqI [OF _ m(2)]) (simp add: m(1))
  moreover have "w \<noteq> ms ! snd e" if "e \<in> set jx" for e
    using that m p q assms(4) unfolding index_ok_def by (metis nth_eq_iff_index_eq snd_conv)
  ultimately show "w \<in> {w. (w, ts ! i) \<in> kept ix ts ms \<and> w \<notin> fst ` kept jx us ms}"
    by (auto simp: kept_def)
next
  fix w assume "w \<in> {w. (w, ts ! i) \<in> kept ix ts ms \<and> w \<notin> fst ` kept jx us ms}"
  then obtain e where e: "e \<in> set ix" "w = ms ! snd e" "ts ! fst e = ts ! i"
    "w \<notin> fst ` kept jx us ms" by (auto simp: kept_def)
  have "fst e = i" using e(1,3) assms(3,5) p by (auto simp: index_ok_def nth_eq_iff_index_eq)
  then have "(i, snd e) \<in> set ix" using e(1) by (cases e) simp
  moreover have "snd e \<notin> snd ` set jx" using e(2,4) by (auto simp: fst_kept)
  then have "\<forall>d \<in> set jx. snd d \<noteq> snd e" by (metis imageI)
  ultimately show "w \<in> (!) ms ` {m. (i, m) \<in> set ix \<and> (\<forall>e \<in> set jx. snd e \<noteq> m)}"
    using e(2) by blast
qed

text \<open>What unsubscribing from a topic does to the cache, seen from that side.\<close>

definition unsubscribed ::
  "string \<Rightarrow> MessageCache \<Rightarrow> MessageCache \<Rightarrow> bool" where
  "unsubscribed t c c' \<longleftrightarrow> cache_ok c' \<and> set (pubsubTopics c') = set (pubsubTopics c) - {t}
     \<and> contentTopics c' = contentTopics c \<and> capacity c' = capacity c
     \<and> by_pubsub c' = {x \<in> by_pubsub c. snd x \<noteq> t} \<and> by_content c' = by_content c
     \<and> set (messages c') = set (messages c) \<inter> fst ` (by_pubsub c' \<union> by_content c')"

lemma pubsubUnsubscribe_ok:
  assumes ok: "cache_ok c"
  shows "\<exists>c'. pubsubUnsubscribe t c = Inr c' \<and> unsubscribed t c c'"
proof (cases "pubsubSearch c t")
  case None
  have "index_ok (length (pubsubTopics c)) (length (messages c)) (pubsubIndex c)"
    using ok by (simp add: cache_ok_def cache_indexed_def)
  from kept_range [OF this] None have "\<forall>x \<in> by_pubsub c. snd x \<noteq> t" "t \<notin> set (pubsubTopics c)"
    by (auto simp: by_pubsub_def pubsubSearch_def topic_search_None)
  then show ?thesis
    using ok None by (auto simp: pubsubUnsubscribe_def unsubscribed_def cache_ok_def)
next
  case (Some i)
  have ind: "cache_indexed c" using ok by (simp add: cache_ok_def)
  then have dt: "distinct (pubsubTopics c)" and dm: "distinct (messages c)"
    and p: "index_ok (length (pubsubTopics c)) (length (messages c)) (pubsubIndex c)"
    and q: "index_ok (length (contentTopics c)) (length (messages c)) (contentIndex c)"
    by (simp_all add: cache_indexed_def)
  have i: "i < length (pubsubTopics c)" "pubsubTopics c ! i = t"
    using topic_search_Some [of "pubsubTopics c" t i] Some by (simp_all add: pubsubSearch_def)
  define f where "f = drop_topic i (length (pubsubTopics c) - 1)"
  define r where "r = index_loop f (length (pubsubIndex c)) (pubsubIndex c) []"
  define c1 where "c1 = c\<lparr>pubsubTopics := list_del i (pubsubTopics c), pubsubIndex := fst r\<rparr>"
  define js where "js = rev (sort (snd r))"
  define ks where "ks = filter (\<lambda>m. \<forall>e \<in> set (contentIndex c1). snd e \<noteq> m) js"
  define W where "W = (!) (messages c) ` set ks"
  have "f e = None \<longleftrightarrow> fst e = i" for e by (cases e) (simp add: f_def)
  then have snd_r: "snd r = rev (map snd (filter (\<lambda>e. fst e = i) (pubsubIndex c)))"
    unfolding r_def index_loop_all(2) by simp
  have sets: "set js = {m. (i, m) \<in> set (pubsubIndex c)}"
    unfolding js_def snd_r by force
  have "distinct (snd r)"
    unfolding snd_r using p by (simp add: index_ok_def distinct_map_filter)
  then have desc: "sorted_wrt (>) js" unfolding js_def by (rule sorted_wrt_greater_rev_sort)
  have rng: "\<forall>m \<in> set js. m < length (messages c)" using p sets by (auto simp: index_ok_def)
  note it = index_without_topic [OF p i(1) dt refl, folded f_def r_def]
  have ind1: "cache_indexed c1"
    using ind it(1) i(1) by (simp add: c1_def cache_indexed_def distinct_list_del)
  have p1: "by_pubsub c1 = {x \<in> by_pubsub c. snd x \<noteq> t}"
    using it(2) [of "messages c"] i(2) by (simp add: c1_def by_pubsub_def)
  have q1: "by_content c1 = by_content c" by (simp add: c1_def by_content_def)
  have "sorted_wrt (>) ks" "\<forall>m \<in> set ks. m < length (messages c1)"
    using desc rng by (auto simp: ks_def c1_def sorted_wrt_filter)
  from remove_all_descending [OF ind1 this] obtain c' where c': "remove_all ks c1 = Inr c'" by auto
  have "pubsubUnsubscribe t c = remove_unindexed contentIndex js c1"
    using Some by (simp add: pubsubUnsubscribe_def Let_def c1_def r_def f_def js_def)
  also have "\<dots> = Inr c'"
    using remove_unindexed_filter [OF ind1 desc] rng c' by (simp add: c1_def ks_def)
  finally have run: "pubsubUnsubscribe t c = Inr c'" .
  have "distinct ks" using \<open>sorted_wrt (>) ks\<close>
    by (metis distinct_rev sorted_wrt_rev strict_sorted_iff rev_rev_ident)
  from remove_all_without [OF ind1 this c'] have w: "without W c1 c'" by (simp add: W_def c1_def)
  have "W = (!) (messages c) ` {m. (i, m) \<in> set (pubsubIndex c) \<and> (\<forall>e \<in> set (contentIndex c). snd e \<noteq> m)}"
    by (auto simp: W_def ks_def c1_def sets)
  then have W: "W = {w. (w, t) \<in> by_pubsub c \<and> w \<notin> fst ` by_content c}"
    using unindexed_messages [OF p q dt dm i(1)] i(2) by (simp add: by_pubsub_def by_content_def)
  have "(w, s) \<in> by_pubsub c \<Longrightarrow> (w, t) \<in> by_pubsub c \<Longrightarrow> s = t" for w s
    unfolding by_pubsub_def by (rule kept_functional [OF p dm])
  then have pw: "by_pubsub c' = {x \<in> by_pubsub c. snd x \<noteq> t}" and qw: "by_content c' = by_content c"
    using w by (auto simp: without_def p1 q1 W)
  have ms: "set (messages c') = set (messages c) - W" using w by (simp add: without_def c1_def)
  have cov: "set (messages c) \<subseteq> fst ` (by_pubsub c \<union> by_content c)" using ok by (simp add: cache_ok_def)
  have left: "set (messages c) - W = set (messages c) \<inter> fst ` (by_pubsub c' \<union> by_content c')"
    unfolding pw qw W using cov \<open>\<And>w s. (w, s) \<in> by_pubsub c \<Longrightarrow> (w, t) \<in> by_pubsub c \<Longrightarrow> s = t\<close>
    by (auto simp: image_iff) force+
  have "unsubscribed t c c'"
    using w ms pw qw left i dt
    by (auto simp: unsubscribed_def without_def cache_ok_def c1_def set_list_del)
  with run show ?thesis by blast
qed

text \<open>The two sides of the cache are treated alike, so exchanging them gives the same for the other.\<close>

definition mirror :: "MessageCache \<Rightarrow> MessageCache" where
  "mirror c =
     c\<lparr>pubsubTopics := contentTopics c, contentTopics := pubsubTopics c,
       pubsubIndex := contentIndex c, contentIndex := pubsubIndex c\<rparr>"

lemma mirror_fields [simp]:
  "pubsubTopics (mirror c) = contentTopics c" "contentTopics (mirror c) = pubsubTopics c"
  "pubsubIndex (mirror c) = contentIndex c" "contentIndex (mirror c) = pubsubIndex c"
  "messages (mirror c) = messages c" "capacity (mirror c) = capacity c" "mirror (mirror c) = c"
  "by_pubsub (mirror c) = by_content c" "by_content (mirror c) = by_pubsub c"
  by (simp_all add: mirror_def by_pubsub_def by_content_def)

lemma mirror_ok [simp]: "cache_ok (mirror c) = cache_ok c"
  by (auto simp: cache_ok_def cache_indexed_def Un_commute)

lemma mirror_removeMessage: "removeMessage i (mirror c) = map_sum id mirror (removeMessage i c)"
  by (cases "seq_del i (messages c)") (simp_all add: removeMessage_def Let_def mirror_def)

lemma mirror_remove_unindexed:
  "remove_unindexed contentIndex is (mirror c) = map_sum id mirror (remove_unindexed pubsubIndex is c)"
proof (induction "is" arbitrary: c)
  case (Cons i "is")
  then show ?case
    by (cases "removeMessage (int i) c") (simp_all add: mirror_removeMessage)
qed simp

lemma mirror_twice: "map_sum id mirror (map_sum id mirror r) = r"
  by (cases r) simp_all

lemma mirror_unsubscribe: "contentUnsubscribe t c = map_sum id mirror (pubsubUnsubscribe t (mirror c))"
proof (cases "contentSearch c t")
  case (Some i)
  define r where
    "r = index_loop (drop_topic i (length (contentTopics c) - 1)) (length (contentIndex c)) (contentIndex c) []"
  define c1 where "c1 = c\<lparr>contentTopics := list_del i (contentTopics c), contentIndex := fst r\<rparr>"
  have "contentUnsubscribe t c = remove_unindexed pubsubIndex (rev (sort (snd r))) c1"
    using Some by (simp add: contentUnsubscribe_def Let_def r_def c1_def)
  moreover have "pubsubUnsubscribe t (mirror c) =
      remove_unindexed contentIndex (rev (sort (snd r))) (mirror c1)"
    using Some by (cases c) (simp add: pubsubUnsubscribe_def pubsubSearch_def contentSearch_def
        Let_def r_def c1_def mirror_def)
  ultimately show ?thesis by (simp add: mirror_remove_unindexed mirror_twice)
qed (simp add: contentUnsubscribe_def pubsubUnsubscribe_def contentSearch_def pubsubSearch_def)

lemma contentUnsubscribe_ok:
  assumes "cache_ok c"
  shows "\<exists>c'. contentUnsubscribe t c = Inr c' \<and> unsubscribed t (mirror c) (mirror c')"
proof -
  obtain c1 where "pubsubUnsubscribe t (mirror c) = Inr c1" "unsubscribed t (mirror c) c1"
    using pubsubUnsubscribe_ok [of "mirror c" t] assms by auto
  then show ?thesis by (intro exI [of _ "mirror c1"]) (simp add: mirror_unsubscribe)
qed

section \<open>Adding a message: lemmas\<close>

lemma oldest_loop_None: "oldest_loop msg ms i t o' = None \<longleftrightarrow> msg \<in> set ms"
  by (induction ms arbitrary: i t o') auto

lemma oldest_loop_Some:
  "oldest_loop msg ms i t d = Some r \<Longrightarrow>
    (r = d \<and> (\<forall>m \<in> set ms. t \<le> timestamp m)) \<or>
    (\<exists>k < length ms. r = i + int k \<and> timestamp (ms ! k) < t
       \<and> (\<forall>m \<in> set ms. timestamp (ms ! k) \<le> timestamp m))"
proof (induction ms arbitrary: i t d)
  case (Cons m ms)
  show ?case
  proof (cases "timestamp m < t")
    case True
    then have "oldest_loop msg ms (i + 1) (timestamp m) i = Some r"
      using Cons.prems by (auto split: if_splits)
    from Cons.IH [OF this] show ?thesis
    proof (elim disjE exE conjE)
      assume "r = i" "\<forall>m' \<in> set ms. timestamp m \<le> timestamp m'"
      with True show ?thesis by (intro disjI2 exI [of _ 0]) simp
    next
      fix k assume "k < length ms" "r = i + 1 + int k" "timestamp (ms ! k) < timestamp m"
        "\<forall>m \<in> set ms. timestamp (ms ! k) \<le> timestamp m"
      with True show ?thesis by (intro disjI2 exI [of _ "Suc k"]) simp
    qed
  next
    case False
    then have "oldest_loop msg ms (i + 1) t d = Some r"
      using Cons.prems by (auto split: if_splits)
    from Cons.IH [OF this] show ?thesis
    proof (elim disjE exE conjE)
      fix k assume "k < length ms" "r = i + 1 + int k" "timestamp (ms ! k) < t"
        "\<forall>m \<in> set ms. timestamp (ms ! k) \<le> timestamp m"
      with False show ?thesis by (intro disjI2 exI [of _ "Suc k"]) simp
    qed (use False in simp)
  qed
qed simp

lemma topic_slot_ok:
  assumes "distinct ts"
  shows "distinct (snd (topic_slot ts t))" "set (snd (topic_slot ts t)) = insert t (set ts)"
    "fst (topic_slot ts t) < length (snd (topic_slot ts t))"
    "snd (topic_slot ts t) ! fst (topic_slot ts t) = t" "\<exists>us. snd (topic_slot ts t) = ts @ us"
  using assms topic_search_Some [of ts t] topic_search_None [of ts t]
  by (auto simp: topic_slot_def split: option.splits)

lemma kept_append:
  "index_ok (length ts) (length ms) ix \<Longrightarrow> kept ix (ts @ us) (ms @ ns) = kept ix ts ms"
  unfolding kept_def index_ok_def by (intro image_cong) (auto simp: nth_append)

lemma append_message_ok:
  assumes ind: "cache_indexed c" and new: "msg \<notin> set (messages c)"
    and p: "p < length (pubsubTopics c)" and q: "q < length (contentTopics c)"
  shows "cache_indexed (append_message p q msg c)"
    and "by_pubsub (append_message p q msg c) = insert (msg, pubsubTopics c ! p) (by_pubsub c)"
    and "by_content (append_message p q msg c) = insert (msg, contentTopics c ! q) (by_content c)"
proof -
  have ip: "index_ok (length (pubsubTopics c)) (length (messages c)) (pubsubIndex c)"
    and iq: "index_ok (length (contentTopics c)) (length (messages c)) (contentIndex c)"
    using ind by (simp_all add: cache_indexed_def)
  have ext: "index_ok nt (Suc nm) (ix @ [(k, nm)])" if "index_ok nt nm ix" "k < nt" for nt nm ix k
    using that by (fastforce simp: index_ok_def)
  show "cache_indexed (append_message p q msg c)"
    using ind new ext [OF ip p] ext [OF iq q] by (simp add: cache_indexed_def append_message_def)
  show "by_pubsub (append_message p q msg c) = insert (msg, pubsubTopics c ! p) (by_pubsub c)"
    using kept_append [OF ip, of "[]" "[msg]"] by (simp add: append_message_def by_pubsub_def kept_def)
  show "by_content (append_message p q msg c) = insert (msg, contentTopics c ! q) (by_content c)"
    using kept_append [OF iq, of "[]" "[msg]"] by (simp add: append_message_def by_content_def kept_def)
qed

definition evicted :: "WakuMessage set \<Rightarrow> int \<Rightarrow> WakuMessage set \<Rightarrow> bool" where
  "evicted M cap W \<longleftrightarrow>
     (if int (card M) < cap then W = {} else \<exists>w \<in> M. W = {w} \<and> (\<forall>v \<in> M. timestamp w \<le> timestamp v))"

definition added ::
  "string \<Rightarrow> WakuMessage \<Rightarrow> WakuMessage set \<Rightarrow> MessageCache \<Rightarrow> MessageCache \<Rightarrow> bool" where
  "added t msg W c c' \<longleftrightarrow> cache_ok c' \<and> capacity c' = capacity c
     \<and> set (pubsubTopics c') = insert t (set (pubsubTopics c))
     \<and> set (contentTopics c') = insert (contentTopic msg) (set (contentTopics c))
     \<and> set (messages c') = insert msg (set (messages c) - W)
     \<and> by_pubsub c' = insert (msg, t) {x \<in> by_pubsub c. fst x \<notin> W}
     \<and> by_content c' = insert (msg, contentTopic msg) {x \<in> by_content c. fst x \<notin> W}"

lemma oldest_message:
  assumes "oldest_loop msg (rev ms) 0 int64_high int64_high = Some r"
    and "\<exists>m \<in> set ms. timestamp m < int64_high"
  shows "\<exists>k < length ms. int (length ms) - 1 - r = int k \<and> (\<forall>m \<in> set ms. timestamp (ms ! k) \<le> timestamp m)"
proof -
  from oldest_loop_Some [OF assms(1)] assms(2) obtain k where k: "k < length ms" "r = int k"
    "\<forall>m \<in> set ms. timestamp (rev ms ! k) \<le> timestamp m" by force
  then show ?thesis by (intro exI [of _ "length ms - 1 - k"]) (auto simp: rev_nth)
qed

lemma extended_topics_ok:
  fixes t u :: string
  assumes "cache_indexed c"
  defines "s1 \<equiv> topic_slot (pubsubTopics c) t" and "s2 \<equiv> topic_slot (contentTopics c) u"
  shows "cache_indexed (c\<lparr>pubsubTopics := snd s1, contentTopics := snd s2\<rparr>)"
    and "by_pubsub (c\<lparr>pubsubTopics := snd s1, contentTopics := snd s2\<rparr>) = by_pubsub c"
    and "by_content (c\<lparr>pubsubTopics := snd s1, contentTopics := snd s2\<rparr>) = by_content c"
proof -
  have d: "distinct (pubsubTopics c)" "distinct (contentTopics c)"
    and ip: "index_ok (length (pubsubTopics c)) (length (messages c)) (pubsubIndex c)"
    and iq: "index_ok (length (contentTopics c)) (length (messages c)) (contentIndex c)"
    using assms(1) by (simp_all add: cache_indexed_def)
  obtain us vs where s: "snd s1 = pubsubTopics c @ us" "snd s2 = contentTopics c @ vs"
    unfolding s1_def s2_def using topic_slot_ok(5) [OF d(1)] topic_slot_ok(5) [OF d(2)] by blast
  have "distinct (snd s1)" "distinct (snd s2)"
    unfolding s1_def s2_def using topic_slot_ok(1) d by blast+
  moreover have "index_ok nt nm ix \<Longrightarrow> index_ok (nt + k) nm ix" for nt nm ix k
    by (fastforce simp: index_ok_def)
  ultimately show "cache_indexed (c\<lparr>pubsubTopics := snd s1, contentTopics := snd s2\<rparr>)"
    using assms(1) by (simp add: cache_indexed_def s)
  show "by_pubsub (c\<lparr>pubsubTopics := snd s1, contentTopics := snd s2\<rparr>) = by_pubsub c"
    using kept_append [OF ip, of us "[]"] by (simp add: by_pubsub_def s)
  show "by_content (c\<lparr>pubsubTopics := snd s1, contentTopics := snd s2\<rparr>) = by_content c"
    using kept_append [OF iq, of vs "[]"] by (simp add: by_content_def s)
qed

lemma addMessage_same:
  "msg \<in> set (messages c) \<or> t \<notin> set (pubsubTopics c) \<and> contentTopic msg \<notin> set (contentTopics c) \<Longrightarrow>
    addMessage t msg c = Inr c"
  by (auto simp: addMessage_def oldest_loop_None [THEN iffD2] pubsubSearch_def contentSearch_def
      topic_search_None Let_def split: option.splits)

lemma make_room:
  assumes ind: "cache_indexed c"
    and r: "oldest_loop msg (rev (messages c)) 0 int64_high int64_high = Some r"
    and old: "capacity c \<le> int (length (messages c)) \<Longrightarrow> \<exists>m \<in> set (messages c). timestamp m < int64_high"
  shows "\<exists>c2 W. (if capacity c \<le> int (length (messages c))
      then removeMessage (int (length (messages c)) - 1 - r) c else Inr c) = Inr c2
      \<and> evicted (set (messages c)) (capacity c) W \<and> without W c c2"
proof (cases "capacity c \<le> int (length (messages c))")
  case True
  have d: "distinct (messages c)" using ind by (simp add: cache_indexed_def)
  from oldest_message [OF r old [OF True]] obtain k where k: "k < length (messages c)"
    "int (length (messages c)) - 1 - r = int k"
    "\<forall>m \<in> set (messages c). timestamp (messages c ! k) \<le> timestamp m" by auto
  obtain c2 where c2: "removeMessage (int k) c = Inr c2"
    using removeMessage_ok [OF ind k(1)] by auto
  have "evicted (set (messages c)) (capacity c) {messages c ! k}"
    using True k d by (auto simp: evicted_def distinct_card)
  with removeMessage_without(1) [OF ind c2] c2 True k(2) show ?thesis by auto
next
  case False
  have "distinct (messages c)" using ind by (simp add: cache_indexed_def)
  then show ?thesis using False ind by (auto simp: evicted_def distinct_card without_def)
qed

lemma addMessage_ok:
  assumes ok: "cache_ok c" and new: "msg \<notin> set (messages c)"
    and topic: "t \<in> set (pubsubTopics c) \<or> contentTopic msg \<in> set (contentTopics c)"
    and old: "capacity c \<le> int (length (messages c)) \<Longrightarrow> \<exists>m \<in> set (messages c). timestamp m < int64_high"
  shows "\<exists>c' W. addMessage t msg c = Inr c' \<and> evicted (set (messages c)) (capacity c) W \<and> added t msg W c c'"
proof -
  have ind: "cache_indexed c" using ok by (simp add: cache_ok_def)
  then have d: "distinct (messages c)" "distinct (pubsubTopics c)" "distinct (contentTopics c)"
    by (simp_all add: cache_indexed_def)
  obtain r where r: "oldest_loop msg (rev (messages c)) 0 int64_high int64_high = Some r"
    using new oldest_loop_None [of msg "rev (messages c)"] by fastforce
  define s1 where "s1 = topic_slot (pubsubTopics c) t"
  define s2 where "s2 = topic_slot (contentTopics c) (contentTopic msg)"
  define c1 where "c1 = c\<lparr>pubsubTopics := snd s1, contentTopics := snd s2\<rparr>"
  note ext = extended_topics_ok [OF ind, where t = t and u = "contentTopic msg", folded s1_def s2_def, folded c1_def]
  note slot = topic_slot_ok [OF d(2), of t, folded s1_def] topic_slot_ok [OF d(3), of "contentTopic msg", folded s2_def]
  have run: "addMessage t msg c =
      rbind (if capacity c \<le> int (length (messages c))
             then removeMessage (int (length (messages c)) - 1 - r) c1 else Inr c1)
        (\<lambda>c2. Inr (append_message (fst s1) (fst s2) msg c2))"
    using r topic by (auto simp: addMessage_def pubsubSearch_def contentSearch_def topic_search_None
        Let_def c1_def s1_def s2_def split: prod.splits)
  have same: "messages c1 = messages c" "capacity c1 = capacity c" by (simp_all add: c1_def)
  from make_room [OF ext(1), of msg r, unfolded same, OF r old] obtain c2 W where
    "(if capacity c \<le> int (length (messages c))
      then removeMessage (int (length (messages c)) - 1 - r) c1 else Inr c1) = Inr c2"
    "evicted (set (messages c)) (capacity c) W" "without W c1 c2"
    by blast
  then obtain c2 W where c2: "addMessage t msg c = Inr (append_message (fst s1) (fst s2) msg c2)"
    and W: "evicted (set (messages c)) (capacity c) W" and w: "without W c1 c2"
    unfolding run by auto
  let ?c = "append_message (fst s1) (fst s2) msg c2"
  have "cache_indexed c2" "msg \<notin> set (messages c2)"
    "fst s1 < length (pubsubTopics c2)" "fst s2 < length (contentTopics c2)"
    using w new slot(3,8) by (auto simp: without_def c1_def)
  note app = append_message_ok [OF this]
  have p: "by_pubsub ?c = insert (msg, t) {x \<in> by_pubsub c. fst x \<notin> W}"
    and q: "by_content ?c = insert (msg, contentTopic msg) {x \<in> by_content c. fst x \<notin> W}"
    using app(2,3) w slot(4,9) ext(2,3) by (auto simp: without_def c1_def)
  have m: "set (messages ?c) = insert msg (set (messages c) - W)"
    using w by (simp add: append_message_def without_def c1_def)
  have "set (messages ?c) \<subseteq> fst ` (by_pubsub ?c \<union> by_content ?c)"
    using ok unfolding m p q cache_ok_def by (auto simp: image_iff)
  with app(1) m p q w slot(2,7) have "added t msg W c ?c"
    by (auto simp: added_def cache_ok_def append_message_def without_def c1_def)
  with c2 W show ?thesis by blast
qed

section \<open>Reading: lemmas\<close>

lemma messages_at_ok: "\<forall>i \<in> set is. i < length ms \<Longrightarrow> messages_at is ms = Inr (map ((!) ms) is)"
  by (induction "is") auto

lemma read_ok:
  assumes ix: "index_ok (length ts) (length ms) ix" and d: "distinct ts" "distinct ms"
    and p: "p < length ts"
  defines "is \<equiv> indices_of p ix"
  shows "messages_at is ms = Inr (map ((!) ms) is)" "distinct is" "\<forall>i \<in> set is. i < length ms"
    "distinct (map ((!) ms) is)" "(!) ms ` set is = {w. (w, ts ! p) \<in> kept ix ts ms}"
proof -
  have is_set: "set is = {m. (p, m) \<in> set ix}" unfolding is_def indices_of_def by force
  then show rng: "\<forall>i \<in> set is. i < length ms" using ix by (auto simp: index_ok_def)
  then show "messages_at is ms = Inr (map ((!) ms) is)" by (rule messages_at_ok)
  show dis: "distinct is" using ix by (simp add: is_def indices_of_def index_ok_def distinct_map_filter)
  show "distinct (map ((!) ms) is)"
    using dis rng d(2) by (auto simp: distinct_map inj_on_def nth_eq_iff_index_eq)
  show "(!) ms ` set is = {w. (w, ts ! p) \<in> kept ix ts ms}"
  proof (intro set_eqI iffI)
    fix w assume "w \<in> (!) ms ` set is"
    then obtain m where "(p, m) \<in> set ix" "w = ms ! m" unfolding is_set by auto
    then show "w \<in> {w. (w, ts ! p) \<in> kept ix ts ms}"
      unfolding kept_def by (auto intro!: image_eqI [of _ _ "(p, m)"])
  next
    fix w assume "w \<in> {w. (w, ts ! p) \<in> kept ix ts ms}"
    then obtain e where e: "e \<in> set ix" "w = ms ! snd e" "ts ! fst e = ts ! p" unfolding kept_def by auto
    then have "fst e = p" using ix d(1) p by (auto simp: index_ok_def nth_eq_iff_index_eq)
    with e show "w \<in> (!) ms ` set is" unfolding is_set by (cases e) auto
  qed
qed

lemma cleared_ok:
  assumes "cache_ok c" "without W c c'"
  shows "cache_ok c'"
  using assms unfolding cache_ok_def without_def by (auto simp: image_iff)

section \<open>The cache as a set of messages under topics\<close>

record cache_view =
  v_pubsub :: "string set"
  v_content :: "string set"
  v_by_pubsub :: "(WakuMessage \<times> string) set"
  v_by_content :: "(WakuMessage \<times> string) set"
  v_capacity :: int

definition view :: "MessageCache \<Rightarrow> cache_view" where
  "view c =
     \<lparr>v_pubsub = set (pubsubTopics c), v_content = set (contentTopics c),
      v_by_pubsub = by_pubsub c, v_by_content = by_content c, v_capacity = capacity c\<rparr>"

definition v_messages :: "cache_view \<Rightarrow> WakuMessage set" where
  "v_messages v = fst ` (v_by_pubsub v \<union> v_by_content v)"

definition v_drop :: "WakuMessage set \<Rightarrow> cache_view \<Rightarrow> cache_view" where
  "v_drop W v =
     v\<lparr>v_by_pubsub := {x \<in> v_by_pubsub v. fst x \<notin> W},
       v_by_content := {x \<in> v_by_content v. fst x \<notin> W}\<rparr>"

datatype cache_op =
  PubsubSubscribe string | ContentSubscribe string | PubsubUnsubscribe string
  | ContentUnsubscribe string | ResetCache | AddMessage string WakuMessage
  | GetMessages string bool | GetAutoMessages string bool

type_synonym cache_answer = "(string + WakuMessage list) option"

definition silent :: "defect + MessageCache \<Rightarrow> defect + cache_answer \<times> MessageCache" where
  "silent r = rbind r (\<lambda>c. Inr (None, c))"

definition answering ::
  "defect + (string + WakuMessage list) \<times> MessageCache \<Rightarrow> defect + cache_answer \<times> MessageCache" where
  "answering r = rbind r (\<lambda>(a, c). Inr (Some a, c))"

fun cache_step :: "cache_op \<Rightarrow> MessageCache \<Rightarrow> defect + cache_answer \<times> MessageCache" where
  "cache_step (PubsubSubscribe t) c = silent (Inr (pubsubSubscribe t c))"
| "cache_step (ContentSubscribe t) c = silent (Inr (contentSubscribe t c))"
| "cache_step (PubsubUnsubscribe t) c = silent (pubsubUnsubscribe t c)"
| "cache_step (ContentUnsubscribe t) c = silent (contentUnsubscribe t c)"
| "cache_step ResetCache c = silent (Inr (cache_reset c))"
| "cache_step (AddMessage t msg) c = silent (addMessage t msg c)"
| "cache_step (GetMessages t clear) c = answering (getMessages t clear c)"
| "cache_step (GetAutoMessages t clear) c = answering (getAutoMessages t clear c)"

text \<open>What is read of a topic, from the messages kept under it.\<close>

definition read_spec ::
  "bool \<Rightarrow> string set \<Rightarrow> (WakuMessage \<times> string) set \<Rightarrow> string \<Rightarrow> cache_answer \<Rightarrow> cache_view \<Rightarrow> cache_view \<Rightarrow> bool" where
  "read_spec clear T K t a v v' \<longleftrightarrow>
     (if t \<notin> T then (\<exists>e. a = Some (Inl e)) \<and> v' = v
      else \<exists>ms. a = Some (Inr ms) \<and> distinct ms \<and> set ms = {w. (w, t) \<in> K}
        \<and> v' = (if clear then v_drop (set ms) v else v))"

text \<open>Each operation on the view.\<close>

fun cache_spec :: "cache_op \<Rightarrow> cache_answer \<Rightarrow> cache_view \<Rightarrow> cache_view \<Rightarrow> bool" where
  "cache_spec (PubsubSubscribe t) a v v' \<longleftrightarrow>
     a = None \<and> v' = v\<lparr>v_pubsub := insert t (v_pubsub v)\<rparr>"
| "cache_spec (ContentSubscribe t) a v v' \<longleftrightarrow>
     a = None \<and> v' = v\<lparr>v_content := insert t (v_content v)\<rparr>"
| "cache_spec (PubsubUnsubscribe t) a v v' \<longleftrightarrow>
     a = None \<and> v' = v\<lparr>v_pubsub := v_pubsub v - {t}, v_by_pubsub := {x \<in> v_by_pubsub v. snd x \<noteq> t}\<rparr>"
| "cache_spec (ContentUnsubscribe t) a v v' \<longleftrightarrow>
     a = None \<and> v' = v\<lparr>v_content := v_content v - {t}, v_by_content := {x \<in> v_by_content v. snd x \<noteq> t}\<rparr>"
| "cache_spec ResetCache a v v' \<longleftrightarrow>
     a = None \<and> v' = v\<lparr>v_pubsub := {}, v_content := {}, v_by_pubsub := {}, v_by_content := {}\<rparr>"
| "cache_spec (AddMessage t msg) a v v' \<longleftrightarrow> a = None \<and>
     (if msg \<in> v_messages v \<or> t \<notin> v_pubsub v \<and> contentTopic msg \<notin> v_content v then v' = v
      else \<exists>W. evicted (v_messages v) (v_capacity v) W \<and> (let d = v_drop W v in
        v' = v\<lparr>v_pubsub := insert t (v_pubsub v), v_content := insert (contentTopic msg) (v_content v),
               v_by_pubsub := insert (msg, t) (v_by_pubsub d),
               v_by_content := insert (msg, contentTopic msg) (v_by_content d)\<rparr>))"
| "cache_spec (GetMessages t clear) a v v' \<longleftrightarrow>
     read_spec clear (v_pubsub v) (v_by_pubsub v) t a v v'"
| "cache_spec (GetAutoMessages t clear) a v v' \<longleftrightarrow>
     read_spec clear (v_content v) (v_by_content v) t a v v'"

definition cache_inv :: "MessageCache \<Rightarrow> bool" where
  "cache_inv c \<longleftrightarrow> cache_ok c \<and> 0 < capacity c \<and> capacity c \<le> int64_high
     \<and> int (length (messages c)) \<le> capacity c"

lemma view_messages: "cache_ok c \<Longrightarrow> v_messages (view c) = set (messages c)"
  using kept_range [of "pubsubTopics c" "messages c" "pubsubIndex c"]
    kept_range [of "contentTopics c" "messages c" "contentIndex c"]
  by (auto simp: v_messages_def view_def cache_ok_def cache_indexed_def by_pubsub_def by_content_def)

lemma length_messages: "cache_ok c \<Longrightarrow> length (messages c) = card (set (messages c))"
  by (simp add: cache_ok_def cache_indexed_def distinct_card)

lemma smaller_cache:
  "cache_inv c \<Longrightarrow> cache_ok c' \<Longrightarrow> capacity c' = capacity c \<Longrightarrow>
    set (messages c') \<subseteq> set (messages c) \<Longrightarrow> cache_inv c'"
  using card_mono [of "set (messages c)" "set (messages c')"]
  by (auto simp: cache_inv_def length_messages)

lemma clear_step:
  assumes inv: "cache_inv c" and "distinct is" "distinct ord" "set ord = set is"
    and run: "(if clear then remove_all ord c else Inr c) = Inr c'"
  shows "cache_inv c' \<and>
    view c' = (if clear then v_drop ((!) (messages c) ` set is) (view c) else view c)"
proof (cases clear)
  case True
  have ok: "cache_ok c" using inv by (simp add: cache_inv_def)
  have "remove_all ord c = Inr c'" using run True by simp
  from remove_all_without [OF _ assms(3) this] ok assms(4)
  have w: "without ((!) (messages c) ` set is) c c'" by (simp add: cache_ok_def)
  with smaller_cache [OF inv cleared_ok [OF ok w]] have "cache_inv c'" by (auto simp: without_def)
  with w True show ?thesis by (simp add: view_def v_drop_def without_def)
qed (use inv run in simp)

lemma read_pubsub_step:
  assumes inv: "cache_inv c" and run: "getMessages t clear c = Inr (a, c')"
  shows "cache_inv c' \<and> read_spec clear (set (pubsubTopics c)) (by_pubsub c) t (Some a) (view c) (view c')"
proof (cases "pubsubSearch c t")
  case None
  then have "t \<notin> set (pubsubTopics c)" by (simp add: pubsubSearch_def topic_search_None)
  with None assms show ?thesis
    by (auto simp: getMessages_def read_spec_def split: if_splits)
next
  case (Some p)
  have p: "p < length (pubsubTopics c)" "pubsubTopics c ! p = t"
    using Some topic_search_Some by (auto simp: pubsubSearch_def)
  have "index_ok (length (pubsubTopics c)) (length (messages c)) (pubsubIndex c)"
    "distinct (pubsubTopics c)" "distinct (messages c)"
    using inv by (simp_all add: cache_inv_def cache_ok_def cache_indexed_def)
  note rd = read_ok [OF this p(1)]
  define js where "js = indices_of p (pubsubIndex c)"
  have a: "a = Inr (map ((!) (messages c)) js)" "(if clear then remove_all (rev js) c else Inr c) = Inr c'"
    using run Some rd(1) p by (auto simp: getMessages_def js_def Let_def rbind_eq_Inr split: if_splits)
  from clear_step [OF inv _ _ _ a(2), of js] rd(2)
  have "cache_inv c'" "view c' = (if clear then v_drop ((!) (messages c) ` set js) (view c) else view c)"
    by (simp_all add: js_def)
  with rd(4,5) p a(1) show ?thesis
    by (auto simp: read_spec_def js_def by_pubsub_def)
qed

lemma read_pubsub_total:
  assumes inv: "cache_inv c"
  shows "\<exists>r. getMessages t False c = Inr r"
proof (cases "pubsubSearch c t")
  case (Some p)
  then have p: "p < length (pubsubTopics c)"
    using topic_search_Some by (auto simp: pubsubSearch_def)
  have "index_ok (length (pubsubTopics c)) (length (messages c)) (pubsubIndex c)"
    "distinct (pubsubTopics c)" "distinct (messages c)"
    using inv by (simp_all add: cache_inv_def cache_ok_def cache_indexed_def)
  from read_ok(1) [OF this p] Some show ?thesis by (auto simp: getMessages_def)
qed (auto simp: getMessages_def)

lemma read_content_step:
  assumes inv: "cache_inv c"
  shows "\<exists>a c'. getAutoMessages t clear c = Inr (a, c') \<and> cache_inv c' \<and>
    read_spec clear (set (contentTopics c)) (by_content c) t (Some a) (view c) (view c')"
proof (cases "contentSearch c t")
  case None
  then have "t \<notin> set (contentTopics c)" by (simp add: contentSearch_def topic_search_None)
  with None assms show ?thesis
    by (auto simp: getAutoMessages_def read_spec_def)
next
  case (Some p)
  have p: "p < length (contentTopics c)" "contentTopics c ! p = t"
    using Some topic_search_Some by (auto simp: contentSearch_def)
  have ind: "cache_indexed c" using inv by (simp add: cache_inv_def cache_ok_def)
  then have "index_ok (length (contentTopics c)) (length (messages c)) (contentIndex c)"
    "distinct (contentTopics c)" "distinct (messages c)" by (simp_all add: cache_indexed_def)
  note rd = read_ok [OF this p(1)]
  define js where "js = indices_of p (contentIndex c)"
  have "sorted_wrt (>) (rev (sort js))" using rd(2) unfolding js_def by (rule sorted_wrt_greater_rev_sort)
  moreover have "\<forall>i \<in> set (rev (sort js)). i < length (messages c)" using rd(3) by (simp add: js_def)
  ultimately obtain c' where c': "(if clear then remove_all (rev (sort js)) c else Inr c) = Inr c'"
    using remove_all_descending [OF ind, of "rev (sort js)"] by (cases clear) auto
  from clear_step [OF inv _ _ _ c', of js] rd(2)
  have c2: "cache_inv c'" "view c' = (if clear then v_drop ((!) (messages c) ` set js) (view c) else view c)"
    by (simp_all add: js_def)
  have "getAutoMessages t clear c = Inr (Inr (map ((!) (messages c)) js), c')"
    using Some rd(1) p c' by (auto simp: getAutoMessages_def js_def Let_def)
  moreover have "read_spec clear (set (contentTopics c)) (by_content c) t
      (Some (Inr (map ((!) (messages c)) js))) (view c) (view c')"
    using rd(4,5) p c2 by (auto simp: read_spec_def js_def by_content_def)
  ultimately show ?thesis using c2(1) by blast
qed

lemma add_step:
  assumes inv: "cache_inv c"
  shows "case addMessage t msg c of
      Inl d \<Rightarrow> \<forall>m \<in> set (messages c). int64_high \<le> timestamp m
    | Inr c' \<Rightarrow> cache_inv c' \<and> cache_spec (AddMessage t msg) None (view c) (view c')"
proof -
  have ok: "cache_ok c" using inv by (simp add: cache_inv_def)
  consider (same) "msg \<in> set (messages c) \<or> t \<notin> set (pubsubTopics c) \<and> contentTopic msg \<notin> set (contentTopics c)"
    | (full) "msg \<notin> set (messages c)" "t \<in> set (pubsubTopics c) \<or> contentTopic msg \<in> set (contentTopics c)"
        "\<forall>m \<in> set (messages c). int64_high \<le> timestamp m"
        "capacity c \<le> int (length (messages c))"
    | (add) "msg \<notin> set (messages c)" "t \<in> set (pubsubTopics c) \<or> contentTopic msg \<in> set (contentTopics c)"
        "capacity c \<le> int (length (messages c)) \<Longrightarrow> \<exists>m \<in> set (messages c). timestamp m < int64_high"
    by force
  then show ?thesis
  proof cases
    case same
    then have "msg \<in> v_messages (view c) \<or> t \<notin> v_pubsub (view c) \<and> contentTopic msg \<notin> v_content (view c)"
      unfolding view_messages [OF ok] by (simp add: view_def)
    then show ?thesis using addMessage_same [OF same] inv by simp
  next
    case full
    then have "messages c \<noteq> []" using inv by (auto simp: cache_inv_def)
    obtain r where "oldest_loop msg (rev (messages c)) 0 int64_high int64_high = Some r"
      using full(1) oldest_loop_None [of msg "rev (messages c)"] by fastforce
    note r = this
    have "r = int64_high"
    proof (rule ccontr)
      assume "r \<noteq> int64_high"
      with oldest_loop_Some [OF r] obtain k where
        "k < length (rev (messages c))" "timestamp (rev (messages c) ! k) < int64_high" by blast
      with full(3) nth_mem [of k "rev (messages c)"] show False by force
    qed
    moreover have "int (length (messages c)) - 1 - int64_high < 0" using inv by (simp add: cache_inv_def)
    moreover have "pubsubSearch c t \<noteq> None \<or> contentSearch c (contentTopic msg) \<noteq> None"
      using full(2) by (simp add: pubsubSearch_def contentSearch_def topic_search_None)
    ultimately have "addMessage t msg c = Inl RangeDefect"
      using r full(4) by (auto simp: addMessage_def Let_def removeMessage_def seq_del_def split: prod.splits)
    then show ?thesis using full(3) by simp
  next
    case add
    from addMessage_ok [OF ok add] obtain c' W where
      c': "addMessage t msg c = Inr c'" "evicted (set (messages c)) (capacity c) W" "added t msg W c c'" by blast
    have cap: "card (set (messages c')) \<le> nat (capacity c)"
      using c'(2,3) inv by (auto simp: evicted_def added_def cache_inv_def length_messages card_insert_if split: if_splits)
    have "cache_inv c'" using c'(3) cap inv by (auto simp: added_def cache_inv_def length_messages)
    moreover have "cache_spec (AddMessage t msg) None (view c) (view c')"
      using add(1,2) c'(2,3) unfolding cache_spec.simps view_messages [OF ok]
      by (auto simp: view_def added_def v_drop_def Let_def)
    ultimately show ?thesis using c'(1) by simp
  qed
qed

section \<open>Runs\<close>

fun cache_run :: "cache_op list \<Rightarrow> MessageCache \<Rightarrow> defect + cache_answer list \<times> MessageCache" where
  "cache_run [] c = Inr ([], c)"
| "cache_run (a # as) c =
     rbind (cache_step a c) (\<lambda>(r, c1). rbind (cache_run as c1) (\<lambda>(rs, c2). Inr (r # rs, c2)))"

lemma subscribe_step:
  assumes inv: "cache_inv c"
  shows "cache_inv (pubsubSubscribe t c)" "cache_inv (contentSubscribe t c)"
    "view (pubsubSubscribe t c) = (view c)\<lparr>v_pubsub := insert t (v_pubsub (view c))\<rparr>"
    "view (contentSubscribe t c) = (view c)\<lparr>v_content := insert t (v_content (view c))\<rparr>"
proof -
  have ind: "cache_indexed c" using inv by (simp add: cache_inv_def cache_ok_def)
  then have ip: "index_ok (length (pubsubTopics c)) (length (messages c)) (pubsubIndex c)"
    and iq: "index_ok (length (contentTopics c)) (length (messages c)) (contentIndex c)"
    by (simp_all add: cache_indexed_def)
  have p: "by_pubsub (pubsubSubscribe t c) = by_pubsub c" "by_content (pubsubSubscribe t c) = by_content c"
    using kept_append [OF ip, of "[t]" "[]"] by (simp_all add: pubsubSubscribe_def by_pubsub_def by_content_def)
  have q: "by_pubsub (contentSubscribe t c) = by_pubsub c" "by_content (contentSubscribe t c) = by_content c"
    using kept_append [OF iq, of "[t]" "[]"] by (simp_all add: contentSubscribe_def by_pubsub_def by_content_def)
  have more_topics: "index_ok nt nm ix \<Longrightarrow> index_ok (Suc nt) nm ix" for nt nm ix
    by (fastforce simp: index_ok_def)
  show "cache_inv (pubsubSubscribe t c)"
    using inv p more_topics by (auto simp: cache_inv_def cache_ok_def cache_indexed_def pubsubSubscribe_def
        pubsubSearch_def topic_search_None)
  show "cache_inv (contentSubscribe t c)"
    using inv q more_topics by (auto simp: cache_inv_def cache_ok_def cache_indexed_def contentSubscribe_def
        contentSearch_def topic_search_None)
  show "view (pubsubSubscribe t c) = (view c)\<lparr>v_pubsub := insert t (v_pubsub (view c))\<rparr>"
    using p topic_search_None [of "pubsubTopics c" t]
    by (auto simp: view_def pubsubSubscribe_def pubsubSearch_def)
  show "view (contentSubscribe t c) = (view c)\<lparr>v_content := insert t (v_content (view c))\<rparr>"
    using q topic_search_None [of "contentTopics c" t]
    by (auto simp: view_def contentSubscribe_def contentSearch_def)
qed

lemma unsubscribe_step:
  assumes inv: "cache_inv c"
  shows "\<exists>c'. pubsubUnsubscribe t c = Inr c' \<and> cache_inv c'
      \<and> cache_spec (PubsubUnsubscribe t) None (view c) (view c')"
    and "\<exists>c'. contentUnsubscribe t c = Inr c' \<and> cache_inv c'
      \<and> cache_spec (ContentUnsubscribe t) None (view c) (view c')"
proof -
  have ok: "cache_ok c" using inv by (simp add: cache_inv_def)
  from pubsubUnsubscribe_ok [OF this] obtain c' where
    "pubsubUnsubscribe t c = Inr c'" "unsubscribed t c c'" by blast
  moreover from this smaller_cache [OF inv] have "cache_inv c'" by (auto simp: unsubscribed_def)
  ultimately show "\<exists>c'. pubsubUnsubscribe t c = Inr c' \<and> cache_inv c'
      \<and> cache_spec (PubsubUnsubscribe t) None (view c) (view c')"
    by (auto simp: unsubscribed_def view_def)
  from contentUnsubscribe_ok [OF ok] obtain d where
    "contentUnsubscribe t c = Inr d" "unsubscribed t (mirror c) (mirror d)" by blast
  moreover from this smaller_cache [OF inv, of d] have "cache_inv d" by (auto simp: unsubscribed_def)
  ultimately show "\<exists>c'. contentUnsubscribe t c = Inr c' \<and> cache_inv c'
      \<and> cache_spec (ContentUnsubscribe t) None (view c) (view c')"
    by (auto simp: unsubscribed_def view_def)
qed

text \<open>Where an operation ends in a defect: clearing reads, and adding when all times are the largest.\<close>

definition may_fail :: "cache_op \<Rightarrow> WakuMessage set \<Rightarrow> bool" where
  "may_fail op M \<longleftrightarrow> (\<exists>t. op = GetMessages t True)
     \<or> (\<exists>t msg. op = AddMessage t msg \<and> (\<forall>m \<in> M. int64_high \<le> timestamp m))"

lemma cache_step_ok:
  assumes inv: "cache_inv c"
  shows "case cache_step op c of
      Inl d \<Rightarrow> may_fail op (set (messages c))
    | Inr (a, c') \<Rightarrow> cache_inv c' \<and> cache_spec op a (view c) (view c')"
proof (cases op)
  case (PubsubSubscribe t)
  then show ?thesis using subscribe_step [OF inv] by (simp add: silent_def)
next
  case (ContentSubscribe t)
  then show ?thesis using subscribe_step [OF inv] by (simp add: silent_def)
next
  case (PubsubUnsubscribe t)
  then show ?thesis using unsubscribe_step(1) [OF inv, of t] by (auto simp: silent_def)
next
  case (ContentUnsubscribe t)
  then show ?thesis using unsubscribe_step(2) [OF inv, of t] by (auto simp: silent_def)
next
  case ResetCache
  then show ?thesis using inv
    by (simp add: silent_def cache_reset_def cache_inv_def cache_ok_def cache_indexed_def index_ok_def
        view_def by_pubsub_def by_content_def kept_def)
next
  case (AddMessage t msg)
  then show ?thesis using add_step [OF inv, of t msg]
    by (cases "addMessage t msg c") (simp_all add: silent_def may_fail_def)
next
  case (GetMessages t clear)
  show ?thesis
  proof (cases "getMessages t clear c")
    case (Inl d)
    have "clear"
    proof (rule ccontr)
      assume "\<not> clear"
      with Inl read_pubsub_total [OF inv, of t] show False by auto
    qed
    then show ?thesis using Inl GetMessages by (simp add: answering_def may_fail_def)
  next
    case (Inr r)
    obtain a c' where "r = (a, c')" by fastforce
    with Inr show ?thesis using GetMessages read_pubsub_step [OF inv, of t clear a c']
      by (simp add: answering_def view_def)
  qed
next
  case (GetAutoMessages t clear)
  then show ?thesis using read_content_step [OF inv, of t clear]
    by (auto simp: answering_def view_def)
qed

lemma cache_spec_capacity: "cache_spec op a v v' \<Longrightarrow> v_capacity v' = v_capacity v"
  by (cases op) (auto simp: read_spec_def v_drop_def Let_def split: if_splits)

lemma cache_run_inv:
  "cache_inv c \<Longrightarrow> cache_run ops c = Inr (as, c') \<Longrightarrow> cache_inv c' \<and> capacity c' = capacity c"
proof (induction ops arbitrary: c as)
  case (Cons op ops)
  from Cons.prems(2) obtain a c1 bs where c1: "cache_step op c = Inr (a, c1)" "cache_run ops c1 = Inr (bs, c')"
    by (auto simp: rbind_eq_Inr split: prod.splits)
  with cache_step_ok [OF Cons.prems(1), of op] have "cache_inv c1" "cache_spec op a (view c) (view c1)"
    by simp_all
  moreover from this(2) have "capacity c1 = capacity c"
    by (auto dest: cache_spec_capacity simp: view_def)
  ultimately show ?case using Cons.IH [of c1, OF _ c1(2)] by simp
qed simp

lemma cache_init_inv: "0 < cap \<Longrightarrow> cap \<le> int64_high \<Longrightarrow> cache_inv (cache_init cap)"
  by (simp add: cache_inv_def cache_init_def cache_ok_def cache_indexed_def index_ok_def)

text \<open>
  C11. However the cache has been used, it holds distinct messages, at most as many as its capacity,
  and the next operation does to the set of messages under topics what \<open>cache_spec\<close> says: reading a
  topic answers exactly the messages kept under it, each once, unsubscribing forgets exactly those of
  the topic that no topic of the other kind keeps, and a full cache makes room by dropping one of the
  oldest. A defect is possible only in a clearing read by pubsub topic, or when every cached message
  carries the largest time.
\<close>

theorem message_cache_refines:
  assumes "0 < cap" "cap \<le> int64_high" "cache_run ops (cache_init cap) = Inr (as, c)"
  shows "distinct (messages c) \<and> int (length (messages c)) \<le> cap \<and> v_messages (view c) = set (messages c)
    \<and> (case cache_step op c of
         Inl d \<Rightarrow> may_fail op (set (messages c))
       | Inr (a, c') \<Rightarrow> cache_spec op a (view c) (view c'))"
proof -
  from cache_run_inv [OF cache_init_inv [OF assms(1,2)] assms(3)]
  have inv: "cache_inv c" and cap: "capacity c = cap" by (simp_all add: cache_init_def)
  have "case cache_step op c of
      Inl d \<Rightarrow> may_fail op (set (messages c))
    | Inr (a, c') \<Rightarrow> cache_spec op a (view c) (view c')"
    using cache_step_ok [OF inv, of op] by (auto split: sum.splits prod.splits)
  with inv cap show ?thesis
    by (auto simp: cache_inv_def view_messages cache_ok_def cache_indexed_def)
qed

definition example_msg :: "Timestamp \<Rightarrow> WakuMessage" where
  "example_msg ts = \<lparr>payload = [], contentTopic = ''c'', meta = [], msg_version = 0, timestamp = ts,
     ephemeral = False, msg_proof = []\<rparr>"

lemma example_msg_simps [simp]:
  "contentTopic (example_msg s) = ''c''" "timestamp (example_msg s) = s"
  "example_msg s = example_msg t \<longleftrightarrow> s = t"
  by (auto simp: example_msg_def)

definition example_cache :: MessageCache where
  "example_cache =
     \<lparr>pubsubTopics = [''p'', ''q''], contentTopics = [''c''], pubsubIndex = [(0, 0), (1, 1)],
      contentIndex = [(0, 0), (0, 1)], messages = [example_msg 2, example_msg 1], capacity = 2\<rparr>"

lemma example_run:
  "cache_run [ContentSubscribe ''c'', AddMessage ''p'' (example_msg 2), AddMessage ''q'' (example_msg 1)]
     (cache_init 2) = Inr ([None, None, None], example_cache)"
  by (simp add: cache_init_def silent_def contentSubscribe_def contentSearch_def pubsubSearch_def
      addMessage_def int64_high_def topic_slot_def append_message_def Let_def example_cache_def)

theorem message_cache_refines_witness:
  "length (messages example_cache) = 2 \<and>
   (case cache_step (AddMessage ''p'' (example_msg 3)) example_cache of
     Inl d \<Rightarrow> may_fail (AddMessage ''p'' (example_msg 3)) (set (messages example_cache))
   | Inr (a, c') \<Rightarrow> cache_spec (AddMessage ''p'' (example_msg 3)) a (view example_cache) (view c'))"
proof -
  have "0 < (2 :: int)" "2 \<le> int64_high" by (simp_all add: int64_high_def)
  from message_cache_refines [OF this example_run, of "AddMessage ''p'' (example_msg 3)"]
  have "case cache_step (AddMessage ''p'' (example_msg 3)) example_cache of
     Inl d \<Rightarrow> may_fail (AddMessage ''p'' (example_msg 3)) (set (messages example_cache))
   | Inr (a, c') \<Rightarrow> cache_spec (AddMessage ''p'' (example_msg 3)) a (view example_cache) (view c')"
    by blast
  moreover have "length (messages example_cache) = 2" by (simp add: example_cache_def)
  ultimately show ?thesis by blast
qed

section \<open>A clearing read that ends the program\<close>

text \<open>
  The clearing read by pubsub topic removes positions in the reverse order of the index, not in
  descending order. Three messages of a content topic, the first under a pubsub topic that is then
  unsubscribed, leave the index out of order, and the next clearing read of the other pubsub topic
  removes past the end: an index defect.
\<close>

lemma clearing_read_fails:
  assumes "A \<noteq> B" "distinct [m0, m1, m2]" "contentTopic m0 = t" "contentTopic m1 = t" "contentTopic m2 = t"
    and "3 \<le> cap"
  shows "cache_run [ContentSubscribe t, PubsubSubscribe B, PubsubSubscribe A, AddMessage B m0,
      AddMessage A m1, AddMessage A m2, PubsubUnsubscribe B, GetMessages A True] (cache_init cap)
    = Inl IndexDefect"
  using assms
  by (simp add: cache_init_def silent_def answering_def contentSubscribe_def pubsubSubscribe_def
      contentSearch_def pubsubSearch_def addMessage_def int64_high_def topic_slot_def append_message_def
      Let_def pubsubUnsubscribe_def getMessages_def indices_of_def removeMessage_def seq_del_def list_del_def)

lemma clearing_read_fails_example:
  "cache_run [ContentSubscribe ''c'', PubsubSubscribe ''b'', PubsubSubscribe ''a'',
      AddMessage ''b'' (example_msg 1), AddMessage ''a'' (example_msg 2), AddMessage ''a'' (example_msg 3),
      PubsubUnsubscribe ''b'', GetMessages ''a'' True] (cache_init DefaultMessageCacheCapacity)
    = Inl IndexDefect"
  by (rule clearing_read_fails) (simp_all add: DefaultMessageCacheCapacity_def)

end
