(* ===== verification/Lightpush.thy ===== *)
theory Lightpush
  imports RlnPublish RequestLimiter Topics
begin

text \<open>
  The light push service, \<open>waku/waku_lightpush/\<close>: the status codes and results of \<open>common.nim\<close>, the
  handler that publishes over the relay (\<open>callbacks.nim\<close>, with \<open>validateMessage\<close> and \<open>publish\<close> of
  \<open>waku/waku_relay/protocol.nim\<close>), the protocol behind its limiter, the client, and requests of a
  node to itself. The encoding of messages, the mesh and its validators, and connections are
  parameters; \<open>'s\<close> is the state of what publishes, \<open>'e\<close> that of a connection.
\<close>

section \<open>Results\<close>

type_synonym LightPushStatusCode = "32 word"

definition LP_SUCCESS :: LightPushStatusCode where "LP_SUCCESS = 200"
definition LP_BAD_REQUEST :: LightPushStatusCode where "LP_BAD_REQUEST = 400"
definition LP_PAYLOAD_TOO_LARGE :: LightPushStatusCode where "LP_PAYLOAD_TOO_LARGE = 413"
definition LP_INVALID_MESSAGE :: LightPushStatusCode where "LP_INVALID_MESSAGE = 420"
definition LP_UNSUPPORTED_PUBSUB_TOPIC :: LightPushStatusCode where "LP_UNSUPPORTED_PUBSUB_TOPIC = 421"
definition LP_TOO_MANY_REQUESTS :: LightPushStatusCode where "LP_TOO_MANY_REQUESTS = 429"
definition LP_INTERNAL_SERVER_ERROR :: LightPushStatusCode where "LP_INTERNAL_SERVER_ERROR = 500"
definition LP_SERVICE_NOT_AVAILABLE :: LightPushStatusCode where "LP_SERVICE_NOT_AVAILABLE = 503"
definition LP_OUT_OF_RLN_PROOF :: LightPushStatusCode where "LP_OUT_OF_RLN_PROOF = 504"
definition LP_NO_PEERS_TO_RELAY :: LightPushStatusCode where "LP_NO_PEERS_TO_RELAY = 505"

lemmas lp_codes = LP_SUCCESS_def LP_BAD_REQUEST_def LP_PAYLOAD_TOO_LARGE_def LP_INVALID_MESSAGE_def
  LP_UNSUPPORTED_PUBSUB_TOPIC_def LP_TOO_MANY_REQUESTS_def LP_INTERNAL_SERVER_ERROR_def
  LP_SERVICE_NOT_AVAILABLE_def LP_OUT_OF_RLN_PROOF_def LP_NO_PEERS_TO_RELAY_def

type_synonym ErrorStatus = "LightPushStatusCode \<times> string option"
type_synonym WakuLightPushResult = "ErrorStatus + 32 word"

record LightpushRequest =
  lp_requestId :: string
  lp_pubSubTopic :: "string option"
  lp_message :: WakuMessage

record LightPushResponse =
  lr_requestId :: string
  lr_statusCode :: LightPushStatusCode
  lr_statusDesc :: "string option"
  lr_relayPeerCount :: "32 word option"

definition TooManyRequestsMessage :: string where
  "TooManyRequestsMessage = ''Request rejected due to too many requests''"

definition lp_isSuccess :: "LightPushResponse \<Rightarrow> bool" where
  "lp_isSuccess response \<longleftrightarrow> lr_statusCode response = LP_SUCCESS"

definition toPushResult :: "LightPushResponse \<Rightarrow> WakuLightPushResult" where
  "toPushResult response =
     (if lp_isSuccess response then
        (let relayPeerCount = (case lr_relayPeerCount response of None \<Rightarrow> 0 | Some n \<Rightarrow> n)
         in if relayPeerCount = 0 then Inl (LP_NO_PEERS_TO_RELAY, lr_statusDesc response)
            else Inr relayPeerCount)
      else Inl (lr_statusCode response, lr_statusDesc response))"

definition lightpushSuccessResult :: "32 word \<Rightarrow> WakuLightPushResult" where
  "lightpushSuccessResult n = Inr n"

definition lighpushErrorResult :: "LightPushStatusCode \<Rightarrow> string \<Rightarrow> WakuLightPushResult" where
  "lighpushErrorResult code desc = Inl (code, Some desc)"

definition lightpushResultInternalError :: "string \<Rightarrow> WakuLightPushResult" where
  "lightpushResultInternalError msg = lighpushErrorResult LP_INTERNAL_SERVER_ERROR msg"

definition lightpushResultBadRequest :: "string \<Rightarrow> WakuLightPushResult" where
  "lightpushResultBadRequest msg = lighpushErrorResult LP_BAD_REQUEST msg"

definition lightpushResultServiceUnavailable :: "string \<Rightarrow> WakuLightPushResult" where
  "lightpushResultServiceUnavailable msg = lighpushErrorResult LP_SERVICE_NOT_AVAILABLE msg"

datatype PublishOutcome = NoTopicSpecified | DuplicateMessage | NoPeersToPublish | CannotGenerateMessageId

fun mapPubishingErrorToPushResult :: "PublishOutcome \<Rightarrow> WakuLightPushResult" where
  "mapPubishingErrorToPushResult NoTopicSpecified =
     Inl (LP_INVALID_MESSAGE, Some ''Empty topic, skipping publish'')"
| "mapPubishingErrorToPushResult DuplicateMessage =
     Inl (LP_INVALID_MESSAGE, Some ''Dropping already-seen message'')"
| "mapPubishingErrorToPushResult NoPeersToPublish =
     Inl (LP_NO_PEERS_TO_RELAY, Some ''No peers for topic, skipping publish'')"
| "mapPubishingErrorToPushResult CannotGenerateMessageId =
     Inl (LP_INTERNAL_SERVER_ERROR, Some ''Error generating message id, skipping publish'')"

section \<open>Publishing over the relay\<close>

text \<open>
  The size of an encoded message, the validators with their error messages, and the publication on
  the mesh, which gives the number of peers the message was sent to.
\<close>

record 's relay_node =
  msg_size :: "WakuMessage \<Rightarrow> nat"
  maxMessageSize :: nat
  wakuValidators :: "((string \<Rightarrow> WakuMessage \<Rightarrow> 's \<Rightarrow> relay_decision \<times> 's) \<times> string) list"
  gossip_publish :: "string \<Rightarrow> WakuMessage \<Rightarrow> 's \<Rightarrow> int \<times> 's"

definition isEmptyOrWhitespace :: "string \<Rightarrow> bool" where
  "isEmptyOrWhitespace s \<longleftrightarrow> list_all is_space s"

fun run_validators ::
  "((string \<Rightarrow> WakuMessage \<Rightarrow> 's \<Rightarrow> relay_decision \<times> 's) \<times> string) list \<Rightarrow> string \<Rightarrow> WakuMessage \<Rightarrow> 's
     \<Rightarrow> (string + unit) \<times> 's" where
  "run_validators [] topic msg s = (Inr (), s)"
| "run_validators ((validator, message) # vs) topic msg s =
     (case validator topic msg s of
        (Accept, s) \<Rightarrow> run_validators vs topic msg s
      | (Reject, s) \<Rightarrow> (Inl (if message \<noteq> [] then message else ''validator failed''), s))"

definition relay_validateMessage ::
  "'s relay_node \<Rightarrow> string \<Rightarrow> WakuMessage \<Rightarrow> 's \<Rightarrow> (string + unit) \<times> 's" where
  "relay_validateMessage relay topic msg s =
     (if maxMessageSize relay < msg_size relay msg then
        (Inl (''Message size exceeded maximum of '' @ show_int (int (maxMessageSize relay)) @ '' bytes''), s)
      else run_validators (wakuValidators relay) topic msg s)"

definition relay_publish ::
  "'s relay_node \<Rightarrow> Timestamp \<Rightarrow> string \<Rightarrow> WakuMessage \<Rightarrow> 's \<Rightarrow> (PublishOutcome + int) \<times> 's" where
  "relay_publish relay now topic msg s =
     (if isEmptyOrWhitespace topic then (Inl NoTopicSpecified, s)
      else
        (let msg = (if timestamp msg = 0 then msg\<lparr>timestamp := now\<rparr> else msg);
             (n, s) = gossip_publish relay topic msg s
         in if n \<le> 0 then (Inl NoPeersToPublish, s) else (Inr n, s)))"

type_synonym 's push_handler = "string \<Rightarrow> WakuMessage \<Rightarrow> 's \<Rightarrow> WakuLightPushResult \<times> 's"

definition getNilPushHandler :: "'s push_handler" where
  "getNilPushHandler topic msg s = (lightpushResultInternalError ''no waku relay found'', s)"

text \<open>\<open>attach\<close> is \<open>checkAndGenerateRLNProof\<close> of \<open>RlnPublish\<close>, with its errors as text.\<close>

definition getRelayPushHandler ::
  "(WakuMessage \<Rightarrow> 's \<Rightarrow> (string + WakuMessage) \<times> 's) \<Rightarrow> 's relay_node \<Rightarrow> Timestamp \<Rightarrow> 's push_handler" where
  "getRelayPushHandler attach relay now topic msg s =
     (case attach msg s of
        (Inl e, s) \<Rightarrow> (lighpushErrorResult LP_OUT_OF_RLN_PROOF e, s)
      | (Inr msgWithProof, s) \<Rightarrow>
          (case relay_validateMessage relay topic msgWithProof s of
             (Inl e, s) \<Rightarrow> (lighpushErrorResult LP_INVALID_MESSAGE e, s)
           | (Inr _, s) \<Rightarrow>
               (case relay_publish relay now topic msgWithProof s of
                  (Inl outcome, s) \<Rightarrow> (mapPubishingErrorToPushResult outcome, s)
                | (Inr n, s) \<Rightarrow> (lightpushSuccessResult (word_of_int n), s))))"

section \<open>The protocol\<close>

definition push_topic ::
  "(string \<Rightarrow> byte list) \<Rightarrow> Sharding option \<Rightarrow> LightpushRequest \<Rightarrow> defect + (ErrorStatus + string)" where
  "push_topic sha256 autoSharding req =
     (case lp_pubSubTopic req of
        Some t \<Rightarrow> Inr (Inr t)
      | None \<Rightarrow>
          (case autoSharding of
             None \<Rightarrow>
               Inr (Inl (LP_INVALID_MESSAGE,
                 Some ''Pubsub topic must be specified when static sharding is enabled''))
           | Some sharding \<Rightarrow>
               (case parse_ns (contentTopic (lp_message req)) of
                  Inl e \<Rightarrow> Inr (Inl (LP_INVALID_MESSAGE, Some (''Invalid content-topic:'' @ show_parsing_error e)))
                | Inr t \<Rightarrow>
                    rbind (getShard sha256 sharding t) (\<lambda>r.
                      case r of
                        Inl e \<Rightarrow> Inr (Inl (LP_INTERNAL_SERVER_ERROR, Some (''Auto-sharding error: '' @ e)))
                      | Inr shard \<Rightarrow> Inr (Inr (show_shard shard))))))"

definition handle_push ::
  "(string \<Rightarrow> byte list) \<Rightarrow> Sharding option \<Rightarrow> 's push_handler \<Rightarrow> LightpushRequest \<Rightarrow> 's
     \<Rightarrow> defect + (WakuLightPushResult \<times> 's)" where
  "handle_push sha256 autoSharding pushHandler req s =
     rbind (push_topic sha256 autoSharding req) (\<lambda>t.
       case t of
         Inl e \<Rightarrow> Inr (Inl e, s)
       | Inr topic \<Rightarrow>
           if isEmptyOrWhitespace topic then Inr (lightpushResultBadRequest ''topic must not be empty'', s)
           else Inr (pushHandler topic (lp_message req) s))"

record 'm lp_codec =
  lp_enc_request :: "LightpushRequest \<Rightarrow> 'm"
  lp_dec_request :: "'m \<Rightarrow> string + LightpushRequest"
  lp_enc_response :: "LightPushResponse \<Rightarrow> 'm"
  lp_dec_response :: "'m \<Rightarrow> string + LightPushResponse"

definition lp_decodeRpcFailure :: string where "lp_decodeRpcFailure = ''decode_rpc_failure''"

definition push_response :: "string \<Rightarrow> WakuLightPushResult \<Rightarrow> LightPushResponse" where
  "push_response requestId r =
     (case r of
        Inl (code, desc) \<Rightarrow>
          \<lparr>lr_requestId = requestId, lr_statusCode = code, lr_statusDesc = desc, lr_relayPeerCount = None\<rparr>
      | Inr n \<Rightarrow>
          \<lparr>lr_requestId = requestId, lr_statusCode = LP_SUCCESS, lr_statusDesc = None,
           lr_relayPeerCount = Some n\<rparr>)"

definition lp_handleRequest ::
  "'m lp_codec \<Rightarrow> (string \<Rightarrow> byte list) \<Rightarrow> Sharding option \<Rightarrow> 's push_handler \<Rightarrow> 'm \<Rightarrow> 's
     \<Rightarrow> defect + (LightPushResponse \<times> 's)" where
  "lp_handleRequest codec sha256 autoSharding pushHandler buffer s =
     (case lp_dec_request codec buffer of
        Inl e \<Rightarrow>
          Inr (push_response ''N/A''
            (lightpushResultBadRequest (lp_decodeRpcFailure @ '': '' @ e)), s)
      | Inr request \<Rightarrow>
          rbind (handle_push sha256 autoSharding pushHandler request s) (\<lambda>(r, s).
            Inr (push_response (lp_requestId request) r, s)))"

text \<open>The handler of a connection behind the limiter: what is written back, if anything.\<close>

definition lightpush_handler ::
  "'m lp_codec \<Rightarrow> (string \<Rightarrow> byte list) \<Rightarrow> Sharding option \<Rightarrow> 's push_handler \<Rightarrow> 'b bucket_ops \<Rightarrow> 'p
     \<Rightarrow> int \<Rightarrow> int \<Rightarrow> string + 'm \<Rightarrow> ('p, 'b) RequestRateLimiter \<Rightarrow> 's
     \<Rightarrow> (defect + ('m option \<times> ('p, 'b) RequestRateLimiter \<times> 's)) option" where
  "lightpush_handler codec sha256 autoSharding pushHandler ops peerId now tm_now read limiter s =
     map_option
       (\<lambda>r. case r of
          Inl f \<Rightarrow> Inl AssertionDefect
        | Inr (ok, limiter) \<Rightarrow>
            if ok then
              (case read of
                 Inl e \<Rightarrow> Inr (None, limiter, s)
               | Inr buffer \<Rightarrow>
                   rbind (lp_handleRequest codec sha256 autoSharding pushHandler buffer s) (\<lambda>(rpc, s).
                     Inr (Some (lp_enc_response codec rpc), limiter, s)))
            else
              Inr (Some (lp_enc_response codec
                (push_response ''N/A'' (Inl (LP_TOO_MANY_REQUESTS, Some TooManyRequestsMessage)))),
                limiter, s))
       (checkUsage ops peerId now tm_now limiter)"

text \<open>
  A request of the node to itself passes through the encoding and no limiter. All exceptions are
  caught here, the defects included; \<open>describe\<close> gives their messages.
\<close>

definition handleSelfLightPushRequest ::
  "'m lp_codec \<Rightarrow> (defect \<Rightarrow> string) \<Rightarrow> (string \<Rightarrow> byte list) \<Rightarrow> Sharding option \<Rightarrow> 's push_handler
     \<Rightarrow> string \<Rightarrow> string option \<Rightarrow> WakuMessage \<Rightarrow> 's \<Rightarrow> WakuLightPushResult \<times> 's" where
  "handleSelfLightPushRequest codec describe sha256 autoSharding pushHandler rid topic msg s =
     (case lp_handleRequest codec sha256 autoSharding pushHandler
             (lp_enc_request codec \<lparr>lp_requestId = rid, lp_pubSubTopic = topic, lp_message = msg\<rparr>) s of
        Inl f \<Rightarrow>
          (lightpushResultInternalError (''exception in handleSelfLightPushRequest: '' @ describe f), s)
      | Inr (rpc, s) \<Rightarrow> (toPushResult rpc, s))"

section \<open>The client\<close>

text \<open>
  What a read can fail with: the peer has closed the stream, which is caught, or another error of the
  stream, which like a failed write leaves the procedure as an exception.
\<close>

datatype read_failure = RemoteClosed string | StreamError string

record ('e, 'm) lp_network =
  lpn_dial :: "'e \<Rightarrow> bool \<times> 'e"
  lpn_write :: "'m \<Rightarrow> 'e \<Rightarrow> string option \<times> 'e"
  lpn_read :: "'e \<Rightarrow> (read_failure + 'm) \<times> 'e"
  lpn_now :: "'e \<Rightarrow> Timestamp \<times> 'e"
  lpn_id :: "'e \<Rightarrow> string \<times> 'e"

definition ensureTimestampSet :: "('e, 'm) lp_network \<Rightarrow> WakuMessage \<Rightarrow> 'e \<Rightarrow> WakuMessage \<times> 'e" where
  "ensureTimestampSet net msg e =
     (if timestamp msg = 0 then (let (now, e) = lpn_now net e in (msg\<lparr>timestamp := now\<rparr>, e)) else (msg, e))"

definition sendPushRequest ::
  "'m lp_codec \<Rightarrow> ('e, 'm) lp_network \<Rightarrow> string \<Rightarrow> LightpushRequest \<Rightarrow> 'e
     \<Rightarrow> (string + WakuLightPushResult) \<times> 'e" where
  "sendPushRequest codec net peer req e =
     (case lpn_dial net e of
        (False, e) \<Rightarrow>
          (Inr (lighpushErrorResult LP_NO_PEERS_TO_RELAY (''dial_failure: '' @ peer @ '' is not accessible'')), e)
      | (True, e) \<Rightarrow>
          (case lpn_write net (lp_enc_request codec req) e of
             (Some exn, e) \<Rightarrow> (Inl exn, e)
           | (None, e) \<Rightarrow>
               (case lpn_read net e of
                  (Inl (RemoteClosed msg), e) \<Rightarrow>
                    (Inr (lightpushResultInternalError (''Failed to read response from peer: '' @ msg)), e)
                | (Inl (StreamError exn), e) \<Rightarrow> (Inl exn, e)
                | (Inr buffer, e) \<Rightarrow>
                    (case lp_dec_response codec buffer of
                       Inl msg \<Rightarrow> (Inr (lightpushResultInternalError lp_decodeRpcFailure), e)
                     | Inr response \<Rightarrow>
                         if lr_requestId response \<noteq> lp_requestId req
                            \<and> lr_statusCode response \<noteq> LP_TOO_MANY_REQUESTS
                         then (Inr (lightpushResultInternalError ''response failure, requestId mismatch''), e)
                         else (Inr (toPushResult response), e)))))"

definition lightpush_publish ::
  "'m lp_codec \<Rightarrow> ('e, 'm) lp_network \<Rightarrow> string \<Rightarrow> string option \<Rightarrow> WakuMessage \<Rightarrow> 'e
     \<Rightarrow> (string + WakuLightPushResult) \<times> 'e" where
  "lightpush_publish codec net peer topic msg e =
     (let (msg, e) = ensureTimestampSet net msg e;
          (rid, e) = lpn_id net e
      in sendPushRequest codec net peer \<lparr>lp_requestId = rid, lp_pubSubTopic = topic, lp_message = msg\<rparr> e)"

text \<open>\<open>peer\<close> is what the peer manager selects for the protocol.\<close>

definition publishToAny ::
  "'m lp_codec \<Rightarrow> (string \<Rightarrow> ('e, 'm) lp_network) \<Rightarrow> string option \<Rightarrow> string \<Rightarrow> WakuMessage \<Rightarrow> 'e
     \<Rightarrow> (string + WakuLightPushResult) \<times> 'e" where
  "publishToAny codec net peer topic msg e =
     (case peer of
        None \<Rightarrow> (Inr (lighpushErrorResult LP_NO_PEERS_TO_RELAY ''no suitable remote peers''), e)
      | Some p \<Rightarrow> lightpush_publish codec (net p) p (Some topic) msg e)"

section \<open>The two ends together\<close>

text \<open>
  A connection from a client straight to the handler of a service node: what is written is handled
  at once, what is read is the response, and nothing where the handler wrote nothing.
\<close>

type_synonym ('s, 'p, 'b, 'm) service_env =
  "('p, 'b) RequestRateLimiter \<times> 's \<times> (read_failure + 'm)"

definition service_net ::
  "'m lp_codec \<Rightarrow> (string \<Rightarrow> byte list) \<Rightarrow> Sharding option \<Rightarrow> 's push_handler \<Rightarrow> 'b bucket_ops \<Rightarrow> 'p
     \<Rightarrow> int \<Rightarrow> int \<Rightarrow> Timestamp \<Rightarrow> string \<Rightarrow> (('s, 'p, 'b, 'm) service_env, 'm) lp_network" where
  "service_net codec sha256 autoSharding pushHandler ops peerId now tm_now clock rid =
     \<lparr>lpn_dial = (\<lambda>e. (True, e)),
      lpn_write = (\<lambda>buffer (limiter, s, _).
        (None,
         case lightpush_handler codec sha256 autoSharding pushHandler ops peerId now tm_now (Inr buffer) limiter s of
           Some (Inr (Some out, limiter, s)) \<Rightarrow> (limiter, s, Inr out)
         | _ \<Rightarrow> (limiter, s, Inl (RemoteClosed ''Stream EOF!'')))),
      lpn_read = (\<lambda>e. (snd (snd e), e)),
      lpn_now = (\<lambda>e. (clock, e)),
      lpn_id = (\<lambda>e. (rid, e))\<rparr>"

definition lp_codec_roundtrip :: "'m lp_codec \<Rightarrow> bool" where
  "lp_codec_roundtrip codec \<longleftrightarrow>
     (\<forall>r. length (meta (lp_message r)) \<le> 64 \<and> is_int64 (timestamp (lp_message r)) \<longrightarrow>
        lp_dec_request codec (lp_enc_request codec r) = Inr r)
     \<and> (\<forall>p. lp_dec_response codec (lp_enc_response codec p) = Inr p)"

text \<open>The results of a push over the relay keep their meaning when they are sent as a response.\<close>

lemma toPushResult_response:
  "r \<noteq> Inr 0 \<Longrightarrow> (\<forall>desc. r \<noteq> Inl (LP_SUCCESS, desc)) \<Longrightarrow> toPushResult (push_response rid r) = r"
  by (cases r) (auto simp: toPushResult_def push_response_def lp_isSuccess_def split: prod.splits)

lemma relay_push_result:
  assumes "\<forall>t m s. fst (gossip_publish relay t m s) < 2 ^ 32"
  shows "fst (getRelayPushHandler attach relay now t m s) \<noteq> Inr 0"
    and "fst (getRelayPushHandler attach relay now t m s) \<noteq> Inl (LP_SUCCESS, desc)"
proof -
  have pos: "(word_of_int n :: 32 word) \<noteq> 0" if "0 < n" "n < 2 ^ 32" for n
  proof
    assume "(word_of_int n :: 32 word) = 0"
    then have "uint (word_of_int n :: 32 word) = 0" by simp
    with that show False by (simp add: uint_word_of_int)
  qed
  have pub: "0 < n \<and> n < 2 ^ 32" if "relay_publish relay now t m s = (Inr n, s')" for m s n s'
    using that assms
    by (auto simp: relay_publish_def Let_def split: if_splits prod.splits) (metis fst_conv)+
  show "fst (getRelayPushHandler attach relay now t m s) \<noteq> Inr 0"
    using pos pub by (auto simp: getRelayPushHandler_def lighpushErrorResult_def lightpushSuccessResult_def
        split: prod.splits sum.splits dest!: pub elim!: mapPubishingErrorToPushResult.elims)
  show "fst (getRelayPushHandler attach relay now t m s) \<noteq> Inl (LP_SUCCESS, desc)"
    by (auto simp: getRelayPushHandler_def lighpushErrorResult_def lightpushSuccessResult_def lp_codes
        split: prod.splits sum.splits elim!: mapPubishingErrorToPushResult.elims)
qed

lemma handler_push:
  assumes "checkUsage ops peerId now tm_now limiter = Some (Inr (ok, limiter'))"
    and "lp_dec_request codec buffer = Inr \<lparr>lp_requestId = rid, lp_pubSubTopic = Some t, lp_message = m\<rparr>"
    and "\<not> isEmptyOrWhitespace t" and "pushHandler t m s = (r, s')"
  shows "lightpush_handler codec sha256 autoSharding pushHandler ops peerId now tm_now (Inr buffer) limiter s =
    Some (Inr (if ok then (Some (lp_enc_response codec (push_response rid r)), limiter', s')
      else (Some (lp_enc_response codec
        (push_response ''N/A'' (Inl (LP_TOO_MANY_REQUESTS, Some TooManyRequestsMessage)))), limiter', s)))"
  using assms by (simp add: lightpush_handler_def lp_handleRequest_def handle_push_def push_topic_def)

text \<open>
  C12. What a client of the light push service gets for a message under a topic is what publishing it
  over the relay of the service node gave: the number of peers reached, or the error with its code
  and description. Where the limiter refuses the request the client gets the code for it, nothing is
  published, and the identifier of the response is not compared.
\<close>

theorem lightpush_end_to_end:
  fixes relay :: "'s relay_node" and attach :: "WakuMessage \<Rightarrow> 's \<Rightarrow> (string + WakuMessage) \<times> 's"
    and s :: 's and tnow :: Timestamp
  assumes "lp_codec_roundtrip codec"
    and "checkUsage ops peerId now tm_now limiter = Some (Inr (ok, limiter'))"
    and "\<not> isEmptyOrWhitespace t" and "length (meta msg) \<le> 64" "is_int64 (timestamp msg)" "is_int64 clock"
    and "\<forall>t m s. fst (gossip_publish relay t m s) < 2 ^ 32"
  defines "push \<equiv> getRelayPushHandler attach relay tnow t
      (if timestamp msg = 0 then msg\<lparr>timestamp := clock\<rparr> else msg) s"
  shows "\<exists>out. lightpush_publish codec
      (service_net codec sha256 autoSharding (getRelayPushHandler attach relay tnow) ops peerId now tm_now clock rid)
      peer (Some t) msg (limiter, s, last_read)
    = (Inr (if ok then fst push else Inl (LP_TOO_MANY_REQUESTS, Some TooManyRequestsMessage)),
       limiter', if ok then snd push else s, out)"
proof -
  define m where "m = (if timestamp msg = 0 then msg\<lparr>timestamp := clock\<rparr> else msg)"
  obtain r s' where push: "push = (r, s')" by fastforce
  then have r: "r \<noteq> Inr 0" "\<forall>desc. r \<noteq> Inl (LP_SUCCESS, desc)"
    using relay_push_result [OF assms(7)] unfolding push_def by (metis fst_conv)+
  let ?net = "service_net codec sha256 autoSharding (getRelayPushHandler attach relay tnow) ops peerId now tm_now clock rid"
  let ?req = "\<lparr>lp_requestId = rid, lp_pubSubTopic = Some t, lp_message = m\<rparr>"
  have "lp_dec_request codec (lp_enc_request codec ?req) = Inr ?req"
    using assms(1,4,5,6) by (simp add: lp_codec_roundtrip_def m_def)
  note h = handler_push [where pushHandler = "getRelayPushHandler attach relay tnow" and m = m,
      OF assms(2) this assms(3), of s r s' sha256 autoSharding]
  have "getRelayPushHandler attach relay tnow t m s = (r, s')" using push by (simp add: push_def m_def)
  note h = h [OF this]
  have ts: "ensureTimestampSet ?net msg (limiter, s, last_read) = (m, (limiter, s, last_read))"
    by (simp add: ensureTimestampSet_def service_net_def m_def)
  have dec: "lp_dec_response codec (lp_enc_response codec p) = Inr p" for p
    using assms(1) by (simp add: lp_codec_roundtrip_def)
  show ?thesis
  proof (cases ok)
    case True
    have "lr_requestId (push_response rid r) = rid" by (simp add: push_response_def split: sum.splits prod.splits)
    then show ?thesis
      using True h ts r dec push by (simp add: lightpush_publish_def sendPushRequest_def service_net_def toPushResult_response)
  next
    case False
    have "LP_SUCCESS \<noteq> LP_TOO_MANY_REQUESTS" by (simp add: lp_codes)
    then show ?thesis
      using False h ts dec
      by (simp add: lightpush_publish_def sendPushRequest_def service_net_def push_response_def toPushResult_def
          lp_isSuccess_def)
  qed
qed

text \<open>A service node for examples: no limit, no validators but one for the time, three peers.\<close>

definition open_limiter :: "(string, int) RequestRateLimiter" where
  "open_limiter = \<lparr>tokenBucket = None, setting = None, mainBucketSetting = (0, 0), ratio = 0,
     peerBucketSetting = (0, 0), peerUsage = tm_init 0, buckets = [], limited = False\<rparr>"

definition plain_lp_codec :: "(LightpushRequest + LightPushResponse) lp_codec" where
  "plain_lp_codec =
     \<lparr>lp_enc_request = Inl, lp_dec_request = (\<lambda>b. case b of Inl r \<Rightarrow> Inr r | Inr _ \<Rightarrow> Inl ''not a request''),
      lp_enc_response = Inr, lp_dec_response = (\<lambda>b. case b of Inl _ \<Rightarrow> Inl ''not a response'' | Inr p \<Rightarrow> Inr p)\<rparr>"

definition sample_relay :: "WakuMessage list relay_node" where
  "sample_relay =
     \<lparr>msg_size = (\<lambda>m. length (payload m)), maxMessageSize = 10,
      wakuValidators = [(\<lambda>t m s. (if timestamp m < 5 then Reject else Accept, s), ''too old'')],
      gossip_publish = (\<lambda>t m s. (3, s @ [m]))\<rparr>"

definition sample_push :: "Timestamp \<Rightarrow> WakuMessage" where
  "sample_push ts = \<lparr>payload = [1], contentTopic = ''/a/1/b/c'', meta = [], msg_version = 0, timestamp = ts,
     ephemeral = False, msg_proof = []\<rparr>"

theorem lightpush_end_to_end_witness:
  "(\<exists>out. lightpush_publish plain_lp_codec
      (service_net plain_lp_codec (\<lambda>_. []) None
        (getRelayPushHandler (\<lambda>m s. (Inr m, s)) sample_relay 7) sample_bucket ''client'' 1 1 7 ''id'')
      ''service'' (Some ''t'') (sample_push 0) (open_limiter, [], Inl (StreamError ''''))
    = (Inr (Inr 3), open_limiter, [sample_push 7], out))
  \<and> (\<exists>out. lightpush_publish plain_lp_codec
      (service_net plain_lp_codec (\<lambda>_. []) None
        (getRelayPushHandler (\<lambda>m s. (Inr m, s)) sample_relay 7) sample_bucket ''client'' 1 1 7 ''id'')
      ''service'' (Some ''t'') (sample_push 3) (open_limiter, [], Inl (StreamError ''''))
    = (Inr (Inl (LP_INVALID_MESSAGE, Some ''too old'')), open_limiter, [], out))"
proof -
  have codec: "lp_codec_roundtrip plain_lp_codec" by (simp add: lp_codec_roundtrip_def plain_lp_codec_def)
  have lim: "checkUsage sample_bucket ''client'' 1 1 open_limiter = Some (Inr (True, open_limiter))"
    by (simp add: checkUsage_def open_limiter_def)
  have topic: "\<not> isEmptyOrWhitespace ''t''" by (simp add: isEmptyOrWhitespace_def is_space_def)
  have msg: "length (meta (sample_push i)) \<le> 64" "timestamp (sample_push i) = i" for i
    by (simp_all add: sample_push_def)
  have peers: "\<forall>t m s. fst (gossip_publish sample_relay t m s) < 2 ^ 32" by (simp add: sample_relay_def)
  have "is_int64 (7 :: int)" "is_int64 (timestamp (sample_push 0))" "is_int64 (timestamp (sample_push 3))"
    by (simp_all add: is_int64_def msg(2))
  note e0 = lightpush_end_to_end [OF codec lim topic msg(1) this(2) this(1) peers]
    and e3 = lightpush_end_to_end [OF codec lim topic msg(1) this(3) this(1) peers]
  have first: "getRelayPushHandler (\<lambda>m s. (Inr m, s)) sample_relay 7 ''t'' (sample_push 7) [] = (Inr 3, [sample_push 7])"
    using topic by (simp add: getRelayPushHandler_def relay_validateMessage_def relay_publish_def sample_relay_def
        sample_push_def lightpushSuccessResult_def Let_def)
  have second: "getRelayPushHandler (\<lambda>m s. (Inr m, s)) sample_relay 7 ''t'' (sample_push 3) []
      = (Inl (LP_INVALID_MESSAGE, Some ''too old''), [])"
    by (simp add: getRelayPushHandler_def relay_validateMessage_def sample_relay_def sample_push_def
        lighpushErrorResult_def)
  have "(sample_push 0)\<lparr>timestamp := 7\<rparr> = sample_push 7" by (simp add: sample_push_def)
  with first second
    e0 [where ?sha256.0 = "\<lambda>_. []" and autoSharding = None and tnow = 7 and s = "[]" and rid = "''id''"
      and peer = "''service''" and last_read = "Inl (StreamError '''')" and attach = "\<lambda>m s. (Inr m, s)"]
    e3 [where ?sha256.0 = "\<lambda>_. []" and autoSharding = None and tnow = 7 and s = "[]" and rid = "''id''"
      and peer = "''service''" and last_read = "Inl (StreamError '''')" and attach = "\<lambda>m s. (Inr m, s)"]
  show ?thesis by (simp add: msg(2))
qed

section \<open>A request the service cannot read\<close>

text \<open>
  The response to a request that does not decode carries no identifier, which the client takes for a
  mismatch: it reports an internal error of the service, not the bad request.
\<close>

lemma undecodable_request:
  assumes "checkUsage ops peerId now tm_now limiter = Some (Inr (True, limiter'))"
    and "\<forall>r. lp_dec_request codec (lp_enc_request codec r) = Inl failure" and "rid \<noteq> ''N/A''"
    and "\<forall>p. lp_dec_response codec (lp_enc_response codec p) = Inr p"
  shows "\<exists>e. lightpush_publish codec
      (service_net codec sha256 autoSharding pushHandler ops peerId now tm_now clock rid)
      peer topic msg (limiter, s, last_read)
    = (Inr (Inl (LP_INTERNAL_SERVER_ERROR, Some ''response failure, requestId mismatch'')), e)"
proof -
  have "LP_BAD_REQUEST \<noteq> LP_TOO_MANY_REQUESTS" by (simp add: lp_codes)
  with assms show ?thesis
    by (auto simp: lightpush_publish_def ensureTimestampSet_def sendPushRequest_def service_net_def
        lightpush_handler_def lp_handleRequest_def push_response_def lightpushResultBadRequest_def
        lightpushResultInternalError_def lighpushErrorResult_def Let_def)
qed

end
