(* ===== verification/SendService.thy ===== *)
theory SendService
  imports Lightpush StoreService
begin

text \<open>
  The sending side of the delivery service, \<open>waku/node/delivery_service/send_service/\<close>: tasks and
  their states, the chain of processors that tries the relay and then a light push service, and the
  service that retries, asks a store whether messages arrived, and reports to the application. What
  the network answers is an argument: of a publication over the relay, of the selection of peers and
  of a light push request, which may raise; and of the store query. Times are nanoseconds.
\<close>

section \<open>Tasks\<close>

datatype DeliveryState =
  Entry | SuccessfullyPropagated | SuccessfullyValidated | FallbackRetry | NextRoundRetry
  | FailedToDeliver

record MessageEnvelope =
  env_contentTopic :: string
  env_payload :: "byte list"
  env_ephemeral :: bool

record DeliveryTask =
  requestId :: string
  task_pubsubTopic :: string
  task_msg :: WakuMessage
  msgHash :: WakuMessageHash
  tryCount :: nat
  state :: DeliveryState
  deliveryTime :: int
  propagateEventEmitted :: bool
  errorDesc :: string

definition toWakuMessage :: "Timestamp \<Rightarrow> MessageEnvelope \<Rightarrow> WakuMessage" where
  "toWakuMessage now envelope =
     \<lparr>payload = env_payload envelope, contentTopic = env_contentTopic envelope, meta = [],
      msg_version = 0, timestamp = now, ephemeral = env_ephemeral envelope, msg_proof = []\<rparr>"

text \<open>\<open>relay_shard\<close> is the answer of the node to the request for the shard of a content topic.\<close>

definition delivery_task_new ::
  "(byte list \<Rightarrow> WakuMessageHash) \<Rightarrow> (string \<Rightarrow> string + RelayShard) \<Rightarrow> Timestamp \<Rightarrow> string
     \<Rightarrow> MessageEnvelope \<Rightarrow> string + DeliveryTask" where
  "delivery_task_new sha256 relay_shard now rid envelope =
     (let msg = toWakuMessage now envelope in
      case relay_shard (env_contentTopic envelope) of
        Inl e \<Rightarrow> Inl (''Failed create DeliveryTask: '' @ e)
      | Inr shard \<Rightarrow>
          let topic = show_shard shard in
          Inr \<lparr>requestId = rid, task_pubsubTopic = topic, task_msg = msg,
               msgHash = computeMessageHash sha256 topic msg, tryCount = 0, state = Entry,
               deliveryTime = 0, propagateEventEmitted = False, errorDesc = ''''\<rparr>)"

definition messageAge :: "int \<Rightarrow> DeliveryTask \<Rightarrow> int" where
  "messageAge actual t =
     (if 0 \<le> timestamp (task_msg t) \<and> timestamp (task_msg t) < actual
      then actual - timestamp (task_msg t) else 0)"

definition deliveryAge :: "int \<Rightarrow> DeliveryTask \<Rightarrow> int" where
  "deliveryAge now t = (if state t = SuccessfullyPropagated then now - deliveryTime t else 0)"

definition isEphemeral :: "DeliveryTask \<Rightarrow> bool" where
  "isEphemeral t \<longleftrightarrow> ephemeral (task_msg t)"

section \<open>Processors\<close>

text \<open>What the network answers while a task is processed.\<close>

record push_answers =
  relay_res :: WakuLightPushResult
  lp_available :: bool
  lp_peer :: bool
  lp_res :: "string + WakuLightPushResult"
  sent_at :: int

datatype processor = RelaySend DeliveryState | LightpushSend

definition relay_processor :: "bool \<Rightarrow> processor" where
  "relay_processor lightpushAvailable =
     RelaySend (if lightpushAvailable then FallbackRetry else FailedToDeliver)"

definition setupSendProcessorChain :: "bool \<Rightarrow> bool \<Rightarrow> string + processor list" where
  "setupSendProcessorChain isRelayAvail isLightPushAvail =
     (if \<not> isRelayAvail \<and> \<not> isLightPushAvail then
        Inl ''No valid send processor found for the delivery task''
      else Inr ((if isRelayAvail then [relay_processor isLightPushAvail] else [])
                @ (if isLightPushAvail then [LightpushSend] else [])))"

definition error_text :: "ErrorStatus \<Rightarrow> string" where
  "error_text e = (case snd e of Some d \<Rightarrow> d | None \<Rightarrow> decimal (unat (fst e)))"

fun isValidProcessor :: "push_answers \<Rightarrow> processor \<Rightarrow> bool" where
  "isValidProcessor a (RelaySend fallback) = True"
| "isValidProcessor a LightpushSend = lp_available a"

definition propagated :: "push_answers \<Rightarrow> DeliveryTask \<Rightarrow> DeliveryTask" where
  "propagated a t = t\<lparr>state := SuccessfullyPropagated, deliveryTime := sent_at a\<rparr>"

definition relay_sendImpl :: "DeliveryState \<Rightarrow> push_answers \<Rightarrow> DeliveryTask \<Rightarrow> DeliveryTask" where
  "relay_sendImpl fallback a t =
     (let t = t\<lparr>tryCount := tryCount t + 1\<rparr> in
      case relay_res a of
        Inl e \<Rightarrow>
          if fst e \<noteq> LP_NO_PEERS_TO_RELAY then t\<lparr>state := FailedToDeliver, errorDesc := error_text e\<rparr>
          else t\<lparr>state := fallback\<rparr>
      | Inr n \<Rightarrow> if 0 < n then propagated a t else t\<lparr>state := fallback\<rparr>)"

definition lightpush_sendImpl :: "push_answers \<Rightarrow> DeliveryTask \<Rightarrow> string option \<times> DeliveryTask" where
  "lightpush_sendImpl a t =
     (let t = t\<lparr>tryCount := tryCount t + 1\<rparr> in
      if \<not> lp_peer a then (None, t\<lparr>state := NextRoundRetry\<rparr>)
      else
        case lp_res a of
          Inl exn \<Rightarrow> (Some exn, t)
        | Inr (Inl e) \<Rightarrow>
            (None,
             if fst e \<in> {LP_NO_PEERS_TO_RELAY, LP_TOO_MANY_REQUESTS, LP_OUT_OF_RLN_PROOF,
                  LP_SERVICE_NOT_AVAILABLE, LP_INTERNAL_SERVER_ERROR}
             then t\<lparr>state := NextRoundRetry\<rparr>
             else t\<lparr>state := FailedToDeliver, errorDesc := error_text e, deliveryTime := sent_at a\<rparr>)
        | Inr (Inr n) \<Rightarrow>
            (None, if 0 < n then propagated a t else t\<lparr>state := NextRoundRetry\<rparr>))"

fun sendImpl :: "push_answers \<Rightarrow> processor \<Rightarrow> DeliveryTask \<Rightarrow> string option \<times> DeliveryTask" where
  "sendImpl a (RelaySend fallback) t = (None, relay_sendImpl fallback a t)"
| "sendImpl a LightpushSend t = lightpush_sendImpl a t"

text \<open>The loop over the chain: it goes on while the task is to be tried with the next processor.\<close>

fun process_loop :: "push_answers \<Rightarrow> processor list \<Rightarrow> DeliveryTask \<Rightarrow> string option \<times> DeliveryTask" where
  "process_loop a [] t = (None, t)"
| "process_loop a (p # ps) t =
     (case (if isValidProcessor a p then sendImpl a p t else (None, t)) of
        (Some exn, t) \<Rightarrow> (Some exn, t)
      | (None, t) \<Rightarrow> if state t = FallbackRetry then process_loop a ps t else (None, t))"

definition process :: "push_answers \<Rightarrow> processor list \<Rightarrow> DeliveryTask \<Rightarrow> string option \<times> DeliveryTask" where
  "process a chain t =
     (case process_loop a chain t of
        (Some exn, t) \<Rightarrow> (Some exn, t)
      | (None, t) \<Rightarrow> (None, if state t = FallbackRetry then t\<lparr>state := NextRoundRetry\<rparr> else t))"

section \<open>The service\<close>

datatype send_event =
  MessagePropagatedEvent string WakuMessageHash
  | MessageSentEvent string WakuMessageHash
  | MessageErrorEvent string WakuMessageHash string

record SendService =
  taskCache :: "DeliveryTask list"
  sendProcessor :: "processor list"
  checkStoreForMessages :: bool
  events :: "send_event list"

definition MaxTimeInCache :: int where "MaxTimeInCache = 60 * 10 ^ 9"
definition ArchiveTime :: int where "ArchiveTime = 3 * 10 ^ 9"

definition send_service_new :: "bool \<Rightarrow> bool \<Rightarrow> bool \<Rightarrow> bool \<Rightarrow> string + SendService" where
  "send_service_new preferP2PReliability hasRelay hasLightpush hasStoreClient =
     (if \<not> hasRelay \<and> \<not> hasLightpush then
        Inl ''Could not create SendService. wakuRelay or wakuLightpushClient should be set''
      else
        (case setupSendProcessorChain hasRelay hasLightpush of
           Inl e \<Rightarrow> Inl (''failed to setup SendProcessorChain: '' @ e)
         | Inr chain \<Rightarrow>
             Inr \<lparr>taskCache = [], sendProcessor = chain,
                  checkStoreForMessages = (preferP2PReliability \<and> hasStoreClient), events = []\<rparr>))"

text \<open>Tasks are equal when their hashes are, so a second task for a message in the cache is dropped.\<close>

definition addTask :: "DeliveryTask \<Rightarrow> SendService \<Rightarrow> SendService" where
  "addTask t s =
     (if msgHash t \<in> msgHash ` set (taskCache s) then s else s\<lparr>taskCache := taskCache s @ [t]\<rparr>)"

definition store_check_request :: "DeliveryTask list \<Rightarrow> StoreQueryRequest" where
  "store_check_request tasks =
     default_request\<lparr>s_includeData := False, s_messageHashes := map msgHash tasks\<rparr>"

text \<open>What the answer of the store does to the cache; \<open>hashes\<close> are those asked for.\<close>

definition apply_validation ::
  "WakuMessageHash list \<Rightarrow> StoreQueryResponse \<Rightarrow> SendService \<Rightarrow> SendService" where
  "apply_validation hashes response s =
     (let storedItems = map kv_messageHash (p_messages response);
          cache = map (\<lambda>t. if msgHash t \<in> set storedItems then t\<lparr>state := SuccessfullyValidated\<rparr> else t)
                    (taskCache s);
          missing = filter (\<lambda>h. h \<notin> set storedItems) hashes
      in s\<lparr>taskCache := map (\<lambda>t. if msgHash t \<in> set missing then t\<lparr>state := NextRoundRetry\<rparr> else t) cache\<rparr>)"

definition checkMsgsInStore ::
  "bool \<Rightarrow> (StoreQueryRequest \<Rightarrow> StoreError + StoreQueryResponse) \<Rightarrow> DeliveryTask list \<Rightarrow> SendService
     \<Rightarrow> SendService" where
  "checkMsgsInStore storePeer query tasks s =
     (if tasks = [] then s
      else if \<not> storePeer then s
      else
        case query (store_check_request tasks) of
          Inl e \<Rightarrow> s
        | Inr response \<Rightarrow> apply_validation (map msgHash tasks) response s)"

definition tasks_to_validate :: "int \<Rightarrow> SendService \<Rightarrow> DeliveryTask list" where
  "tasks_to_validate now s =
     filter (\<lambda>t. state t = SuccessfullyPropagated \<and> ArchiveTime < deliveryAge now t \<and> \<not> isEphemeral t)
       (taskCache s)"

definition checkStoredMessages ::
  "int \<Rightarrow> bool \<Rightarrow> (StoreQueryRequest \<Rightarrow> StoreError + StoreQueryResponse) \<Rightarrow> SendService \<Rightarrow> SendService" where
  "checkStoredMessages now storePeer query s =
     (if \<not> checkStoreForMessages s then s
      else checkMsgsInStore storePeer query (tasks_to_validate now s) s)"

definition reportTaskResult :: "int \<Rightarrow> DeliveryTask \<Rightarrow> DeliveryTask \<times> send_event list" where
  "reportTaskResult actual t =
     (case state t of
        SuccessfullyPropagated \<Rightarrow>
          if propagateEventEmitted t then (t, [])
          else (t\<lparr>propagateEventEmitted := True\<rparr>, [MessagePropagatedEvent (requestId t) (msgHash t)])
      | SuccessfullyValidated \<Rightarrow> (t, [MessageSentEvent (requestId t) (msgHash t)])
      | FailedToDeliver \<Rightarrow> (t, [MessageErrorEvent (requestId t) (msgHash t) (errorDesc t)])
      | _ \<Rightarrow>
          if MaxTimeInCache < messageAge actual t then
            (t\<lparr>state := FailedToDeliver\<rparr>,
             [MessageErrorEvent (requestId t) (msgHash t) ''Unable to send within retry time window''])
          else (t, []))"

fun report_all :: "int \<Rightarrow> DeliveryTask list \<Rightarrow> DeliveryTask list \<times> send_event list" where
  "report_all actual [] = ([], [])"
| "report_all actual (t # ts) =
     (case reportTaskResult actual t of (t, es) \<Rightarrow>
        (case report_all actual ts of (ts, es') \<Rightarrow> (t # ts, es @ es')))"

definition keeps_task :: "DeliveryTask \<Rightarrow> bool" where
  "keeps_task t \<longleftrightarrow> state t \<noteq> SuccessfullyValidated \<and> state t \<noteq> FailedToDeliver
     \<and> \<not> (isEphemeral t \<and> state t = SuccessfullyPropagated)"

definition evaluateAndCleanUp :: "int \<Rightarrow> SendService \<Rightarrow> SendService" where
  "evaluateAndCleanUp actual s =
     (case report_all actual (taskCache s) of (ts, es) \<Rightarrow>
        s\<lparr>taskCache := filter keeps_task ts, events := events s @ es\<rparr>)"

text \<open>The tasks to send again, one after the other; an exception ends the pass and the service loop.\<close>

fun try_tasks ::
  "(DeliveryTask \<Rightarrow> push_answers) \<Rightarrow> processor list \<Rightarrow> DeliveryTask list \<Rightarrow> string option \<times> DeliveryTask list" where
  "try_tasks ans chain [] = (None, [])"
| "try_tasks ans chain (t # ts) =
     (if state t = NextRoundRetry then
        (case process (ans t) chain t of
           (Some exn, t) \<Rightarrow> (Some exn, t # ts)
         | (None, t) \<Rightarrow> (case try_tasks ans chain ts of (x, ts) \<Rightarrow> (x, t # ts)))
      else (case try_tasks ans chain ts of (x, ts) \<Rightarrow> (x, t # ts)))"

definition trySendMessages ::
  "(DeliveryTask \<Rightarrow> push_answers) \<Rightarrow> SendService \<Rightarrow> string option \<times> SendService" where
  "trySendMessages ans s =
     (case try_tasks ans (sendProcessor s) (taskCache s) of (x, ts) \<Rightarrow> (x, s\<lparr>taskCache := ts\<rparr>))"

text \<open>A round of the service loop; an exception is given instead of the remaining steps.\<close>

definition service_round ::
  "(DeliveryTask \<Rightarrow> push_answers) \<Rightarrow> int \<Rightarrow> bool \<Rightarrow> (StoreQueryRequest \<Rightarrow> StoreError + StoreQueryResponse)
     \<Rightarrow> int \<Rightarrow> SendService \<Rightarrow> string option \<times> SendService" where
  "service_round ans now storePeer query actual s =
     (case trySendMessages ans s of
        (Some exn, s) \<Rightarrow> (Some exn, s)
      | (None, s) \<Rightarrow> (None, evaluateAndCleanUp actual (checkStoredMessages now storePeer query s)))"

text \<open>
  \<open>send\<close> is spawned, so an exception in it ends the program. The subscription to the content topic
  that it makes first is in \<open>RecvService\<close>; its failure is logged only.
\<close>

definition send_task ::
  "push_answers \<Rightarrow> int \<Rightarrow> DeliveryTask \<Rightarrow> SendService \<Rightarrow> string + SendService" where
  "send_task a actual t s =
     (case process a (sendProcessor s) t of
        (Some exn, t) \<Rightarrow> Inl exn
      | (None, t) \<Rightarrow>
          (case reportTaskResult actual t of (t, es) \<Rightarrow>
             let s = s\<lparr>events := events s @ es\<rparr> in
             Inr (if state t \<noteq> FailedToDeliver then addTask t s else s)))"

section \<open>Runs\<close>

text \<open>
  Sends are interleaved with the steps of the service loop: a pass over the tasks to retry, an answer
  of a store (to hashes that may have been asked for earlier), and the evaluation. An exception ends
  the run.
\<close>

datatype send_op =
  SendTask push_answers int DeliveryTask
  | RetryTasks "DeliveryTask \<Rightarrow> push_answers"
  | StoreAnswer "WakuMessageHash list" StoreQueryResponse
  | EvaluateTasks int

fun send_step :: "send_op \<Rightarrow> SendService \<Rightarrow> string + SendService" where
  "send_step (SendTask a actual t) s = send_task a actual t s"
| "send_step (RetryTasks ans) s =
     (case trySendMessages ans s of (Some exn, s) \<Rightarrow> Inl exn | (None, s) \<Rightarrow> Inr s)"
| "send_step (StoreAnswer hashes response) s = Inr (apply_validation hashes response s)"
| "send_step (EvaluateTasks actual) s = Inr (evaluateAndCleanUp actual s)"

fun send_run :: "send_op list \<Rightarrow> SendService \<Rightarrow> string + SendService" where
  "send_run [] s = Inr s"
| "send_run (a # as) s = rbind (send_step a s) (send_run as)"

lemma round_steps:
  "service_round ans now storePeer query actual s = (None, s') \<Longrightarrow>
    send_run [RetryTasks ans, EvaluateTasks actual] s = Inr s' \<or>
    (\<exists>hashes response. send_run [RetryTasks ans, StoreAnswer hashes response, EvaluateTasks actual] s = Inr s')"
  by (auto simp: service_round_def checkStoredMessages_def checkMsgsInStore_def
      split: prod.splits option.splits sum.splits if_splits)

section \<open>What becomes of the events of a request\<close>

fun event_request :: "send_event \<Rightarrow> string" where
  "event_request (MessagePropagatedEvent r h) = r"
| "event_request (MessageSentEvent r h) = r"
| "event_request (MessageErrorEvent r h e) = r"

fun is_final :: "send_event \<Rightarrow> bool" where
  "is_final (MessagePropagatedEvent r h) = False"
| "is_final e = True"

text \<open>The events of a request in order, as whether each is the final one.\<close>

definition finals :: "string \<Rightarrow> send_event list \<Rightarrow> bool list" where
  "finals r es = map is_final (filter (\<lambda>e. event_request e = r) es)"

lemma finals_append [simp]: "finals r (es @ es') = finals r es @ finals r es'"
  by (simp add: finals_def)

lemma finals_Nil [simp]: "finals r [] = []"
  by (simp add: finals_def)

lemma finals_empty: "r \<notin> event_request ` set es \<Longrightarrow> finals r es = []"
  by (auto simp: finals_def filter_empty_conv)

definition same_task :: "DeliveryTask \<Rightarrow> DeliveryTask \<Rightarrow> bool" where
  "same_task t t' \<longleftrightarrow> requestId t' = requestId t \<and> msgHash t' = msgHash t \<and> task_msg t' = task_msg t
     \<and> propagateEventEmitted t' = propagateEventEmitted t"

lemma process_same: "process a chain t = (x, t') \<Longrightarrow> same_task t t'"
proof -
  have impl: "sendImpl a p t = (y, u) \<Longrightarrow> same_task t u" for p t y u
    by (cases p) (auto simp: same_task_def relay_sendImpl_def lightpush_sendImpl_def propagated_def Let_def
        split: sum.splits if_splits)
  have loop: "process_loop a ps t = (y, u) \<Longrightarrow> same_task t u" for ps t y u
  proof (induction ps arbitrary: t)
    case (Cons p ps)
    obtain z v where v: "(if isValidProcessor a p then sendImpl a p t else (None, t)) = (z, v)" by fastforce
    then have "same_task t v" using impl by (auto simp: same_task_def split: if_splits)
    with Cons v show ?case by (auto simp: same_task_def split: option.splits if_splits)
  qed (simp add: same_task_def)
  assume "process a chain t = (x, t')"
  then show ?thesis using loop
    by (auto simp: process_def same_task_def split: prod.splits option.splits if_splits)
qed

lemma try_tasks_same: "try_tasks ans chain ts = (x, ts') \<Longrightarrow> list_all2 same_task ts ts'"
proof (induction ts arbitrary: x ts')
  case (Cons t ts)
  have refl: "same_task u u" for u by (simp add: same_task_def)
  then have "list_all2 same_task us us" for us by (rule list_all2_refl)
  with Cons refl show ?case
    by (auto split: if_splits prod.splits option.splits dest: process_same)
qed simp

text \<open>One report: nothing, the first propagation, or the final event of a task that then goes.\<close>

lemma report_cases:
  assumes "reportTaskResult actual t = (t', es)"
  shows "requestId t' = requestId t \<and> msgHash t' = msgHash t \<and> event_request ` set es \<subseteq> {requestId t}
    \<and> (finals (requestId t) es = [] \<and> propagateEventEmitted t' = propagateEventEmitted t
       \<or> finals (requestId t) es = [False] \<and> \<not> propagateEventEmitted t \<and> propagateEventEmitted t'
       \<or> finals (requestId t) es = [True] \<and> \<not> keeps_task t')"
  using assms by (auto simp: reportTaskResult_def finals_def keeps_task_def
      split: DeliveryState.splits if_splits)

lemma report_all_map:
  "report_all actual ts =
    (map (\<lambda>t. fst (reportTaskResult actual t)) ts, concat (map (\<lambda>t. snd (reportTaskResult actual t)) ts))"
  by (induction ts) (auto split: prod.splits)

lemma finals_concat:
  assumes "distinct (map requestId ts)" "\<forall>t \<in> set ts. event_request ` set (ev t) \<subseteq> {requestId t}"
  shows "t \<in> set ts \<Longrightarrow> finals (requestId t) (concat (map ev ts)) = finals (requestId t) (ev t)"
    and "r \<notin> requestId ` set ts \<Longrightarrow> finals r (concat (map ev ts)) = []"
proof -
  have none: "finals r (concat (map ev us)) = []" if "r \<notin> requestId ` set us" "set us \<subseteq> set ts" for r us
    using that assms(2) by (intro finals_empty) fastforce
  show "t \<in> set ts \<Longrightarrow> finals (requestId t) (concat (map ev ts)) = finals (requestId t) (ev t)"
  proof -
    assume "t \<in> set ts"
    then obtain us vs where ts: "ts = us @ t # vs" by (auto dest: split_list)
    with assms(1) have "requestId t \<notin> requestId ` set us" "requestId t \<notin> requestId ` set vs" by auto
    moreover have "set us \<subseteq> set ts" "set vs \<subseteq> set ts" using ts by auto
    ultimately show ?thesis using none [of "requestId t" us] none [of "requestId t" vs] ts by simp
  qed
  show "r \<notin> requestId ` set ts \<Longrightarrow> finals r (concat (map ev ts)) = []" using none by simp
qed

definition send_inv :: "string set \<Rightarrow> SendService \<Rightarrow> bool" where
  "send_inv ids s \<longleftrightarrow> distinct (map requestId (taskCache s)) \<and> distinct (map msgHash (taskCache s))
     \<and> requestId ` set (taskCache s) \<subseteq> ids \<and> event_request ` set (events s) \<subseteq> ids
     \<and> (\<forall>t \<in> set (taskCache s). finals (requestId t) (events s) = (if propagateEventEmitted t then [False] else []))
     \<and> (\<forall>r. finals r (events s) \<in> {[], [False], [True], [False, True]})"

lemma inv_same_tasks:
  assumes "send_inv ids s" "list_all2 same_task (taskCache s) ts"
  shows "send_inv ids (s\<lparr>taskCache := ts\<rparr>)"
proof -
  have m: "map requestId ts = map requestId (taskCache s)" "map msgHash ts = map msgHash (taskCache s)"
    using assms(2) by (induction rule: list_all2_induct) (auto simp: same_task_def)
  have "\<forall>t \<in> set ts. \<exists>u \<in> set (taskCache s). same_task u t"
    using assms(2) by (induction rule: list_all2_induct) auto
  moreover have "requestId ` set ts = requestId ` set (taskCache s)"
    using arg_cong [OF m(1), of set] by simp
  ultimately show ?thesis
    using assms(1) m by (fastforce simp: send_inv_def same_task_def)
qed

lemma inv_apply: "send_inv ids s \<Longrightarrow> send_inv ids (apply_validation hashes response s)"
  unfolding apply_validation_def Let_def
  by (rule inv_same_tasks) (auto simp: list_all2_map2 same_task_def intro: list_all2_refl)

lemma inv_retry:
  "send_inv ids s \<Longrightarrow> trySendMessages ans s = (x, s') \<Longrightarrow> send_inv ids s'"
  by (auto simp: trySendMessages_def split: prod.splits dest!: try_tasks_same intro: inv_same_tasks)

lemma inv_evaluate:
  assumes inv: "send_inv ids s"
  shows "send_inv ids (evaluateAndCleanUp actual s)"
proof -
  let ?up = "\<lambda>t. fst (reportTaskResult actual t)" and ?ev = "\<lambda>t. snd (reportTaskResult actual t)"
  let ?es = "concat (map ?ev (taskCache s))"
  let ?ts = "filter keeps_task (map ?up (taskCache s))"
  have eval: "evaluateAndCleanUp actual s = s\<lparr>taskCache := ?ts, events := events s @ ?es\<rparr>"
    by (simp add: evaluateAndCleanUp_def report_all_map)
  have rep: "requestId (?up t) = requestId t \<and> msgHash (?up t) = msgHash t
      \<and> event_request ` set (?ev t) \<subseteq> {requestId t}
      \<and> (finals (requestId t) (?ev t) = [] \<and> propagateEventEmitted (?up t) = propagateEventEmitted t
       \<or> finals (requestId t) (?ev t) = [False] \<and> \<not> propagateEventEmitted t \<and> propagateEventEmitted (?up t)
       \<or> finals (requestId t) (?ev t) = [True] \<and> \<not> keeps_task (?up t))" for t
    by (rule report_cases [of actual]) simp
  have ids: "distinct (map requestId (taskCache s))" using inv by (simp add: send_inv_def)
  have "\<forall>t \<in> set (taskCache s). event_request ` set (?ev t) \<subseteq> {requestId t}" using rep by blast
  note fin = finals_concat [OF ids this]
  have old: "finals (requestId t) (events s) = (if propagateEventEmitted t then [False] else [])"
    if "t \<in> set (taskCache s)" for t using inv that by (simp add: send_inv_def)
  have "map requestId (map ?up (taskCache s)) = map requestId (taskCache s)"
    "map msgHash (map ?up (taskCache s)) = map msgHash (taskCache s)" using rep by simp_all
  then have "distinct (map requestId ?ts)" "distinct (map msgHash ?ts)"
    using inv unfolding send_inv_def by (metis distinct_map_filter)+
  moreover have "requestId ` set ?ts \<subseteq> ids" using inv rep by (auto simp: send_inv_def)
  moreover have "event_request ` set ?es \<subseteq> requestId ` set (taskCache s)" using rep by fastforce
  then have "event_request ` set (events s @ ?es) \<subseteq> ids" using inv by (auto simp: send_inv_def)
  moreover have "finals (requestId u) (events s @ ?es) = (if propagateEventEmitted u then [False] else [])"
    if "u \<in> set ?ts" for u
  proof -
    from that obtain t where t: "t \<in> set (taskCache s)" "u = ?up t" "keeps_task (?up t)" by auto
    with fin(1) [OF t(1)] rep [of t] old [OF t(1)] show ?thesis by (auto split: if_splits)
  qed
  moreover have "finals r (events s @ ?es) \<in> {[], [False], [True], [False, True]}" for r
  proof (cases "r \<in> requestId ` set (taskCache s)")
    case True
    then obtain t where t: "t \<in> set (taskCache s)" "r = requestId t" by auto
    with fin(1) [OF t(1)] rep [of t] old [OF t(1)] show ?thesis by (auto split: if_splits)
  next
    case False
    with fin(2) inv show ?thesis by (simp add: send_inv_def)
  qed
  ultimately show ?thesis unfolding eval send_inv_def by simp
qed

definition chain_ok :: "processor list \<Rightarrow> bool" where
  "chain_ok chain \<longleftrightarrow> RelaySend SuccessfullyValidated \<notin> set chain"

lemma process_not_validated:
  assumes "process a chain t = (x, t')" "chain_ok chain" "state t \<noteq> SuccessfullyValidated"
  shows "state t' \<noteq> SuccessfullyValidated"
proof -
  have impl: "state u \<noteq> SuccessfullyValidated"
    if "sendImpl a p v = (y, u)" "state v \<noteq> SuccessfullyValidated" "p \<noteq> RelaySend SuccessfullyValidated" for p v y u
    using that by (cases p) (auto simp: relay_sendImpl_def lightpush_sendImpl_def propagated_def Let_def
        split: sum.splits if_splits)
  have loop: "state u \<noteq> SuccessfullyValidated"
    if "process_loop a ps v = (y, u)" "state v \<noteq> SuccessfullyValidated" "chain_ok ps" for ps v y u
    using that
  proof (induction ps arbitrary: v)
    case (Cons p ps)
    obtain z w where w: "(if isValidProcessor a p then sendImpl a p v else (None, v)) = (z, w)" by fastforce
    then have "state w \<noteq> SuccessfullyValidated"
      using impl [of p v z w] Cons.prems by (auto simp: chain_ok_def split: if_splits)
    with Cons w show ?case by (auto simp: chain_ok_def split: option.splits if_splits)
  qed simp
  from assms show ?thesis using loop [of chain t]
    by (auto simp: process_def split: prod.splits option.splits if_splits)
qed

lemma inv_send:
  assumes inv: "send_inv ids s" and new: "requestId t \<notin> ids" "\<not> propagateEventEmitted t"
    and start: "state t \<noteq> SuccessfullyValidated" "chain_ok (sendProcessor s)"
    and run: "send_task a actual t s = Inr s'"
  shows "send_inv (insert (requestId t) ids) s'"
proof -
  obtain u where u: "process a (sendProcessor s) t = (None, u)"
    using run by (auto simp: send_task_def split: prod.splits option.splits)
  obtain v es where v: "reportTaskResult actual u = (v, es)" by fastforce
  define s1 where "s1 = s\<lparr>events := events s @ es\<rparr>"
  have s': "s' = (if state v \<noteq> FailedToDeliver then addTask v s1 else s1)"
    using run u v by (auto simp: send_task_def Let_def s1_def)
  have same: "same_task t u" using process_same [OF u] .
  note rep = report_cases [OF v]
  have none: "finals (requestId t) (events s) = []"
    using inv new(1) by (intro finals_empty) (auto simp: send_inv_def)
  have others: "finals r es = []" if "r \<noteq> requestId t" for r
    using rep same that by (intro finals_empty) (auto simp: same_task_def)
  have notmine: "requestId w \<noteq> requestId t" if "w \<in> set (taskCache s)" for w
    using inv new(1) that by (auto simp: send_inv_def)
  have "state u \<noteq> SuccessfullyValidated" using process_not_validated [OF u start(2,1)] .
  then have mine: "finals (requestId t) es \<in> {[], [False], [True]}"
    "state v \<noteq> FailedToDeliver \<Longrightarrow> finals (requestId t) es = (if propagateEventEmitted v then [False] else [])"
    using same new(2) v by (auto simp: same_task_def reportTaskResult_def finals_def
        split: DeliveryState.splits if_splits)
  have "finals r (events s1) \<in> {[], [False], [True], [False, True]}" for r
    using inv mine(1) none others [of r] by (cases "r = requestId t") (auto simp: s1_def send_inv_def)
  moreover have "\<forall>w \<in> set (taskCache s). finals (requestId w) (events s1)
      = (if propagateEventEmitted w then [False] else [])"
    using inv others notmine by (auto simp: s1_def send_inv_def)
  moreover have "event_request ` set (events s1) \<subseteq> insert (requestId t) ids"
    using inv rep same by (auto simp: s1_def send_inv_def same_task_def)
  ultimately have inv1: "send_inv (insert (requestId t) ids) s1"
    using inv by (auto simp: send_inv_def s1_def)
  have rid: "requestId v = requestId t" using rep same by (simp add: same_task_def)
  have "send_inv (insert (requestId t) ids) (addTask v s1)" if "state v \<noteq> FailedToDeliver"
  proof (cases "msgHash v \<in> msgHash ` set (taskCache s1)")
    case False
    have "requestId v \<notin> requestId ` set (taskCache s1)"
    proof
      assume "requestId v \<in> requestId ` set (taskCache s1)"
      then obtain w where "w \<in> set (taskCache s)" "requestId w = requestId v" by (auto simp: s1_def)
      with notmine rid show False by simp
    qed
    moreover have "finals (requestId v) (events s1) = (if propagateEventEmitted v then [False] else [])"
      using mine(2) [OF that] none rid by (simp add: s1_def)
    ultimately show ?thesis using inv1 False rid by (simp add: addTask_def send_inv_def)
  qed (use inv1 in \<open>simp add: addTask_def\<close>)
  with inv1 s' show ?thesis by auto
qed

fun sent_tasks :: "send_op list \<Rightarrow> DeliveryTask list" where
  "sent_tasks [] = []"
| "sent_tasks (SendTask a actual t # as) = t # sent_tasks as"
| "sent_tasks (_ # as) = sent_tasks as"

lemma step_fields:
  "send_step a s = Inr s' \<Longrightarrow>
    sendProcessor s' = sendProcessor s \<and> checkStoreForMessages s' = checkStoreForMessages s"
  by (cases a) (auto simp: send_task_def addTask_def trySendMessages_def apply_validation_def
      evaluateAndCleanUp_def Let_def split: prod.splits option.splits if_splits)

lemma run_inv:
  "send_run as s = Inr s' \<Longrightarrow> send_inv ids s \<Longrightarrow> chain_ok (sendProcessor s) \<Longrightarrow>
    distinct (map requestId (sent_tasks as)) \<Longrightarrow> requestId ` set (sent_tasks as) \<inter> ids = {} \<Longrightarrow>
    \<forall>t \<in> set (sent_tasks as). state t = Entry \<and> \<not> propagateEventEmitted t \<Longrightarrow>
    \<exists>ids'. send_inv ids' s'"
proof (induction as arbitrary: s ids)
  case (Cons a as)
  from Cons.prems(1) obtain s1 where s1: "send_step a s = Inr s1" "send_run as s1 = Inr s'"
    by (auto simp: rbind_eq_Inr)
  have chain: "chain_ok (sendProcessor s1)" using step_fields [OF s1(1)] Cons.prems(3) by simp
  show ?case
  proof (cases a)
    case (SendTask b actual t)
    with Cons.prems s1(1) have "send_inv (insert (requestId t) ids) s1"
      by (intro inv_send [of ids s t]) auto
    moreover have "requestId ` set (sent_tasks as) \<inter> insert (requestId t) ids = {}"
      using Cons.prems(4,5) SendTask by auto
    ultimately show ?thesis
      using Cons.IH [OF s1(2) _ chain, of "insert (requestId t) ids"] Cons.prems(4,6) SendTask by simp
  next
    case (RetryTasks ans)
    with s1(1) have "send_inv ids s1"
      by (auto split: prod.splits option.splits dest: inv_retry [OF Cons.prems(2)])
    then show ?thesis using Cons.IH [OF s1(2) _ chain, of ids] Cons.prems(4-6) RetryTasks by simp
  next
    case (StoreAnswer hashes response)
    with s1(1) inv_apply [OF Cons.prems(2)] have "send_inv ids s1" by auto
    then show ?thesis using Cons.IH [OF s1(2) _ chain, of ids] Cons.prems(4-6) StoreAnswer by simp
  next
    case (EvaluateTasks actual)
    with s1(1) inv_evaluate [OF Cons.prems(2)] have "send_inv ids s1" by auto
    then show ?thesis using Cons.IH [OF s1(2) _ chain, of ids] Cons.prems(4-6) EvaluateTasks by simp
  qed
qed auto

lemma new_service:
  assumes "send_service_new prefer hasRelay hasLightpush hasStore = Inr s"
  shows "chain_ok (sendProcessor s)" "send_inv {} s" "taskCache s = []"
  using assms by (auto simp: send_service_new_def setupSendProcessorChain_def chain_ok_def relay_processor_def
      send_inv_def split: if_splits)

text \<open>
  C13. Whatever the network and the stores answer, and however sends are interleaved with the loop of
  the service, the application sees for each request it made at most one report that the message is
  propagated, then at most one final report that it is sent or failed, and nothing after that. A task
  in the cache has had no final report, and no two of them are for the same message.
\<close>

theorem request_events:
  assumes "send_service_new prefer hasRelay hasLightpush hasStore = Inr s0" "send_run as s0 = Inr s"
    and "distinct (map requestId (sent_tasks as))"
    and "\<forall>t \<in> set (sent_tasks as). state t = Entry \<and> \<not> propagateEventEmitted t"
  shows "finals r (events s) \<in> {[], [False], [True], [False, True]}
    \<and> (r \<in> requestId ` set (taskCache s) \<longrightarrow> True \<notin> set (finals r (events s)))
    \<and> distinct (map msgHash (taskCache s))"
proof -
  obtain ids where "send_inv ids s"
    using run_inv [OF assms(2) new_service(2,1) [OF assms(1)] assms(3) _ assms(4)] by auto
  then show ?thesis by (auto simp: send_inv_def)
qed

definition example_task :: "string \<Rightarrow> byte \<Rightarrow> Timestamp \<Rightarrow> DeliveryTask" where
  "example_task rid h ts =
     \<lparr>requestId = rid, task_pubsubTopic = ''p'',
      task_msg = \<lparr>payload = [h], contentTopic = ''c'', meta = [], msg_version = 0, timestamp = ts,
        ephemeral = False, msg_proof = []\<rparr>,
      msgHash = [h], tryCount = 0, state = Entry, deliveryTime = 0, propagateEventEmitted = False,
      errorDesc = ''''\<rparr>"

text \<open>A relay without peers, and a light push service that is there in the second pass only.\<close>

definition no_peers :: push_answers where
  "no_peers = \<lparr>relay_res = Inl (LP_NO_PEERS_TO_RELAY, None), lp_available = False, lp_peer = False,
     lp_res = Inr (Inr 0), sent_at = 0\<rparr>"

definition one_service :: push_answers where
  "one_service = \<lparr>relay_res = Inl (LP_NO_PEERS_TO_RELAY, None), lp_available = True, lp_peer = True,
     lp_res = Inr (Inr 1), sent_at = 5\<rparr>"

theorem request_events_witness:
  "\<exists>s0 s. send_service_new True True True True = Inr s0 \<and>
    send_run [SendTask no_peers 1 (example_task ''a'' 1 0), SendTask no_peers 1 (example_task ''b'' 2 0),
       RetryTasks (\<lambda>t. if msgHash t = [1] then one_service else no_peers), EvaluateTasks 6,
       StoreAnswer [[1]] (default_response\<lparr>p_messages := [\<lparr>kv_messageHash = [1], kv_message = None, kv_pubsubTopic = None\<rparr>]\<rparr>),
       EvaluateTasks 7] s0 = Inr s
    \<and> finals ''a'' (events s) = [False, True] \<and> finals ''b'' (events s) \<in> {[], [False], [True], [False, True]}"
proof -
  let ?as = "[SendTask no_peers 1 (example_task ''a'' 1 0), SendTask no_peers 1 (example_task ''b'' 2 0),
       RetryTasks (\<lambda>t. if msgHash t = [1] then one_service else no_peers), EvaluateTasks 6,
       StoreAnswer [[1]] (default_response\<lparr>p_messages := [\<lparr>kv_messageHash = [1], kv_message = None, kv_pubsubTopic = None\<rparr>]\<rparr>),
       EvaluateTasks 7]"
  obtain s0 where s0: "send_service_new True True True True = Inr s0" "taskCache s0 = []" "events s0 = []"
    "sendProcessor s0 = [RelaySend FallbackRetry, LightpushSend]"
    by (auto simp: send_service_new_def setupSendProcessorChain_def relay_processor_def)
  have "\<exists>s. send_run ?as s0 = Inr s \<and> finals ''a'' (events s) = [False, True]"
    using s0(2-4) by (simp add: send_task_def process_def example_task_def no_peers_def one_service_def relay_sendImpl_def
        lightpush_sendImpl_def propagated_def reportTaskResult_def messageAge_def MaxTimeInCache_def addTask_def
        trySendMessages_def evaluateAndCleanUp_def keeps_task_def isEphemeral_def apply_validation_def
        default_response_def finals_def Let_def)
  then obtain s where s: "send_run ?as s0 = Inr s" "finals ''a'' (events s) = [False, True]" by auto
  have "finals ''b'' (events s) \<in> {[], [False], [True], [False, True]}"
    using request_events [OF s0(1) s(1), of "''b''"] by (simp add: example_task_def)
  with s0(1) s show ?thesis by blast
qed

section \<open>Tasks that are kept and never tried\<close>

type_synonym round_input =
  "(DeliveryTask \<Rightarrow> push_answers) \<times> int \<times> bool \<times> (StoreQueryRequest \<Rightarrow> StoreError + StoreQueryResponse) \<times> int"

fun rounds :: "round_input list \<Rightarrow> SendService \<Rightarrow> string option \<times> SendService" where
  "rounds [] s = (None, s)"
| "rounds ((ans, now, storePeer, query, actual) # rs) s =
     (case service_round ans now storePeer query actual s of
        (Some exn, s) \<Rightarrow> (Some exn, s) | (None, s) \<Rightarrow> rounds rs s)"

definition round_time :: "round_input \<Rightarrow> int" where
  "round_time r = (case r of (ans, now, storePeer, query, actual) \<Rightarrow> actual)"

text \<open>A store that returns only messages it was asked for.\<close>

definition answers_asked :: "round_input \<Rightarrow> bool" where
  "answers_asked r \<longleftrightarrow>
     (case r of (ans, now, storePeer, query, actual) \<Rightarrow>
        \<forall>req resp. query req = Inr resp \<longrightarrow> kv_messageHash ` set (p_messages resp) \<subseteq> set (s_messageHashes req))"

lemma try_tasks_others:
  "try_tasks ans chain ts = (x, ts') \<Longrightarrow> t \<in> set ts \<Longrightarrow> state t \<noteq> NextRoundRetry \<Longrightarrow> t \<in> set ts'"
  by (induction ts arbitrary: x ts') (auto split: if_splits prod.splits option.splits)

lemma checked_cache:
  "checkStoredMessages now storePeer query s = s \<or>
    (\<exists>response. checkStoredMessages now storePeer query s =
        apply_validation (map msgHash (tasks_to_validate now s)) response s
      \<and> query (store_check_request (tasks_to_validate now s)) = Inr response)"
  by (auto simp: checkStoredMessages_def checkMsgsInStore_def split: sum.splits)

lemma hash_unique: "distinct (map msgHash ts) \<Longrightarrow> t \<in> set ts \<Longrightarrow> u \<in> set ts \<Longrightarrow> msgHash t = msgHash u \<Longrightarrow> t = u"
  by (auto simp: distinct_map inj_on_def)

lemma validation_others:
  assumes "t \<in> set (taskCache s)" "msgHash t \<notin> set hashes"
    and "msgHash t \<notin> kv_messageHash ` set (p_messages response)"
  shows "t \<in> set (taskCache (apply_validation hashes response s))"
  using assms by (auto simp: apply_validation_def Let_def image_iff)

lemma try_tasks_hashes: "try_tasks ans chain ts = (x, ts') \<Longrightarrow> map msgHash ts' = map msgHash ts"
proof -
  assume "try_tasks ans chain ts = (x, ts')"
  from try_tasks_same [OF this] show ?thesis
    by (induction rule: list_all2_induct) (auto simp: same_task_def)
qed

lemma checked_hashes: "map msgHash (taskCache (checkStoredMessages now storePeer query s)) = map msgHash (taskCache s)"
  using checked_cache [of now storePeer query s] by (auto simp: apply_validation_def Let_def)

lemma checked_events: "events (checkStoredMessages now storePeer query s) = events s"
  using checked_cache [of now storePeer query s] by (auto simp: apply_validation_def Let_def)

lemma evaluate_task:
  assumes "t \<in> set (taskCache s)"
  shows "set (snd (reportTaskResult actual t)) \<subseteq> set (events (evaluateAndCleanUp actual s))"
    and "keeps_task (fst (reportTaskResult actual t)) \<Longrightarrow>
      fst (reportTaskResult actual t) \<in> set (taskCache (evaluateAndCleanUp actual s))"
    and "set (events s) \<subseteq> set (events (evaluateAndCleanUp actual s))"
  using assms by (auto simp: evaluateAndCleanUp_def report_all_map)

lemma evaluate_hashes:
  "distinct (map msgHash (taskCache s)) \<Longrightarrow> distinct (map msgHash (taskCache (evaluateAndCleanUp actual s)))"
proof -
  assume d: "distinct (map msgHash (taskCache s))"
  have "map msgHash (map (\<lambda>t. fst (reportTaskResult actual t)) (taskCache s)) = map msgHash (taskCache s)"
    using report_cases by (auto intro!: map_cong) (metis prod.collapse)
  with d show ?thesis unfolding evaluateAndCleanUp_def report_all_map
    by (simp add: distinct_map_filter del: map_map)
qed

lemma entry_round:
  assumes run: "service_round ans now storePeer query actual s = (None, s')"
    and t: "t \<in> set (taskCache s)" "state t = Entry" and d: "distinct (map msgHash (taskCache s))"
    and asked: "answers_asked (ans, now, storePeer, query, actual)"
  shows "distinct (map msgHash (taskCache s')) \<and> set (events s) \<subseteq> set (events s')
    \<and> (if messageAge actual t \<le> MaxTimeInCache then t \<in> set (taskCache s')
       else MessageErrorEvent (requestId t) (msgHash t) ''Unable to send within retry time window'' \<in> set (events s'))"
proof -
  obtain s1 where s1: "trySendMessages ans s = (None, s1)"
    "s' = evaluateAndCleanUp actual (checkStoredMessages now storePeer query s1)"
    using run by (auto simp: service_round_def split: prod.splits option.splits)
  then have c1: "t \<in> set (taskCache s1)" "map msgHash (taskCache s1) = map msgHash (taskCache s)" "events s1 = events s"
    using t by (auto simp: trySendMessages_def split: prod.splits dest: try_tasks_others try_tasks_hashes)
  define s2 where "s2 = checkStoredMessages now storePeer query s1"
  have "t \<in> set (taskCache s2)"
    unfolding s2_def using checked_cache [of now storePeer query s1]
  proof (elim disjE exE conjE)
    fix response
    assume a: "checkStoredMessages now storePeer query s1 =
        apply_validation (map msgHash (tasks_to_validate now s1)) response s1"
      "query (store_check_request (tasks_to_validate now s1)) = Inr response"
    have "msgHash t \<noteq> msgHash u" if "u \<in> set (tasks_to_validate now s1)" for u
      using that c1(1) t(2) hash_unique [of "taskCache s1" t u] d c1(2) by (auto simp: tasks_to_validate_def)
    then have "msgHash t \<notin> set (map msgHash (tasks_to_validate now s1))" by auto
    moreover have "kv_messageHash ` set (p_messages response) \<subseteq> set (map msgHash (tasks_to_validate now s1))"
      using asked a(2) by (fastforce simp: answers_asked_def store_check_request_def default_request_def)
    ultimately show "t \<in> set (taskCache (checkStoredMessages now storePeer query s1))"
      unfolding a(1) using validation_others [OF c1(1)] by blast
  qed (use c1 in simp)
  moreover have "distinct (map msgHash (taskCache s2))" "events s2 = events s"
    using d c1 by (simp_all add: s2_def checked_hashes checked_events)
  ultimately show ?thesis
    using evaluate_task [of t s2 actual] evaluate_hashes [of s2 actual] t(2)
    by (auto simp: s1(2) s2_def [symmetric] reportTaskResult_def keeps_task_def)
qed

lemma round_events:
  "service_round ans now storePeer query actual s = (None, s') \<Longrightarrow> set (events s) \<subseteq> set (events s')"
  by (auto simp: service_round_def trySendMessages_def evaluateAndCleanUp_def checked_events
      split: prod.splits option.splits)

lemma rounds_events: "rounds rs s = (None, s') \<Longrightarrow> set (events s) \<subseteq> set (events s')"
proof (induction rs arbitrary: s)
  case (Cons r rs)
  obtain ans now storePeer query actual where r: "r = (ans, now, storePeer, query, actual)" by (cases r)
  obtain s1 where s1: "service_round ans now storePeer query actual s = (None, s1)" "rounds rs s1 = (None, s')"
    using Cons.prems by (auto simp: r split: prod.splits option.splits)
  with Cons.IH [OF s1(2)] round_events [OF s1(1)] show ?case by blast
qed simp

lemma entry_rounds:
  assumes "t \<in> set (taskCache s)" "state t = Entry" "distinct (map msgHash (taskCache s))"
    and "rounds rs s = (None, s')" "\<forall>r \<in> set rs. answers_asked r"
  shows "if \<forall>r \<in> set rs. messageAge (round_time r) t \<le> MaxTimeInCache then t \<in> set (taskCache s')
    else MessageErrorEvent (requestId t) (msgHash t) ''Unable to send within retry time window'' \<in> set (events s')"
  using assms
proof (induction rs arbitrary: s)
  case (Cons r rs)
  obtain ans now storePeer query actual where r: "r = (ans, now, storePeer, query, actual)" by (cases r)
  obtain s1 where s1: "service_round ans now storePeer query actual s = (None, s1)" "rounds rs s1 = (None, s')"
    using Cons.prems(4) by (auto simp: r split: prod.splits option.splits)
  have "answers_asked (ans, now, storePeer, query, actual)" using Cons.prems(5) r by simp
  note step = entry_round [OF s1(1) Cons.prems(1-3) this]
  show ?case
  proof (cases "messageAge actual t \<le> MaxTimeInCache")
    case True
    with step Cons.IH [of s1, OF _ Cons.prems(2) _ s1(2)] Cons.prems(5) show ?thesis
      by (auto simp: r round_time_def split: if_splits)
  next
    case False
    with step rounds_events [OF s1(2)] show ?thesis by (auto simp: r round_time_def)
  qed
qed simp

text \<open>
  C14. On a node that sends by light push only, a message for which no service peer is known at the
  moment of sending is never tried. Its task stays in the cache as it is, whatever peers appear in the
  rounds that follow, and is reported as failed once the message is older than a minute.
\<close>

theorem unsent_task_abandoned:
  assumes "sendProcessor s = [LightpushSend]" "distinct (map msgHash (taskCache s))"
    and "msgHash t \<notin> msgHash ` set (taskCache s)" "state t = Entry"
    and "\<not> lp_available a" "messageAge actual t \<le> MaxTimeInCache"
  shows "\<exists>s1. send_task a actual t s = Inr s1 \<and>
    (\<forall>rs s2. rounds rs s1 = (None, s2) \<and> (\<forall>r \<in> set rs. answers_asked r) \<longrightarrow>
      (if \<forall>r \<in> set rs. messageAge (round_time r) t \<le> MaxTimeInCache then t \<in> set (taskCache s2)
       else MessageErrorEvent (requestId t) (msgHash t) ''Unable to send within retry time window''
         \<in> set (events s2)))"
proof -
  define s1 where "s1 = s\<lparr>taskCache := taskCache s @ [t]\<rparr>"
  have "send_task a actual t s = Inr s1"
    using assms by (simp add: send_task_def process_def reportTaskResult_def addTask_def s1_def)
  moreover have t: "t \<in> set (taskCache s1)" "distinct (map msgHash (taskCache s1))"
    using assms(2,3) by (simp_all add: s1_def)
  ultimately show ?thesis using entry_rounds [OF t(1) assms(4) t(2)] by blast
qed

theorem unsent_task_abandoned_witness:
  "\<exists>s0 s1 s2. send_service_new False False True False = Inr s0
    \<and> send_task no_peers 2 (example_task ''a'' 1 1) s0 = Inr s1
    \<and> rounds [(\<lambda>_. one_service, 3, True, \<lambda>_. Inl UNKNOWN_ERROR, 70 * 10 ^ 9)] s1 = (None, s2)
    \<and> MessageErrorEvent ''a'' [1] ''Unable to send within retry time window'' \<in> set (events s2)"
proof -
  let ?t = "example_task ''a'' 1 1"
  let ?rs = "[(\<lambda>_. one_service, 3, True, \<lambda>_. Inl UNKNOWN_ERROR, 70 * 10 ^ 9)] :: round_input list"
  obtain s0 where s0: "send_service_new False False True False = Inr s0" "taskCache s0 = []"
    "sendProcessor s0 = [LightpushSend]" "\<not> checkStoreForMessages s0"
    by (auto simp: send_service_new_def setupSendProcessorChain_def)
  have t: "state ?t = Entry" "requestId ?t = ''a''" "msgHash ?t = [1]" by (simp_all add: example_task_def)
  have "messageAge 2 ?t \<le> MaxTimeInCache" "\<not> messageAge (70 * 10 ^ 9) ?t \<le> MaxTimeInCache"
    by (simp_all add: messageAge_def MaxTimeInCache_def example_task_def)
  moreover have "\<forall>r \<in> set ?rs. answers_asked r" by (simp add: answers_asked_def)
  moreover obtain s1 where s1: "send_task no_peers 2 ?t s0 = Inr s1"
    "\<forall>rs s2. rounds rs s1 = (None, s2) \<and> (\<forall>r \<in> set rs. answers_asked r) \<longrightarrow>
      (if \<forall>r \<in> set rs. messageAge (round_time r) ?t \<le> MaxTimeInCache then ?t \<in> set (taskCache s2)
       else MessageErrorEvent (requestId ?t) (msgHash ?t) ''Unable to send within retry time window'' \<in> set (events s2))"
    using unsent_task_abandoned [of s0 ?t no_peers 2] s0 t calculation(1) by (auto simp: no_peers_def)
  moreover have "\<exists>s2. rounds ?rs s1 = (None, s2)"
    using s1(1) s0 t by (auto simp: send_task_def process_def no_peers_def reportTaskResult_def addTask_def
        service_round_def trySendMessages_def Let_def split: if_splits prod.splits)
  ultimately show ?thesis using s0(1) t by (fastforce simp: round_time_def)
qed

text \<open>The tasks no store is asked about are never dropped once they are propagated.\<close>

definition stuck :: "DeliveryTask \<Rightarrow> bool" where
  "stuck t \<longleftrightarrow> state t = SuccessfullyPropagated \<and> \<not> isEphemeral t"

lemma length_filter_list_all2:
  "list_all2 R xs ys \<Longrightarrow> (\<And>x y. R x y \<Longrightarrow> P x \<Longrightarrow> P y) \<Longrightarrow> length (filter P xs) \<le> length (filter P ys)"
  by (induction rule: list_all2_induct) (auto intro: le_SucI)

lemma try_tasks_stuck:
  "try_tasks ans chain ts = (x, ts') \<Longrightarrow> list_all2 (\<lambda>t t'. stuck t \<longrightarrow> stuck t') ts ts'"
proof (induction ts arbitrary: x ts')
  case (Cons t ts)
  have "list_all2 (\<lambda>t t'. stuck t \<longrightarrow> stuck t') us us" for us by (rule list_all2_refl) simp
  with Cons show ?case by (auto simp: stuck_def split: if_splits prod.splits option.splits)
qed simp

lemma stuck_step:
  assumes "send_step a s = Inr s'" "\<forall>hashes response. a \<noteq> StoreAnswer hashes response"
  shows "length (filter stuck (taskCache s)) \<le> length (filter stuck (taskCache s'))"
proof (cases a)
  case (RetryTasks ans)
  with assms show ?thesis
    by (auto simp: trySendMessages_def split: prod.splits option.splits
        dest!: try_tasks_stuck intro: length_filter_list_all2)
next
  case (EvaluateTasks actual)
  have "stuck t \<Longrightarrow> stuck (fst (reportTaskResult actual t)) \<and> keeps_task (fst (reportTaskResult actual t))" for t
    by (auto simp: stuck_def reportTaskResult_def keeps_task_def isEphemeral_def)
  then have "length (filter stuck ts) \<le>
      length (filter stuck (filter keeps_task (map (\<lambda>t. fst (reportTaskResult actual t)) ts)))" for ts
    by (induction ts) (auto intro: le_SucI)
  with assms EvaluateTasks show ?thesis by (auto simp: evaluateAndCleanUp_def report_all_map)
qed (use assms in \<open>auto simp: send_task_def addTask_def Let_def split: prod.splits option.splits if_splits\<close>)

text \<open>
  A message that was propagated and is not ephemeral leaves the cache only by the answer of a
  store. A service that asks none keeps every task it ever propagated, however old: the number of such
  tasks never goes down.
\<close>

lemma propagated_never_forgotten:
  assumes "send_run as s = Inr s'" "\<forall>a \<in> set as. \<forall>hashes response. a \<noteq> StoreAnswer hashes response"
  shows "length (filter stuck (taskCache s)) \<le> length (filter stuck (taskCache s'))"
  using assms
proof (induction as arbitrary: s)
  case (Cons a as)
  then obtain s1 where s1: "send_step a s = Inr s1" "send_run as s1 = Inr s'" by (auto simp: rbind_eq_Inr)
  have "length (filter stuck (taskCache s)) \<le> length (filter stuck (taskCache s1))"
    using stuck_step [OF s1(1)] Cons.prems(2) by simp
  with Cons.IH [OF s1(2)] Cons.prems(2) show ?case by force
qed simp

lemma propagated_never_forgotten_example:
  "\<exists>s s'. taskCache s = [(example_task ''a'' 1 0)\<lparr>state := SuccessfullyPropagated\<rparr>]
    \<and> send_run [RetryTasks (\<lambda>_. one_service), EvaluateTasks (10 ^ 18)] s = Inr s'
    \<and> taskCache s' \<noteq> []"
proof -
  define s where "s = \<lparr>taskCache = [(example_task ''a'' 1 0)\<lparr>state := SuccessfullyPropagated\<rparr>],
    sendProcessor = [LightpushSend], checkStoreForMessages = False, events = []\<rparr>"
  have run: "\<exists>s'. send_run [RetryTasks (\<lambda>_. one_service), EvaluateTasks (10 ^ 18)] s = Inr s'"
    by (simp add: trySendMessages_def split: prod.splits option.splits)
      (auto simp: s_def example_task_def)
  then obtain s' where s': "send_run [RetryTasks (\<lambda>_. one_service), EvaluateTasks (10 ^ 18)] s = Inr s'" by auto
  have "length (filter stuck (taskCache s)) = 1" by (simp add: s_def stuck_def isEphemeral_def example_task_def)
  with propagated_never_forgotten [OF s'] have "taskCache s' \<noteq> []" by auto
  moreover have "taskCache s = [(example_task ''a'' 1 0)\<lparr>state := SuccessfullyPropagated\<rparr>]"
    by (simp add: s_def)
  ultimately show ?thesis using s' by blast
qed

section \<open>A page of the store\<close>

lemma filter_le: "(\<And>x. x \<in> set xs \<Longrightarrow> P x \<Longrightarrow> Q x) \<Longrightarrow> length (filter P xs) \<le> length (filter Q xs)"
  by (induction xs) (auto intro: le_SucI)

lemma length_fill: "fill_messages kvs ms ts = Inr kvs' \<Longrightarrow> length kvs' = length kvs"
  by (induction kvs ms ts arbitrary: kvs' rule: fill_messages.induct) (auto simp: rbind_eq_Inr)

lemma page_length: "length (r_hashes (archive_page inc n asc rows)) \<le> n"
  by (simp add: archive_page_def Let_def)

lemma findMessages_page:
  assumes "findMessages getMessages q d = Some (Inr r)"
  shows "\<exists>inc asc rows. r = archive_page inc (query_page_size q) asc rows"
proof -
  obtain x where "(case x of Inl e \<Rightarrow> Inl (DRIVER_ERROR e) | Inr rows \<Rightarrow>
      Inr (archive_page (q_includeData q) (query_page_size q) (direction_into (q_direction q)) rows)) = Inr r"
    using assms unfolding findMessages_def Let_def map_option_eq_Some
    by (cases "check_cursor q") auto
  then show ?thesis by (cases x) auto
qed

lemma page_bound:
  assumes "store_request_handler getMessages d (store_check_request tasks) = Some (Inr (Inr res))"
  shows "length (p_messages res) \<le> DefaultPageSize"
proof -
  obtain z where z: "findMessages getMessages (toArchiveQuery (store_check_request tasks)) d = Some z"
    "toStoreResult z = Inr (Inr res)"
    using assms by (auto simp: store_request_handler_def)
  then obtain r where zr: "z = Inr r" by (cases z) (simp_all add: toStoreResult_def)
  note r = z [unfolded zr]
  have "query_page_size (toArchiveQuery (store_check_request tasks)) = DefaultPageSize"
    by (simp add: query_page_size_def toArchiveQuery_def store_check_request_def default_request_def
        default_query_def Let_def)
  then obtain inc asc rows where "r = archive_page inc DefaultPageSize asc rows"
    using findMessages_page [OF r(1)] by auto
  then have "length (r_hashes r) \<le> DefaultPageSize" by (simp add: page_length)
  with r(2) show ?thesis
    by (auto simp: toStoreResult_def rbind_eq_Inr dest!: length_fill split: sum.splits)
qed

text \<open>
  The query that asks a store for messages by their hashes has no page size, and one page of
  twenty is all that is read of the answer. So of more than twenty propagated messages, those beyond
  twenty are taken for lost and go to be sent again, even by a store that has every one of them.
\<close>

lemma store_check_resends:
  assumes "distinct (map msgHash (taskCache s))" "tasks = tasks_to_validate now s"
    and "store_request_handler getMessages d (store_check_request tasks) = Some (Inr (Inr res))"
  shows "length tasks \<le> DefaultPageSize + length (filter (\<lambda>t. state t = NextRoundRetry)
    (taskCache (apply_validation (map msgHash tasks) res s)))"
proof -
  let ?stored = "kv_messageHash ` set (p_messages res)"
  have d: "distinct (map msgHash tasks)" using assms(1) by (simp add: assms(2) tasks_to_validate_def distinct_map_filter)
  have "card (set (map msgHash tasks) \<inter> ?stored) \<le> card ?stored" by (intro card_mono) auto
  also have "\<dots> \<le> length (p_messages res)" by (metis card_length length_map set_map)
  also have "\<dots> \<le> DefaultPageSize" using page_bound [OF assms(3)] .
  finally have few: "card (set (map msgHash tasks) \<inter> ?stored) \<le> DefaultPageSize" .
  have "length (filter (\<lambda>t. msgHash t \<in> ?stored) tasks) = card (set (map msgHash tasks) \<inter> ?stored)"
  proof -
    have "distinct (map msgHash (filter (\<lambda>t. msgHash t \<in> ?stored) tasks))" using d by (simp add: distinct_map_filter)
    then have "length (filter (\<lambda>t. msgHash t \<in> ?stored) tasks) =
        card (msgHash ` set (filter (\<lambda>t. msgHash t \<in> ?stored) tasks))"
      by (metis distinct_card length_map set_map)
    also have "msgHash ` set (filter (\<lambda>t. msgHash t \<in> ?stored) tasks) = set (map msgHash tasks) \<inter> ?stored" by auto
    finally show ?thesis .
  qed
  with few have "length tasks \<le> DefaultPageSize + length (filter (\<lambda>t. msgHash t \<notin> ?stored) tasks)"
    using sum_length_filter_compl [of "\<lambda>t. msgHash t \<in> ?stored" tasks] by simp
  also have "length (filter (\<lambda>t. msgHash t \<notin> ?stored) tasks) \<le> length (filter (\<lambda>t. state t = NextRoundRetry)
      (taskCache (apply_validation (map msgHash tasks) res s)))"
  proof -
    have "msgHash t \<in> msgHash ` set tasks" if "t \<in> set tasks" for t using that by simp
    then have "length (filter (\<lambda>t. msgHash t \<notin> ?stored) tasks)
        \<le> length (filter (\<lambda>t. msgHash t \<in> msgHash ` set tasks \<and> msgHash t \<notin> ?stored) (taskCache s))"
      by (auto simp: assms(2) tasks_to_validate_def filter_filter conj_commute intro!: filter_le)
    also have "\<dots> \<le> length (filter (\<lambda>t. state t = NextRoundRetry)
        (taskCache (apply_validation (map msgHash tasks) res s)))"
      by (auto simp: apply_validation_def Let_def filter_map comp_def intro!: filter_le)
    finally show ?thesis .
  qed
  finally show ?thesis by simp
qed

text \<open>A store that has every message it is asked for, and twenty-one messages it is asked for.\<close>

definition complete_store :: "unit getMessages_method" where
  "complete_store inc cts pt c st et hs n asc rid d =
     Some (Inr (take n (map (\<lambda>h. (h, ''p'', task_msg (example_task ''a'' 1 0))) hs)))"

definition example_cache :: SendService where
  "example_cache = \<lparr>taskCache = map (\<lambda>i. (example_task ''a'' (of_nat i) 0)\<lparr>state := SuccessfullyPropagated\<rparr>) [0..<21],
     sendProcessor = [LightpushSend], checkStoreForMessages = True, events = []\<rparr>"

lemma store_check_resends_example:
  "\<exists>tasks res. tasks_to_validate (10 * 10 ^ 9) example_cache = tasks \<and> length tasks = 21
    \<and> store_request_handler complete_store () (store_check_request tasks) = Some (Inr (Inr res))
    \<and> 1 \<le> length (filter (\<lambda>t. state t = NextRoundRetry)
        (taskCache (apply_validation (map msgHash tasks) res example_cache)))"
proof -
  define tasks where "tasks = tasks_to_validate (10 * 10 ^ 9) example_cache"
  have all: "tasks = taskCache example_cache"
    unfolding tasks_def tasks_to_validate_def
    by (rule filter_True) (auto simp: example_cache_def example_task_def deliveryAge_def ArchiveTime_def isEphemeral_def)
  have len: "length tasks = 21" by (simp add: all example_cache_def)
  have d: "distinct (map msgHash (taskCache example_cache))"
    by (simp add: example_cache_def example_task_def upt_rec comp_def)
  have "check_cursor (toArchiveQuery (store_check_request tasks)) = None"
    "\<not> q_includeData (toArchiveQuery (store_check_request tasks))"
    by (simp_all add: check_cursor_def toArchiveQuery_def store_check_request_def default_request_def
        default_query_def Let_def)
  then obtain rows where found: "findMessages complete_store (toArchiveQuery (store_check_request tasks)) () =
      Some (Inr (archive_page False (query_page_size (toArchiveQuery (store_check_request tasks)))
        (direction_into (q_direction (toArchiveQuery (store_check_request tasks)))) rows))"
    by (simp add: findMessages_def complete_store_def Let_def)
  moreover have "r_messages (archive_page False n asc rows) = []" for n asc by (simp add: archive_page_def Let_def)
  ultimately obtain res where res:
    "store_request_handler complete_store () (store_check_request tasks) = Some (Inr (Inr res))"
    by (simp add: store_request_handler_def toStoreResult_def)
  have "21 \<le> DefaultPageSize + length (filter (\<lambda>t. state t = NextRoundRetry)
      (taskCache (apply_validation (map msgHash tasks) res example_cache)))"
    using store_check_resends [OF d tasks_def res] len by simp
  then show ?thesis using res len unfolding tasks_def by (auto simp: DefaultPageSize_def)
qed

end
