(* ===== verification/RecvService.thy ===== *)
theory RecvService
  imports SendService "HOL-Library.AList"
begin

text \<open>
  What a node receives on behalf of the application, \<open>waku/node/delivery_service/subscription_manager.nim\<close>
  and \<open>recv_service/recv_service.nim\<close>: which content topics are of interest, the messages already
  seen, their removal with age, and the check of a store for messages that were missed. The answers
  of the store are arguments; the table of the manager is an association list in its iteration order.
\<close>

section \<open>The subscription manager\<close>

text \<open>
  The protocols that are mounted; \<open>mesh\<close> is the list of topics the relay is subscribed to, which the
  manager changes through the node.
\<close>

record sub_node =
  has_relay :: bool
  has_filter :: bool
  auto_sharding :: "Sharding option"

record SubscriptionManager =
  contentTopicSubs :: "(string \<times> string list) list"
  mesh :: "string list"

definition manager_new :: SubscriptionManager where
  "manager_new = \<lparr>contentTopicSubs = [], mesh = []\<rparr>"

text \<open>Subscribing the relay to a pubsub topic without a handler of the application.\<close>

definition node_subscribe :: "bool \<Rightarrow> string \<Rightarrow> string list \<Rightarrow> string + string list" where
  "node_subscribe hasRelay topic topics =
     (if \<not> hasRelay then Inl ''Invalid API call to `subscribe`. WakuRelay not mounted.''
      else Inr (if topic \<in> set topics then topics else topics @ [topic]))"

definition addContentTopicInterest :: "string \<Rightarrow> string \<Rightarrow> SubscriptionManager \<Rightarrow> SubscriptionManager" where
  "addContentTopicInterest shard topic m =
     (let subs = (if map_of (contentTopicSubs m) shard = None
                  then AList.update shard [] (contentTopicSubs m) else contentTopicSubs m)
      in m\<lparr>contentTopicSubs :=
           (case map_of subs shard of
              None \<Rightarrow> subs
            | Some ts \<Rightarrow> if topic \<in> set ts then subs else AList.update shard (ts @ [topic]) subs)\<rparr>)"

definition removeContentTopicInterest ::
  "bool \<Rightarrow> string \<Rightarrow> string \<Rightarrow> SubscriptionManager \<Rightarrow> SubscriptionManager" where
  "removeContentTopicInterest hasRelay shard topic m =
     (case map_of (contentTopicSubs m) shard of
        None \<Rightarrow> m
      | Some ts \<Rightarrow>
          if topic \<in> set ts then
            (let ts = filter (\<lambda>t. t \<noteq> topic) ts in
             m\<lparr>contentTopicSubs :=
                 (if ts = [] \<and> \<not> hasRelay then AList.delete shard (contentTopicSubs m)
                  else AList.update shard ts (contentTopicSubs m))\<rparr>)
          else m)"

fun subscribe_shards ::
  "bool \<Rightarrow> string list \<Rightarrow> SubscriptionManager \<Rightarrow> string list \<times> SubscriptionManager" where
  "subscribe_shards hasRelay [] m = ([], m)"
| "subscribe_shards hasRelay (shard # shards) m =
     (if map_of (contentTopicSubs m) shard = None then
        (case node_subscribe hasRelay shard (mesh m) of
           Inl e \<Rightarrow>
             (case subscribe_shards hasRelay shards m of (es, m) \<Rightarrow>
                ((''shard '' @ shard @ '': '' @ e) # es, m))
         | Inr topics \<Rightarrow>
             subscribe_shards hasRelay shards
               (m\<lparr>contentTopicSubs := AList.update shard [] (contentTopicSubs m), mesh := topics\<rparr>))
      else subscribe_shards hasRelay shards m)"

fun join_errors :: "string list \<Rightarrow> string" where
  "join_errors [] = ''''"
| "join_errors [e] = e"
| "join_errors (e # es) = e @ ''; '' @ join_errors es"

definition subscribePubsubTopics ::
  "bool \<Rightarrow> string list \<Rightarrow> SubscriptionManager \<Rightarrow> (string + unit) \<times> SubscriptionManager" where
  "subscribePubsubTopics hasRelay shards m =
     (if \<not> hasRelay then (Inl ''subscribePubsubTopics requires a Relay'', m)
      else
        (case subscribe_shards hasRelay shards m of (errors, m) \<Rightarrow>
           (if errors = [] then Inr () else Inl (''subscribeShard errors: '' @ join_errors errors), m)))"

text \<open>On start a node with relay and automatic sharding subscribes to every shard of its cluster.\<close>

definition startSubscriptionManager :: "sub_node \<Rightarrow> SubscriptionManager \<Rightarrow> SubscriptionManager" where
  "startSubscriptionManager node m =
     (case auto_sharding node of
        None \<Rightarrow> m
      | Some sharding \<Rightarrow>
          if has_relay node \<and> shardCountGenZero sharding \<noteq> 0 then
            snd (subscribePubsubTopics True
              (map (\<lambda>i. show_shard \<lparr>clusterId = cluster sharding, shardId = word_of_nat i\<rparr>)
                [0..<unat (shardCountGenZero sharding)]) m)
          else m)"

definition getActiveSubscriptions :: "SubscriptionManager \<Rightarrow> (string \<times> string list) list" where
  "getActiveSubscriptions m = filter (\<lambda>(pubsub, cTopics). cTopics \<noteq> []) (contentTopicSubs m)"

definition getShardForContentTopic ::
  "(string \<Rightarrow> byte list) \<Rightarrow> sub_node \<Rightarrow> string \<Rightarrow> defect + (string + string)" where
  "getShardForContentTopic sha256 node topic =
     (case auto_sharding node of
        Some sharding \<Rightarrow> map_sum id (map_sum id show_shard) (getShard_of sha256 sharding topic)
      | None \<Rightarrow> Inr (Inl ''SubscriptionManager requires AutoSharding''))"

definition subscribed_under :: "SubscriptionManager \<Rightarrow> string \<Rightarrow> string \<Rightarrow> bool" where
  "subscribed_under m shard topic =
     (case map_of (contentTopicSubs m) shard of None \<Rightarrow> False | Some ts \<Rightarrow> topic \<in> set ts)"

definition topic_subscribed ::
  "(string \<Rightarrow> byte list) \<Rightarrow> sub_node \<Rightarrow> SubscriptionManager \<Rightarrow> string \<Rightarrow> defect + (string + bool)" where
  "topic_subscribed sha256 node m topic =
     map_sum id (map_sum id (\<lambda>shard. subscribed_under m shard topic)) (getShardForContentTopic sha256 node topic)"

definition subscribe_topic ::
  "(string \<Rightarrow> byte list) \<Rightarrow> sub_node \<Rightarrow> string \<Rightarrow> SubscriptionManager
     \<Rightarrow> defect + ((string + unit) \<times> SubscriptionManager)" where
  "subscribe_topic sha256 node topic m =
     (if \<not> has_relay node \<and> \<not> has_filter node then
        Inr (Inl ''SubscriptionManager requires either Relay or Filter Client.'', m)
      else
        rbind (getShardForContentTopic sha256 node topic) (\<lambda>r.
          case r of
            Inl e \<Rightarrow> Inr (Inl e, m)
          | Inr shard \<Rightarrow>
              (case (if has_relay node \<and> map_of (contentTopicSubs m) shard = None
                     then subscribePubsubTopics (has_relay node) [shard] m else (Inr (), m)) of
                 (Inl e, m) \<Rightarrow> Inr (Inl e, m)
               | (Inr _, m) \<Rightarrow> Inr (Inr (), addContentTopicInterest shard topic m))))"

definition unsubscribe_topic ::
  "(string \<Rightarrow> byte list) \<Rightarrow> sub_node \<Rightarrow> string \<Rightarrow> SubscriptionManager
     \<Rightarrow> defect + ((string + unit) \<times> SubscriptionManager)" where
  "unsubscribe_topic sha256 node topic m =
     (if \<not> has_relay node \<and> \<not> has_filter node then
        Inr (Inl ''SubscriptionManager requires either Relay or Filter Client.'', m)
      else
        rbind (getShardForContentTopic sha256 node topic) (\<lambda>r.
          case r of
            Inl e \<Rightarrow> Inr (Inl e, m)
          | Inr shard \<Rightarrow>
              Inr (Inr (), if subscribed_under m shard topic
                           then removeContentTopicInterest (has_relay node) shard topic m else m)))"

section \<open>The receiving service\<close>

datatype DeliverySuccess = SUCCESSFUL | UNSUCCESSFUL
datatype DeliveryDirection = PUBLISHING | RECEIVING

datatype recv_event =
  MessageReceivedEvent WakuMessageHash WakuMessage
  | DeliveryFeedbackEvent DeliverySuccess DeliveryDirection string WakuMessageHash WakuMessage

record RecvService =
  recentReceivedMsgs :: "(WakuMessageHash \<times> Timestamp) list"
  startTimeToCheck :: Timestamp
  endTimeToCheck :: Timestamp
  recv_events :: "recv_event list"

definition MaxMessageLife :: int where "MaxMessageLife = 7 * 60 * 10 ^ 9"
definition DelayExtra :: int where "DelayExtra = 5 * 10 ^ 9"

definition recv_service_new :: "Timestamp \<Rightarrow> RecvService" where
  "recv_service_new now =
     \<lparr>recentReceivedMsgs = [], startTimeToCheck = now, endTimeToCheck = 0, recv_events = []\<rparr>"

definition processIncomingMessageOfInterest ::
  "(byte list \<Rightarrow> WakuMessageHash) \<Rightarrow> string \<Rightarrow> WakuMessage \<Rightarrow> RecvService \<Rightarrow> RecvService" where
  "processIncomingMessageOfInterest sha256 topic msg s =
     (let h = computeMessageHash sha256 topic msg in
      if h \<in> fst ` set (recentReceivedMsgs s) then s
      else s\<lparr>recentReceivedMsgs := recentReceivedMsgs s @ [(h, timestamp msg)],
             recv_events := recv_events s @ [MessageReceivedEvent h msg]\<rparr>)"

text \<open>The listener of the event that a message was seen on the relay.\<close>

definition message_seen ::
  "(byte list \<Rightarrow> WakuMessageHash) \<Rightarrow> SubscriptionManager \<Rightarrow> string \<Rightarrow> WakuMessage \<Rightarrow> RecvService
     \<Rightarrow> RecvService" where
  "message_seen sha256 m topic msg s =
     (if subscribed_under m topic (contentTopic msg)
      then processIncomingMessageOfInterest sha256 topic msg s else s)"

definition prune_old :: "Timestamp \<Rightarrow> RecvService \<Rightarrow> RecvService" where
  "prune_old now s =
     s\<lparr>recentReceivedMsgs := filter (\<lambda>(h, rxTime). now - MaxMessageLife < rxTime) (recentReceivedMsgs s)\<rparr>"

section \<open>The check for missed messages\<close>

type_synonym store_answer = "StoreQueryRequest \<Rightarrow> StoreError + StoreQueryResponse"

definition check_request :: "RecvService \<Rightarrow> string \<times> string list \<Rightarrow> StoreQueryRequest" where
  "check_request s sub =
     default_request\<lparr>s_includeData := False, s_pubsubTopic := Some (fst sub), s_contentTopics := snd sub,
       s_startTime := Some (startTimeToCheck s - DelayExtra),
       s_endTime := Some (endTimeToCheck s + DelayExtra)\<rparr>"

text \<open>The hashes of all subscriptions; a query that fails is passed over.\<close>

fun hashes_in_store :: "store_answer \<Rightarrow> StoreQueryRequest list \<Rightarrow> WakuMessageHash list" where
  "hashes_in_store query [] = []"
| "hashes_in_store query (req # reqs) =
     (case query req of
        Inl e \<Rightarrow> hashes_in_store query reqs
      | Inr resp \<Rightarrow> map kv_messageHash (p_messages resp) @ hashes_in_store query reqs)"

definition default_message :: WakuMessage where
  "default_message = \<lparr>payload = [], contentTopic = '''', meta = [], msg_version = 0, timestamp = 0,
     ephemeral = False, msg_proof = []\<rparr>"

definition missing_request :: "WakuMessageHash list \<Rightarrow> StoreQueryRequest" where
  "missing_request hashes = default_request\<lparr>s_includeData := True, s_messageHashes := hashes\<rparr>"

definition getMissingMsgsFromStore ::
  "store_answer \<Rightarrow> WakuMessageHash list \<Rightarrow> string + (WakuMessageHash \<times> WakuMessage) list" where
  "getMissingMsgsFromStore query hashes =
     (case query (missing_request hashes) of
        Inl e \<Rightarrow> Inl (''getMissingMsgsFromStore: '' @ show_store_error e)
      | Inr resp \<Rightarrow>
          Inr (map (\<lambda>kv. (kv_messageHash kv,
                 case kv_message kv of Some m \<Rightarrow> m | None \<Rightarrow> default_message)) (p_messages resp)))"

definition missed_hashes :: "WakuMessageHash list \<Rightarrow> RecvService \<Rightarrow> WakuMessageHash list" where
  "missed_hashes stored s = filter (\<lambda>h. h \<notin> fst ` set (recentReceivedMsgs s)) stored"

definition begin_check :: "Timestamp \<Rightarrow> RecvService \<Rightarrow> RecvService" where
  "begin_check now s = s\<lparr>endTimeToCheck := now\<rparr>"

text \<open>What follows once the hashes are collected; messages may have come in the meantime.\<close>

definition end_check :: "store_answer \<Rightarrow> WakuMessageHash list \<Rightarrow> RecvService \<Rightarrow> RecvService" where
  "end_check query stored s =
     (let s = (case getMissingMsgsFromStore query (missed_hashes stored s) of
                 Inl e \<Rightarrow> s
               | Inr msgs \<Rightarrow>
                   s\<lparr>recv_events := recv_events s
                       @ map (\<lambda>(h, m). DeliveryFeedbackEvent UNSUCCESSFUL RECEIVING ''Missed message'' h m) msgs\<rparr>)
      in s\<lparr>startTimeToCheck := endTimeToCheck s\<rparr>)"

text \<open>A round of the checker that no message interrupts.\<close>

definition msg_check :: "Timestamp \<Rightarrow> store_answer \<Rightarrow> SubscriptionManager \<Rightarrow> RecvService \<Rightarrow> RecvService" where
  "msg_check now query m s =
     (let s = begin_check now s
      in end_check query (hashes_in_store query (map (check_request s) (getActiveSubscriptions m))) s)"

section \<open>Runs\<close>

text \<open>
  What happens to a node: messages seen on the relay, subscriptions of the application, the removal
  of old messages, and the two ends of a check, between which the store answers and messages come.
\<close>

datatype recv_op =
  Seen string WakuMessage
  | Subscribe string
  | Unsubscribe string
  | PruneOld Timestamp
  | BeginCheck Timestamp
  | EndCheck store_answer "WakuMessageHash list"

fun recv_step ::
  "(byte list \<Rightarrow> WakuMessageHash) \<Rightarrow> (string \<Rightarrow> byte list) \<Rightarrow> sub_node \<Rightarrow> recv_op
     \<Rightarrow> SubscriptionManager \<times> RecvService \<Rightarrow> defect + SubscriptionManager \<times> RecvService" where
  "recv_step hash sha256 node (Seen topic msg) (m, s) = Inr (m, message_seen hash m topic msg s)"
| "recv_step hash sha256 node (Subscribe topic) (m, s) =
     map_sum id (\<lambda>(r, m). (m, s)) (subscribe_topic sha256 node topic m)"
| "recv_step hash sha256 node (Unsubscribe topic) (m, s) =
     map_sum id (\<lambda>(r, m). (m, s)) (unsubscribe_topic sha256 node topic m)"
| "recv_step hash sha256 node (PruneOld now) (m, s) = Inr (m, prune_old now s)"
| "recv_step hash sha256 node (BeginCheck now) (m, s) = Inr (m, begin_check now s)"
| "recv_step hash sha256 node (EndCheck query stored) (m, s) = Inr (m, end_check query stored s)"

fun recv_run ::
  "(byte list \<Rightarrow> WakuMessageHash) \<Rightarrow> (string \<Rightarrow> byte list) \<Rightarrow> sub_node \<Rightarrow> recv_op list
     \<Rightarrow> SubscriptionManager \<times> RecvService \<Rightarrow> defect + SubscriptionManager \<times> RecvService" where
  "recv_run hash sha256 node [] st = Inr st"
| "recv_run hash sha256 node (a # as) st =
     rbind (recv_step hash sha256 node a st) (recv_run hash sha256 node as)"

lemma msg_check_run:
  "recv_run hash sha256 node
     [BeginCheck now, EndCheck query (hashes_in_store query
       (map (check_request (begin_check now s)) (getActiveSubscriptions m)))] (m, s)
   = Inr (m, msg_check now query m s)"
  by (simp add: msg_check_def Let_def)

section \<open>Subscriptions\<close>

text \<open>The content topics of interest, each with its shard.\<close>

definition interests :: "SubscriptionManager \<Rightarrow> (string \<times> string) set" where
  "interests m = {(shard, topic). subscribed_under m shard topic}"

lemma interests_iff: "(shard, topic) \<in> interests m \<longleftrightarrow> subscribed_under m shard topic"
  by (simp add: interests_def)

lemma subscribed_under_add:
  "subscribed_under (addContentTopicInterest shard topic m) s t \<longleftrightarrow> (s, t) = (shard, topic) \<or> subscribed_under m s t"
proof (cases "map_of (contentTopicSubs m) shard")
  case None
  then show ?thesis
    by (simp add: subscribed_under_def addContentTopicInterest_def update_conv')
next
  case (Some ts)
  then show ?thesis
    by (cases "topic \<in> set ts") (auto simp: subscribed_under_def addContentTopicInterest_def update_conv')
qed

lemma subscribed_under_remove:
  assumes "distinct (map fst (contentTopicSubs m))"
  shows "subscribed_under (removeContentTopicInterest hasRelay shard topic m) s t \<longleftrightarrow>
    (s, t) \<noteq> (shard, topic) \<and> subscribed_under m s t"
proof (cases "map_of (contentTopicSubs m) shard")
  case None
  then show ?thesis by (auto simp: subscribed_under_def removeContentTopicInterest_def)
next
  case (Some ts)
  let ?ts = "filter (\<lambda>u. u \<noteq> topic) ts"
  show ?thesis
  proof (cases "topic \<in> set ts")
    case True
    have "t \<notin> set ts" if "?ts = []" "t \<noteq> topic" using that by (auto simp: filter_empty_conv)
    with Some True show ?thesis
      by (auto simp: subscribed_under_def removeContentTopicInterest_def Let_def update_conv' delete_conv')
  next
    case False
    with Some show ?thesis by (auto simp: subscribed_under_def removeContentTopicInterest_def)
  qed
qed

lemma interests_add: "interests (addContentTopicInterest shard topic m) = insert (shard, topic) (interests m)"
  by (auto simp: interests_def subscribed_under_add)

lemma interests_remove:
  "distinct (map fst (contentTopicSubs m)) \<Longrightarrow>
    interests (removeContentTopicInterest hasRelay shard topic m) = interests m - {(shard, topic)}"
  by (auto simp: interests_def subscribed_under_remove)

lemma interests_shards:
  "subscribe_shards True shards m = (es, m') \<Longrightarrow> es = [] \<and> interests m' = interests m
    \<and> (\<forall>shard \<in> set shards. map_of (contentTopicSubs m') shard \<noteq> None)
    \<and> dom (map_of (contentTopicSubs m)) \<subseteq> dom (map_of (contentTopicSubs m'))
    \<and> set (mesh m) \<subseteq> set (mesh m')
    \<and> dom (map_of (contentTopicSubs m')) \<subseteq> dom (map_of (contentTopicSubs m)) \<union> set (mesh m')
    \<and> (distinct (map fst (contentTopicSubs m)) \<longrightarrow> distinct (map fst (contentTopicSubs m')))"
proof (induction shards arbitrary: m es m')
  case (Cons shard shards)
  show ?case
  proof (cases "map_of (contentTopicSubs m) shard")
    case None
    define m1 where "m1 = m\<lparr>contentTopicSubs := AList.update shard [] (contentTopicSubs m),
      mesh := (if shard \<in> set (mesh m) then mesh m else mesh m @ [shard])\<rparr>"
    have step: "subscribe_shards True shards m1 = (es, m')"
      using Cons.prems None by (simp add: node_subscribe_def m1_def)
    have "interests m1 = interests m"
      using None by (auto simp: m1_def interests_def subscribed_under_def update_conv' split: option.splits if_splits)
    moreover have "distinct (map fst (contentTopicSubs m)) \<longrightarrow> distinct (map fst (contentTopicSubs m1))"
      by (simp add: m1_def distinct_update)
    moreover have "dom (map_of (contentTopicSubs m1)) = insert shard (dom (map_of (contentTopicSubs m)))"
      by (auto simp: m1_def update_conv')
    moreover have "shard \<in> set (mesh m1)" "set (mesh m) \<subseteq> set (mesh m1)" by (auto simp: m1_def)
    ultimately show ?thesis using Cons.IH [OF step] by auto
  next
    case (Some ts)
    then have "subscribe_shards True shards m = (es, m')" using Cons.prems by simp
    from Cons.IH [OF this] Some show ?thesis by auto
  qed
qed auto

text \<open>What holds of a manager at any time; with a relay every shard is subscribed on the mesh.\<close>

definition manager_ok :: "sub_node \<Rightarrow> SubscriptionManager \<Rightarrow> bool" where
  "manager_ok node m \<longleftrightarrow> distinct (map fst (contentTopicSubs m))
     \<and> (has_relay node \<longrightarrow> dom (map_of (contentTopicSubs m)) \<subseteq> set (mesh m))"

lemma mesh_add: "mesh (addContentTopicInterest shard topic m) = mesh m"
  by (simp add: addContentTopicInterest_def Let_def)

lemma dom_add:
  "dom (map_of (contentTopicSubs (addContentTopicInterest shard topic m)))
    = insert shard (dom (map_of (contentTopicSubs m)))"
  by (cases "map_of (contentTopicSubs m) shard") (auto simp: addContentTopicInterest_def Let_def update_conv')

lemma add_ok:
  assumes "manager_ok node m" "has_relay node \<Longrightarrow> map_of (contentTopicSubs m) shard \<noteq> None"
  shows "manager_ok node (addContentTopicInterest shard topic m)"
proof -
  have "distinct (map fst (contentTopicSubs (addContentTopicInterest shard topic m)))"
    using assms(1) by (simp add: manager_ok_def addContentTopicInterest_def Let_def distinct_update split: option.split)
  with assms show ?thesis by (auto simp: manager_ok_def dom_add mesh_add)
qed

lemma remove_ok:
  assumes "manager_ok node m"
  shows "manager_ok node (removeContentTopicInterest (has_relay node) shard topic m)"
proof (cases "map_of (contentTopicSubs m) shard")
  case None
  with assms show ?thesis by (simp add: removeContentTopicInterest_def)
next
  case (Some ts)
  with assms show ?thesis
    by (auto simp: manager_ok_def removeContentTopicInterest_def Let_def distinct_update distinct_delete
        update_conv' delete_conv' split: if_splits)
qed

lemma shard_present:
  assumes "manager_ok node m"
    and "(if has_relay node \<and> map_of (contentTopicSubs m) shard = None
      then subscribePubsubTopics (has_relay node) [shard] m else (Inr (), m)) = (x, m')"
  shows "x = Inr ()" "manager_ok node m'" "interests m' = interests m" "set (mesh m) \<subseteq> set (mesh m')"
    and "has_relay node \<Longrightarrow> map_of (contentTopicSubs m') shard \<noteq> None"
proof -
  have "x = Inr () \<and> manager_ok node m' \<and> interests m' = interests m \<and> set (mesh m) \<subseteq> set (mesh m')
      \<and> (has_relay node \<longrightarrow> map_of (contentTopicSubs m') shard \<noteq> None)"
  proof (cases "has_relay node \<and> map_of (contentTopicSubs m) shard = None")
    case True
    obtain es m1 where run: "subscribe_shards True [shard] m = (es, m1)" by fastforce
    note sh = interests_shards [OF this]
    have "x = Inr ()" "m' = m1" using True assms(2) run sh by (simp_all add: subscribePubsubTopics_def del: subscribe_shards.simps)
    moreover have "dom (map_of (contentTopicSubs m1)) \<subseteq> set (mesh m1)"
      using sh assms(1) True unfolding manager_ok_def by blast
    ultimately show ?thesis using sh assms(1) by (auto simp: manager_ok_def dest: map_of_SomeD)
  next
    case False
    then have "x = Inr () \<and> m' = m" using assms(2) by (simp split: if_splits)
    with False assms(1) show ?thesis by auto
  qed
  then show "x = Inr ()" "manager_ok node m'" "interests m' = interests m" "set (mesh m) \<subseteq> set (mesh m')"
    "has_relay node \<Longrightarrow> map_of (contentTopicSubs m') shard \<noteq> None" by auto
qed

lemma subscribe_cases:
  assumes "manager_ok node m" "subscribe_topic sha256 node topic m = Inr (r, m1)"
  shows "isl r \<and> m1 = m \<or> (\<exists>shard m'. r = Inr () \<and> getShardForContentTopic sha256 node topic = Inr (Inr shard)
    \<and> m1 = addContentTopicInterest shard topic m' \<and> manager_ok node m' \<and> interests m' = interests m
    \<and> set (mesh m) \<subseteq> set (mesh m') \<and> (has_relay node \<longrightarrow> map_of (contentTopicSubs m') shard \<noteq> None))"
proof (cases "\<not> has_relay node \<and> \<not> has_filter node")
  case True
  with assms(2) show ?thesis by (auto simp: subscribe_topic_def)
next
  case False
  obtain q where q: "getShardForContentTopic sha256 node topic = Inr q"
    using False assms(2) by (auto simp: subscribe_topic_def rbind_eq_Inr split: if_splits)
  show ?thesis
  proof (cases q)
    case (Inl e)
    with False q assms(2) show ?thesis by (auto simp: subscribe_topic_def)
  next
    case (Inr shard)
    obtain x m' where e: "(if has_relay node \<and> map_of (contentTopicSubs m) shard = None
        then subscribePubsubTopics (has_relay node) [shard] m else (Inr (), m)) = (x, m')" by fastforce
    note present = shard_present [OF assms(1) e]
    have "r = Inr () \<and> m1 = addContentTopicInterest shard topic m'"
      using False q Inr assms(2) e present(1)
      by (cases "has_relay node"; cases "map_of (contentTopicSubs m) shard") (auto simp: subscribe_topic_def)
    with present q Inr show ?thesis by blast
  qed
qed

lemma unsubscribe_cases:
  assumes "unsubscribe_topic sha256 node topic m = Inr (r, m2)"
  shows "isl r \<and> m2 = m \<or> (\<exists>shard. r = Inr () \<and> getShardForContentTopic sha256 node topic = Inr (Inr shard)
    \<and> m2 = (if subscribed_under m shard topic
            then removeContentTopicInterest (has_relay node) shard topic m else m))"
proof (cases "\<not> has_relay node \<and> \<not> has_filter node")
  case True
  with assms show ?thesis by (auto simp: unsubscribe_topic_def)
next
  case False
  with assms obtain q where q: "getShardForContentTopic sha256 node topic = Inr q"
    by (auto simp: unsubscribe_topic_def rbind_eq_Inr)
  with False assms show ?thesis by (cases q) (auto simp: unsubscribe_topic_def)
qed

definition named_interest :: "(string \<Rightarrow> byte list) \<Rightarrow> sub_node \<Rightarrow> string \<Rightarrow> string + unit \<Rightarrow> (string \<times> string) set" where
  "named_interest sha256 node topic r =
     (if isl r then {}
      else {(shard, topic) |shard. getShardForContentTopic sha256 node topic = Inr (Inr shard)})"

text \<open>
  A subscription adds exactly the content topic under its shard, the end of one removes exactly
  that, and an error changes neither. A node with a relay is on the mesh of every shard it keeps.
\<close>

lemma subscriptions_correct:
  assumes "manager_ok node m"
  shows "(case subscribe_topic sha256 node topic m of
        Inl d \<Rightarrow> True
      | Inr (r, m1) \<Rightarrow> manager_ok node m1 \<and> set (mesh m) \<subseteq> set (mesh m1)
          \<and> interests m1 = interests m \<union> named_interest sha256 node topic r)
    \<and> (case unsubscribe_topic sha256 node topic m of
        Inl d \<Rightarrow> True
      | Inr (r, m2) \<Rightarrow> manager_ok node m2 \<and> mesh m2 = mesh m
          \<and> interests m2 = interests m - named_interest sha256 node topic r)"
proof -
  have "manager_ok node m1 \<and> set (mesh m) \<subseteq> set (mesh m1)
      \<and> interests m1 = interests m \<union> named_interest sha256 node topic r"
    if "subscribe_topic sha256 node topic m = Inr (r, m1)" for r m1
    using subscribe_cases [OF assms that] assms
    by (auto intro: add_ok simp: interests_add mesh_add named_interest_def)
  moreover have "manager_ok node m2 \<and> mesh m2 = mesh m
      \<and> interests m2 = interests m - named_interest sha256 node topic r"
    if "unsubscribe_topic sha256 node topic m = Inr (r, m2)" for r m2
  proof -
    have "mesh (removeContentTopicInterest (has_relay node) shard topic m) = mesh m" for shard
      by (simp add: removeContentTopicInterest_def Let_def split: option.split)
    moreover have "distinct (map fst (contentTopicSubs m))" using assms by (simp add: manager_ok_def)
    moreover have "interests (if subscribed_under m shard topic
        then removeContentTopicInterest (has_relay node) shard topic m else m) = interests m - {(shard, topic)}" for shard
      using calculation(2) by (auto simp: interests_remove interests_iff)
    ultimately show ?thesis using unsubscribe_cases [OF that] assms
      by (auto simp: remove_ok named_interest_def)
  qed
  ultimately show ?thesis by (auto split: sum.splits)
qed

text \<open>A node with a relay and one with the client of the filter service only; every topic has one shard.\<close>

definition one_shard :: Sharding where
  "one_shard = \<lparr>cluster = 1, shardCountGenZero = 1\<rparr>"

definition full_node :: sub_node where
  "full_node = \<lparr>has_relay = True, has_filter = False, auto_sharding = Some one_shard\<rparr>"

lemma one_shard_topic:
  "getShardForContentTopic (\<lambda>_. []) full_node ''/a/1/b/c'' = Inr (Inr ''/waku/2/rs/1/0'')"
proof -
  have "getShard_of (\<lambda>_. []) one_shard ''/a/1/b/c'' = Inr (Inr \<lparr>clusterId = 1, shardId = 0\<rparr>)"
    by (simp add: getShard_of_def getShard_def getGenZeroShard_def one_shard_def Let_def be_value_def
        parse_ns_def ns_of_parts_def part_def)
  moreover have "show_shard \<lparr>clusterId = 1, shardId = 0\<rparr> = ''/waku/2/rs/1/0''"
    by (simp add: show_shard_def decimal.simps) code_simp
  ultimately show ?thesis by (simp add: getShardForContentTopic_def full_node_def)
qed

lemma subscriptions_correct_example:
  "\<exists>m. subscribe_topic (\<lambda>_. []) full_node ''/a/1/b/c'' manager_new = Inr (Inr (), m)
    \<and> mesh m = [''/waku/2/rs/1/0''] \<and> interests m = {(''/waku/2/rs/1/0'', ''/a/1/b/c'')}"
proof -
  have ok: "manager_ok full_node manager_new" by (simp add: manager_ok_def manager_new_def)
  have r: "has_relay full_node" by (simp add: full_node_def)
  obtain m where m: "subscribe_topic (\<lambda>_. []) full_node ''/a/1/b/c'' manager_new = Inr (Inr (), m)"
    "mesh m = [''/waku/2/rs/1/0'']"
    using r by (simp add: subscribe_topic_def one_shard_topic subscribePubsubTopics_def manager_new_def
        node_subscribe_def addContentTopicInterest_def)
  have "interests manager_new = {}" by (simp add: interests_def subscribed_under_def manager_new_def)
  with subscriptions_correct [OF ok, of "\<lambda>_. []" "''/a/1/b/c''"] m
  have "interests m = {(''/waku/2/rs/1/0'', ''/a/1/b/c'')}"
    by (simp add: named_interest_def one_shard_topic)
  with m show ?thesis by blast
qed

section \<open>Which messages are received\<close>

definition received :: "WakuMessageHash \<Rightarrow> RecvService \<Rightarrow> nat" where
  "received h s = length (filter (\<lambda>e. case e of MessageReceivedEvent h' m \<Rightarrow> h' = h | _ \<Rightarrow> False) (recv_events s))"

definition remembered :: "WakuMessageHash \<Rightarrow> RecvService \<Rightarrow> bool" where
  "remembered h s \<longleftrightarrow> h \<in> fst ` set (recentReceivedMsgs s)"

definition hits_hash ::
  "(byte list \<Rightarrow> WakuMessageHash) \<Rightarrow> WakuMessageHash \<Rightarrow> SubscriptionManager \<Rightarrow> recv_op \<Rightarrow> bool" where
  "hits_hash hash h m a \<longleftrightarrow>
     (case a of Seen topic msg \<Rightarrow> computeMessageHash hash topic msg = h \<and> (topic, contentTopic msg) \<in> interests m
      | _ \<Rightarrow> False)"

text \<open>Whether a message with the hash is seen while its content topic is subscribed under its topic.\<close>

fun wanted ::
  "(byte list \<Rightarrow> WakuMessageHash) \<Rightarrow> (string \<Rightarrow> byte list) \<Rightarrow> sub_node \<Rightarrow> WakuMessageHash \<Rightarrow> recv_op list
     \<Rightarrow> SubscriptionManager \<times> RecvService \<Rightarrow> bool" where
  "wanted hash sha256 node h [] st = False"
| "wanted hash sha256 node h (a # as) st =
     (hits_hash hash h (fst st) a
      \<or> (case recv_step hash sha256 node a st of Inl d \<Rightarrow> False | Inr st \<Rightarrow> wanted hash sha256 node h as st))"

text \<open>No old messages are removed at a time that is seven minutes past one with the hash.\<close>

definition young :: "(byte list \<Rightarrow> WakuMessageHash) \<Rightarrow> WakuMessageHash \<Rightarrow> recv_op list \<Rightarrow> bool" where
  "young hash h as \<longleftrightarrow>
     (\<forall>topic msg now. Seen topic msg \<in> set as \<and> computeMessageHash hash topic msg = h \<and> PruneOld now \<in> set as
        \<longrightarrow> now - MaxMessageLife < timestamp msg)"

lemma map_sum_eq_Inr: "map_sum f g x = Inr y \<longleftrightarrow> (\<exists>z. x = Inr z \<and> y = g z)"
  by (cases x) auto

lemma remembered_process:
  "remembered h (processIncomingMessageOfInterest hash topic msg s) \<longleftrightarrow>
    computeMessageHash hash topic msg = h \<or> remembered h s"
  by (auto simp: remembered_def processIncomingMessageOfInterest_def Let_def)

lemma received_step:
  assumes "recv_step hash sha256 node a (m, s) = Inr (m', s')"
    and "\<And>now t. a = PruneOld now \<Longrightarrow> (h, t) \<in> set (recentReceivedMsgs s) \<Longrightarrow> now - MaxMessageLife < t"
  shows "received h s' = received h s + (if \<not> remembered h s
      \<and> hits_hash hash h m a then 1 else 0)"
    and "remembered h s' \<longleftrightarrow> remembered h s
      \<or> hits_hash hash h m a"
    and "set (recentReceivedMsgs s') \<subseteq> set (recentReceivedMsgs s)
      \<union> {(computeMessageHash hash topic msg, timestamp msg) |topic msg. a = Seen topic msg}"
proof -
  have feedback: "received h (end_check query stored s) = received h s" for query stored
    by (auto simp: received_def end_check_def Let_def filter_empty_conv split: sum.split)
  show "received h s' = received h s + (if \<not> remembered h s
      \<and> hits_hash hash h m a then 1 else 0)"
  proof (cases a)
    case (Seen topic msg)
    with assms(1) show ?thesis
      by (force simp: message_seen_def processIncomingMessageOfInterest_def interests_iff received_def
          remembered_def hits_hash_def Let_def)
  next
    case (EndCheck query stored)
    with assms(1) feedback show ?thesis by (auto simp: hits_hash_def)
  qed (use assms(1) in \<open>auto simp: prune_old_def begin_check_def received_def hits_hash_def map_sum_eq_Inr\<close>)
  show "remembered h s' \<longleftrightarrow> remembered h s
      \<or> hits_hash hash h m a"
  proof (cases a)
    case (Seen topic msg)
    with assms(1) show ?thesis
      by (auto simp: message_seen_def remembered_process interests_iff hits_hash_def split: if_splits)
  next
    case (PruneOld now)
    with assms show ?thesis by (force simp: prune_old_def remembered_def hits_hash_def)
  qed (use assms(1) in \<open>auto simp: begin_check_def end_check_def remembered_def hits_hash_def Let_def map_sum_eq_Inr split: sum.splits\<close>)
  show "set (recentReceivedMsgs s') \<subseteq> set (recentReceivedMsgs s)
      \<union> {(computeMessageHash hash topic msg, timestamp msg) |topic msg. a = Seen topic msg}"
    using assms(1)
    by (cases a) (auto simp: message_seen_def processIncomingMessageOfInterest_def prune_old_def begin_check_def
        end_check_def Let_def map_sum_eq_Inr split: sum.splits if_splits)
qed

lemma received_run:
  assumes "recv_run hash sha256 node as (m, s) = Inr (m', s')" "young hash h as"
    and "\<forall>now t. PruneOld now \<in> set as \<longrightarrow> (h, t) \<in> set (recentReceivedMsgs s) \<longrightarrow> now - MaxMessageLife < t"
  shows "received h s' = received h s + (if \<not> remembered h s \<and> wanted hash sha256 node h as (m, s) then 1 else 0)"
  using assms
proof (induction as arbitrary: m s)
  case (Cons a as)
  obtain m1 s1 where step: "recv_step hash sha256 node a (m, s) = Inr (m1, s1)"
    "recv_run hash sha256 node as (m1, s1) = Inr (m', s')"
    using Cons.prems(1) by (auto simp: rbind_eq_Inr)
  have old: "now - MaxMessageLife < t" if "a = PruneOld now" "(h, t) \<in> set (recentReceivedMsgs s)" for now t
    using Cons.prems(3) that by simp
  note r = received_step [where h = h, OF step(1) old]
  have "now - MaxMessageLife < t" if "PruneOld now \<in> set as" "(h, t) \<in> set (recentReceivedMsgs s1)" for now t
  proof -
    have "(h, t) \<in> set (recentReceivedMsgs s) \<or> (\<exists>topic msg. a = Seen topic msg \<and>
        computeMessageHash hash topic msg = h \<and> timestamp msg = t)"
      using r(3) that(2) by auto
    with Cons.prems(2,3) that(1) show ?thesis by (auto simp: young_def)
  qed
  moreover have "young hash h as" using Cons.prems(2) by (auto simp: young_def)
  ultimately have "received h s' = received h s1
      + (if \<not> remembered h s1 \<and> wanted hash sha256 node h as (m1, s1) then 1 else 0)"
    using Cons.IH [OF step(2)] by blast
  with r(1,2) step(1) show ?case by (auto split: if_splits)
qed simp

text \<open>
  C15. A message is reported as received exactly once when it is seen at least once while its content
  topic is subscribed, and never otherwise, whatever else happens: as long as no removal of old
  messages falls seven minutes past the time it carries.
\<close>

theorem received_once:
  assumes "recv_run hash sha256 node as (manager_new, recv_service_new start) = Inr (m, s)" "young hash h as"
  shows "received h s = (if wanted hash sha256 node h as (manager_new, recv_service_new start) then 1 else 0)"
  using received_run [OF assms]
  by (simp add: recv_service_new_def received_def remembered_def)

text \<open>A node that sees one message twice, before and after it subscribes to its content topic.\<close>

definition news :: WakuMessage where
  "news = \<lparr>payload = [1], contentTopic = ''/a/1/b/c'', meta = [], msg_version = 0, timestamp = 10 ^ 12,
     ephemeral = False, msg_proof = []\<rparr>"

theorem received_once_witness:
  "\<exists>m s. recv_run id (\<lambda>_. []) full_node
      [Seen ''/waku/2/rs/1/0'' news, Subscribe ''/a/1/b/c'', Seen ''/waku/2/rs/1/0'' news,
       PruneOld (10 ^ 12 + 1), Seen ''/waku/2/rs/1/0'' news]
      (manager_new, recv_service_new 0) = Inr (m, s)
    \<and> received (computeMessageHash id ''/waku/2/rs/1/0'' news) s = 1"
proof -
  let ?h = "computeMessageHash id ''/waku/2/rs/1/0'' news"
  let ?as = "[Seen ''/waku/2/rs/1/0'' news, Subscribe ''/a/1/b/c'', Seen ''/waku/2/rs/1/0'' news,
    PruneOld (10 ^ 12 + 1), Seen ''/waku/2/rs/1/0'' news]"
  have relay: "has_relay full_node" by (simp add: full_node_def)
  obtain m where m: "subscribe_topic (\<lambda>_. []) full_node ''/a/1/b/c'' manager_new = Inr (Inr (), m)"
    "subscribed_under m ''/waku/2/rs/1/0'' ''/a/1/b/c''"
    using relay by (simp add: subscribe_topic_def one_shard_topic subscribePubsubTopics_def manager_new_def
        node_subscribe_def subscribed_under_add)
  have nobody: "\<not> subscribed_under manager_new topic t" for topic t
    by (simp add: subscribed_under_def manager_new_def)
  have "contentTopic news = ''/a/1/b/c''" by (simp add: news_def)
  then have "\<exists>s. recv_run id (\<lambda>_. []) full_node ?as (manager_new, recv_service_new 0) = Inr (m, s)"
    "wanted id (\<lambda>_. []) full_node ?h ?as (manager_new, recv_service_new 0)"
    using m nobody by (simp_all add: message_seen_def hits_hash_def interests_iff)
  moreover have "young id ?h ?as" by (simp add: young_def news_def MaxMessageLife_def)
  ultimately show ?thesis using received_once [of id "\<lambda>_. []" full_node ?as 0 _ _ ?h] by auto
qed

section \<open>A check that misses nothing\<close>

text \<open>The answer of a store node, as far as it does not fail.\<close>

definition store_query :: "request_handler \<Rightarrow> store_answer" where
  "store_query handler req = (case handler req of Some (Inr r) \<Rightarrow> r | _ \<Rightarrow> Inl UNKNOWN_ERROR)"

lemma newest_page: "in_order False (map f (take n (in_order False xs))) = map f (newest n xs)"
  by (simp add: in_order_def newest_def rev_map rev_take)

lemma query_without_filters:
  assumes "queue_valid ops content d"
  shows "\<exists>cursor. store_query (store_request_handler (queue_getMessages ops) d) (missing_request [])
    = Inr (default_response\<lparr>p_statusCode := 200, p_statusDesc := ''OK'',
        p_messages := map (row_kv True) (newest DefaultPageSize (queue_contents content d)),
        p_paginationCursor := cursor\<rparr>)"
proof -
  let ?q = "toArchiveQuery (missing_request [])" and ?rows = "in_order False (queue_contents content d)"
  have q: "check_cursor ?q = None" "query_page_size ?q = DefaultPageSize" "q_includeData ?q"
    "\<not> direction_into (q_direction ?q)" "q_contentTopics ?q = []" "q_pubsubTopic ?q = None" "q_cursor ?q = None"
    "q_startTime ?q = None" "q_endTime ?q = None" "q_hashes ?q = []"
    by (simp_all add: check_cursor_def query_page_size_def toArchiveQuery_def missing_request_def
        default_request_def default_query_def direction_into_def Let_def)
  have all: "row_matches [] None None None [] = (\<lambda>r. True)" by (simp add: row_matches_def fun_eq_iff)
  have "0 < DefaultPageSize" by (simp add: DefaultPageSize_def)
  then have "findMessages (queue_getMessages ops) ?q d =
      Some (Inr (chunk_response True False (take DefaultPageSize ?rows) (DefaultPageSize < length ?rows)))"
    using q getMessages_first [OF assms] by (simp add: findMessages_def Let_def all archive_page_chunk)
  then show ?thesis
    by (intro exI [of _ "if DefaultPageSize < length ?rows then Some (fst (last (take DefaultPageSize ?rows))) else None"])
      (simp only: store_query_def store_request_handler_def toStoreResult_chunk option.map option.case sum.case
        newest_page)
qed

text \<open>
  C16. Where the node has received every message the store knows of, the check asks the store for no
  hashes at all, which the store takes for no restriction: the newest page of its messages, whatever
  their topics, is reported to the application as missed.
\<close>

theorem nothing_missed_reported:
  assumes "queue_valid ops content d"
  defines "query \<equiv> store_query (store_request_handler (queue_getMessages ops) d)"
  assumes "missed_hashes (hashes_in_store query (map (check_request (begin_check now s)) (getActiveSubscriptions m)))
    s = []"
  shows "recv_events (msg_check now query m s) = recv_events s
    @ map (\<lambda>r. DeliveryFeedbackEvent UNSUCCESSFUL RECEIVING ''Missed message'' (fst r) (snd (snd r)))
        (newest DefaultPageSize (queue_contents content d))"
proof -
  have none: "missed_hashes (hashes_in_store query (map (check_request (begin_check now s)) (getActiveSubscriptions m)))
    (begin_check now s) = []"
    using assms(3) by (simp add: missed_hashes_def begin_check_def)
  obtain resp where "query (missing_request []) = Inr resp"
    "p_messages resp = map (row_kv True) (newest DefaultPageSize (queue_contents content d))"
    using query_without_filters [OF assms(1)] by (auto simp: query_def)
  then have "getMissingMsgsFromStore query [] =
      Inr (map (\<lambda>r. (fst r, snd (snd r))) (newest DefaultPageSize (queue_contents content d)))"
    by (simp add: getMissingMsgsFromStore_def row_kv_def)
  with none show ?thesis by (simp add: msg_check_def end_check_def begin_check_def Let_def comp_def)
qed

theorem nothing_missed_reported_witness:
  "\<exists>d r. queue_run list_set_ops [example_put 5 1] (queue_new list_set_ops 10) = Inr d
    \<and> fst (snd r) \<noteq> ''/waku/2/rs/7/7''
    \<and> recv_events (msg_check 100 (store_query (store_request_handler (queue_getMessages list_set_ops) d))
        manager_new (recv_service_new 0))
      = [DeliveryFeedbackEvent UNSUCCESSFUL RECEIVING ''Missed message'' (fst r) (snd (snd r))]"
proof -
  let ?ps = "[example_put 5 1]"
  obtain d where d: "queue_run list_set_ops ?ps (queue_new list_set_ops (int 10)) = Inr d"
    using queue_run_newest [OF list_set_sound, of 10 ?ps] by auto
  have h: "hashes_determine_times ?ps" by (simp add: hashes_determine_times_def example_simps)
  note v = queue_run_valid [OF list_set_sound _ h d]
  define r where "r = entry_row (put_entry (example_put 5 1))"
  have "newest DefaultPageSize (queue_contents (\<lambda>s. s) d) = [r]"
    using v(2) by (simp add: queue_contents_def newest_def store_all_def r_def DefaultPageSize_def)
  moreover have "fst (snd r) \<noteq> ''/waku/2/rs/7/7''" by (simp add: r_def example_simps entry_row_def)
  moreover have "missed_hashes (hashes_in_store q (map (check_request (begin_check 100 (recv_service_new 0)))
      (getActiveSubscriptions manager_new))) (recv_service_new 0) = []" for q
    by (simp add: missed_hashes_def getActiveSubscriptions_def manager_new_def)
  moreover have "recv_events (recv_service_new 0) = []" by (simp add: recv_service_new_def)
  ultimately show ?thesis
    using d nothing_missed_reported [OF v(1), where now = 100 and m = manager_new and s = "recv_service_new 0"] by auto
qed

end
