(* ===== verification/PeerManager.thy ===== *)
theory PeerManager
  imports EnrSharding "HOL-Library.AList"
begin

text \<open>
  Which peers a node keeps, dials and drops: the decisions of
  \<open>waku/node/peer_manager/peer_manager.nim\<close> and \<open>waku_peer_store.nim\<close>. The books of the peer store of
  the network library are association lists in their iteration order; deleting a peer from them,
  shuffling, dialling and the connections are parameters. Times are seconds. Books that no decision
  reads are left out.
\<close>

section \<open>The peer store\<close>

datatype Connectedness = NotConnected | CannotConnect | CanConnect | Connected
datatype PeerDirection = UnknownDirection | Inbound | Outbound

record ('p, 'r) PeerStore =
  lastSeenOutboundBook :: "('p \<times> string option) list"
  addressBook :: "('p \<times> string list) list"
  protoBook :: "('p \<times> string list) list"
  keyBook :: "('p \<times> string) list"
  shardBook :: "('p \<times> 16 word list) list"
  enrBook :: "('p \<times> 'r) list"
  connectionBook :: "('p \<times> Connectedness) list"
  directionBook :: "('p \<times> PeerDirection) list"
  numberFailedConnBook :: "('p \<times> nat) list"
  lastFailedConnBook :: "('p \<times> int) list"
  capacity :: int

record ('p, 'r) RemotePeerInfo =
  peerId :: 'p
  addrs :: "string list"
  enr :: "'r option"
  protocols :: "string list"
  publicKey :: string
  connectedness :: Connectedness
  direction :: PeerDirection
  lastFailedConn :: int
  numberFailedConn :: nat

text \<open>Reading a book gives the default value where it has no entry; \<open>hasKeyOrPut\<close> keeps an entry.\<close>

definition getOrDefault :: "'v \<Rightarrow> ('k \<times> 'v) list \<Rightarrow> 'k \<Rightarrow> 'v" where
  "getOrDefault d book k = (case map_of book k of None \<Rightarrow> d | Some v \<Rightarrow> v)"

definition hasKeyOrPut :: "'k \<Rightarrow> 'v \<Rightarrow> ('k \<times> 'v) list \<Rightarrow> ('k \<times> 'v) list" where
  "hasKeyOrPut k v book = (if map_of book k = None then AList.update k v book else book)"

text \<open>The ids of all peers: the keys of five of the books.\<close>

definition peers :: "('p, 'r) PeerStore \<Rightarrow> 'p list" where
  "peers s = remdups (map fst (lastSeenOutboundBook s) @ map fst (addressBook s) @ map fst (protoBook s)
     @ map fst (keyBook s) @ map fst (shardBook s))"

definition connectedness_of :: "('p, 'r) PeerStore \<Rightarrow> 'p \<Rightarrow> Connectedness" where
  "connectedness_of s p = getOrDefault NotConnected (connectionBook s) p"

definition isConnected :: "('p, 'r) PeerStore \<Rightarrow> 'p \<Rightarrow> bool" where
  "isConnected s p \<longleftrightarrow> connectedness_of s p = Connected"

definition peerExists :: "('p, 'r) PeerStore \<Rightarrow> 'p \<Rightarrow> bool" where
  "peerExists s p \<longleftrightarrow> map_of (addressBook s) p \<noteq> None"

definition hasPeer :: "('p, 'r) PeerStore \<Rightarrow> 'p \<Rightarrow> string \<Rightarrow> bool" where
  "hasPeer s p proto \<longleftrightarrow> proto \<in> set (getOrDefault [] (protoBook s) p)"

definition hasShard :: "'r record_ops \<Rightarrow> ('p, 'r) PeerStore \<Rightarrow> 'p \<Rightarrow> 16 word \<Rightarrow> 16 word \<Rightarrow> bool" where
  "hasShard ops s p cid shard \<longleftrightarrow>
     (case map_of (enrBook s) p of None \<Rightarrow> False | Some r \<Rightarrow> containsShard ops r cid shard)
     \<or> shard \<in> set (getOrDefault [] (shardBook s) p)"

definition hasCapability :: "'r record_ops \<Rightarrow> ('p, 'r) PeerStore \<Rightarrow> 'p \<Rightarrow> Capabilities \<Rightarrow> bool" where
  "hasCapability ops s p cap \<longleftrightarrow>
     (case map_of (enrBook s) p of None \<Rightarrow> False | Some r \<Rightarrow> record_supports ops r cap)"

definition getDisconnectedPeers :: "('p, 'r) PeerStore \<Rightarrow> 'p list" where
  "getDisconnectedPeers s = filter (\<lambda>p. \<not> isConnected s p) (peers s)"

definition getPeersByProtocol :: "('p, 'r) PeerStore \<Rightarrow> string \<Rightarrow> 'p list" where
  "getPeersByProtocol s proto = filter (\<lambda>p. hasPeer s p proto) (peers s)"

definition getPeersByShard :: "'r record_ops \<Rightarrow> ('p, 'r) PeerStore \<Rightarrow> 16 word \<Rightarrow> 16 word \<Rightarrow> 'p list" where
  "getPeersByShard ops s cid shard = filter (\<lambda>p. hasShard ops s p cid shard) (peers s)"

text \<open>
  \<open>raw\<close> and \<open>seqNum\<close> are the encoding and the sequence number of a record; the encoding of a record
  that is not there is empty.
\<close>

fun merge_protocols :: "string list \<Rightarrow> string list \<Rightarrow> string list" where
  "merge_protocols ps [] = ps"
| "merge_protocols ps (n # ns) = merge_protocols (if n \<in> set ps then ps else ps @ [n]) ns"

definition record_known ::
  "('r \<Rightarrow> byte list) \<Rightarrow> ('r \<Rightarrow> nat) \<Rightarrow> ('p, 'r) PeerStore \<Rightarrow> ('p, 'r) RemotePeerInfo \<Rightarrow> bool" where
  "record_known raw seqNum s peer \<longleftrightarrow>
     getOrDefault [] (addressBook s) (peerId peer) = addrs peer
     \<and> getOrDefault '''' (keyBook s) (peerId peer) = publicKey peer
     \<and> (case map_of (enrBook s) (peerId peer) of
          None \<Rightarrow> False
        | Some r \<Rightarrow> raw r \<noteq> []
            \<and> (case enr peer of
                 None \<Rightarrow> True
               | Some incoming \<Rightarrow> raw r = raw incoming \<or> seqNum incoming < seqNum r))"

definition store_addPeer ::
  "('r \<Rightarrow> byte list) \<Rightarrow> ('r \<Rightarrow> nat) \<Rightarrow> ('p, 'r) RemotePeerInfo \<Rightarrow> ('p, 'r) PeerStore \<Rightarrow> ('p, 'r) PeerStore" where
  "store_addPeer raw seqNum peer s =
     (let p = peerId peer in
      if record_known raw seqNum s peer then s
      else s\<lparr>addressBook := AList.update p (addrs peer) (addressBook s),
             protoBook := AList.update p
               (merge_protocols (getOrDefault [] (protoBook s) p) (protocols peer)) (protoBook s),
             keyBook := hasKeyOrPut p (publicKey peer) (keyBook s),
             connectionBook := hasKeyOrPut p (connectedness peer) (connectionBook s),
             directionBook := hasKeyOrPut p (direction peer) (directionBook s),
             lastFailedConnBook := hasKeyOrPut p (lastFailedConn peer) (lastFailedConnBook s),
             numberFailedConnBook := hasKeyOrPut p (numberFailedConn peer) (numberFailedConnBook s),
             enrBook := (case enr peer of None \<Rightarrow> enrBook s | Some r \<Rightarrow> AList.update p r (enrBook s))\<rparr>)"

section \<open>Dialling\<close>

definition calculateBackoff :: "int \<Rightarrow> int \<Rightarrow> nat \<Rightarrow> int" where
  "calculateBackoff initialBackoff factor failedAttempts =
     (if failedAttempts = 0 then 0 else initialBackoff * factor ^ (failedAttempts - 1))"

record pm_config =
  initialBackoffInSec :: int
  backoffFactor :: int
  maxFailedAttempts :: nat
  inRelayPeersTarget :: nat
  outRelayPeersTarget :: nat
  maxServicePeers :: nat
  colocationLimit :: nat

definition canBeConnected :: "pm_config \<Rightarrow> int \<Rightarrow> ('p, 'r) PeerStore \<Rightarrow> 'p \<Rightarrow> bool" where
  "canBeConnected pm now s p =
     (let failedAttempts = getOrDefault 0 (numberFailedConnBook s) p in
      if failedAttempts = 0 then True
      else if maxFailedAttempts pm \<le> failedAttempts then False
      else getOrDefault 0 (lastFailedConnBook s) p
             + calculateBackoff (initialBackoffInSec pm) (backoffFactor pm) failedAttempts \<le> now)"

definition addPeer ::
  "('r \<Rightarrow> byte list) \<Rightarrow> ('r \<Rightarrow> nat) \<Rightarrow> 'p \<Rightarrow> ('p, 'r) RemotePeerInfo \<Rightarrow> ('p, 'r) PeerStore \<Rightarrow> ('p, 'r) PeerStore" where
  "addPeer raw seqNum own peer s = (if peerId peer = own then s else store_addPeer raw seqNum peer s)"

text \<open>\<open>dialled\<close> is whether the connection is made in time, \<open>now\<close> the time at which it is known.\<close>

definition connectPeer ::
  "('r \<Rightarrow> byte list) \<Rightarrow> ('r \<Rightarrow> nat) \<Rightarrow> 'p \<Rightarrow> ('p, 'r) RemotePeerInfo \<Rightarrow> bool \<Rightarrow> int
     \<Rightarrow> ('p, 'r) PeerStore \<Rightarrow> bool \<times> ('p, 'r) PeerStore" where
  "connectPeer raw seqNum own peer dialled now s =
     (let p = peerId peer in
      if p = own then (False, s)
      else
        (let s = (if peerExists s p then s else addPeer raw seqNum own peer s) in
         if dialled then (True, s\<lparr>numberFailedConnBook := AList.update p 0 (numberFailedConnBook s)\<rparr>)
         else (False, s\<lparr>
           numberFailedConnBook :=
             AList.update p (getOrDefault 0 (numberFailedConnBook s) p + 1) (numberFailedConnBook s),
           lastFailedConnBook := AList.update p now (lastFailedConnBook s),
           connectionBook := AList.update p CannotConnect (connectionBook s)\<rparr>)))"

section \<open>Selecting a peer for a service\<close>

definition WakuRelayCodec :: string where "WakuRelayCodec = ''/vac/waku/relay/2.0.0''"

text \<open>\<open>shuffle\<close> is the order the random generator puts the peers into.\<close>

definition shard_peers ::
  "(string \<Rightarrow> string + 16 word) \<Rightarrow> 'r record_ops \<Rightarrow> ('p, 'r) PeerStore \<Rightarrow> string \<Rightarrow> 'p list
     \<Rightarrow> defect + 'p list option" where
  "shard_peers base10 ops s topic ps =
     rbind (parseStaticSharding base10 topic) (\<lambda>r. Inr
       (case r of
          Inl e \<Rightarrow> None
        | Inr info \<Rightarrow>
            Some (filter (\<lambda>p.
              (case map_of (enrBook s) p of None \<Rightarrow> False
               | Some rec \<Rightarrow> containsShard ops rec (clusterId info) (shardId info))
              \<or> shardId info \<in> set (getOrDefault [] (shardBook s) p)) ps)))"

definition selectPeer ::
  "(string \<Rightarrow> string + 16 word) \<Rightarrow> 'r record_ops \<Rightarrow> ('p list \<Rightarrow> 'p list) \<Rightarrow> (string \<times> 'p) list
     \<Rightarrow> ('p, 'r) PeerStore \<Rightarrow> string \<Rightarrow> string option \<Rightarrow> defect + 'p option" where
  "selectPeer base10 ops shuffle slots s proto shard =
     rbind (case shard of
              None \<Rightarrow> Inr (Some (getPeersByProtocol s proto))
            | Some topic \<Rightarrow> shard_peers base10 ops s topic (getPeersByProtocol s proto)) (\<lambda>found. Inr
       (case found of
          None \<Rightarrow> None
        | Some ps \<Rightarrow>
            (let ps = shuffle ps;
                 first = (case ps of [] \<Rightarrow> None | p # _ \<Rightarrow> Some p)
             in if proto = WakuRelayCodec then first
                else (case map_of slots proto of Some p \<Rightarrow> Some p | None \<Rightarrow> first))))"

definition addServicePeer ::
  "pm_config \<Rightarrow> ('r \<Rightarrow> byte list) \<Rightarrow> ('r \<Rightarrow> nat) \<Rightarrow> 'p \<Rightarrow> ('p, 'r) RemotePeerInfo \<Rightarrow> string
     \<Rightarrow> (string \<times> 'p) list \<Rightarrow> ('p, 'r) PeerStore \<Rightarrow> (string \<times> 'p) list \<times> ('p, 'r) PeerStore" where
  "addServicePeer pm raw seqNum own peer proto slots s =
     (if proto = WakuRelayCodec then (slots, s)
      else if maxServicePeers pm \<le> length slots then (slots, s)
      else (AList.update proto (peerId peer) slots, addPeer raw seqNum own peer s))"

section \<open>Keeping relay connections\<close>

definition MaxParallelDials :: nat where "MaxParallelDials = 10"

text \<open>\<open>inPeers\<close> are the inbound relay connections; the peers that are told to disconnect.\<close>

definition pruneInRelayConns :: "'p list \<Rightarrow> int \<Rightarrow> 'p list" where
  "pruneInRelayConns inPeers amount = (if amount \<le> 0 then [] else take (min (nat amount) (length inPeers)) inPeers)"

text \<open>
  The dialling loop of \<open>connectToRelayPeers\<close>: \<open>dial\<close> connects to a batch, \<open>out_peers\<close> reads the number
  of outbound relay connections. The result is the batches that were dialled.
\<close>

function dial_loop ::
  "('p list \<Rightarrow> 'e \<Rightarrow> 'e) \<Rightarrow> ('e \<Rightarrow> nat) \<Rightarrow> nat \<Rightarrow> 'p list \<Rightarrow> nat \<Rightarrow> nat \<Rightarrow> nat \<Rightarrow> 'e \<Rightarrow> 'p list list \<times> 'e" where
  "dial_loop dial out_peers target ps index numPending outCount e =
     (if 0 < numPending \<and> outCount < target then
        (let n = min numPending MaxParallelDials;
             batch = take n (drop index ps);
             e = dial batch e
         in case dial_loop dial out_peers target ps (index + n) (numPending - n) (out_peers e) e of
              (bs, e) \<Rightarrow> (batch # bs, e))
      else ([], e))"
  by pat_completeness auto
termination by (relation "measure (\<lambda>(_, _, _, _, _, n, _, _). n)") (auto simp: MaxParallelDials_def)

declare dial_loop.simps [simp del]

definition connectToRelayPeers ::
  "pm_config \<Rightarrow> bool \<Rightarrow> int \<Rightarrow> ('p list \<Rightarrow> 'p list) \<Rightarrow> ('p list \<Rightarrow> 'e \<Rightarrow> 'e) \<Rightarrow> ('e \<Rightarrow> nat) \<Rightarrow> 'p list \<Rightarrow> 'p list
     \<Rightarrow> ('p, 'r) PeerStore \<Rightarrow> 'e \<Rightarrow> 'p list \<times> 'p list list \<times> 'e" where
  "connectToRelayPeers pm online now shuffle dial out_peers inPeers outPeers s e =
     (if \<not> online then ([], [], e)
      else
        (let dropped = (if inRelayPeersTarget pm < length inPeers
                        then pruneInRelayConns inPeers (int (length inPeers) - int (inRelayPeersTarget pm)) else [])
         in if outRelayPeersTarget pm \<le> length outPeers then (dropped, [], e)
            else
              (let ps = shuffle (filter (canBeConnected pm now s) (getDisconnectedPeers s));
                   pending = min (length ps) (outRelayPeersTarget pm - length outPeers)
               in (dropped, dial_loop dial out_peers (outRelayPeersTarget pm) ps 0 pending (length outPeers) e))))"

text \<open>The loop over the shards of \<open>manageRelayPeers\<close>: how many to disconnect, and whom to dial.\<close>

fun manage_shards ::
  "pm_config \<Rightarrow> 'r record_ops \<Rightarrow> int \<Rightarrow> ('p list \<Rightarrow> 'p list) \<Rightarrow> 16 word \<Rightarrow> nat \<Rightarrow> nat \<Rightarrow> 'p list \<Rightarrow> 'p list
     \<Rightarrow> ('p, 'r) PeerStore \<Rightarrow> 16 word list \<Rightarrow> int \<Rightarrow> 'p list \<Rightarrow> int \<times> 'p list" where
  "manage_shards pm ops now shuffle cid inTarget outTarget inPeers outPeers s [] drops dials = (drops, dials)"
| "manage_shards pm ops now shuffle cid inTarget outTarget inPeers outPeers s (shard # shards) drops dials =
     (let connectedIn = filter (\<lambda>p. hasShard ops s p cid shard) inPeers;
          connectedOut = filter (\<lambda>p. hasShard ops s p cid shard) outPeers;
          inPeerDiff = int (length connectedIn) - int inTarget;
          outPeerDiff = int outTarget - int (length connectedOut);
          drops = (if 0 < inPeerDiff then drops + inPeerDiff else drops)
      in if outPeerDiff \<le> 0 then
           manage_shards pm ops now shuffle cid inTarget outTarget inPeers outPeers s shards drops dials
         else
           (let connectable = shuffle (filter (\<lambda>p. hasCapability ops s p Relay)
                  (filter (\<lambda>p. \<not> isConnected s p \<and> canBeConnected pm now s p)
                    (getPeersByShard ops s cid shard)));
                chosen = take (min (nat outPeerDiff) (length connectable)) connectable
            in manage_shards pm ops now shuffle cid inTarget outTarget inPeers outPeers s shards drops
                 (dials @ filter (\<lambda>p. p \<notin> set dials) chosen)))"

text \<open>The dialling in batches: \<open>countup\<close> includes the length itself, so the last batch may be empty.\<close>

definition dial_batches :: "'p list \<Rightarrow> 'p list list" where
  "dial_batches ps =
     map (\<lambda>k. take MaxParallelDials (drop (k * MaxParallelDials) ps)) [0..<Suc (length ps div MaxParallelDials)]"

definition manageRelayPeers ::
  "pm_config \<Rightarrow> 'r record_ops \<Rightarrow> bool \<Rightarrow> int \<Rightarrow> ('p list \<Rightarrow> 'p list) \<Rightarrow> 16 word \<Rightarrow> 16 word list \<Rightarrow> 'p list
     \<Rightarrow> 'p list \<Rightarrow> ('p, 'r) PeerStore \<Rightarrow> 'p list \<times> 'p list list" where
  "manageRelayPeers pm ops online now shuffle cid shards inPeers outPeers s =
     (if shards = [] \<or> \<not> online then ([], [])
      else
        (let inTarget = inRelayPeersTarget pm div length shards;
             outTarget = outRelayPeersTarget pm div length shards;
             (drops, dials) = manage_shards pm ops now shuffle cid inTarget outTarget inPeers outPeers s shards 0 []
         in (pruneInRelayConns inPeers drops, if dials = [] then [] else dial_batches dials)))"

section \<open>Events of connections\<close>

text \<open>The peers by their address; where more than the limit share one the oldest are dropped.\<close>

definition ip_join :: "nat \<Rightarrow> string \<Rightarrow> 'p \<Rightarrow> (string \<times> 'p list) list \<Rightarrow> (string \<times> 'p list) list \<times> 'p list" where
  "ip_join limit ip p table =
     (let behind = getOrDefault [] table ip @ [p]
      in (AList.update ip behind table,
          if limit \<noteq> 0 \<and> limit < length behind then take (length behind - limit) behind else []))"

fun ip_leave :: "'p \<Rightarrow> (string \<times> 'p list) list \<Rightarrow> (string \<times> 'p list) list" where
  "ip_leave p [] = []"
| "ip_leave p ((ip, ps) # table) =
     (if p \<in> set ps then
        (let ps = filter (\<lambda>q. q \<noteq> p) ps in if ps = [] then table else (ip, ps) # table)
      else (ip, ps) # ip_leave p table)"

record ('p, 'r) PeerManager =
  peerStore :: "('p, 'r) PeerStore"
  ipTable :: "(string \<times> 'p list) list"

text \<open>The answer to the request for the metadata of a peer: none asked for, refused, or its shards.\<close>

datatype metadata = NotAsked | Refused | Shards "16 word list"

text \<open>\<open>del\<close> deletes a peer from the books. The result has the peers that are told to disconnect.\<close>

definition refreshPeerMetadata ::
  "('p \<Rightarrow> ('p, 'r) PeerStore \<Rightarrow> ('p, 'r) PeerStore) \<Rightarrow> 'p \<Rightarrow> metadata \<Rightarrow> ('p, 'r) PeerStore
     \<Rightarrow> 'p list \<times> ('p, 'r) PeerStore" where
  "refreshPeerMetadata del p answer s =
     (case answer of
        NotAsked \<Rightarrow> ([], s)
      | Refused \<Rightarrow> ([p], del p s)
      | Shards shards \<Rightarrow> ([], if peerExists s p then s\<lparr>shardBook := AList.update p shards (shardBook s)\<rparr> else s))"

definition onJoined ::
  "pm_config \<Rightarrow> ('p \<Rightarrow> ('p, 'r) PeerStore \<Rightarrow> ('p, 'r) PeerStore) \<Rightarrow> 'p \<Rightarrow> bool \<Rightarrow> metadata \<Rightarrow> nat
     \<Rightarrow> string option \<Rightarrow> ('p, 'r) PeerManager \<Rightarrow> 'p list \<times> ('p, 'r) PeerManager" where
  "onJoined pm del p initiator answer inRelayPeers ip m =
     (let (drops, s) = refreshPeerMetadata del p answer (peerStore m);
          drops = (if inRelayPeersTarget pm < inRelayPeers \<and> hasPeer s p WakuRelayCodec
                   then drops @ [p] else drops);
          (table, pruned) = (case ip of None \<Rightarrow> (ipTable m, []) | Some a \<Rightarrow> ip_join (colocationLimit pm) a p (ipTable m));
          s = fold del pruned s;
          s = s\<lparr>connectionBook := AList.update p Connected (connectionBook s),
                directionBook := AList.update p (if initiator then Outbound else Inbound) (directionBook s)\<rparr>
      in (drops @ pruned, \<lparr>peerStore = s, ipTable = table\<rparr>))"

definition onLeft :: "'p \<Rightarrow> ('p, 'r) PeerManager \<Rightarrow> ('p, 'r) PeerManager" where
  "onLeft p m =
     m\<lparr>ipTable := ip_leave p (ipTable m),
       peerStore := (peerStore m)\<lparr>connectionBook := AList.update p CanConnect (connectionBook (peerStore m)),
         directionBook := AList.update p UnknownDirection (directionBook (peerStore m))\<rparr>\<rparr>"

section \<open>Pruning the peer store\<close>

definition incl :: "'a \<Rightarrow> 'a list \<Rightarrow> 'a list" where
  "incl p ps = (if p \<in> set ps then ps else ps @ [p])"

fun prune_failed :: "nat \<Rightarrow> nat \<Rightarrow> ('p \<times> nat) list \<Rightarrow> 'p list \<Rightarrow> 'p list" where
  "prune_failed maxFailed pruningCount [] ps = ps"
| "prune_failed maxFailed pruningCount ((p, count) # book) ps =
     (if count < maxFailed then prune_failed maxFailed pruningCount book ps
      else if pruningCount \<le> length ps then ps
      else prune_failed maxFailed pruningCount book (incl p ps))"

text \<open>The peers without a readable list of shards, and the others by shard.\<close>

definition record_shards :: "'r record_ops \<Rightarrow> ('p, 'r) PeerStore \<Rightarrow> 'p \<Rightarrow> 16 word list option" where
  "record_shards ops s p =
     (case map_of (enrBook s) p of
        None \<Rightarrow> None
      | Some r \<Rightarrow>
          if rec_typed ops r \<noteq> None then None else map_option rs_shardIds (relaySharding ops r))"

fun add_to_shards :: "'p \<Rightarrow> 16 word list \<Rightarrow> (16 word \<times> 'p list) list \<Rightarrow> (16 word \<times> 'p list) list" where
  "add_to_shards p [] table = table"
| "add_to_shards p (shard # shards) table =
     add_to_shards p shards (AList.update shard (getOrDefault [] table shard @ [p]) table)"

fun group_peers ::
  "('p \<Rightarrow> 16 word list option) \<Rightarrow> 'p list \<Rightarrow> 'p list \<Rightarrow> (16 word \<times> 'p list) list
     \<Rightarrow> 'p list \<times> (16 word \<times> 'p list) list" where
  "group_peers shards_of [] shardless table = (shardless, table)"
| "group_peers shards_of (p # ps) shardless table =
     (case shards_of p of
        None \<Rightarrow> group_peers shards_of ps (shardless @ [p]) table
      | Some shards \<Rightarrow> group_peers shards_of ps shardless (add_to_shards p shards table))"

fun prune_list :: "nat \<Rightarrow> 'p list \<Rightarrow> 'p list \<Rightarrow> 'p list" where
  "prune_list pruningCount [] ps = ps"
| "prune_list pruningCount (p # qs) ps =
     (if pruningCount \<le> length ps then ps else prune_list pruningCount qs (incl p ps))"

definition slice_upto :: "'a list \<Rightarrow> nat \<Rightarrow> defect + 'a list" where
  "slice_upto xs n = (if n < length xs then Inr (take (n + 1) xs) else Inl IndexDefect)"

fun prune_shards :: "nat \<Rightarrow> nat \<Rightarrow> (16 word \<times> 'p list) list \<Rightarrow> 'p list \<Rightarrow> defect + 'p list" where
  "prune_shards pruningCount avg [] ps = Inr ps"
| "prune_shards pruningCount avg ((shard, qs) # table) ps =
     rbind (slice_upto qs (length qs - avg)) (\<lambda>qs. prune_shards pruningCount avg table (prune_list pruningCount qs ps))"

definition shard_average :: "(16 word \<times> 'p list) list \<Rightarrow> nat" where
  "shard_average table = min 1 (sum_list (map (\<lambda>(shard, qs). length qs) table) div max 1 (length table))"

definition peers_to_prune ::
  "pm_config \<Rightarrow> 'r record_ops \<Rightarrow> ('p list \<Rightarrow> 'p list) \<Rightarrow> nat \<Rightarrow> ('p, 'r) PeerStore \<Rightarrow> defect + 'p list" where
  "peers_to_prune pm ops shuffle pruningCount s =
     (let ps = prune_failed (maxFailedAttempts pm) pruningCount (numberFailedConnBook s) [];
          (shardless, table) = group_peers (record_shards ops s) (shuffle (getDisconnectedPeers s)) [] [];
          ps = prune_list pruningCount shardless ps
      in prune_shards pruningCount (shard_average table) table ps)"

definition prunePeerStore ::
  "pm_config \<Rightarrow> 'r record_ops \<Rightarrow> ('p list \<Rightarrow> 'p list) \<Rightarrow> ('p \<Rightarrow> ('p, 'r) PeerStore \<Rightarrow> ('p, 'r) PeerStore)
     \<Rightarrow> ('p, 'r) PeerStore \<Rightarrow> defect + ('p, 'r) PeerStore" where
  "prunePeerStore pm ops shuffle del s =
     (let numPeers = length (addressBook s) in
      if int numPeers \<le> capacity s then Inr s
      else rbind (peers_to_prune pm ops shuffle (nat (int numPeers - capacity s)) s) (\<lambda>ps. Inr (fold del ps s)))"

section \<open>Whom pruning takes\<close>

text \<open>The first of equal elements.\<close>

lemma deduplicate_seen: "set a = set b \<Longrightarrow> deduplicate a xs = deduplicate b xs"
proof (induction xs arbitrary: a b)
  case (Cons x xs)
  from Cons.IH [of "x # a" "x # b"] Cons.IH [of a b] Cons.prems show ?case by auto
qed simp

lemma prune_list_take:
  "length ps \<le> k \<Longrightarrow> prune_list k qs ps = ps @ take (k - length ps) (deduplicate ps qs)"
proof (induction k qs ps rule: prune_list.induct)
  case (2 k p qs ps)
  have same: "deduplicate (p # ps) qs = deduplicate (ps @ [p]) qs"
    by (rule deduplicate_seen) auto
  show ?case
  proof (cases "k = length ps")
    case False
    with "2.prems" have k: "k - length ps = Suc (k - length (ps @ [p]))" "\<not> k \<le> length ps" by simp_all
    show ?thesis
    proof (cases "p \<in> set ps")
      case True
      with "2.IH" "2.prems" k show ?thesis by (simp add: incl_def)
    next
      case False
      with "2.IH" "2.prems" k show ?thesis by (simp add: incl_def same)
    qed
  qed simp
qed simp

lemma prune_list_full: "k \<le> length ps \<Longrightarrow> prune_list k qs ps = ps"
  by (cases qs) auto

lemma prune_list_append: "prune_list k (as @ bs) ps = prune_list k bs (prune_list k as ps)"
  by (induction k as ps rule: prune_list.induct) (auto simp: prune_list_full)

lemma prune_failed_list:
  "prune_failed m k book ps = prune_list k (map fst (filter (\<lambda>(p, count). m \<le> count) book)) ps"
  by (induction m k book ps rule: prune_failed.induct) auto

definition full_lists :: "(16 word \<times> 'p list) list \<Rightarrow> bool" where
  "full_lists table \<longleftrightarrow> (\<forall>e \<in> set table. snd e \<noteq> [])"

lemma shard_average_one:
  assumes "full_lists table" "table \<noteq> []"
  shows "shard_average table = 1"
proof -
  have "full_lists table \<Longrightarrow> length table \<le> sum_list (map (\<lambda>(shard, qs). length qs) table)"
  proof (induction table)
    case (Cons e table)
    then have "Suc 0 \<le> length (snd e)" "full_lists table" by (simp_all add: full_lists_def Suc_le_eq)
    with Cons.IH have "Suc (length table) \<le> length (snd e) + sum_list (map (\<lambda>(shard, qs). length qs) table)"
      by linarith
    then show ?case by (cases e) simp
  qed simp
  with assms have "max 1 (length table) \<le> sum_list (map (\<lambda>(shard, qs). length qs) table)"
    by (cases table) simp_all
  then have "1 \<le> sum_list (map (\<lambda>(shard, qs). length qs) table) div max 1 (length table)"
    by (simp add: div_greater_zero_iff Suc_le_eq)
  then show ?thesis by (simp add: shard_average_def)
qed

lemma prune_shards_list:
  "full_lists table \<Longrightarrow> prune_shards k 1 table ps = Inr (prune_list k (concat (map snd table)) ps)"
proof (induction table arbitrary: ps)
  case (Cons e table)
  obtain shard qs where e: "e = (shard, qs)" by (cases e)
  with Cons.prems have "qs \<noteq> []" "full_lists table" by (auto simp: full_lists_def)
  then have "slice_upto qs (length qs - 1) = Inr qs" by (cases qs) (simp_all add: slice_upto_def)
  with Cons.IH [OF \<open>full_lists table\<close>] show ?case by (simp add: e prune_list_append)
qed simp

lemma members_update:
  assumes "distinct (map fst table)"
  shows "set (concat (map snd (AList.update k (getOrDefault [] table k @ [p]) table)))
    = insert p (set (concat (map snd table)))"
  using assms
proof (induction table)
  case (Cons e table)
  obtain k' qs where e: "e = (k', qs)" by (cases e)
  show ?case
  proof (cases "k' = k")
    case True
    then show ?thesis by (auto simp: e getOrDefault_def)
  next
    case False
    then have "getOrDefault [] (e # table) k = getOrDefault [] table k" by (simp add: e getOrDefault_def)
    with False Cons show ?thesis by (auto simp: e)
  qed
qed (simp add: getOrDefault_def)

lemma full_update: "full_lists table \<Longrightarrow> qs \<noteq> [] \<Longrightarrow> full_lists (AList.update k qs table)"
  by (induction table) (auto simp: full_lists_def)

lemma add_to_shards_members:
  assumes "distinct (map fst table)" "full_lists table"
  shows "distinct (map fst (add_to_shards p shards table)) \<and> full_lists (add_to_shards p shards table)
    \<and> set (concat (map snd (add_to_shards p shards table)))
      = set (concat (map snd table)) \<union> (if shards = [] then {} else {p})"
  using assms
proof (induction p shards table rule: add_to_shards.induct)
  case (2 p shard shards table)
  let ?t = "AList.update shard (getOrDefault [] table shard @ [p]) table"
  have "distinct (map fst ?t)" using "2.prems"(1) by (rule distinct_update)
  moreover have "full_lists ?t" using "2.prems"(2) by (simp add: full_update)
  moreover note "2.IH" [OF calculation] members_update [OF "2.prems"(1), of shard p]
  ultimately show ?case by (auto simp only: add_to_shards.simps list.simps if_False if_True split: if_splits)
qed simp

lemma group_peers_members:
  assumes "group_peers f ps shardless table = (shardless', table')" "distinct (map fst table)" "full_lists table"
  shows "distinct (map fst table') \<and> full_lists table'
    \<and> set shardless' = set shardless \<union> {p \<in> set ps. f p = None}
    \<and> set (concat (map snd table')) = set (concat (map snd table)) \<union> {p \<in> set ps. f p \<noteq> None \<and> f p \<noteq> Some []}"
  using assms
proof (induction f ps shardless table rule: group_peers.induct)
  case (2 f p ps shardless table)
  show ?case
  proof (cases "f p")
    case None
    with 2 show ?thesis by auto
  next
    case (Some shards)
    note t = add_to_shards_members [OF "2.prems"(2,3), of p shards]
    have "group_peers f ps shardless (add_to_shards p shards table) = (shardless', table')"
      using "2.prems"(1) Some by simp
    from "2.IH"(2) [OF Some this] t Some show ?thesis by (auto split: if_splits)
  qed
qed simp

definition failed_peers :: "pm_config \<Rightarrow> ('p, 'r) PeerStore \<Rightarrow> 'p list" where
  "failed_peers pm s = map fst (filter (\<lambda>(p, count). maxFailedAttempts pm \<le> count) (numberFailedConnBook s))"

lemma peers_to_prune_list:
  assumes "\<forall>xs. set (shuffle xs) = set xs"
  shows "\<exists>shardless table.
    group_peers (record_shards ops s) (shuffle (getDisconnectedPeers s)) [] [] = (shardless, table)
    \<and> set shardless = {p \<in> set (getDisconnectedPeers s). record_shards ops s p = None}
    \<and> set (concat (map snd table))
      = {p \<in> set (getDisconnectedPeers s). record_shards ops s p \<noteq> None \<and> record_shards ops s p \<noteq> Some []}
    \<and> peers_to_prune pm ops shuffle k s
      = Inr (take k (deduplicate [] (failed_peers pm s @ shardless @ concat (map snd table))))"
proof -
  obtain shardless table where g:
    "group_peers (record_shards ops s) (shuffle (getDisconnectedPeers s)) [] [] = (shardless, table)" by fastforce
  have "full_lists ([] :: (16 word \<times> 'a list) list)" by (simp add: full_lists_def)
  from group_peers_members [OF g _ this] assms have t: "full_lists table"
    "set shardless = {p \<in> set (getDisconnectedPeers s). record_shards ops s p = None}"
    "set (concat (map snd table))
      = {p \<in> set (getDisconnectedPeers s). record_shards ops s p \<noteq> None \<and> record_shards ops s p \<noteq> Some []}"
    by auto
  have "prune_shards k (shard_average table) table ps = Inr (prune_list k (concat (map snd table)) ps)" for ps
    using prune_shards_list [OF t(1)] shard_average_one [OF t(1)] by (cases table) simp_all
  then have "peers_to_prune pm ops shuffle k s
      = Inr (prune_list k (failed_peers pm s @ shardless @ concat (map snd table)) [])"
    by (simp add: peers_to_prune_def g prune_failed_list prune_list_append failed_peers_def)
  then have "peers_to_prune pm ops shuffle k s
      = Inr (take k (deduplicate [] (failed_peers pm s @ shardless @ concat (map snd table))))"
    by (simp add: prune_list_take)
  with g t(2,3) show ?thesis by blast
qed

text \<open>
  C17. Pruning deletes the first of these peers, as many as the store is over its capacity: those with
  too many failed dials, whether connected or not, then the peers that are not connected, first those
  without shards, then shard by shard all of its peers. The average of peers per shard plays no part:
  it is taken to be one, and the slice that leaves so many of them includes one more. A peer whose
  record lists no shard is never pruned for being disconnected.
\<close>

theorem pruning_order:
  assumes "\<forall>xs. set (shuffle xs) = set xs"
  shows "\<exists>shardless table.
    group_peers (record_shards ops s) (shuffle (getDisconnectedPeers s)) [] [] = (shardless, table)
    \<and> set shardless = {p \<in> set (getDisconnectedPeers s). record_shards ops s p = None}
    \<and> set (concat (map snd table))
      = {p \<in> set (getDisconnectedPeers s). record_shards ops s p \<noteq> None \<and> record_shards ops s p \<noteq> Some []}
    \<and> prunePeerStore pm ops shuffle del s
      = Inr (if int (length (addressBook s)) \<le> capacity s then s
             else fold del (take (nat (int (length (addressBook s)) - capacity s)) (deduplicate []
               (failed_peers pm s @ shardless @ concat (map snd table)))) s)"
proof -
  obtain shardless table where
    "group_peers (record_shards ops s) (shuffle (getDisconnectedPeers s)) [] [] = (shardless, table)"
    "set shardless = {p \<in> set (getDisconnectedPeers s). record_shards ops s p = None}"
    "set (concat (map snd table))
      = {p \<in> set (getDisconnectedPeers s). record_shards ops s p \<noteq> None \<and> record_shards ops s p \<noteq> Some []}"
    "peers_to_prune pm ops shuffle (nat (int (length (addressBook s)) - capacity s)) s
      = Inr (take (nat (int (length (addressBook s)) - capacity s))
          (deduplicate [] (failed_peers pm s @ shardless @ concat (map snd table))))"
    using peers_to_prune_list [OF assms] by blast
  then show ?thesis by (intro exI [of _ shardless] exI [of _ table]) (simp add: prunePeerStore_def Let_def)
qed

text \<open>What deleting does to the book of addresses; that of the network library does it to every book.\<close>

definition deletes :: "('p \<Rightarrow> ('p, 'r) PeerStore \<Rightarrow> ('p, 'r) PeerStore) \<Rightarrow> bool" where
  "deletes del \<longleftrightarrow> (\<forall>p s. addressBook (del p s) = AList.delete p (addressBook s))"

definition delete_all :: "'p \<Rightarrow> ('p, 'r) PeerStore \<Rightarrow> ('p, 'r) PeerStore" where
  "delete_all p s =
     \<lparr>lastSeenOutboundBook = AList.delete p (lastSeenOutboundBook s), addressBook = AList.delete p (addressBook s),
      protoBook = AList.delete p (protoBook s), keyBook = AList.delete p (keyBook s),
      shardBook = AList.delete p (shardBook s), enrBook = AList.delete p (enrBook s),
      connectionBook = AList.delete p (connectionBook s), directionBook = AList.delete p (directionBook s),
      numberFailedConnBook = AList.delete p (numberFailedConnBook s),
      lastFailedConnBook = AList.delete p (lastFailedConnBook s), capacity = capacity s\<rparr>"

lemma delete_all_deletes: "deletes delete_all"
  by (simp add: deletes_def delete_all_def)

lemma fold_deletes:
  assumes "deletes del"
  shows "addressBook (fold del ps s) = filter (\<lambda>e. fst e \<notin> set ps) (addressBook s)"
proof (induction ps arbitrary: s)
  case (Cons p ps)
  have "addressBook (del p s) = filter (\<lambda>e. fst e \<noteq> p) (addressBook s)"
    using assms by (auto simp: deletes_def AList.delete_eq intro!: filter_cong)
  with Cons show ?case by (auto intro!: filter_cong)
qed simp

lemma length_filter_keys:
  assumes "distinct (map fst xs)"
  shows "length xs \<le> length (filter (\<lambda>e. fst e \<notin> set ps) xs) + length ps"
proof -
  have "length (filter (\<lambda>e. fst e \<in> set ps) xs) = card (fst ` set (filter (\<lambda>e. fst e \<in> set ps) xs))"
    using distinct_map_filter [OF assms] by (metis distinct_card length_map set_map)
  also have "\<dots> \<le> card (set ps)" by (intro card_mono) auto
  also have "\<dots> \<le> length ps" by (rule card_length)
  finally show ?thesis using sum_length_filter_compl [of "\<lambda>e. fst e \<in> set ps" xs] by simp
qed

text \<open>
  C18. Pruning ends in no defect, leaves at least as many addresses as the capacity allows, and never
  forgets a connected peer that has not failed too often.
\<close>

theorem pruning_keeps:
  assumes "\<forall>xs. set (shuffle xs) = set xs" "deletes del" "distinct (map fst (addressBook s))"
  shows "\<exists>s'. prunePeerStore pm ops shuffle del s = Inr s'
    \<and> min (int (length (addressBook s))) (capacity s) \<le> int (length (addressBook s'))
    \<and> (\<forall>e \<in> set (addressBook s). isConnected s (fst e) \<and> fst e \<notin> set (failed_peers pm s)
        \<longrightarrow> e \<in> set (addressBook s'))"
proof -
  let ?n = "length (addressBook s)"
  let ?k = "nat (int ?n - capacity s)"
  obtain ps where ps: "peers_to_prune pm ops shuffle ?k s = Inr ps" "length ps \<le> ?k"
    "set ps \<subseteq> set (failed_peers pm s) \<union> set (getDisconnectedPeers s)"
  proof -
    obtain shardless table where
      "group_peers (record_shards ops s) (shuffle (getDisconnectedPeers s)) [] [] = (shardless, table)" and t:
      "set shardless = {p \<in> set (getDisconnectedPeers s). record_shards ops s p = None}"
      "set (concat (map snd table))
        = {p \<in> set (getDisconnectedPeers s). record_shards ops s p \<noteq> None \<and> record_shards ops s p \<noteq> Some []}"
      "peers_to_prune pm ops shuffle ?k s
        = Inr (take ?k (deduplicate [] (failed_peers pm s @ shardless @ concat (map snd table))))"
      using peers_to_prune_list [OF assms(1), of ops s pm ?k] by blast
    have "set (deduplicate [] (failed_peers pm s @ shardless @ concat (map snd table)))
        = set (failed_peers pm s) \<union> (set shardless \<union> set (concat (map snd table)))"
      by (simp only: set_deduplicate set_append list.set(1) Diff_empty)
    then have "set (deduplicate [] (failed_peers pm s @ shardless @ concat (map snd table)))
        \<subseteq> set (failed_peers pm s) \<union> set (getDisconnectedPeers s)"
      unfolding t(1,2) by blast
    then have "set (take ?k (deduplicate [] (failed_peers pm s @ shardless @ concat (map snd table))))
        \<subseteq> set (failed_peers pm s) \<union> set (getDisconnectedPeers s)"
      using set_take_subset [of ?k "deduplicate [] (failed_peers pm s @ shardless @ concat (map snd table))"] by blast
    with t(3) show thesis by (intro that) simp_all
  qed
  show ?thesis
  proof (cases "int ?n \<le> capacity s")
    case True
    then show ?thesis by (simp add: prunePeerStore_def)
  next
    case False
    have "length (addressBook s) \<le> length (addressBook (fold del ps s)) + length ps"
      unfolding fold_deletes [OF assms(2)] by (rule length_filter_keys [OF assms(3)])
    with ps(2) False have "min (int ?n) (capacity s) \<le> int (length (addressBook (fold del ps s)))" by linarith
    moreover have "e \<in> set (addressBook (fold del ps s))"
      if "e \<in> set (addressBook s)" "isConnected s (fst e)" "fst e \<notin> set (failed_peers pm s)" for e
    proof -
      have "fst e \<notin> set (getDisconnectedPeers s)" using that(2) by (simp add: getDisconnectedPeers_def)
      with that ps(3) show ?thesis by (auto simp: fold_deletes [OF assms(2)])
    qed
    moreover have "prunePeerStore pm ops shuffle del s = Inr (fold del ps s)"
      using ps(1) False by (simp add: prunePeerStore_def)
    ultimately show ?thesis by blast
  qed
qed

section \<open>Sharded management of relay connections\<close>

lemma manage_drops:
  assumes "\<forall>p \<in> set inPeers. \<forall>shard \<in> set shards. hasShard ops s p cid shard" "inTarget \<le> length inPeers"
  shows "fst (manage_shards pm ops now shuffle cid inTarget outTarget inPeers outPeers s shards drops dials)
    = drops + int (length shards) * (int (length inPeers) - int inTarget)"
  using assms
proof (induction shards arbitrary: drops dials)
  case (Cons shard shards)
  have "filter (\<lambda>p. hasShard ops s p cid shard) inPeers = inPeers" using Cons.prems(1) by simp
  moreover have "drops' = drops + (int (length inPeers) - int inTarget)"
    if "drops' = (if 0 < int (length inPeers) - int inTarget then drops + (int (length inPeers) - int inTarget) else drops)"
    for drops' using that Cons.prems(2) by auto
  ultimately show ?case using Cons by (simp add: Let_def algebra_simps)
qed simp

text \<open>
  C19. The excess of inbound connections is summed over the shards, so a peer on several shards counts
  several times. Where every inbound peer is on all of the shards, two or more, all of them are
  disconnected as soon as their number, times one less than that of the shards, reaches the target:
  also when there are no more of them than the target.
\<close>

theorem sharded_management_drops_all:
  assumes "2 \<le> length shards" "\<forall>p \<in> set inPeers. \<forall>shard \<in> set shards. hasShard ops s p cid shard"
    and "inRelayPeersTarget pm \<le> length inPeers * (length shards - 1)"
    and "inRelayPeersTarget pm div length shards \<le> length inPeers"
  shows "fst (manageRelayPeers pm ops True now shuffle cid shards inPeers outPeers s) = inPeers"
proof -
  let ?k = "length shards" and ?n = "length inPeers" and ?t = "inRelayPeersTarget pm"
  obtain drops dials where m: "manage_shards pm ops now shuffle cid (?t div ?k) (outRelayPeersTarget pm div ?k)
      inPeers outPeers s shards 0 [] = (drops, dials)" by fastforce
  then have drops: "drops = int ?k * (int ?n - int (?t div ?k))"
    using manage_drops [OF assms(2,4), of pm now shuffle "outRelayPeersTarget pm div ?k" outPeers 0 "[]"] by simp
  have "?k * (?t div ?k) \<le> ?n * (?k - 1)"
    using assms(3) by (meson le_trans times_div_less_eq_dividend)
  moreover have "?n * (?k - 1) + ?n = ?k * ?n" using assms(1) by (cases ?k) (simp_all add: algebra_simps)
  ultimately have "?n + ?k * (?t div ?k) \<le> ?k * ?n" by linarith
  then have "int ?n + int ?k * int (?t div ?k) \<le> int ?k * int ?n"
    by (metis of_nat_add of_nat_le_iff of_nat_mult)
  then have "int ?n \<le> drops" by (simp add: drops right_diff_distrib)
  then have "pruneInRelayConns inPeers drops = inPeers"
    by (cases inPeers) (auto simp: pruneInRelayConns_def le_nat_iff)
  moreover have "shards \<noteq> []" using assms(1) by auto
  ultimately show ?thesis using m by (simp add: manageRelayPeers_def)
qed

section \<open>Examples\<close>

text \<open>A store of three peers without records, one of which is connected, with capacity for two.\<close>

definition sample_config :: pm_config where
  "sample_config = \<lparr>initialBackoffInSec = 120, backoffFactor = 4, maxFailedAttempts = 5, inRelayPeersTarget = 10,
     outRelayPeersTarget = 5, maxServicePeers = 1, colocationLimit = 2\<rparr>"

definition sample_store :: "(string, string \<Rightarrow> byte list option) PeerStore" where
  "sample_store = \<lparr>lastSeenOutboundBook = [], addressBook = [(''a'', [''1'']), (''b'', [''2'']), (''c'', [''3''])],
     protoBook = [], keyBook = [], shardBook = [(''a'', [0, 1]), (''b'', [0, 1])], enrBook = [],
     connectionBook = [(''b'', Connected)], directionBook = [], numberFailedConnBook = [(''c'', 5)],
     lastFailedConnBook = [], capacity = 1\<rparr>"

lemma sample_disconnected:
  "getDisconnectedPeers sample_store = [''a'', ''c''] \<or> getDisconnectedPeers sample_store = [''c'', ''a'']"
  by (simp add: getDisconnectedPeers_def peers_def isConnected_def connectedness_of_def getOrDefault_def sample_store_def)

theorem pruning_order_witness:
  "\<exists>s. prunePeerStore sample_config map_ops rev delete_all sample_store = Inr s \<and> map fst (addressBook s) = [''b'']"
proof -
  have shards: "record_shards map_ops sample_store p = None" for p
    by (simp add: record_shards_def sample_store_def)
  have shuffled: "\<forall>xs :: string list. set (rev xs) = set xs" by simp
  have failed: "failed_peers sample_config sample_store = [''c'']"
    by (simp add: failed_peers_def sample_config_def sample_store_def)
  have over: "\<not> int (length (addressBook sample_store)) \<le> capacity sample_store"
    "nat (int (length (addressBook sample_store)) - capacity sample_store) = 2" by (simp_all add: sample_store_def)
  obtain shardless table where g:
    "group_peers (record_shards map_ops sample_store) (rev (getDisconnectedPeers sample_store)) [] [] = (shardless, table)"
    "prunePeerStore sample_config map_ops rev delete_all sample_store
      = Inr (fold delete_all (take 2 (deduplicate [] ([''c''] @ shardless @ concat (map snd table)))) sample_store)"
    using pruning_order [OF shuffled, of map_ops sample_store sample_config delete_all] over failed by auto
  have "shardless = rev (getDisconnectedPeers sample_store)" using g(1) sample_disconnected by (auto simp: shards)
  with sample_disconnected have first: "take 2 (deduplicate [] ([''c''] @ shardless @ concat (map snd table))) = [''c'', ''a'']"
    by auto
  have "fold delete_all [''c'', ''a''] sample_store = delete_all ''a'' (delete_all ''c'' sample_store)" by simp
  with g(2) have "prunePeerStore sample_config map_ops rev delete_all sample_store
      = Inr (delete_all ''a'' (delete_all ''c'' sample_store))" unfolding first by metis
  moreover have "map fst (addressBook (delete_all ''a'' (delete_all ''c'' sample_store))) = [''b'']"
    by (simp add: delete_all_def sample_store_def)
  ultimately show ?thesis by (intro exI [of _ "delete_all ''a'' (delete_all ''c'' sample_store)"] conjI)
qed

theorem pruning_keeps_witness:
  "\<exists>s. prunePeerStore sample_config map_ops rev delete_all sample_store = Inr s
    \<and> 1 \<le> length (addressBook s) \<and> (''b'', [''2'']) \<in> set (addressBook s)"
proof -
  have shuffled: "\<forall>xs :: string list. set (rev xs) = set xs" by simp
  have "distinct (map fst (addressBook sample_store))" by (simp add: sample_store_def)
  note k = pruning_keeps [OF shuffled delete_all_deletes this, of sample_config map_ops]
  have "isConnected sample_store ''b''" "''b'' \<notin> set (failed_peers sample_config sample_store)"
    "(''b'', [''2'']) \<in> set (addressBook sample_store)" "capacity sample_store = 1"
    "length (addressBook sample_store) = 3"
    by (simp_all add: isConnected_def connectedness_of_def getOrDefault_def failed_peers_def sample_store_def
        sample_config_def)
  with k show ?thesis by force
qed

theorem sharded_management_drops_all_witness:
  "fst (manageRelayPeers sample_config map_ops True 0 rev 1 [0, 1]
      (concat (replicate 5 [''a'', ''b''])) [] sample_store) = concat (replicate 5 [''a'', ''b''])
    \<and> length (concat (replicate 5 [''a'', ''b''])) = inRelayPeersTarget sample_config"
proof -
  have "\<forall>p \<in> set (concat (replicate 5 [''a'', ''b''])). \<forall>shard \<in> set [0, 1]. hasShard map_ops sample_store p 1 shard"
    by (auto simp: hasShard_def getOrDefault_def sample_store_def)
  moreover have "length (concat (replicate 5 [''a'', ''b''])) = 10" "inRelayPeersTarget sample_config = 10"
    by (simp_all add: numeral_eq_Suc sample_config_def)
  ultimately show ?thesis
    using sharded_management_drops_all [of "[0, 1]" "concat (replicate 5 [''a'', ''b''])" map_ops sample_store 1
        sample_config 0 rev "[]"] by simp
qed

section \<open>Backoff, dialling and addresses\<close>

lemma backoff_grows:
  "0 \<le> initial \<Longrightarrow> 1 \<le> factor \<Longrightarrow> 1 \<le> a \<Longrightarrow> a \<le> b \<Longrightarrow>
    calculateBackoff initial factor a \<le> calculateBackoff initial factor b"
  by (auto simp: calculateBackoff_def intro!: mult_left_mono power_increasing)

text \<open>A peer that failed is dialled again only after its backoff, and never after too many failures.\<close>

lemma no_dial_in_backoff:
  assumes "map_of (numberFailedConnBook s) p = Some n" "0 < n" "map_of (lastFailedConnBook s) p = Some t"
    and "canBeConnected pm now s p"
  shows "n < maxFailedAttempts pm"
    and "t + calculateBackoff (initialBackoffInSec pm) (backoffFactor pm) n \<le> now"
  using assms by (auto simp: canBeConnected_def getOrDefault_def Let_def split: if_splits)

text \<open>The batches dialled are consecutive parts of the list, of ten peers at most, and no more than asked for.\<close>

lemma dial_loop_batches:
  assumes "dial_loop dial out_peers target ps index numPending outCount e = (bs, e')"
    and "index + numPending \<le> length ps"
  shows "\<exists>n \<le> numPending. concat bs = take n (drop index ps) \<and> (\<forall>b \<in> set bs. length b \<le> MaxParallelDials)"
  using assms
proof (induction dial out_peers target ps index numPending outCount e arbitrary: bs e' rule: dial_loop.induct)
  case (1 dial out_peers target ps index numPending outCount e)
  show ?case
  proof (cases "0 < numPending \<and> outCount < target")
    case True
    define n where "n = min numPending MaxParallelDials"
    define e1 where "e1 = dial (take n (drop index ps)) e"
    obtain bs' e2 where rest: "dial_loop dial out_peers target ps (index + n) (numPending - n) (out_peers e1) e1 = (bs', e2)"
      by fastforce
    have bs: "bs = take n (drop index ps) # bs'"
      using "1.prems"(1) True rest by (subst (asm) dial_loop.simps) (simp add: Let_def flip: n_def e1_def)
    have "index + n + (numPending - n) \<le> length ps" using "1.prems"(2) by (simp add: n_def)
    from "1.IH" [OF True n_def refl refl, of bs' e2] rest this
    obtain m where m: "m \<le> numPending - n" "concat bs' = take m (drop (index + n) ps)"
      "\<forall>b \<in> set bs'. length b \<le> MaxParallelDials" by (auto simp: e1_def)
    have "concat bs = take (n + m) (drop index ps)"
      by (simp add: bs m(2) take_add add.commute [of index])
    then show ?thesis using m bs by (intro exI [of _ "n + m"]) (auto simp: n_def)
  next
    case False
    with "1.prems"(1) have "bs = []" by (subst (asm) dial_loop.simps) auto
    then show ?thesis by (intro exI [of _ 0]) simp
  qed
qed

text \<open>Of the peers behind an address all but the newest, as many as the limit, are dropped.\<close>

lemma ip_join_keeps:
  assumes "ip_join limit ip p table = (table', pruned)" "limit \<noteq> 0"
  shows "\<exists>kept. getOrDefault [] table' ip = pruned @ kept \<and> length kept \<le> limit \<and> p \<in> set kept"
proof -
  define behind where "behind = getOrDefault [] table ip @ [p]"
  have t: "getOrDefault [] table' ip = behind"
    "pruned = (if limit < length behind then take (length behind - limit) behind else [])"
    using assms by (auto simp: ip_join_def behind_def getOrDefault_def update_conv' Let_def)
  have "p \<in> set (drop n behind)" if "n < length behind" for n
    using that by (simp add: behind_def)
  with assms(2) t show ?thesis
    by (intro exI [of _ "drop (length pruned) behind"]) (auto simp: behind_def)
qed

lemma ip_leave_empty: "\<forall>e \<in> set table. snd e \<noteq> [] \<Longrightarrow> \<forall>e \<in> set (ip_leave p table). snd e \<noteq> []"
  by (induction p table rule: ip_leave.induct) (auto simp: Let_def)

text \<open>
  A peer that is refused for its metadata is deleted from the books, and then entered again as
  connected; the entries stay when it leaves, and pruning does not look at them.
\<close>

lemma refused_peer_stays:
  "snd (onJoined pm del p initiator Refused n ip m) = m1 \<Longrightarrow>
    map_of (connectionBook (peerStore m1)) p = Some Connected
    \<and> map_of (connectionBook (peerStore (onLeft p m1))) p = Some CanConnect"
  by (auto simp: onJoined_def onLeft_def Let_def update_conv' split: prod.splits option.splits)

text \<open>With changed addresses an older record replaces a newer one.\<close>

lemma older_record_replaces:
  assumes "map_of (enrBook s) (peerId peer) = Some new" "enr peer = Some old" "seqNum old < seqNum new"
    and "getOrDefault [] (addressBook s) (peerId peer) \<noteq> addrs peer"
  shows "map_of (enrBook (store_addPeer raw seqNum peer s)) (peerId peer) = Some old"
  using assms by (simp add: store_addPeer_def record_known_def update_conv' Let_def)

text \<open>A peer in the slot of a service is selected for every shard, whether it supports it or not.\<close>

lemma slot_ignores_shard:
  assumes "map_of slots proto = Some p" "proto \<noteq> WakuRelayCodec"
    and "parseStaticSharding base10 topic = Inr (Inr info)"
  shows "selectPeer base10 ops shuffle slots s proto (Some topic) = Inr (Some p)"
  using assms by (simp add: selectPeer_def shard_peers_def)

end
