(* ===== verification/RelayTopics.thy ===== *)
theory RelayTopics
  imports RlnRelay EnrSharding FilterSubscriptions "HOL-Library.AList"
begin

text \<open>
  Subscriptions of the relay and the validation of what it relays: \<open>waku/waku_relay/protocol.nim\<close>,
  \<open>waku/node/kernel_api/relay.nim\<close>, what \<open>waku/node/kernel_api/filter.nim\<close> announces in the same queue,
  and the listener of this queue in \<open>waku/discovery/waku_discv5.nim\<close>. The layer below, the gossip
  protocol of the network library, is a parameter with the laws it documents, and so is how it
  combines the validators of a topic. Procedures that the code creates are named by numbers: each
  creation gives a new one, and it is this identity by which the layer below keeps them.
\<close>

section \<open>The layer below\<close>

record 'g gossip_ops =
  g_subscribed :: "'g \<Rightarrow> string \<Rightarrow> bool"
  g_validators :: "'g \<Rightarrow> string \<Rightarrow> nat set"
  g_addValidator :: "string \<Rightarrow> nat \<Rightarrow> 'g \<Rightarrow> 'g"
  g_removeValidator :: "string \<Rightarrow> nat \<Rightarrow> 'g \<Rightarrow> 'g"
  g_subscribe :: "string \<Rightarrow> nat \<Rightarrow> 'g \<Rightarrow> 'g"
  g_unsubscribe :: "string \<Rightarrow> nat \<Rightarrow> 'g \<Rightarrow> 'g"
  g_unsubscribeAll :: "string \<Rightarrow> 'g \<Rightarrow> 'g"

definition gossip_sound :: "'g gossip_ops \<Rightarrow> bool" where
  "gossip_sound ops \<longleftrightarrow>
     (\<forall>g t u v. g_validators ops (g_addValidator ops t v g) u
        = (if u = t then insert v (g_validators ops g u) else g_validators ops g u))
   \<and> (\<forall>g t u v. g_validators ops (g_removeValidator ops t v g) u
        = (if u = t then g_validators ops g u - {v} else g_validators ops g u))
   \<and> (\<forall>g t v. g_validators ops (g_subscribe ops t v g) = g_validators ops g)
   \<and> (\<forall>g t v. g_validators ops (g_unsubscribe ops t v g) = g_validators ops g)
   \<and> (\<forall>g t v u. g_subscribed ops (g_addValidator ops t v g) u = g_subscribed ops g u)
   \<and> (\<forall>g t v u. g_subscribed ops (g_removeValidator ops t v g) u = g_subscribed ops g u)
   \<and> (\<forall>g t v u. g_subscribed ops (g_subscribe ops t v g) u \<longleftrightarrow> u = t \<or> g_subscribed ops g u)
   \<and> (\<forall>g t v u. u \<noteq> t \<longrightarrow> g_subscribed ops (g_unsubscribe ops t v g) u = g_subscribed ops g u)"

section \<open>The relay\<close>

record 'g WakuRelay =
  topicValidator :: "(string \<times> nat) list"
  topicHandlers :: "(string \<times> nat) list"
  topicHealthDirty :: "string list"
  next_closure :: nat
  gossip :: 'g

text \<open>
  The validator given to the layer below and the one kept are created apart. The wrapped handler is
  created on every call.
\<close>

definition add_topic_validator :: "'g gossip_ops \<Rightarrow> string \<Rightarrow> 'g WakuRelay \<Rightarrow> 'g WakuRelay" where
  "add_topic_validator ops topic w =
     (if map_of (topicValidator w) topic = None then
        (let newValidator = next_closure w;
             other = next_closure w + 1
         in w\<lparr>gossip := g_addValidator ops topic other (gossip w),
              topicValidator := AList.update topic newValidator (topicValidator w),
              next_closure := next_closure w + 2\<rparr>)
      else w)"

definition relay_subscribe :: "'g gossip_ops \<Rightarrow> string \<Rightarrow> 'g WakuRelay \<Rightarrow> 'g WakuRelay" where
  "relay_subscribe ops topic w =
     (let topicHandler = next_closure w;
          w = add_topic_validator ops topic (w\<lparr>next_closure := next_closure w + 1\<rparr>)
      in w\<lparr>gossip := g_subscribe ops topic topicHandler (gossip w),
           topicHandlers := AList.update topic topicHandler (topicHandlers w),
           topicHealthDirty := List.insert topic (topicHealthDirty w)\<rparr>)"

definition relay_unsubscribe :: "'g gossip_ops \<Rightarrow> string \<Rightarrow> 'g WakuRelay \<Rightarrow> 'g WakuRelay" where
  "relay_unsubscribe ops topic w =
     (case map_of (topicValidator w) topic of
        None \<Rightarrow> w
      | Some validator \<Rightarrow>
          (case map_of (topicHandlers w) topic of
             None \<Rightarrow> w
           | Some handler \<Rightarrow>
               w\<lparr>gossip := g_removeValidator ops topic validator (g_unsubscribe ops topic handler (gossip w)),
                 topicValidator := AList.delete topic (topicValidator w),
                 topicHandlers := AList.delete topic (topicHandlers w),
                 topicHealthDirty := removeAll topic (topicHealthDirty w)\<rparr>))"

definition relay_unsubscribeAll :: "'g gossip_ops \<Rightarrow> string \<Rightarrow> 'g WakuRelay \<Rightarrow> 'g WakuRelay" where
  "relay_unsubscribeAll ops topic w =
     w\<lparr>gossip := g_unsubscribeAll ops topic (gossip w),
       topicValidator := AList.delete topic (topicValidator w),
       topicHandlers := AList.delete topic (topicHandlers w),
       topicHealthDirty := removeAll topic (topicHealthDirty w)\<rparr>"

section \<open>Validation\<close>

type_synonym 's waku_validator = "string \<Rightarrow> WakuMessage \<Rightarrow> 's \<Rightarrow> relay_decision \<times> 's"

fun run_ordered :: "'s waku_validator list \<Rightarrow> string \<Rightarrow> WakuMessage \<Rightarrow> 's \<Rightarrow> relay_decision \<times> 's" where
  "run_ordered [] topic msg s = (Accept, s)"
| "run_ordered (v # vs) topic msg s =
     (case v topic msg s of (d, s) \<Rightarrow> if d \<noteq> Accept then (d, s) else run_ordered vs topic msg s)"

definition ordered_validator ::
  "('m \<Rightarrow> WakuMessage option) \<Rightarrow> 's waku_validator list \<Rightarrow> string \<Rightarrow> 'm \<Rightarrow> 's \<Rightarrow> relay_decision \<times> 's" where
  "ordered_validator decode wakuValidators topic data s =
     (case decode data of
        None \<Rightarrow> (Reject, s)
      | Some msg \<Rightarrow> run_ordered wakuValidators topic msg s)"

text \<open>
  How the layer below combines the validators it keeps for a topic is a parameter. None of them waits,
  so they run one after the other; one alone decides, and a message is accepted only if each accepts
  it. Those of a topic differ by identity only.
\<close>

definition validation_sound ::
  "(('s \<Rightarrow> relay_decision \<times> 's) list \<Rightarrow> 's \<Rightarrow> relay_decision \<times> 's) \<Rightarrow> bool" where
  "validation_sound run_vs \<longleftrightarrow> (\<forall>v s. run_vs [v] s = v s)
     \<and> (\<forall>v vs s. fst (run_vs (v # vs) s) = Accept \<longrightarrow>
          fst (v s) = Accept \<and> (vs \<noteq> [] \<longrightarrow> fst (run_vs vs (snd (v s))) = Accept))"

definition gossip_validate ::
  "'g gossip_ops \<Rightarrow> (('s \<Rightarrow> relay_decision \<times> 's) list \<Rightarrow> 's \<Rightarrow> relay_decision \<times> 's)
     \<Rightarrow> ('m \<Rightarrow> WakuMessage option) \<Rightarrow> 's waku_validator list \<Rightarrow> 'g WakuRelay \<Rightarrow> string \<Rightarrow> 'm
     \<Rightarrow> 's \<Rightarrow> relay_decision \<times> 's" where
  "gossip_validate ops run_vs decode wakuValidators w topic data s =
     run_vs (replicate (card (g_validators ops (gossip w) topic))
       (ordered_validator decode wakuValidators topic data)) s"

text \<open>The validator that mounting the RLN relay adds, at a time at which the clock stands still.\<close>

definition mounted_validator :: "rln_env \<Rightarrow> rat \<Rightarrow> WakuRLNRelay waku_validator" where
  "mounted_validator env now topic msg r =
     (case rln_validator env now now msg r of (d, spam, r) \<Rightarrow> (d, r))"

section \<open>Subscriptions of the node\<close>

datatype SubscriptionEvent = ContentSub string | ContentUnsub string | PubsubSub string | PubsubUnsub string

text \<open>
  Handlers of the application are named by numbers, too; \<open>topicSubscriptionQueue\<close> is what the node
  announces to those that listen. A node may have no relay, and no client of the filter service.
\<close>

record 'g relay_api =
  wakuRelay :: "'g WakuRelay option"
  filterClientMounted :: bool
  legacyAppHandlers :: "(string \<times> nat) list"
  topicSubscriptionQueue :: "SubscriptionEvent list"

text \<open>
  The code ends with the call that subscribes and sets no result, so its answer is the default of its
  type whatever happened. The handler it subscribes gives each message to the filter service, the
  archive, the storage of the synchronisation and the application.
\<close>

definition registerRelayHandler ::
  "'g gossip_ops \<Rightarrow> string \<Rightarrow> nat option \<Rightarrow> 'g WakuRelay \<Rightarrow> 'g relay_api \<Rightarrow> bool \<times> 'g relay_api" where
  "registerRelayHandler ops topic appHandler w node =
     (let alreadySubscribed = g_subscribed ops (gossip w) topic;
          node = (case appHandler of
                    None \<Rightarrow> node
                  | Some h \<Rightarrow>
                      if \<not> alreadySubscribed \<or> map_of (legacyAppHandlers node) topic = None
                      then node\<lparr>legacyAppHandlers := AList.update topic h (legacyAppHandlers node)\<rparr> else node)
      in if alreadySubscribed then (False, node)
         else (False, node\<lparr>wakuRelay := Some (relay_subscribe ops topic w)\<rparr>))"

definition getTopicOfSubscriptionEvent ::
  "(string \<Rightarrow> byte list) \<Rightarrow> Sharding option \<Rightarrow> SubscriptionEvent \<Rightarrow> defect + (string + string \<times> string option)" where
  "getTopicOfSubscriptionEvent sha256 autoSharding event =
     (let content = (\<lambda>topic. case autoSharding of
            None \<Rightarrow> Inr (Inl ''Static sharding is used, relay subscriptions must specify a pubsub topic'')
          | Some sharding \<Rightarrow>
              rbind (getShard_of sha256 sharding topic) (\<lambda>r. Inr
                (case r of
                   Inl e \<Rightarrow> Inl (''Autosharding error: '' @ e)
                 | Inr shard \<Rightarrow> Inr (show_shard shard, Some topic))))
      in case event of
           ContentSub topic \<Rightarrow> content topic
         | ContentUnsub topic \<Rightarrow> content topic
         | PubsubSub topic \<Rightarrow> Inr (Inr (topic, None))
         | PubsubUnsub topic \<Rightarrow> Inr (Inr (topic, None)))"

definition api_subscribe ::
  "'g gossip_ops \<Rightarrow> (string \<Rightarrow> byte list) \<Rightarrow> Sharding option \<Rightarrow> SubscriptionEvent \<Rightarrow> nat option \<Rightarrow> 'g relay_api
     \<Rightarrow> defect + ((string + unit) \<times> 'g relay_api)" where
  "api_subscribe ops sha256 autoSharding subscription handler node =
     (case wakuRelay node of
        None \<Rightarrow> Inr (Inl ''Invalid API call to `subscribe`. WakuRelay not mounted.'', node)
      | Some w \<Rightarrow>
          rbind (getTopicOfSubscriptionEvent sha256 autoSharding subscription) (\<lambda>r. Inr
            (case r of
               Inl e \<Rightarrow> (Inl (''Failed to decode subscription event: '' @ e), node)
             | Inr (shard, content) \<Rightarrow>
                 (case registerRelayHandler ops shard handler w node of
                    (True, node) \<Rightarrow>
                      (Inr (), node\<lparr>topicSubscriptionQueue := topicSubscriptionQueue node @ [PubsubSub shard]\<rparr>)
                  | (False, node) \<Rightarrow> (Inr (), node)))))"

definition api_unsubscribe ::
  "'g gossip_ops \<Rightarrow> (string \<Rightarrow> byte list) \<Rightarrow> Sharding option \<Rightarrow> SubscriptionEvent \<Rightarrow> 'g relay_api
     \<Rightarrow> defect + ((string + unit) \<times> 'g relay_api)" where
  "api_unsubscribe ops sha256 autoSharding subscription node =
     (case wakuRelay node of
        None \<Rightarrow> Inr (Inl ''Invalid API call to `unsubscribe`. WakuRelay not mounted.'', node)
      | Some w \<Rightarrow>
          rbind (getTopicOfSubscriptionEvent sha256 autoSharding subscription) (\<lambda>r. Inr
            (case r of
               Inl e \<Rightarrow> (Inl (''Failed to decode unsubscribe event: '' @ e), node)
             | Inr (shard, content) \<Rightarrow>
                 (let node = node\<lparr>legacyAppHandlers := AList.delete shard (legacyAppHandlers node)\<rparr>
                  in if g_subscribed ops (gossip w) shard then
                       (Inr (), node\<lparr>wakuRelay := Some (relay_unsubscribe ops shard w),
                          topicSubscriptionQueue := topicSubscriptionQueue node @ [PubsubUnsub shard]\<rparr>)
                     else (Inr (), node)))))"

definition api_isSubscribed ::
  "'g gossip_ops \<Rightarrow> (string \<Rightarrow> byte list) \<Rightarrow> Sharding option \<Rightarrow> SubscriptionEvent \<Rightarrow> 'g relay_api
     \<Rightarrow> defect + (string + bool)" where
  "api_isSubscribed ops sha256 autoSharding subscription node =
     (case wakuRelay node of
        None \<Rightarrow> Inr (Inl ''Invalid API call to `isSubscribed`. WakuRelay not mounted.'')
      | Some w \<Rightarrow>
          rbind (getTopicOfSubscriptionEvent sha256 autoSharding subscription) (\<lambda>r. Inr
            (case r of
               Inl e \<Rightarrow> Inl (''Failed to decode subscription event: '' @ e)
             | Inr (shard, content) \<Rightarrow> Inr (g_subscribed ops (gossip w) shard))))"

section \<open>Subscriptions at a filter service\<close>

text \<open>
  \<open>client\<close> is what the service peer answers for a pubsub topic and content topics, \<open>peerParsed\<close> whether
  the peer given can be parsed, and \<open>pairs\<close> the order in which the table of shards is walked. Without a
  pubsub topic every shard is announced, also where its subscription failed. With neither a topic nor
  automatic sharding no result is set, which leaves the default error.
\<close>

type_synonym filter_client = "string \<Rightarrow> string list \<Rightarrow> FilterSubscribeResult"

definition announce :: "SubscriptionEvent list \<Rightarrow> 'g relay_api \<Rightarrow> 'g relay_api" where
  "announce events node = node\<lparr>topicSubscriptionQueue := topicSubscriptionQueue node @ events\<rparr>"

fun last_error :: "FilterSubscribeResult list \<Rightarrow> FilterSubscribeResult \<Rightarrow> FilterSubscribeResult" where
  "last_error [] res = res"
| "last_error (r # rs) res = last_error rs (case r of Inl e \<Rightarrow> Inl e | Inr u \<Rightarrow> res)"

definition shard_results :: "filter_client \<Rightarrow> shard_table \<Rightarrow> RelayShard list \<Rightarrow> FilterSubscribeResult list" where
  "shard_results client topicMap shards =
     map (\<lambda>sh. client (show_shard sh)
       (map show_ns (case topicMap sh of None \<Rightarrow> [] | Some topics \<Rightarrow> topics))) shards"

definition filterSubscribe ::
  "(shard_table \<Rightarrow> RelayShard list) \<Rightarrow> (string \<Rightarrow> byte list) \<Rightarrow> Sharding option \<Rightarrow> filter_client \<Rightarrow> bool
     \<Rightarrow> string option \<Rightarrow> string list \<Rightarrow> 'g relay_api \<Rightarrow> defect + (FilterSubscribeResult \<times> 'g relay_api)" where
  "filterSubscribe pairs sha256 autoSharding client peerParsed shard contents node =
     (if \<not> filterClientMounted node then Inr (Inl (SERVICE_UNAVAILABLE, ''service unavailable''), node)
      else if \<not> peerParsed then Inr (Inl (SERVICE_UNAVAILABLE, ''No peers available''), node)
      else
        (case shard of
           Some topic \<Rightarrow>
             (case client topic contents of
                Inr u \<Rightarrow> Inr (Inr u, announce [PubsubSub topic] node)
              | Inl e \<Rightarrow> Inr (Inl e, node))
         | None \<Rightarrow>
             (case autoSharding of
                None \<Rightarrow> Inr (Inl (UNKNOWN, ''''), node)
              | Some sharding \<Rightarrow>
                  rbind (getShardsFromContentTopics sha256 sharding contents) (\<lambda>r. Inr
                    (case r of
                       Inl e \<Rightarrow> (Inl (BAD_RESPONSE, ''can'' @ [CHR 0x27] @ ''t get shard''), node)
                     | Inr topicMap \<Rightarrow>
                         (last_error (shard_results client topicMap (pairs topicMap)) (Inr ()),
                          announce (map (\<lambda>sh. PubsubSub (show_shard sh)) (pairs topicMap)) node))))))"

text \<open>Unsubscribing does not look whether there is a client.\<close>

definition filterUnsubscribe ::
  "(shard_table \<Rightarrow> RelayShard list) \<Rightarrow> (string \<Rightarrow> byte list) \<Rightarrow> Sharding option \<Rightarrow> filter_client \<Rightarrow> bool
     \<Rightarrow> string option \<Rightarrow> string list \<Rightarrow> 'g relay_api \<Rightarrow> defect + (FilterSubscribeResult \<times> 'g relay_api)" where
  "filterUnsubscribe pairs sha256 autoSharding client peerParsed shard contents node =
     (if \<not> peerParsed then Inr (Inl (SERVICE_UNAVAILABLE, ''No peers available''), node)
      else
        (case shard of
           Some topic \<Rightarrow>
             (if \<not> filterClientMounted node then Inl NilAccessDefect
              else
                (case client topic contents of
                   Inr u \<Rightarrow> Inr (Inr u, announce [PubsubUnsub topic] node)
                 | Inl e \<Rightarrow> Inr (Inl e, node)))
         | None \<Rightarrow>
             (case autoSharding of
                None \<Rightarrow> Inr (Inl (UNKNOWN, ''''), node)
              | Some sharding \<Rightarrow>
                  rbind (getShardsFromContentTopics sha256 sharding contents) (\<lambda>r.
                    (case r of
                       Inl e \<Rightarrow> Inr (Inl (BAD_RESPONSE, ''can'' @ [CHR 0x27] @ ''t get shard''), node)
                     | Inr topicMap \<Rightarrow>
                         (if \<not> filterClientMounted node \<and> pairs topicMap \<noteq> [] then Inl NilAccessDefect
                          else Inr (last_error (shard_results client topicMap (pairs topicMap)) (Inr ()),
                            announce (map (\<lambda>sh. PubsubUnsub (show_shard sh)) (pairs topicMap)) node)))))))"

section \<open>Announcing subscriptions\<close>

text \<open>
  What the listener of the discovery does with a batch of events: it removes from the record of the
  node, then adds to it, and goes on after an error with the record as it is.
\<close>

definition updated_or_old :: "(string + 'r) \<Rightarrow> 'r \<Rightarrow> 'r" where
  "updated_or_old res r = (case res of Inl e \<Rightarrow> r | Inr r' \<Rightarrow> r')"

definition subscriptionsListener ::
  "(string \<Rightarrow> string + 16 word) \<Rightarrow> (16 word set \<Rightarrow> 16 word list) \<Rightarrow> 'r record_ops \<Rightarrow> SubscriptionEvent list
     \<Rightarrow> 'r \<Rightarrow> defect + 'r" where
  "subscriptionsListener base10 seq_of rops events r =
     (let subs = List.map_filter (\<lambda>e. case e of PubsubSub t \<Rightarrow> Some t | _ \<Rightarrow> None) events;
          unsubs = List.map_filter (\<lambda>e. case e of PubsubUnsub t \<Rightarrow> Some t | _ \<Rightarrow> None) events
      in if subs = [] \<and> unsubs = [] then Inr r
         else
           rbind (updateENRShards base10 seq_of rops unsubs False r) (\<lambda>unsubRes.
             let r = updated_or_old unsubRes r in
             rbind (updateENRShards base10 seq_of rops subs True r) (\<lambda>subRes.
               Inr (updated_or_old subRes r))))"

text \<open>The calls of an application, for the relay and a filter service, and the rounds of the listener, in any order.\<close>

datatype relay_action =
    Call_subscribe SubscriptionEvent "nat option"
  | Call_unsubscribe SubscriptionEvent
  | Call_filterSubscribe filter_client bool "string option" "string list"
  | Call_filterUnsubscribe filter_client bool "string option" "string list"
  | Listener_round

fun relay_actions ::
  "'g gossip_ops \<Rightarrow> (shard_table \<Rightarrow> RelayShard list) \<Rightarrow> (string \<Rightarrow> byte list) \<Rightarrow> Sharding option
     \<Rightarrow> (string \<Rightarrow> string + 16 word) \<Rightarrow> (16 word set \<Rightarrow> 16 word list) \<Rightarrow> 'r record_ops \<Rightarrow> relay_action list
     \<Rightarrow> 'g relay_api \<times> 'r \<Rightarrow> defect + 'g relay_api \<times> 'r" where
  "relay_actions ops pairs sha256 sharding base10 seq_of rops [] s = Inr s"
| "relay_actions ops pairs sha256 sharding base10 seq_of rops (Call_subscribe event h # acts) (node, r) =
     rbind (api_subscribe ops sha256 sharding event h node) (\<lambda>(res, node).
       relay_actions ops pairs sha256 sharding base10 seq_of rops acts (node, r))"
| "relay_actions ops pairs sha256 sharding base10 seq_of rops (Call_unsubscribe event # acts) (node, r) =
     rbind (api_unsubscribe ops sha256 sharding event node) (\<lambda>(res, node).
       relay_actions ops pairs sha256 sharding base10 seq_of rops acts (node, r))"
| "relay_actions ops pairs sha256 sharding base10 seq_of rops (Call_filterSubscribe cl ok t cs # acts) (node, r) =
     rbind (filterSubscribe pairs sha256 sharding cl ok t cs node) (\<lambda>(res, node).
       relay_actions ops pairs sha256 sharding base10 seq_of rops acts (node, r))"
| "relay_actions ops pairs sha256 sharding base10 seq_of rops (Call_filterUnsubscribe cl ok t cs # acts) (node, r) =
     rbind (filterUnsubscribe pairs sha256 sharding cl ok t cs node) (\<lambda>(res, node).
       relay_actions ops pairs sha256 sharding base10 seq_of rops acts (node, r))"
| "relay_actions ops pairs sha256 sharding base10 seq_of rops (Listener_round # acts) (node, r) =
     rbind (subscriptionsListener base10 seq_of rops (topicSubscriptionQueue node) r) (\<lambda>r.
       relay_actions ops pairs sha256 sharding base10 seq_of rops acts (node\<lparr>topicSubscriptionQueue := []\<rparr>, r))"

section \<open>Subscriptions of the relay are never announced\<close>

definition advertised :: "'r record_ops \<Rightarrow> 'r \<Rightarrow> (16 word \<times> 16 word) set" where
  "advertised rops r = (case relaySharding rops r of
     None \<Rightarrow> {} | Some rs \<Rightarrow> Pair (rs_clusterId rs) ` set (rs_shardIds rs))"

text \<open>The shards that topics name, and the topics that filter subscriptions announce.\<close>

definition shards_named :: "(string \<Rightarrow> string + 16 word) \<Rightarrow> string set \<Rightarrow> (16 word \<times> 16 word) set" where
  "shards_named base10 topics =
     {(clusterId sh, shardId sh) | sh. \<exists>t \<in> topics. parseStaticSharding base10 t = Inr (Inr sh)}"

fun filter_topics ::
  "(shard_table \<Rightarrow> RelayShard list) \<Rightarrow> (string \<Rightarrow> byte list) \<Rightarrow> Sharding option \<Rightarrow> relay_action \<Rightarrow> string set"
where
  "filter_topics pairs sha256 sharding (Call_filterSubscribe client ok (Some t) cs) =
     (if client t cs = Inr () then {t} else {})"
| "filter_topics pairs sha256 sharding (Call_filterSubscribe client ok None cs) =
     (case sharding of
        None \<Rightarrow> {}
      | Some s \<Rightarrow>
          (case getShardsFromContentTopics sha256 s cs of
             Inr (Inr topicMap) \<Rightarrow> show_shard ` set (pairs topicMap)
           | _ \<Rightarrow> {}))"
| "filter_topics pairs sha256 sharding act = {}"

definition queued_subs :: "'g relay_api \<Rightarrow> string set" where
  "queued_subs node = {t. PubsubSub t \<in> set (topicSubscriptionQueue node)}"

lemma api_subscribe_queue:
  "api_subscribe ops sha256 sharding e h node = Inr (res, node')
    \<Longrightarrow> topicSubscriptionQueue node' = topicSubscriptionQueue node"
  by (auto simp: api_subscribe_def registerRelayHandler_def Let_def rbind_def split: option.splits sum.splits if_splits)

lemma api_unsubscribe_queue:
  "api_unsubscribe ops sha256 sharding e node = Inr (res, node')
    \<Longrightarrow> queued_subs node' = queued_subs node"
  by (auto simp: api_unsubscribe_def queued_subs_def Let_def rbind_def split: option.splits sum.splits if_splits)

lemma filterSubscribe_queue:
  assumes "filterSubscribe pairs sha256 sharding client ok topic contents node = Inr (res, node')"
  shows "queued_subs node' \<subseteq> queued_subs node
    \<union> filter_topics pairs sha256 sharding (Call_filterSubscribe client ok topic contents)"
  using assms
  by (cases topic; cases sharding; cases "getShardsFromContentTopics sha256 (the sharding) contents";
      cases "projr (getShardsFromContentTopics sha256 (the sharding) contents)")
    (auto simp: filterSubscribe_def queued_subs_def announce_def split: sum.split_asm if_split_asm)

lemma filterUnsubscribe_queue:
  assumes "filterUnsubscribe pairs sha256 sharding client ok topic contents node = Inr (res, node')"
  shows "queued_subs node' = queued_subs node"
  using assms
  by (cases topic; cases sharding; cases "getShardsFromContentTopics sha256 (the sharding) contents";
      cases "projr (getShardsFromContentTopics sha256 (the sharding) contents)")
    (auto simp: filterUnsubscribe_def queued_subs_def announce_def split: sum.split_asm if_split_asm)

lemma parse_topics_results:
  "parse_topics base10 ts = Inr rs \<Longrightarrow> r \<in> set rs \<Longrightarrow> \<exists>t \<in> set ts. parseStaticSharding base10 t = Inr r"
  by (induction ts arbitrary: rs) (fastforce simp: rbind_eq_Inr)+

lemma first_error_results: "first_error rs = Inr xs \<Longrightarrow> x \<in> set xs \<Longrightarrow> Inr x \<in> set rs"
  by (induction rs arbitrary: xs) (auto simp: rbind_eq_Inr)

lemma new_shards_named:
  assumes "topicsToRelayShards base10 topics = Inr (Inr (Some new))"
  shows "Pair (rs_clusterId new) ` set (rs_shardIds new) \<subseteq> shards_named base10 (set topics) \<and> shards_ok new"
proof -
  obtain parsed where parsed: "parse_topics base10 topics = Inr parsed"
    using assms by (auto simp: topicsToRelayShards_def rbind_eq_Inr split: if_split_asm)
  then obtain shards where p: "first_error parsed = Inr shards"
    "\<not> list_ex (\<lambda>s. clusterId s \<noteq> clusterId (shards ! 0)) shards"
    "init_shards (clusterId (shards ! 0)) (map shardId shards) = Inr new"
    using assms
    by (cases "first_error parsed") (auto simp: topicsToRelayShards_def rbind_eq_Inr split: if_split_asm)
  note p = parsed p
  note ok = init_shards_ok [OF p(4)]
  have "(rs_clusterId new, i) \<in> shards_named base10 (set topics)" if "i \<in> set (rs_shardIds new)" for i
  proof -
    from that ok(3) obtain sh where sh: "sh \<in> set shards" "i = shardId sh" by auto
    then obtain t where "t \<in> set topics" "parseStaticSharding base10 t = Inr (Inr sh)"
      using parse_topics_results [OF p(1) first_error_results [OF p(2)]] by blast
    moreover have "clusterId sh = rs_clusterId new" using p(3) sh(1) ok(2) by (simp add: list_ex_iff)
    ultimately show ?thesis using sh(2) unfolding shards_named_def by force
  qed
  with ok(1) show ?thesis by auto
qed

lemma written_shards:
  assumes "record_sound rops" "shards_ok rs" "sharding_field rs = Inr (Inr f)" "rec_update rops r f = Inr r'"
  shows "advertised rops r' \<subseteq> Pair (rs_clusterId rs) ` set (rs_shardIds rs) \<union> advertised rops r"
proof -
  obtain rs' where rs': "rs_clusterId rs' = rs_clusterId rs" "set (rs_shardIds rs') = set (rs_shardIds rs)"
    "if length (rs_shardIds rs) < ShardingIndicesListMaxLength
       then fst f = ShardingIndicesListEnrField \<and> fromIndicesList (snd f) = Inr rs'
       else fst f = ShardingBitVectorEnrField \<and> fromBitVector (snd f) = Inr rs'"
    using sharding_field_read [OF assms(2)] assms(3) by auto
  have get: "rec_tryGet rops r' (fst f) = Some (snd f)"
    "\<And>k. k \<noteq> fst f \<Longrightarrow> rec_tryGet rops r' k = rec_tryGet rops r k"
    using assms(1,4) unfolding record_sound_def by blast+
  have "relaySharding rops r' = Some rs' \<or> relaySharding rops r' = relaySharding rops r"
  proof (cases "length (rs_shardIds rs) < ShardingIndicesListMaxLength")
    case True
    then show ?thesis
      using rs'(3) get(1) by (simp add: relaySharding_def relayShardingIndicesList_def sum_option_def)
  next
    case False
    then have "relayShardingIndicesList rops r' = relayShardingIndicesList rops r"
      "relayShardingBitVector rops r' = Some rs'"
      using rs'(3) get by (simp_all add: relayShardingIndicesList_def relayShardingBitVector_def sum_option_def)
    then show ?thesis by (auto simp: relaySharding_def split: option.splits)
  qed
  then show ?thesis using rs'(1,2) by (auto simp: advertised_def)
qed

lemma result_shards_bound:
  assumes "result_shards seq_of add (relaySharding rops r) new = Inr (Some rs)" "shards_ok new"
    and seq: "\<And>A. finite A \<Longrightarrow> set (seq_of A) = A"
  shows "Pair (rs_clusterId rs) ` set (rs_shardIds rs)
      \<subseteq> advertised rops r \<union> (if add then Pair (rs_clusterId new) ` set (rs_shardIds new) else {})
    \<and> shards_ok rs"
proof (cases "relaySharding rops r")
  case None
  with assms(1,2) show ?thesis by (auto simp: result_shards_def split: if_splits)
next
  case (Some cur)
  note init = init_shards_ok
  show ?thesis
  proof (cases add)
    case True
    with assms(1) Some have i: "rs_clusterId cur = rs_clusterId new"
      "init_shards (rs_clusterId cur) (rs_shardIds cur @ rs_shardIds new) = Inr rs"
      by (auto simp: result_shards_def split: if_splits sum.splits)
    from init_shards_ok [OF i(2)] i(1) True Some show ?thesis by (auto simp: advertised_def)
  next
    case False
    with assms(1) Some have i:
      "init_shards (rs_clusterId cur) (seq_of (set (rs_shardIds cur) - set (rs_shardIds new))) = Inr rs"
      by (auto simp: result_shards_def Let_def split: if_splits sum.splits)
    have "set (seq_of (set (rs_shardIds cur) - set (rs_shardIds new))) \<subseteq> set (rs_shardIds cur)"
      using seq [of "set (rs_shardIds cur) - set (rs_shardIds new)"] by auto
    with init_shards_ok [OF i] False Some show ?thesis by (auto simp: advertised_def)
  qed
qed

lemma update_advertises:
  assumes "record_sound rops" and seq: "\<And>A. finite A \<Longrightarrow> set (seq_of A) = A"
    and "updateENRShards base10 seq_of rops topics add r = Inr (Inr r')"
  shows "advertised rops r' \<subseteq> advertised rops r \<union> (if add then shards_named base10 (set topics) else {})"
proof (cases "r' = r")
  case False
  obtain new rs f where new: "topicsToRelayShards base10 topics = Inr (Inr (Some new))"
    "result_shards seq_of add (relaySharding rops r) new = Inr (Some rs)"
    and f: "sharding_field rs = Inr (Inr f)" "rec_update rops r f = Inr r'"
    using assms(3) False
    by (auto simp: updateENRShards_def rbind_def split: sum.splits option.splits)
  note n = new_shards_named [OF new(1)]
  note b = result_shards_bound [OF new(2) _ seq]
  have "shards_ok rs" using b n by blast
  note w = written_shards [OF assms(1) this f]
  show ?thesis
  proof (cases add)
    case True
    then have "advertised rops r' \<subseteq> advertised rops r \<union> Pair (rs_clusterId new) ` set (rs_shardIds new)"
      using w b n by auto
    with n True show ?thesis by auto
  next
    case False
    then show ?thesis using w b n by auto
  qed
qed simp

lemma updated_advertises:
  assumes "record_sound rops" "\<And>A. finite A \<Longrightarrow> set (seq_of A) = A"
    and "updateENRShards base10 seq_of rops topics add r = Inr res"
  shows "advertised rops (updated_or_old res r)
    \<subseteq> advertised rops r \<union> (if add then shards_named base10 (set topics) else {})"
proof (cases res)
  case (Inr r2)
  from update_advertises [OF assms(1,2) assms(3) [unfolded Inr]] show ?thesis
    by (simp add: Inr updated_or_old_def)
qed (simp add: updated_or_old_def)

lemma listener_advertises:
  assumes "record_sound rops" "\<And>A. finite A \<Longrightarrow> set (seq_of A) = A"
    and "subscriptionsListener base10 seq_of rops events r = Inr r'"
    and "{t. PubsubSub t \<in> set events} \<subseteq> T"
  shows "advertised rops r' \<subseteq> advertised rops r \<union> shards_named base10 T"
proof -
  define subs where "subs = List.map_filter (\<lambda>e. case e of PubsubSub t \<Rightarrow> Some t | _ \<Rightarrow> None) events"
  define unsubs where "unsubs = List.map_filter (\<lambda>e. case e of PubsubUnsub t \<Rightarrow> Some t | _ \<Rightarrow> None) events"
  have "set subs \<subseteq> T"
    using assms(4) by (auto simp: subs_def List.map_filter_def split: SubscriptionEvent.splits)
  then have T: "shards_named base10 (set subs) \<subseteq> shards_named base10 T" by (auto simp: shards_named_def)
  have "r' = r \<or> (\<exists>res1 res2. updateENRShards base10 seq_of rops unsubs False r = Inr res1
      \<and> updateENRShards base10 seq_of rops subs True (updated_or_old res1 r) = Inr res2
      \<and> r' = updated_or_old res2 (updated_or_old res1 r))"
    using assms(3) by (auto simp: subscriptionsListener_def Let_def rbind_eq_Inr subs_def unsubs_def split: if_splits)
  then show ?thesis
  proof (elim disjE exE conjE)
    fix res1 res2
    assume u: "updateENRShards base10 seq_of rops unsubs False r = Inr res1"
      "updateENRShards base10 seq_of rops subs True (updated_or_old res1 r) = Inr res2"
      "r' = updated_or_old res2 (updated_or_old res1 r)"
    from updated_advertises [OF assms(1,2) u(1)] updated_advertises [OF assms(1,2) u(2)] u(3) T
    show ?thesis by auto
  qed simp
qed

lemma actions_advertise:
  assumes "record_sound rops" "\<And>A. finite A \<Longrightarrow> set (seq_of A) = A"
  shows "queued_subs node \<subseteq> T \<Longrightarrow> (\<Union>act \<in> set acts. filter_topics pairs sha256 sharding act) \<subseteq> T
    \<Longrightarrow> relay_actions ops pairs sha256 sharding base10 seq_of rops acts (node, r) = Inr (node', r')
    \<Longrightarrow> advertised rops r' \<subseteq> advertised rops r \<union> shards_named base10 T"
proof (induction acts arbitrary: node r)
  case (Cons act acts)
  have T: "filter_topics pairs sha256 sharding act \<subseteq> T" "(\<Union>act \<in> set acts. filter_topics pairs sha256 sharding act) \<subseteq> T"
    using Cons.prems(2) by auto
  have go: "advertised rops r' \<subseteq> advertised rops r \<union> shards_named base10 T"
    if "queued_subs node2 \<subseteq> T"
      "relay_actions ops pairs sha256 sharding base10 seq_of rops acts (node2, r) = Inr (node', r')" for node2
    using Cons.IH [OF that(1) T(2) that(2)] .
  show ?case
  proof (cases act)
    case (Call_subscribe e h)
    with Cons.prems(3) obtain res node2 where
      n: "api_subscribe ops sha256 sharding e h node = Inr (res, node2)"
        "relay_actions ops pairs sha256 sharding base10 seq_of rops acts (node2, r) = Inr (node', r')"
      by (auto simp: rbind_eq_Inr)
    have "queued_subs node2 \<subseteq> T"
      using api_subscribe_queue [OF n(1)] Cons.prems(1) by (simp add: queued_subs_def)
    from go [OF this n(2)] show ?thesis .
  next
    case (Call_unsubscribe e)
    with Cons.prems(3) show ?thesis
      using go Cons.prems(1) by (auto simp: rbind_eq_Inr dest!: api_unsubscribe_queue)
  next
    case (Call_filterSubscribe client ok topic contents)
    with Cons.prems(3) obtain res node2 where
      n: "filterSubscribe pairs sha256 sharding client ok topic contents node = Inr (res, node2)"
        "relay_actions ops pairs sha256 sharding base10 seq_of rops acts (node2, r) = Inr (node', r')"
      by (auto simp: rbind_eq_Inr)
    have "queued_subs node2 \<subseteq> T"
      using filterSubscribe_queue [OF n(1)] Cons.prems(1) T(1) Call_filterSubscribe by blast
    from go [OF this n(2)] show ?thesis .
  next
    case (Call_filterUnsubscribe client ok topic contents)
    with Cons.prems(3) show ?thesis
      using go Cons.prems(1) by (auto simp: rbind_eq_Inr dest!: filterUnsubscribe_queue)
  next
    case Listener_round
    with Cons.prems(3) obtain r2 where
      n: "subscriptionsListener base10 seq_of rops (topicSubscriptionQueue node) r = Inr r2"
      "relay_actions ops pairs sha256 sharding base10 seq_of rops acts (node\<lparr>topicSubscriptionQueue := []\<rparr>, r2)
        = Inr (node', r')"
      by (auto simp: rbind_eq_Inr)
    have "advertised rops r2 \<subseteq> advertised rops r \<union> shards_named base10 T"
      using listener_advertises [OF assms n(1)] Cons.prems(1) by (simp add: queued_subs_def)
    with Cons.IH [OF _ T(2) n(2)] show ?thesis by (auto simp: queued_subs_def)
  qed
qed simp

text \<open>
  C20. The node never announces a subscription of its relay, as the procedure that subscribes does not
  set its answer. A subscription succeeds and the topic is then subscribed, but whatever the application
  calls of the relay and of a filter service, and however often the discovery listens, each shard in the
  record of the node was there at the start or is that of a subscription at a filter service.
\<close>

theorem subscriptions_never_advertised:
  assumes "gossip_sound ops" "record_sound rops" "\<And>A. finite A \<Longrightarrow> set (seq_of A) = A"
    and "topicSubscriptionQueue node = []"
    and "relay_actions ops pairs sha256 sharding base10 seq_of rops acts (node, r) = Inr (node', r')"
  shows "advertised rops r' \<subseteq> advertised rops r
      \<union> shards_named base10 (\<Union>act \<in> set acts. filter_topics pairs sha256 sharding act)
    \<and> (wakuRelay node' \<noteq> None \<longrightarrow> (\<exists>node2 w.
        api_subscribe ops sha256 sharding (PubsubSub topic) h node' = Inr (Inr (), node2)
        \<and> wakuRelay node2 = Some w \<and> g_subscribed ops (gossip w) topic
        \<and> topicSubscriptionQueue node2 = topicSubscriptionQueue node'))"
proof (intro conjI impI)
  show "advertised rops r' \<subseteq> advertised rops r
      \<union> shards_named base10 (\<Union>act \<in> set acts. filter_topics pairs sha256 sharding act)"
    using actions_advertise [OF assms(2,3) _ subset_refl assms(5)] assms(4) by (simp add: queued_subs_def)
next
  assume "wakuRelay node' \<noteq> None"
  then obtain w where w: "wakuRelay node' = Some w" by auto
  have sub: "g_subscribed ops (gossip (relay_subscribe ops topic w)) topic"
    using assms(1) by (simp add: relay_subscribe_def gossip_sound_def Let_def)
  show "\<exists>node2 w. api_subscribe ops sha256 sharding (PubsubSub topic) h node' = Inr (Inr (), node2)
      \<and> wakuRelay node2 = Some w \<and> g_subscribed ops (gossip w) topic
      \<and> topicSubscriptionQueue node2 = topicSubscriptionQueue node'"
    by (auto simp: api_subscribe_def getTopicOfSubscriptionEvent_def registerRelayHandler_def w sub Let_def
        split: option.splits)
qed

section \<open>Validators are never removed\<close>

text \<open>Subscribing and unsubscribing a topic, so many times.\<close>

fun cycles :: "'g gossip_ops \<Rightarrow> string \<Rightarrow> nat \<Rightarrow> 'g WakuRelay \<Rightarrow> 'g WakuRelay" where
  "cycles ops topic 0 w = w"
| "cycles ops topic (Suc n) w = cycles ops topic n (relay_unsubscribe ops topic (relay_subscribe ops topic w))"

text \<open>The procedures known below were created before; the topic is not subscribed, with so many validators.\<close>

definition unsubscribed_with :: "'g gossip_ops \<Rightarrow> string \<Rightarrow> nat \<Rightarrow> 'g WakuRelay \<Rightarrow> bool" where
  "unsubscribed_with ops topic k w \<longleftrightarrow>
     g_validators ops (gossip w) topic \<subseteq> {..<next_closure w} \<and> card (g_validators ops (gossip w) topic) = k
     \<and> map_of (topicValidator w) topic = None \<and> map_of (topicHandlers w) topic = None"

lemma subscribe_validators:
  assumes "gossip_sound ops" "unsubscribed_with ops topic k w"
  shows "g_validators ops (gossip (relay_subscribe ops topic w)) topic
      = insert (next_closure w + 2) (g_validators ops (gossip w) topic)"
    and "card (g_validators ops (gossip (relay_subscribe ops topic w)) topic) = Suc k"
    and "map_of (topicValidator (relay_subscribe ops topic w)) topic = Some (next_closure w + 1)"
    and "map_of (topicHandlers (relay_subscribe ops topic w)) topic = Some (next_closure w)"
    and "next_closure (relay_subscribe ops topic w) = next_closure w + 3"
proof -
  show v: "g_validators ops (gossip (relay_subscribe ops topic w)) topic
      = insert (next_closure w + 2) (g_validators ops (gossip w) topic)"
    using assms by (simp add: relay_subscribe_def add_topic_validator_def gossip_sound_def unsubscribed_with_def Let_def)
  have sub: "g_validators ops (gossip w) topic \<subseteq> {..<next_closure w}"
    using assms(2) by (simp add: unsubscribed_with_def)
  then have "finite (g_validators ops (gossip w) topic)" "next_closure w + 2 \<notin> g_validators ops (gossip w) topic"
    by (auto intro: finite_subset)
  with assms(2) show "card (g_validators ops (gossip (relay_subscribe ops topic w)) topic) = Suc k"
    unfolding v by (simp add: unsubscribed_with_def)
qed (use assms in \<open>simp_all add: relay_subscribe_def add_topic_validator_def unsubscribed_with_def update_conv' Let_def\<close>)

lemma unsubscribe_keeps:
  assumes "gossip_sound ops" "unsubscribed_with ops topic k w"
  shows "unsubscribed_with ops topic (Suc k) (relay_unsubscribe ops topic (relay_subscribe ops topic w))"
proof -
  note s = subscribe_validators [OF assms]
  let ?w = "relay_subscribe ops topic w"
  have "relay_unsubscribe ops topic ?w
    = ?w\<lparr>gossip := g_removeValidator ops topic (next_closure w + 1) (g_unsubscribe ops topic (next_closure w) (gossip ?w)),
        topicValidator := AList.delete topic (topicValidator ?w),
        topicHandlers := AList.delete topic (topicHandlers ?w),
        topicHealthDirty := removeAll topic (topicHealthDirty ?w)\<rparr>"
    by (simp add: relay_unsubscribe_def s(3,4))
  moreover have "next_closure w + 1 \<notin> g_validators ops (gossip ?w) topic"
    using assms(2) by (auto simp: s(1) unsubscribed_with_def)
  ultimately show ?thesis
    using assms s(1,2,5) by (auto simp: unsubscribed_with_def gossip_sound_def delete_conv')
qed

lemma cycles_validators:
  "gossip_sound ops \<Longrightarrow> unsubscribed_with ops topic k w \<Longrightarrow> unsubscribed_with ops topic (k + n) (cycles ops topic n w)"
proof (induction n arbitrary: k w)
  case (Suc n)
  from Suc.IH [OF Suc.prems(1) unsubscribe_keeps [OF Suc.prems]] show ?case by simp
qed simp

lemma repeated_message_rejected:
  assumes "rln_validator env now now m r = (Accept, spam, r')"
    and "\<And>p. proof_init env (msg_proof m) = Some p \<Longrightarrow>
      \<not> stale_epoch (fromEpoch (calcEpoch r now)) (rlnMaxEpochGap r) (epoch p)"
  shows "fst (rln_validator env now now m r') = Reject"
proof -
  obtain p md where ok: "message_ok env now r m p md" "\<not> hasDuplicate (clearNullifierLog now r) (epoch p) md"
    using rln_validator_reject [of env now r m now] assms(1) by (metis Pair_inject relay_decision.distinct(1))
  have r': "r' = updateLog (epoch p) md (clearNullifierLog now r)"
    using rln_validator_accept [OF ok] assms(1) by simp
  have "calcEpoch r' now = calcEpoch r now" "rlnMaxEpochGap r' = rlnMaxEpochGap r"
    by (simp_all add: r' calcEpoch_def)
  moreover have "proof_init env (msg_proof m) = Some p" using ok(1) by (simp add: message_ok_def)
  ultimately have fresh: "\<not> stale_epoch (fromEpoch (calcEpoch r' now)) (rlnMaxEpochGap r') (epoch p)"
    using assms(2) by simp
  have "hasDuplicate r' (epoch p) md"
    by (auto simp: r' hasDuplicate_def updateLog_def split: option.splits)
  with fresh have "hasDuplicate (clearNullifierLog now r') (epoch p) md"
    by (simp add: hasDuplicate_def clearNullifierLog_def calcEpoch_def)
  moreover have "p' = p \<and> md' = md" if "message_ok env now r' m p' md'" for p' md'
    using message_ok_unique [OF ok(1), of now p' md'] that by (simp add: r' message_ok_config)
  ultimately have "\<nexists>p md. message_ok env now r' m p md \<and> \<not> hasDuplicate (clearNullifierLog now r') (epoch p) md"
    by blast
  from rln_validator_reject [OF this] show ?thesis by auto
qed

lemma run_twice:
  assumes "validation_sound run_vs" "\<And>s'. v s = (Accept, s') \<Longrightarrow> fst (v s') \<noteq> Accept"
  shows "fst (run_vs (replicate (Suc (Suc n)) v) s) = Reject"
proof (rule ccontr)
  assume "fst (run_vs (replicate (Suc (Suc n)) v) s) \<noteq> Reject"
  then have "fst (run_vs (v # v # replicate n v) s) = Accept"
    by (cases "fst (run_vs (v # v # replicate n v) s)") simp_all
  then have "fst (v s) = Accept" "fst (run_vs (v # replicate n v) (snd (v s))) = Accept"
    using assms(1) unfolding validation_sound_def by blast+
  then have "fst (v s) = Accept" "fst (v (snd (v s))) = Accept"
    using assms(1) unfolding validation_sound_def by blast+
  with assms(2) [of "snd (v s)"] show False by (metis prod.collapse)
qed

text \<open>
  C21. Unsubscribing a topic does not remove the validator that subscribing gave to the gossip layer,
  as another instance is kept for the removal: after each cycle one more is run. With the RLN relay
  mounted the first of two runs puts the message into the log and the second takes it for spam. So on
  a topic that was unsubscribed once, a subscription relays no message of the current epoch any more.
\<close>

theorem resubscribed_topic_relays_nothing:
  fixes ops :: "'g gossip_ops" and w :: "'g WakuRelay" and topic :: string and n :: nat
  defines "w' \<equiv> relay_subscribe ops topic (cycles ops topic n w)"
  assumes "gossip_sound ops" "unsubscribed_with ops topic 0 w"
    and "\<And>p. proof_init env (msg_proof m) = Some p \<Longrightarrow>
      \<not> stale_epoch (fromEpoch (calcEpoch r now)) (rlnMaxEpochGap r) (epoch p)"
    and "decode data = Some m" "validation_sound run_vs"
  shows "card (g_validators ops (gossip w') topic) = Suc n
    \<and> fst (gossip_validate ops run_vs decode [mounted_validator env now] w' topic data r)
      = (if n = 0 then fst (rln_validator env now now m r) else Reject)"
proof -
  have c: "card (g_validators ops (gossip w') topic) = Suc n"
    using subscribe_validators(2) [OF assms(2) cycles_validators [OF assms(2,3), of n]] by (simp add: w'_def)
  define v where "v = ordered_validator decode [mounted_validator env now] topic data"
  have v: "v s = (fst (rln_validator env now now m s), snd (snd (rln_validator env now now m s)))" for s
    by (auto simp: v_def ordered_validator_def mounted_validator_def assms(5) split: prod.splits)
  show ?thesis
  proof (cases n)
    case 0
    with 0 c assms(6) show ?thesis by (simp add: gossip_validate_def validation_sound_def v flip: v_def)
  next
    case (Suc k)
    have "fst (v s') \<noteq> Accept" if "v r = (Accept, s')" for s'
    proof -
      have "rln_validator env now now m r = (Accept, fst (snd (rln_validator env now now m r)), s')"
        using that unfolding v by (metis Pair_inject prod.collapse)
      from repeated_message_rejected [OF this assms(4)] show ?thesis by (simp add: v)
    qed
    from run_twice [OF assms(6), where v = v and s = r and n = k, OF this] c Suc show ?thesis
      by (simp add: gossip_validate_def flip: v_def)
  qed
qed

text \<open>A layer below for examples: the validators and the handlers of each topic.\<close>

definition map_gossip :: "((string \<Rightarrow> nat set) \<times> (string \<Rightarrow> nat set)) gossip_ops" where
  "map_gossip = \<lparr>
     g_subscribed = (\<lambda>g t. snd g t \<noteq> {}),
     g_validators = (\<lambda>g t. fst g t),
     g_addValidator = (\<lambda>t v g. ((fst g)(t := insert v (fst g t)), snd g)),
     g_removeValidator = (\<lambda>t v g. ((fst g)(t := fst g t - {v}), snd g)),
     g_subscribe = (\<lambda>t h g. (fst g, (snd g)(t := insert h (snd g t)))),
     g_unsubscribe = (\<lambda>t h g. (fst g, (snd g)(t := snd g t - {h}))),
     g_unsubscribeAll = (\<lambda>t g. (fst g, (snd g)(t := {})))\<rparr>"

lemma map_gossip_sound: "gossip_sound map_gossip"
  by (auto simp: gossip_sound_def map_gossip_def)

definition relay_new :: "'g \<Rightarrow> 'g WakuRelay" where
  "relay_new g = \<lparr>topicValidator = [], topicHandlers = [], topicHealthDirty = [], next_closure = 0, gossip = g\<rparr>"

lemma relay_new_unsubscribed: "unsubscribed_with map_gossip topic 0 (relay_new (\<lambda>_. {}, \<lambda>_. {}))"
  by (simp add: unsubscribed_with_def relay_new_def map_gossip_def)

fun run_all :: "('s \<Rightarrow> relay_decision \<times> 's) list \<Rightarrow> 's \<Rightarrow> relay_decision \<times> 's" where
  "run_all [] s = (Accept, s)"
| "run_all (v # vs) s =
     (case v s of (d, s) \<Rightarrow> (case run_all vs s of (d', s) \<Rightarrow> (if d = Accept then d' else d, s)))"

lemma run_all_Accept:
  "fst (run_all (v # vs) s) = Accept \<Longrightarrow> fst (v s) = Accept \<and> fst (run_all vs (snd (v s))) = Accept"
  by (cases "v s"; cases "run_all vs (snd (v s))") (simp split: if_splits)

lemma run_all_sound: "validation_sound run_all"
proof -
  have "run_all [v] s = v s" for v and s :: 's by (cases "v s") simp
  then show ?thesis unfolding validation_sound_def using run_all_Accept by metis
qed

text \<open>A message that a first subscription relays, and one after it does not.\<close>

theorem resubscribed_topic_relays_nothing_witness:
  "fst (gossip_validate map_gossip run_all Some [mounted_validator (sample_env 1) 605]
      (relay_subscribe map_gossip ''t'' (relay_new (\<lambda>_. {}, \<lambda>_. {}))) ''t'' (message_at 604) (mount_rln 600 [[]])) = Accept
  \<and> fst (gossip_validate map_gossip run_all Some [mounted_validator (sample_env 1) 605]
      (relay_subscribe map_gossip ''t'' (cycles map_gossip ''t'' 1 (relay_new (\<lambda>_. {}, \<lambda>_. {}))))
      ''t'' (message_at 604) (mount_rln 600 [[]])) = Reject"
proof -
  let ?r = "mount_rln 600 [[]]"
  have e: "epoch_number 600 605 = 1" "epoch_number 600 604 = 1"
    using epoch_number_eq [of 600 600 1 605] epoch_number_eq [of 600 600 1 604] by simp_all
  have fresh: "\<not> stale_epoch (fromEpoch (calcEpoch ?r 605)) (rlnMaxEpochGap ?r) (epoch p)"
    if "proof_init (sample_env 1) (msg_proof (message_at 604)) = Some p" for p
    using that by (auto simp: sample_env_def calcEpoch_def e stale_epoch_def mount_gap word_le_nat_alt)
  have t: "message_time (message_at 604) = 604" by (simp add: message_time_def message_at_def)
  have "message_ok (sample_env 1) 605 ?r (message_at 604)
      (the (proof_init (sample_env 1) [])) (the (extractMetadata (sample_env 1) (the (proof_init (sample_env 1) []))))"
    by (simp add: message_ok_def t e calcEpoch_def)
      (simp add: sample_env_def validateRoot_def u64_of_float_def extractMetadata_def)
  then obtain p md where ok: "message_ok (sample_env 1) 605 ?r (message_at 604) p md" by blast
  have "\<not> hasDuplicate (clearNullifierLog 605 ?r) (epoch p) md"
    by (simp add: hasDuplicate_def clearNullifierLog_def)
  from rln_validator_accept [OF ok this]
  have "fst (rln_validator (sample_env 1) 605 605 (message_at 604) ?r) = Accept" by simp
  then show ?thesis
    using resubscribed_topic_relays_nothing [where topic = "''t''" and n = 0 and decode = Some and data = "message_at 604",
        OF map_gossip_sound relay_new_unsubscribed fresh refl run_all_sound]
      resubscribed_topic_relays_nothing [where topic = "''t''" and n = 1 and decode = Some and data = "message_at 604",
        OF map_gossip_sound relay_new_unsubscribed fresh refl run_all_sound]
    by simp
qed
theorem subscriptions_never_advertised_witness:
  "\<exists>node w node2 w2.
     relay_actions map_gossip (\<lambda>_. []) (\<lambda>_. []) None example_base10 (\<lambda>A. sorted_list_of_set A) map_ops
       [Call_subscribe (PubsubSub ''/waku/2/rs/0/100'') None, Listener_round]
       (\<lparr>wakuRelay = Some (relay_new (\<lambda>_. {}, \<lambda>_. {})), filterClientMounted = False, legacyAppHandlers = [], topicSubscriptionQueue = []\<rparr>, Map.empty)
     = Inr (node, Map.empty)
   \<and> wakuRelay node = Some w \<and> g_subscribed map_gossip (gossip w) ''/waku/2/rs/0/100''
   \<and> api_subscribe map_gossip (\<lambda>_. []) None (PubsubSub ''/waku/2/rs/0/0'') None node = Inr (Inr (), node2)
   \<and> wakuRelay node2 = Some w2 \<and> g_subscribed map_gossip (gossip w2) ''/waku/2/rs/0/0''
   \<and> topicSubscriptionQueue node2 = []"
proof -
  define node where "node = (\<lparr>wakuRelay = Some (relay_subscribe map_gossip ''/waku/2/rs/0/100'' (relay_new (\<lambda>_. {}, \<lambda>_. {}))),
    filterClientMounted = False, legacyAppHandlers = [], topicSubscriptionQueue = []\<rparr> :: ((string \<Rightarrow> nat set) \<times> (string \<Rightarrow> nat set)) relay_api)"
  have run: "relay_actions map_gossip (\<lambda>_. []) (\<lambda>_. []) None example_base10 (\<lambda>A. sorted_list_of_set A) map_ops
       [Call_subscribe (PubsubSub ''/waku/2/rs/0/100'') None, Listener_round]
       (\<lparr>wakuRelay = Some (relay_new (\<lambda>_. {}, \<lambda>_. {})), filterClientMounted = False, legacyAppHandlers = [], topicSubscriptionQueue = []\<rparr>, Map.empty)
     = Inr (node, Map.empty)"
    by (simp add: node_def api_subscribe_def getTopicOfSubscriptionEvent_def registerRelayHandler_def relay_new_def
        map_gossip_def subscriptionsListener_def List.map_filter_simps Let_def)
  have seq: "set (sorted_list_of_set A) = A" if "finite A" for A :: "16 word set" using that by simp
  have "wakuRelay node \<noteq> None" by (simp add: node_def)
  then obtain node2 w2 where n: "api_subscribe map_gossip (\<lambda>_. []) None (PubsubSub ''/waku/2/rs/0/0'') None node = Inr (Inr (), node2)"
    "wakuRelay node2 = Some w2" "g_subscribed map_gossip (gossip w2) ''/waku/2/rs/0/0''"
    "topicSubscriptionQueue node2 = topicSubscriptionQueue node"
    using subscriptions_never_advertised [OF map_gossip_sound map_ops_sound seq _ run,
      of "''/waku/2/rs/0/0''" None, THEN conjunct2] by auto
  have "\<exists>w. wakuRelay node = Some w \<and> g_subscribed map_gossip (gossip w) ''/waku/2/rs/0/100''"
    by (simp add: node_def relay_subscribe_def map_gossip_def Let_def)
  moreover have "topicSubscriptionQueue node2 = []" using n(4) by (simp add: node_def)
  ultimately show ?thesis using run n(1-3) by blast
qed
end
