(* ===== verification/Spec2Isabelle.thy ===== *)
theory Spec2Isabelle
  imports CJson CWakuExample CppWakuExample CQtExample CLmapiExample CIosApi CJni CNapi SyncSession
    SyncArchive StoreService EnrSharding FilterSubscriptions RlnPublish MessageCache RecvService PeerManager
    RelayTopics
begin

text \<open>
  A verification library for logos-messaging-nim, a node for the Waku family of protocols written in
  Nim, and for the C and C++ programs that use it through its exported library.

  The program. A node relays messages between peers and offers services to them: it stores messages
  and synchronises its store with other nodes, pushes messages to subscribed peers (the filter
  service), limits the rate of requests, and validates the proofs of the rate limiting nullifier
  (RLN). A message belongs to a content topic, which determines a shard, whose name is the pubsub
  topic it is relayed on. \<open>library/\<close> and \<open>liblogosdelivery/\<close> export the node as C functions
  that answer through callbacks; the programs under \<open>examples/\<close> and \<open>liblogosdelivery/examples/\<close>
  call them.

  How the theories correspond to the code. Each theory models the files its first paragraph names,
  with a definition per procedure, in the order of the code where the logic allows.

  \<^item> \<open>Prelude\<close>: bytes and sizes, the faults of C and the defects of Nim as values, the sequencing
    of fallible steps, \<open>std/algorithm\<close> searches, the string functions of C and of \<open>std/strutils\<close>.
  \<^item> \<open>SyncTypes\<close>, \<open>SyncStorage\<close>, \<open>SyncPayload\<close>: \<open>waku/waku_store_sync/common.nim\<close> and \<open>storage/\<close>.
    The state is the record \<open>SeqStorage\<close>, sorted identifiers with topic indices. The lemmas give the
    invariant, the effect of insertion, batches and pruning, the fingerprint as a fold of exclusive
    or, and what the answer to a payload covers. The locale \<open>sync_storage\<close> is the contract of
    \<open>storage/storage.nim\<close>, interpreted on the sequence storage.
  \<^item> \<open>SyncCodec\<close>: \<open>codec.nim\<close>, delta encoding of payloads; round trip, results of the decoder on any
    input, inputs that make it fail.
  \<^item> \<open>SyncSession\<close>: \<open>reconciliation.nim\<close> and \<open>transfer.nim\<close>; a session composes codec, storage and
    transfer, with the wire as a list of messages. The exchange of item sets between two nodes.
  \<^item> \<open>MessageHash\<close>: \<open>waku/waku_core/message/\<close>; the message, its hash as a digest of the bytes that are
    fed to it, which messages share these bytes, and hashes read from bytes and text.
  \<^item> \<open>Archive\<close>: \<open>waku/waku_archive/archive.nim\<close> and \<open>common.nim\<close>: what is stored on ingress, and a query
    with its page and cursor. The locale \<open>archive_driver\<close> is what the archive relies on of a database;
    from it follows that the pages of a query, chained by their cursors, are the messages it selects.
  \<^item> \<open>QueueDriver\<close>: \<open>waku/waku_archive/driver/queue_driver/\<close>: the database in memory, over an ordered set;
    it interprets \<open>archive_driver\<close>, keeps the newest messages, and has queries with broken paging.
  \<^item> \<open>StoreService\<close>: \<open>waku/waku_store/\<close>: the service behind its limiter, the client, and the client that
    resumes after a time offline; pages from the database of one node to the client of another.
  \<^item> \<open>SyncArchive\<close>: the parts of \<open>reconciliation.nim\<close> and \<open>transfer.nim\<close> that read the archive.
  \<^item> \<open>ExpiringStore\<close>: the contract between a store with expiry and its clients, as locales, with the
    lemmas for clients that store handles of objects.
  \<^item> \<open>TimedMap\<close>: \<open>waku/common/rate_limit/timed_map.nim\<close>; a doubly linked list in a store of entries.
    It refines the list ordered by age while the clock does not go back, and obeys the contract.
  \<^item> \<open>RateSetting\<close>: \<open>setting.nim\<close>; parsing of settings against what the command line asks for.
  \<^item> \<open>RequestLimiter\<close>: \<open>request_limiter.nim\<close>, \<open>single_token_limiter.nim\<close>, \<open>per_peer_limiter.nim\<close>. The
    limiter refines buckets per peer followed by a bucket of the service, through the contract.
  \<^item> \<open>FilterSubscriptions\<close>: \<open>waku/waku_filter_v2/subscriptions.nim\<close> and the requests and maintenance of
    \<open>protocol.nim\<close> behind the limiter per peer; the invariant of every run, and whom messages reach.
  \<^item> \<open>RlnNonce\<close>, \<open>RlnRelay\<close>: \<open>waku/waku_rln_relay/nonce_manager.nim\<close> and \<open>rln_relay.nim\<close>; how many
    nonces are handed out, how many messages of a nullifier are relayed, and where both limits fail.
  \<^item> \<open>RlnPublish\<close>: the proof attached to a message by \<open>rln_relay.nim\<close> and
    \<open>waku/waku_lightpush/callbacks.nim\<close>, the layout of proofs, and which messages a validator relays.
  \<^item> \<open>Topics\<close>: \<open>waku/waku_core/topics/\<close>; rendering, parsing and sharding.
  \<^item> \<open>MessageCache\<close>: \<open>waku/rest_api/message_cache.nim\<close>; messages with the positions listed under
    their topics. It refines messages with the topics that keep them, and where its reads fail.
  \<^item> \<open>Lightpush\<close>: \<open>waku/waku_lightpush/\<close> and publishing in \<open>waku/waku_relay/protocol.nim\<close>; what a client
    gets for a message is what publishing it over the relay of the service gave.
  \<^item> \<open>SendService\<close>: \<open>waku/node/delivery_service/send_service/\<close>; tasks pass through a chain of processors
    and the loop of the service. The events of a request in every run, and tasks that are lost or kept.
  \<^item> \<open>RecvService\<close>: \<open>subscription_manager.nim\<close> and \<open>recv_service/\<close> beside it; content topics of interest
    under their shards, messages reported as received exactly once, and the check for missed ones.
  \<^item> \<open>PeerManager\<close>: \<open>waku/node/peer_manager/\<close>; the books of the peer store, dialling with backoff,
    relay connections, and pruning as the first peers of one list.
  \<^item> \<open>RelayTopics\<close>: subscriptions and topic validators of \<open>waku/waku_relay/protocol.nim\<close>, the calls of
    \<open>waku/node/kernel_api/relay.nim\<close> and the listener of the discovery, over a gossip layer with named
    laws, with what \<open>kernel_api/filter.nim\<close> announces; validators that outlive their subscription, and
    subscriptions of the relay that are not announced.
  \<^item> \<open>EnrSharding\<close>: \<open>waku/waku_enr/\<close> and \<open>updateENRShards\<close> of \<open>waku/discovery/waku_discv5.nim\<close>: the
    shards of a node as a list of indices or a bit vector in its record, their update, capabilities.
  \<^item> \<open>CApi\<close>, \<open>CIosApi\<close>: the headers \<open>library/libwaku.h\<close>, \<open>liblogosdelivery.h\<close> and the one of the iOS
    example, as the parameter types of each function, and the stubs for iOS.
  \<^item> \<open>CBase64\<close>, \<open>CppBase64\<close>, \<open>CJson\<close>: the encoders and the JSON helpers, with buffers as lists, writes
    checked, and \<open>size_t\<close> arithmetic modulo \<open>2 ^ 64\<close>.
  \<^item> \<open>CWakuExample\<close>, \<open>CppWakuExample\<close>, \<open>CQtExample\<close>, \<open>CLmapiExample\<close>, \<open>CNapi\<close>, \<open>CJni\<close>: the clients. The
    waiting of the main thread for a callback is a step relation with its reachable states; calls of
    the library are logged with their arguments and compared with the headers; what a client owns,
    frees and leaks is counted.

  How the program is modelled. Errors are values: \<open>Inl\<close> for a fault of C, a defect of Nim or an error
  result. State is passed explicitly. \<open>uint64\<close>, \<open>uint\<close> and byte values are words; \<open>int\<close> and \<open>int64\<close> are
  integers with the overflow check of Nim where it matters. Each reading of the clock is an argument.
  Floating point times are rational numbers, so results within rounding of a boundary may differ.
  Durations are nanoseconds without overflow. Tables are maps or association lists with distinct
  keys, and where the code iterates over a hash table the order is that of the list.

  Loops. Loops over data are structural recursion or have a measure. The two loops that follow links
  of the timed map, \<open>expire\<close> and \<open>place\<close>, are partial functions to \<open>option\<close>, and are shown to return
  on every structure that represents a list. So are the walks of the queue driver over its ordered
  set, shown to return on every such set, the filling of the sync storage from the archive, shown to
  return on an archive within its contract, and the resumption of the store, which returns against an
  honest peer and is shown not to return against one that always sends a cursor. The rounds of a reconciliation session are driven by
  the list of messages received.

  What is a parameter: cryptography (SHA-256, proofs and hashes of RLN, with the tree of members), the
  token bucket and the durations of chronos, the gossip protocol, regular expressions, the decimal decoder, JSON and
  protobuf libraries, the ordered set of the queue driver, node records,
  the deletion of a peer from the books of the network library, random orders, the JVM, Node.js and Qt,
  and the answers of the library to its clients and of the network to the node. Where a
  theorem needs something of a parameter it is a hypothesis, with an instance in its witness.

  What is not modelled: network and database input and output, the SQL drivers of the archive, the
  loops of discovery, the keystore, Noise, the REST server, the factory with its command line, the
  contract of RLN and the tree of its members, the legacy protocols, the tools, and examples in other
  languages. Metrics and logging have no effect on what is stated and are left out.

  What is left for a development over their libraries: the wire format of requests over protobuf, the
  SQL of the drivers with the retention policies, and the client of the filter service, whose state
  is a list of handlers.
\<close>

end
